(* ===== verification/Prelude.thy ===== *)
theory Prelude
  imports Main "HOL-Library.Word"
begin

text \<open>
  What every component of the development shares: bytes and byte buffers
  (Uint8Array values as lists of 8-bit words), results that may be an
  error (Inl the error the code throws or returns, Inr the
  value), big-endian integers, the loops that stop at the first error, and the
  generic facts about lists that the component proofs use as simplification
  rules.
\<close>

type_synonym byte = "8 word"
type_synonym bytes = "byte list"

named_theorems codec_simps "unfolding rules for the byte codecs"
named_theorems step_simps "unfolding rules for the operations on state"

section \<open>Results that may be an error\<close>

fun ebind :: "'e + 'a \<Rightarrow> ('a \<Rightarrow> 'e + 'b) \<Rightarrow> 'e + 'b" where
  "ebind (Inl e) f = Inl e"
| "ebind (Inr x) f = f x"

lemma ebind_Inr_iff [simp]: "ebind m f = Inr y \<longleftrightarrow> (\<exists>x. m = Inr x \<and> f x = Inr y)"
  by (cases m) auto

lemma ebind_Inl_iff: "ebind m f = Inl e \<longleftrightarrow> m = Inl e \<or> (\<exists>x. m = Inr x \<and> f x = Inl e)"
  by (cases m) auto

fun mapE :: "('a \<Rightarrow> 'e + 'b) \<Rightarrow> 'a list \<Rightarrow> 'e + 'b list" where
  "mapE f [] = Inr []"
| "mapE f (x # xs) = ebind (f x) (\<lambda>y. ebind (mapE f xs) (\<lambda>ys. Inr (y # ys)))"

lemma mapE_length: "mapE f xs = Inr ys \<Longrightarrow> length ys = length xs"
  by (induction xs arbitrary: ys) auto

lemma mapE_Inr_iff: "mapE f xs = Inr ys \<longleftrightarrow> list_all2 (\<lambda>x y. f x = Inr y) xs ys"
  by (induction xs arbitrary: ys) (auto simp: list_all2_Cons1)

lemma mapE_member: "mapE f xs = Inr ys \<Longrightarrow> y \<in> set ys \<Longrightarrow> \<exists>x \<in> set xs. f x = Inr y"
  by (induction xs arbitrary: ys) auto

lemma mapE_covers: "mapE f xs = Inr ys \<Longrightarrow> x \<in> set xs \<Longrightarrow> \<exists>y \<in> set ys. f x = Inr y"
  by (induction xs arbitrary: ys) auto

fun foldE :: "('a \<Rightarrow> 's \<Rightarrow> 'e + 's) \<Rightarrow> 'a list \<Rightarrow> 's \<Rightarrow> 'e + 's" where
  "foldE f [] s = Inr s"
| "foldE f (x # xs) s = ebind (f x s) (foldE f xs)"

lemma foldE_append: "foldE f (xs @ ys) s = ebind (foldE f xs s) (foldE f ys)"
proof (induction xs arbitrary: s)
  case Nil
  then show ?case by simp
next
  case (Cons x xs)
  then show ?case by (cases "f x s") simp_all
qed

lemma foldE_invariant:
  assumes "foldE f xs s = Inr s'"
    and "I s"
    and "\<And>x s s'. x \<in> set xs \<Longrightarrow> I s \<Longrightarrow> f x s = Inr s' \<Longrightarrow> I s'"
  shows "I s'"
  using assms
proof (induction xs arbitrary: s)
  case Nil
  then show ?case by simp
next
  case (Cons x xs)
  then obtain t where "f x s = Inr t" "foldE f xs t = Inr s'"
    by auto
  with Cons show ?case
    by (meson list.set_intros(1) list.set_intros(2))
qed

definition is_ok :: "'e + 'a \<Rightarrow> bool" where
  "is_ok r = (case r of Inl _ \<Rightarrow> False | Inr _ \<Rightarrow> True)"

lemma is_ok_simps [simp]: "is_ok (Inr x)" "\<not> is_ok (Inl e)"
  by (simp_all add: is_ok_def)

lemma is_ok_iff: "is_ok r \<longleftrightarrow> (\<exists>x. r = Inr x)"
  by (cases r) auto

section \<open>Byte buffers\<close>

definition zeros :: "nat \<Rightarrow> bytes" where
  "zeros n = replicate n 0"

lemma length_zeros [simp]: "length (zeros n) = n"
  by (simp add: zeros_def)

lemma zeros_0 [simp]: "zeros 0 = []"
  by (simp add: zeros_def)

lemma take_zeros [simp]: "take k (zeros n) = zeros (min k n)"
  by (simp add: zeros_def)

lemma drop_zeros [simp]: "drop k (zeros n) = zeros (n - k)"
  by (simp add: zeros_def)

lemma nth_zeros [simp]: "i < n \<Longrightarrow> zeros n ! i = 0"
  by (simp add: zeros_def)

lemma zeros_append: "zeros m @ zeros n = zeros (m + n)"
  by (simp add: zeros_def replicate_add)

lemma zeros_append_left: "zeros m @ zeros n @ xs = zeros (m + n) @ xs"
  by (simp add: zeros_append flip: append_assoc)

lemma set_zeros: "set (zeros n) \<subseteq> {0}"
  by (auto simp: zeros_def)

text \<open>
  buf.set(src, off) of a JavaScript typed array; every use in the code
  is in bounds, and the lemmas below show where the bytes land.
\<close>

definition uset :: "bytes \<Rightarrow> bytes \<Rightarrow> nat \<Rightarrow> bytes" where
  "uset buf src off = take off buf @ src @ drop (off + length src) buf"

lemma length_uset [simp]: "off + length src \<le> length buf \<Longrightarrow> length (uset buf src off) = length buf"
  by (simp add: uset_def)

lemma uset_fill [codec_simps]:
  "length xs = off \<Longrightarrow> uset (xs @ zeros n) src off = xs @ src @ zeros (n - length src)"
  by (simp add: uset_def)

lemma uset_fill_0 [codec_simps]: "uset (zeros n) src 0 = src @ zeros (n - length src)"
  by (simp add: uset_def)

lemma uset_Nil [simp]: "uset buf [] off = buf"
  by (simp add: uset_def)

definition slice :: "bytes \<Rightarrow> nat \<Rightarrow> nat \<Rightarrow> bytes" where
  "slice xs a b = take (b - a) (drop a xs)"

lemma length_slice [simp]: "length (slice xs a b) = min (b - a) (length xs - a)"
  by (simp add: slice_def min.commute)

lemma slice_append_skip [codec_simps]:
  "length xs = n \<Longrightarrow> n \<le> a \<Longrightarrow> slice (xs @ ys) a b = slice ys (a - n) (b - n)"
  by (simp add: slice_def)

lemma slice_append_take [codec_simps]:
  "b \<le> length xs \<Longrightarrow> slice (xs @ ys) a b = slice xs a b"
  by (simp add: slice_def)

lemma slice_all [codec_simps]: "length xs = n \<Longrightarrow> slice xs 0 n = xs"
  by (simp add: slice_def)

lemma slice_full_tail: "length xs \<le> b \<Longrightarrow> slice xs a b = drop a xs"
  by (simp add: slice_def)

lemma slice_nth: "i < b - a \<Longrightarrow> i + a < length xs \<Longrightarrow> slice xs a b ! i = xs ! (i + a)"
  by (simp add: slice_def add.commute)

lemma slice_join: "a \<le> b \<Longrightarrow> b \<le> c \<Longrightarrow> slice xs a b @ slice xs b c = slice xs a c"
proof -
  assume "a \<le> b" "b \<le> c"
  then obtain i j where "b = a + i" "c = a + i + j"
    by (metis le_Suc_ex)
  then show ?thesis
    by (simp add: slice_def take_add drop_drop add.commute)
qed

text \<open>Fixed-size records laid out one after the other.\<close>

lemma length_concat_chunks:
  "(\<And>i. i < n \<Longrightarrow> length (f i) = k) \<Longrightarrow> length (concat (map f [0..<n])) = k * n"
  by (induction n) simp_all

lemma slice_concat_chunk:
  assumes "\<And>i. i < n \<Longrightarrow> length (f i) = k" "i < n"
  shows "slice (concat (map f [0..<n])) (k * i) (k * i + k) = f i"
  using assms
proof (induction n)
  case (Suc n)
  have len: "length (concat (map f [0..<n])) = k * n"
    using Suc.prems(1) by (intro length_concat_chunks) simp
  show ?case
  proof (cases "i = n")
    case True
    then show ?thesis
      using len Suc.prems(1) [of n] by (simp add: slice_def)
  next
    case False
    then have "i < n" "k * i + k \<le> k * n"
      using Suc.prems(2) mult_le_mono2 [of "Suc i" n k] by (simp_all add: add.commute)
    with Suc.IH Suc.prems(1) len show ?thesis
      by (simp add: slice_append_take)
  qed
qed simp

lemma foldl_fill_chunks:
  assumes "\<And>i. i < n \<Longrightarrow> length (f i) = k" "k * n \<le> m" "length pre = p"
  shows "foldl (\<lambda>b i. uset b (f i) (p + i * k)) (pre @ zeros m) [0..<n]
    = pre @ concat (map f [0..<n]) @ zeros (m - k * n)"
  using assms
proof (induction n)
  case (Suc n)
  have len: "length (concat (map f [0..<n])) = k * n"
    using Suc.prems(1) by (intro length_concat_chunks) simp
  have "uset ((pre @ concat (map f [0..<n])) @ zeros (m - k * n)) (f n) (p + n * k)
      = (pre @ concat (map f [0..<n])) @ f n @ zeros (m - k * n - k)"
    using len Suc.prems by (subst uset_fill) (simp_all add: mult.commute)
  with Suc show ?case
    by (simp add: algebra_simps)
qed simp

section \<open>Big-endian integers\<close>

fun be :: "nat \<Rightarrow> nat \<Rightarrow> bytes" where
  "be 0 x = []"
| "be (Suc n) x = be n (x div 256) @ [of_nat (x mod 256)]"

definition unbe :: "bytes \<Rightarrow> nat" where
  "unbe bs = foldl (\<lambda>a b. a * 256 + unat b) 0 bs"

lemma length_be [simp]: "length (be n x) = n"
  by (induction n arbitrary: x) auto

lemma unbe_Nil [simp]: "unbe [] = 0"
  by (simp add: unbe_def)

lemma unbe_snoc [simp]: "unbe (bs @ [b]) = unbe bs * 256 + unat b"
  by (simp add: unbe_def)

lemma unat_byte_mod [simp]: "unat (of_nat (x mod 256) :: byte) = x mod 256"
  by (simp add: unat_of_nat)

lemma unat_byte_of_nat: "x < 256 \<Longrightarrow> unat (of_nat x :: byte) = x"
  by (simp add: unat_of_nat)

lemma unat_byte_lt: "unat (b :: byte) < 256"
  using unsigned_less [of b] by simp

lemma unbe_be [simp]: "unbe (be n x) = x mod 256 ^ n"
proof (induction n arbitrary: x)
  case 0
  then show ?case by simp
next
  case (Suc n)
  have "x mod (256 * 256 ^ n) = 256 * (x div 256 mod 256 ^ n) + x mod 256"
    by (rule mod_mult2_eq)
  with Suc show ?case by (simp add: mult.commute)
qed

lemma unbe_lt: "unbe bs < 256 ^ length bs"
proof (induction bs rule: rev_induct)
  case Nil
  then show ?case by simp
next
  case (snoc b bs)
  have "unbe bs * 256 + unat b < (unbe bs + 1) * 256"
    using unat_byte_lt [of b] by simp
  also have "\<dots> \<le> 256 ^ length bs * 256"
    using snoc by (intro mult_right_mono) simp_all
  finally show ?case by (simp add: mult.commute)
qed

lemma be_unbe [simp]: "be (length bs) (unbe bs) = bs"
proof (induction bs rule: rev_induct)
  case Nil
  then show ?case by simp
next
  case (snoc b bs)
  have "(unbe bs * 256 + unat b) div 256 = unbe bs" "(unbe bs * 256 + unat b) mod 256 = unat b"
    using unat_byte_lt [of b] by simp_all
  with snoc show ?case by simp
qed

lemma be_inject: "x < 256 ^ n \<Longrightarrow> y < 256 ^ n \<Longrightarrow> be n x = be n y \<longleftrightarrow> x = y"
  by (metis mod_less unbe_be)

lemma unbe_lt_of_length: "length bs = n \<Longrightarrow> unbe bs < 256 ^ n"
  using unbe_lt by auto

text \<open>
  The loops that write and read a big-endian integer byte by byte: the writer
  runs from the last byte down, shifting the value; the reader runs from the
  first byte up, shifting the accumulator.
\<close>

fun store_be :: "nat \<Rightarrow> bytes \<Rightarrow> nat \<Rightarrow> int \<Rightarrow> bytes" where
  "store_be 0 buf off v = buf"
| "store_be (Suc i) buf off v = store_be i (buf[off + i := of_int (v mod 256)]) off (v div 256)"

definition load_be :: "nat \<Rightarrow> bytes \<Rightarrow> nat \<Rightarrow> int" where
  "load_be k buf off = foldl (\<lambda>v i. v * 256 + uint (buf ! (off + i))) 0 [0..<k]"

lemma store_be_eq:
  "0 \<le> v \<Longrightarrow> off + k \<le> length buf \<Longrightarrow> store_be k buf off v = uset buf (be k (nat v)) off"
proof (induction k arbitrary: buf v)
  case 0
  then show ?case by simp
next
  case (Suc i)
  have b: "of_int (v mod 256) = (of_nat (nat v mod 256) :: byte)"
    by (metis Suc.prems(1) nat_mod_distrib nat_numeral of_nat_nat pos_mod_sign zero_le_numeral zero_less_numeral)
  have d: "drop (off + i) (buf[off + i := x]) = x # drop (off + Suc i) buf" for x
    using Suc.prems(2) by (simp add: drop_update_swap [of "off + i"] Cons_nth_drop_Suc [symmetric])
  have "store_be (Suc i) buf off v
      = uset (buf[off + i := of_int (v mod 256)]) (be i (nat (v div 256))) off"
    using Suc by simp
  also have "\<dots> = take off buf @ be i (nat v div 256) @ of_int (v mod 256) # drop (off + Suc i) buf"
    by (simp add: uset_def d nat_div_distrib Suc.prems(1))
  also have "\<dots> = uset buf (be (Suc i) (nat v)) off"
    by (simp add: uset_def b)
  finally show ?case .
qed

lemma load_be_eq:
  "off + k \<le> length buf \<Longrightarrow> load_be k buf off = int (unbe (slice buf off (off + k)))"
proof (induction k)
  case 0
  then show ?case by (simp add: load_be_def slice_def)
next
  case (Suc k)
  have "slice buf off (off + Suc k) = slice buf off (off + k) @ [buf ! (off + k)]"
    using Suc.prems by (simp add: slice_def take_Suc_conv_app_nth)
  with Suc show ?case
    by (simp add: load_be_def)
qed

section \<open>Arithmetic and lists\<close>

definition ceil_div :: "nat \<Rightarrow> nat \<Rightarrow> nat" where
  "ceil_div a b = (if b = 0 then 0 else (a + b - 1) div b)"

lemma ceil_div_0 [simp]: "ceil_div 0 b = 0"
  by (simp add: ceil_div_def)

lemma ceil_div_bounds:
  assumes "0 < b"
  shows "a \<le> ceil_div a b * b" and "0 < a \<Longrightarrow> (ceil_div a b - 1) * b < a"
proof -
  have eq: "ceil_div a b * b + (a + b - 1) mod b = a + b - 1"
    using assms by (simp add: ceil_div_def)
  have lt: "(a + b - 1) mod b < b"
    using assms by simp
  show "a \<le> ceil_div a b * b"
    using eq lt by linarith
  show "(ceil_div a b - 1) * b < a" if "0 < a"
    using eq assms that by (simp add: diff_mult_distrib)
qed

lemma ceil_div_step: "0 < b \<Longrightarrow> b \<le> a \<Longrightarrow> ceil_div a b = Suc (ceil_div (a - b) b)"
  by (auto simp: ceil_div_def le_div_geq)

lemma ceil_div_small: "0 < a \<Longrightarrow> a \<le> b \<Longrightarrow> ceil_div a b = 1"
  by (auto simp: ceil_div_def div_nat_eqI)

lemma ceil_div_mono: "a \<le> a' \<Longrightarrow> ceil_div a b \<le> ceil_div a' b"
  by (simp add: ceil_div_def div_le_mono)

lemma list_all_set_conv: "list_all P xs \<longleftrightarrow> (\<forall>x \<in> set xs. P x)"
  by (simp add: list_all_iff)

lemma sorted_wrt_filter_ok: "sorted_wrt R xs \<Longrightarrow> sorted_wrt R (filter P xs)"
  by (rule sorted_wrt_filter)

lemma length_find_filter: "find P xs = None \<longleftrightarrow> filter P xs = []"
  by (induction xs) auto

section \<open>JavaScript Map\<close>

text \<open>A Map is an association list in insertion order; set keeps the place of an existing key.\<close>

fun map_set :: "('k \<times> 'v) list \<Rightarrow> 'k \<Rightarrow> 'v \<Rightarrow> ('k \<times> 'v) list" where
  "map_set [] k v = [(k, v)]"
| "map_set ((k', v') # m) k v = (if k' = k then (k, v) # m else (k', v') # map_set m k v)"

abbreviation map_get :: "('k \<times> 'v) list \<Rightarrow> 'k \<Rightarrow> 'v option" where
  "map_get \<equiv> map_of"

lemma map_get_set [simp]: "map_get (map_set m k v) = (map_get m)(k \<mapsto> v)"
  by (induction m k v rule: map_set.induct) auto

lemma keys_map_set [simp]: "fst ` set (map_set m k v) = insert k (fst ` set m)"
  by (induction m k v rule: map_set.induct) auto

lemma distinct_map_set [simp]: "distinct (map fst (map_set m k v)) \<longleftrightarrow> distinct (map fst m)"
proof (induction m k v rule: map_set.induct)
  case (2 k' v' m k v)
  have "set (map fst (map_set m k v)) = insert k (set (map fst m))"
    using keys_map_set [of m k v] by simp
  with 2 show ?case by auto
qed simp

lemma set_map_set: "set (map_set m k v) \<subseteq> insert (k, v) (set m)"
  by (induction m k v rule: map_set.induct) auto

end
