(* ===== verification/Bpe.thy ===== *)
theory Bpe
  imports Prelude
begin

text \<open>
  The byte-pair codec of packages/bam-sdk/src/bpe.ts: building a dictionary from a
  corpus, reconstructing it from the on-chain table, serialising it, and the greedy
  encoder and the decoder over 12-bit codes packed two to three bytes.  A
  JavaScript Map is an association list in insertion order; a token key is the list
  of its bytes.  Typed arrays are lists, 16-bit and 8-bit entries as numbers.
\<close>

definition CODES_PER_TIER :: nat where "CODES_PER_TIER = 1024"
definition TOTAL_CODES :: nat where "TOTAL_CODES = 4096"
definition DICT_BYTES_SIZE :: nat where "DICT_BYTES_SIZE = 10240"
definition BPE_SERIALIZED_SIZE :: nat where
  "BPE_SERIALIZED_SIZE = DICT_BYTES_SIZE + TOTAL_CODES * 2 + TOTAL_CODES"

lemmas bpe_consts = CODES_PER_TIER_def TOTAL_CODES_def DICT_BYTES_SIZE_def BPE_SERIALIZED_SIZE_def

type_synonym tokens = "(bytes \<times> nat) list"

record bpe_dict =
  tokenToCode :: tokens
  dictBytes :: bytes
  dictOffsets :: "nat list"
  dictLengths :: "nat list"

datatype bpe_error =
    DictSize nat
  | DictTooSmall nat
  | NotMultipleOf3 nat

section \<open>Building a dictionary\<close>

text \<open>Reading a typed array past its end gives undefined, which becomes byte 0.\<close>

definition toKey :: "bytes \<Rightarrow> nat \<Rightarrow> nat \<Rightarrow> bytes" where
  "toKey data start len =
     map (\<lambda>i. if i < length data then data ! i else 0) [start..<start + len]"

lemma length_toKey: "length (toKey data start len) = len"
  by (simp add: toKey_def)

lemma toKey_slice: "start + len \<le> length data \<Longrightarrow> toKey data start len = slice data start (start + len)"
  by (rule nth_equalityI) (simp_all add: toKey_def slice_nth add.commute)

definition countWindow :: "bytes \<Rightarrow> nat \<Rightarrow> tokens" where
  "countWindow data L =
     (if length data < L then []
      else foldl (\<lambda>m i. let key = toKey data i L in
              map_set m key ((case map_get m key of Some n \<Rightarrow> n | None \<Rightarrow> 0) + 1))
            [] [0..<length data - L + 1])"

definition countWindows :: "bytes \<Rightarrow> tokens list" where
  "countWindows data = [countWindow data 2, countWindow data 3, countWindow data 4]"

text \<open>A stable sort by decreasing count, then the first n.\<close>

definition topBy :: "nat \<Rightarrow> tokens \<Rightarrow> bytes list" where
  "topBy n counts = map fst (take n (sort_key (\<lambda>(_, c). - int c) counts))"

fun assignCodes :: "nat \<Rightarrow> bytes list \<Rightarrow> tokens \<Rightarrow> tokens" where
  "assignCodes code [] m = m"
| "assignCodes code (tok # toks) m = assignCodes (code + 1) toks (map_set m tok code)"

definition topTokens :: "tokens list \<Rightarrow> nat \<Rightarrow> tokens" where
  "topTokens counts topN =
     (let m0 = map_set [] (zeros 4) 0;
          m1 = assignCodes 1 (topBy (topN - 1) (counts ! 2)) m0;
          m2 = assignCodes topN (topBy topN (counts ! 1)) m1;
          m3 = assignCodes (topN * 2) (topBy topN (counts ! 0)) m2
      in assignCodes (topN * 3) (map (\<lambda>i. [of_nat i]) [0..<256]) m3)"

type_synonym dict_blobs = "bytes \<times> nat list \<times> nat list"

fun writeGroup :: "nat \<Rightarrow> nat \<Rightarrow> tokens \<Rightarrow> dict_blobs \<Rightarrow> dict_blobs" where
  "writeGroup len pos [] blobs = blobs"
| "writeGroup len pos ((tok, code) # grp) (bs, offs, lens) =
     writeGroup len (pos + len) grp (uset bs tok pos, offs[code := pos], lens[code := len])"

definition tierStart :: "nat \<Rightarrow> nat" where
  "tierStart len = (if len = 4 then 0 else if len = 3 then 4096 else if len = 2 then 7168 else 9216)"

definition tokenGroup :: "tokens \<Rightarrow> nat \<Rightarrow> tokens" where
  "tokenGroup m len = sort_key snd (filter (\<lambda>(tok, _). length tok = len) m)"

definition makeDictBlobs :: "tokens \<Rightarrow> dict_blobs" where
  "makeDictBlobs m =
     foldl (\<lambda>blobs len. writeGroup len (tierStart len) (tokenGroup m len) blobs)
       (zeros DICT_BYTES_SIZE, replicate TOTAL_CODES 0, replicate TOTAL_CODES 0) [4, 3, 2, 1]"

definition buildDictionary :: "bytes \<Rightarrow> bpe_dict" where
  "buildDictionary corpus =
     (let m = topTokens (countWindows corpus) CODES_PER_TIER;
          (bs, offs, lens) = makeDictBlobs m
      in \<lparr>tokenToCode = m, dictBytes = bs, dictOffsets = offs, dictLengths = lens\<rparr>)"

section \<open>Dictionaries from bytes\<close>

definition tier_offset :: "nat \<Rightarrow> nat" where
  "tier_offset code =
     (if code < 1024 then code * 4
      else if code < 2048 then 4096 + (code - 1024) * 3
      else if code < 3072 then 7168 + (code - 2048) * 2
      else 9216 + (code - 3072))"

definition tier_length :: "nat \<Rightarrow> nat" where
  "tier_length code =
     (if code < 1024 then 4 else if code < 2048 then 3 else if code < 3072 then 2 else 1)"

definition bpeDictionaryFromBytes :: "bytes \<Rightarrow> bpe_error + bpe_dict" where
  "bpeDictionaryFromBytes bs =
     (if length bs \<noteq> DICT_BYTES_SIZE then Inl (DictSize (length bs))
      else Inr \<lparr>
        tokenToCode = foldl (\<lambda>m code.
            let key = toKey bs (tier_offset code) (tier_length code) in
            if map_get m key = None then map_set m key code else m) [] [0..<TOTAL_CODES],
        dictBytes = bs,
        dictOffsets = map tier_offset [0..<TOTAL_CODES],
        dictLengths = map tier_length [0..<TOTAL_CODES]\<rparr>)"

definition serializeDictionary :: "bpe_dict \<Rightarrow> bytes" where
  "serializeDictionary dict =
     (let buf0 = zeros BPE_SERIALIZED_SIZE;
          buf1 = uset buf0 (dictBytes dict) 0;
          buf2 = foldl (\<lambda>b i. uset b (be 2 (dictOffsets dict ! i)) (DICT_BYTES_SIZE + i * 2)) buf1 [0..<TOTAL_CODES]
      in uset buf2 (map of_nat (dictLengths dict)) (DICT_BYTES_SIZE + TOTAL_CODES * 2))"

definition deserializeDictionary :: "bytes \<Rightarrow> bpe_error + bpe_dict" where
  "deserializeDictionary data =
     (if length data < BPE_SERIALIZED_SIZE then Inl (DictTooSmall (length data))
      else let bs = slice data 0 DICT_BYTES_SIZE;
               lens = map unat (slice data (DICT_BYTES_SIZE + TOTAL_CODES * 2) BPE_SERIALIZED_SIZE);
               offs = map (\<lambda>i. unbe (slice data (DICT_BYTES_SIZE + i * 2) (DICT_BYTES_SIZE + i * 2 + 2))) [0..<TOTAL_CODES];
               m = foldl (\<lambda>m code. if lens ! code = 0 then m
                       else map_set m (toKey bs (offs ! code) (lens ! code)) code) [] [0..<TOTAL_CODES]
           in Inr \<lparr>tokenToCode = m, dictBytes = bs, dictOffsets = offs, dictLengths = lens\<rparr>)"

section \<open>Encoding and decoding\<close>

text \<open>
  One turn of the encoder's while loop picks the code and the number of bytes it
  covers; the loop itself runs over the remaining data.  A missing one-byte token
  is JavaScript's undefined, which the shift turns into code 0.
\<close>

definition tryToken :: "tokens \<Rightarrow> bytes \<Rightarrow> nat \<Rightarrow> nat option" where
  "tryToken m rest n = (if n \<le> length rest then map_get m (take n rest) else None)"

definition pickShort :: "tokens \<Rightarrow> bytes \<Rightarrow> nat \<times> nat" where
  "pickShort m rest =
     (case tryToken m rest 3 of
        Some code \<Rightarrow> (code, 3)
      | None \<Rightarrow> (case tryToken m rest 2 of
          Some code \<Rightarrow> (code, 2)
        | None \<Rightarrow> (case tryToken m rest 1 of Some code \<Rightarrow> (code, 1) | None \<Rightarrow> (0, 1))))"

definition pickCode :: "tokens \<Rightarrow> bytes \<Rightarrow> nat \<times> nat" where
  "pickCode m rest =
     (case tryToken m rest 4 of
        Some code \<Rightarrow> if code > 0 then (code, 4) else pickShort m rest
      | None \<Rightarrow> pickShort m rest)"

lemma pickCode_pos: "0 < snd (pickCode m rest)"
  by (auto simp: pickCode_def pickShort_def split: option.splits)

function encodeCodes :: "tokens \<Rightarrow> bytes \<Rightarrow> nat list" where
  "encodeCodes m [] = []"
| "encodeCodes m (b # bs) =
     (let (code, n) = pickCode m (b # bs) in code # encodeCodes m (drop n (b # bs)))"
  by pat_completeness auto

termination
proof (relation "measure (\<lambda>(m, bs). length bs)", goal_cases)
  case 1
  then show ?case by simp
next
  case (2 m b bs x code n)
  then have "n = snd (pickCode m (b # bs))"
    by (metis snd_conv)
  then have "0 < n"
    using pickCode_pos [of m "b # bs"] by simp
  then show ?case by simp
qed

fun packCodes :: "nat list \<Rightarrow> bytes" where
  "packCodes (c # d # cs) = be 3 (c * 4096 + d) @ packCodes cs"
| "packCodes _ = []"

definition bpeEncode :: "bytes \<Rightarrow> bpe_dict \<Rightarrow> bytes" where
  "bpeEncode data dict =
     (let codes = encodeCodes (tokenToCode dict) data;
          codes' = (if length codes mod 2 \<noteq> 0 then codes @ [0] else codes)
      in packCodes codes')"

fun unpackCodes :: "bytes \<Rightarrow> nat list" where
  "unpackCodes (a # b # c # bs) =
     (let w = unbe [a, b, c] in w div 4096 # w mod 4096 # unpackCodes bs)"
| "unpackCodes _ = []"

definition codeToken :: "bpe_dict \<Rightarrow> nat \<Rightarrow> bytes" where
  "codeToken dict code =
     (if code \<noteq> 0 then toKey (dictBytes dict) (dictOffsets dict ! code) (dictLengths dict ! code) else [])"

definition bpeDecode :: "bytes \<Rightarrow> bpe_dict \<Rightarrow> bpe_error + bytes" where
  "bpeDecode data dict =
     (if length data mod 3 \<noteq> 0 then Inl (NotMultipleOf3 (length data))
      else Inr (concat (map (codeToken dict) (unpackCodes data))))"

section \<open>Packing\<close>

lemma unpackCodes_packCodes:
  "even (length cs) \<Longrightarrow> list_all (\<lambda>c. c < 4096) cs \<Longrightarrow> unpackCodes (packCodes cs) = cs"
proof (induction cs rule: packCodes.induct)
  case (1 c d cs)
  obtain x y z where b3: "be 3 (c * 4096 + d) = [x, y, z]"
    using length_be [of 3 "c * 4096 + d"] by (auto simp: numeral_3_eq_3 length_Suc_conv)
  have "c * 4096 + d < 256 ^ 3"
    using 1 by simp
  then have "unbe [x, y, z] = c * 4096 + d"
    using unbe_be [of 3 "c * 4096 + d"] by (simp add: b3)
  with 1 show ?case
    by (simp add: b3 Let_def)
qed auto

lemma length_packCodes: "length (packCodes cs) = 3 * (length cs div 2)"
  by (induction cs rule: packCodes.induct) auto

section \<open>Round trip\<close>

text \<open>
  A dictionary is usable when every token it can emit is the token its code
  stands for, and every single byte has a code.  Code 0 is the padding sentinel
  and is never emitted for data.
\<close>

definition dict_sound :: "bpe_dict \<Rightarrow> bool" where
  "dict_sound dict \<longleftrightarrow>
     list_all (\<lambda>(tok, code). code < 4096 \<and> (code = 0 \<longrightarrow> length tok = 4)
        \<and> (code \<noteq> 0 \<longrightarrow> codeToken dict code = tok)) (tokenToCode dict)"

definition dict_complete :: "bpe_dict \<Rightarrow> bool" where
  "dict_complete dict \<longleftrightarrow> list_all (\<lambda>i. map_get (tokenToCode dict) [of_nat i] \<noteq> None) [0..<256]"

lemma dict_soundD:
  "dict_sound dict \<Longrightarrow> map_get (tokenToCode dict) tok = Some code \<Longrightarrow>
   code < 4096 \<and> (code = 0 \<longrightarrow> length tok = 4) \<and> (code \<noteq> 0 \<longrightarrow> codeToken dict code = tok)"
  unfolding dict_sound_def list_all_iff by (drule map_of_SomeD) auto

lemma dict_completeD: "dict_complete dict \<Longrightarrow> \<exists>code. map_get (tokenToCode dict) [b] = Some code"
proof -
  assume "dict_complete dict"
  moreover have "unat b \<in> set [0..<256]"
    using unat_byte_lt [of b] by simp
  ultimately have "map_get (tokenToCode dict) [of_nat (unat b)] \<noteq> None"
    unfolding dict_complete_def list_all_iff by blast
  then show ?thesis by simp
qed

lemma pickCode_token:
  assumes "dict_sound dict" "dict_complete dict" "rest \<noteq> []" "pickCode (tokenToCode dict) rest = (code, n)"
  shows "code < 4096 \<and> codeToken dict code = take n rest"
proof -
  have tk: "code < 4096 \<and> codeToken dict code = take n rest"
    if "tryToken (tokenToCode dict) rest n = Some code" "code \<noteq> 0 \<or> n \<noteq> 4" for n code
    using dict_soundD [OF assms(1), of "take n rest" code] that
    by (auto simp: tryToken_def split: if_splits)
  obtain b bs where "rest = b # bs"
    using assms(3) by (cases rest) auto
  then have one: "tryToken (tokenToCode dict) rest 1 \<noteq> None"
    using dict_completeD [OF assms(2), of b] by (auto simp: tryToken_def)
  show ?thesis
    using assms(4) one tk [of 4] tk [of 3] tk [of 2] tk [of 1]
    by (auto simp: pickCode_def pickShort_def split: option.splits if_splits)
qed

lemma encodeCodes_tokens:
  assumes "dict_sound dict" "dict_complete dict"
  shows "list_all (\<lambda>c. c < 4096) (encodeCodes (tokenToCode dict) data)
    \<and> concat (map (codeToken dict) (encodeCodes (tokenToCode dict) data)) = data"
proof (induction data rule: measure_induct_rule [of length])
  case (less data)
  show ?case
  proof (cases data)
    case (Cons b bs)
    obtain code n where pick: "pickCode (tokenToCode dict) data = (code, n)"
      by fastforce
    then have "0 < n"
      using pickCode_pos [of "tokenToCode dict" data] by simp
    then have "length (drop n data) < length data"
      using Cons by simp
    from less [OF this] show ?thesis
      using pickCode_token [OF assms _ pick] Cons pick by simp
  qed simp
qed

lemma bpe_decode_encode:
  assumes "dict_sound dict" "dict_complete dict"
  shows "bpeDecode (bpeEncode data dict) dict = Inr data"
proof -
  let ?cs = "encodeCodes (tokenToCode dict) data"
  let ?ds = "if length ?cs mod 2 \<noteq> 0 then ?cs @ [0] else ?cs"
  have ok: "list_all (\<lambda>c. c < 4096) ?ds" "even (length ?ds)"
    "concat (map (codeToken dict) ?ds) = data"
    using encodeCodes_tokens [OF assms, of data] by (auto simp: codeToken_def)
  then show ?thesis
    by (simp add: bpeDecode_def bpeEncode_def Let_def unpackCodes_packCodes length_packCodes del: if_split)
qed

section \<open>The dictionary built from a corpus\<close>

text \<open>
  Every token keeps to the tier of its length, no two tokens share a code, and the
  bytes written for a code are its token, so a built dictionary is sound; the
  one-byte tier makes it complete.
\<close>

definition tier_ok :: "tokens \<Rightarrow> bool" where
  "tier_ok m \<longleftrightarrow> distinct (map snd m) \<and>
     list_all (\<lambda>(tok, code). code < 4096 \<and> length tok = tier_length code) m"

lemma map_set_values:
  "distinct (map snd m) \<Longrightarrow> v \<notin> snd ` set m \<Longrightarrow> distinct (map snd (map_set m k v))"
proof (induction m k v rule: map_set.induct)
  case (2 k' v' m k v)
  have "snd ` set (map_set m k v) \<subseteq> insert v (snd ` set m)"
    using set_map_set [of m k v] by force
  with 2 show ?case by auto
qed simp

lemma tier_ok_map_set:
  assumes "tier_ok m" "list_all (\<lambda>(_, c). c < v) m" "v < 4096" "length k = tier_length v"
  shows "tier_ok (map_set m k v)" "list_all (\<lambda>(_, c). c < Suc v) (map_set m k v)"
proof -
  have "v \<notin> snd ` set m"
    using assms(2) by (auto simp: list_all_iff)
  then show "tier_ok (map_set m k v)"
    using assms set_map_set [of m k v]
    by (auto simp: tier_ok_def list_all_iff map_set_values dest!: subsetD)
  show "list_all (\<lambda>(_, c). c < Suc v) (map_set m k v)"
    using assms(2) set_map_set [of m k v] by (auto simp: list_all_iff less_Suc_eq dest!: subsetD)
qed

lemma assignCodes_tier_ok:
  assumes "tier_ok m" "list_all (\<lambda>(_, c). c < code) m" "code + length toks \<le> 4096"
    and "\<And>i. i < length toks \<Longrightarrow> length (toks ! i) = tier_length (code + i)"
  shows "tier_ok (assignCodes code toks m) \<and> list_all (\<lambda>(_, c). c < code + length toks) (assignCodes code toks m)"
  using assms
proof (induction code toks m rule: assignCodes.induct)
  case (2 code tok toks m)
  have "length tok = tier_length code"
    using 2(5) [of 0] by simp
  then have m: "tier_ok (map_set m tok code)" "list_all (\<lambda>(_, c). c < code + 1) (map_set m tok code)"
    using tier_ok_map_set [OF 2(2,3)] 2(4) by simp_all
  have "length (toks ! i) = tier_length (code + 1 + i)" if "i < length toks" for i
    using 2(5) [of "Suc i"] that by simp
  with 2(1) [OF m] 2(4) show ?case by simp
qed simp

lemma length_topBy: "length (topBy n counts) \<le> n"
  by (simp add: topBy_def)

lemma set_topBy: "set (topBy n counts) \<subseteq> fst ` set counts"
  unfolding topBy_def by (auto dest!: in_set_takeD)

lemma countWindow_lengths: "tok \<in> fst ` set (countWindow data L) \<Longrightarrow> length tok = L"
proof -
  let ?f = "\<lambda>(m :: tokens) i. let key = toKey data i L in
     map_set m key ((case map_get m key of Some n \<Rightarrow> n | None \<Rightarrow> 0) + 1)"
  have "\<forall>tok \<in> fst ` set (foldl ?f m xs). length tok = L" if "\<forall>tok \<in> fst ` set m. length tok = L" for m xs
    using that
  proof (induction xs arbitrary: m)
    case (Cons i xs)
    have "\<forall>tok \<in> fst ` set (?f m i). length tok = L"
      using Cons(2) by (simp add: Let_def length_toKey)
    from Cons(1) [OF this] show ?case by (simp only: foldl_Cons)
  qed simp
  moreover have "\<forall>tok \<in> fst ` set ([] :: tokens). length tok = L"
    by simp
  ultimately have "\<forall>tok \<in> fst ` set (foldl ?f [] [0..<length data - L + 1]). length tok = L"
    by blast
  then have "\<forall>tok \<in> fst ` set (countWindow data L). length tok = L"
    unfolding countWindow_def by (cases "length data < L") simp_all
  then show "tok \<in> fst ` set (countWindow data L) \<Longrightarrow> length tok = L"
    by blast
qed

lemma topBy_lengths: "i < length (topBy n (countWindow data L)) \<Longrightarrow> length (topBy n (countWindow data L) ! i) = L"
  by (rule countWindow_lengths, rule subsetD [OF set_topBy], rule nth_mem)

lemma list_all_less_mono: "list_all (\<lambda>(_, c). c < (k::nat)) m \<Longrightarrow> k \<le> k' \<Longrightarrow> list_all (\<lambda>(_, c). c < k') m"
  by (auto simp: list_all_iff)

lemma topTokens_stages:
  assumes "m = topTokens (countWindows corpus) 1024"
  obtains m3 where "tier_ok m3" "list_all (\<lambda>(_, c). c < 3072) m3"
    "m = assignCodes 3072 (map (\<lambda>i. [of_nat i]) [0..<256]) m3"
proof -
  let ?t = "\<lambda>n L. topBy n (countWindow corpus L)"
  define m1 where "m1 = assignCodes 1 (?t 1023 4) (map_set [] (zeros 4) 0)"
  define m2 where "m2 = assignCodes 1024 (?t 1024 3) m1"
  define m3 where "m3 = assignCodes 2048 (?t 1024 2) m2"
  have l: "length (?t 1023 4) \<le> 1023" "length (?t 1024 3) \<le> 1024" "length (?t 1024 2) \<le> 1024"
    by (rule length_topBy)+
  have "tier_ok m1 \<and> list_all (\<lambda>(_, c). c < 1 + length (?t 1023 4)) m1"
    unfolding m1_def using l
    by (intro assignCodes_tier_ok) (auto simp: tier_ok_def tier_length_def topBy_lengths)
  then have m1: "tier_ok m1" "list_all (\<lambda>(_, c). c < 1024) m1"
    using l(1) by (auto elim: list_all_less_mono)
  have "tier_ok m2 \<and> list_all (\<lambda>(_, c). c < 1024 + length (?t 1024 3)) m2"
    unfolding m2_def using l m1
    by (intro assignCodes_tier_ok) (auto simp: tier_length_def topBy_lengths)
  then have m2: "tier_ok m2" "list_all (\<lambda>(_, c). c < 2048) m2"
    using l(2) by (auto elim: list_all_less_mono)
  have "tier_ok m3 \<and> list_all (\<lambda>(_, c). c < 2048 + length (?t 1024 2)) m3"
    unfolding m3_def using l m2
    by (intro assignCodes_tier_ok) (auto simp: tier_length_def topBy_lengths)
  then have m3: "tier_ok m3" "list_all (\<lambda>(_, c). c < 3072) m3"
    using l(3) by (auto elim: list_all_less_mono)
  show ?thesis
    by (rule that [OF m3]) (simp add: assms topTokens_def countWindows_def m1_def m2_def m3_def Let_def)
qed

lemma topTokens_tier_ok: "tier_ok (topTokens (countWindows corpus) 1024)"
proof -
  obtain m3 where m3: "tier_ok m3" "list_all (\<lambda>(_, c). c < 3072) m3"
    "topTokens (countWindows corpus) 1024 = assignCodes 3072 (map (\<lambda>i. [of_nat i]) [0..<256]) m3"
    using topTokens_stages by blast
  then show ?thesis
    using assignCodes_tier_ok [OF m3(1,2), of "map (\<lambda>i. [of_nat i]) [0..<256]"]
    by (simp add: tier_length_def)
qed

lemma assignCodes_keys: "fst ` set (assignCodes code toks m) = set toks \<union> fst ` set m"
  by (induction code toks m rule: assignCodes.induct) auto

lemma topTokens_complete: "map_get (topTokens (countWindows corpus) 1024) [of_nat i] \<noteq> None" if "i < 256"
proof -
  obtain m3 where "topTokens (countWindows corpus) 1024 = assignCodes 3072 (map (\<lambda>i. [of_nat i]) [0..<256]) m3"
    using topTokens_stages by blast
  then have "[of_nat i] \<in> fst ` set (topTokens (countWindows corpus) 1024)"
    using that by (simp only: assignCodes_keys) simp
  then show ?thesis
    by (simp add: map_of_eq_None_iff)
qed

section \<open>The table written for the tokens\<close>

definition table_ok :: "dict_blobs \<Rightarrow> bool" where
  "table_ok bl = (case bl of (bs, offs, lens) \<Rightarrow> length bs = 10240 \<and> length offs = 4096 \<and> length lens = 4096)"

text \<open>The table holds token tok for the code, inside the bytes from lo to hi.\<close>

definition holdsIn :: "nat \<Rightarrow> nat \<Rightarrow> dict_blobs \<Rightarrow> bytes \<times> nat \<Rightarrow> bool" where
  "holdsIn lo hi bl e = (case bl of (bs, offs, lens) \<Rightarrow> case e of (tok, code) \<Rightarrow>
     lens ! code = length tok \<and> lo \<le> offs ! code \<and> offs ! code + length tok \<le> hi
       \<and> slice bs (offs ! code) (offs ! code + length tok) = tok)"

lemma slice_uset_other:
  assumes "b \<le> off \<or> off + length src \<le> a" "off + length src \<le> length buf"
  shows "slice (uset buf src off) a b = slice buf a b"
proof (rule nth_equalityI)
  show "length (slice (uset buf src off) a b) = length (slice buf a b)"
    using assms(2) by simp
  fix i assume "i < length (slice (uset buf src off) a b)"
  then have i: "i < b - a" "i + a < length buf"
    using assms(2) by auto
  then show "slice (uset buf src off) a b ! i = slice buf a b ! i"
    using assms by (subst (1 2) slice_nth) (auto simp: uset_def nth_append)
qed

lemma slice_uset_same: "off + length src \<le> length buf \<Longrightarrow> slice (uset buf src off) off (off + length src) = src"
  by (simp add: uset_def slice_def)

lemma writeGroup_table_ok:
  "table_ok bl \<Longrightarrow> list_all (\<lambda>(t, _). length t = len) g \<Longrightarrow> pos + len * length g \<le> 10240 \<Longrightarrow>
   table_ok (writeGroup len pos g bl)"
proof (induction len pos g bl rule: writeGroup.induct)
  case (2 len pos tok code g bs offs lens)
  then show ?case by (simp add: table_ok_def algebra_simps)
qed simp

lemma writeGroup_frame:
  assumes "holdsIn lo hi bl (t, c)" "table_ok bl" "list_all (\<lambda>(t, _). length t = len) g"
    and "pos + len * length g \<le> 10240" "hi \<le> pos \<or> pos + len * length g \<le> lo" "c \<notin> snd ` set g"
  shows "holdsIn lo hi (writeGroup len pos g bl) (t, c)"
  using assms
proof (induction len pos g bl rule: writeGroup.induct)
  case (2 len pos tok code g bs offs lens)
  have ok: "table_ok (uset bs tok pos, offs[code := pos], lens[code := len])"
    using 2(3-5) by (simp add: table_ok_def algebra_simps)
  have "slice (uset bs tok pos) (offs ! c) (offs ! c + length t) = slice bs (offs ! c) (offs ! c + length t)"
    using 2(2-6) by (intro slice_uset_other) (auto simp: holdsIn_def table_ok_def algebra_simps)
  then have "holdsIn lo hi (uset bs tok pos, offs[code := pos], lens[code := len]) (t, c)"
    using 2(2,7) by (simp add: holdsIn_def)
  then show ?case
    using 2(1) [OF _ ok] 2(2-7) by (auto simp: algebra_simps)
qed simp

lemma writeGroup_holds:
  assumes "table_ok bl" "list_all (\<lambda>(t, c). length t = len \<and> c < 4096) g"
    and "pos + len * length g \<le> 10240" "distinct (map snd g)"
  shows "list_all (holdsIn pos (pos + len * length g) (writeGroup len pos g bl)) g"
  using assms
proof (induction len pos g bl rule: writeGroup.induct)
  case (2 len pos tok code g bs offs lens)
  let ?b = "(uset bs tok pos, offs[code := pos], lens[code := len])"
  have ok: "table_ok ?b"
    using 2(2-4) by (simp add: table_ok_def algebra_simps)
  have "holdsIn pos (pos + len) ?b (tok, code)"
    using 2(2-4) slice_uset_same [of pos tok bs] by (simp add: holdsIn_def table_ok_def algebra_simps)
  then have "holdsIn pos (pos + len) (writeGroup len (pos + len) g ?b) (tok, code)"
    using 2(2-5) ok by (intro writeGroup_frame) (auto simp: list_all_iff)
  then have first: "holdsIn pos (pos + len * length ((tok, code) # g)) (writeGroup len (pos + len) g ?b) (tok, code)"
    by (auto simp: holdsIn_def)
  have "list_all (holdsIn (pos + len) (pos + len + len * length g) (writeGroup len (pos + len) g ?b)) g"
    using 2(1) [OF ok] 2(2-5) by (simp add: algebra_simps)
  then have "list_all (holdsIn pos (pos + len * length ((tok, code) # g)) (writeGroup len (pos + len) g ?b)) g"
    by (rule list.pred_mono_strong) (auto simp: holdsIn_def algebra_simps)
  with first show ?case by simp
qed simp

lemma holdsIn_mono: "holdsIn lo hi bl e \<Longrightarrow> lo' \<le> lo \<Longrightarrow> hi \<le> hi' \<Longrightarrow> holdsIn lo' hi' bl e"
  by (auto simp: holdsIn_def split: prod.splits)

lemma tier_length_range:
  "tier_length c = len \<Longrightarrow> c < 4096 \<Longrightarrow> (4 - len) * 1024 \<le> c \<and> c < (4 - len) * 1024 + 1024 \<and> 1 \<le> len \<and> len \<le> 4"
  by (auto simp: tier_length_def split: if_splits)

lemma tokenGroup_facts:
  assumes "tier_ok m"
  shows "set (tokenGroup m len) = {(t, c) \<in> set m. length t = len}"
    and "list_all (\<lambda>(t, c). length t = len \<and> c < 4096) (tokenGroup m len)"
    and "distinct (map snd (tokenGroup m len))"
    and "length (tokenGroup m len) \<le> 1024"
proof -
  show set: "set (tokenGroup m len) = {(t, c) \<in> set m. length t = len}"
    by (auto simp: tokenGroup_def)
  show all: "list_all (\<lambda>(t, c). length t = len \<and> c < 4096) (tokenGroup m len)"
    unfolding list_all_iff set using assms by (auto simp: tier_ok_def list_all_iff)
  have "distinct (map snd (filter (\<lambda>(t, _). length t = len) m))"
    using assms by (simp add: tier_ok_def distinct_map_filter)
  then show dist: "distinct (map snd (tokenGroup m len))"
    unfolding tokenGroup_def distinct_map by (simp add: distinct_map)
  have "snd ` set (tokenGroup m len) \<subseteq> {(4 - len) * 1024..<(4 - len) * 1024 + 1024}"
  proof
    fix c assume "c \<in> snd ` set (tokenGroup m len)"
    then obtain t where "(t, c) \<in> set m" "length t = len"
      unfolding set by auto
    with assms have "tier_length c = len" "c < 4096"
      by (auto simp: tier_ok_def list_all_iff)
    from tier_length_range [OF this] show "c \<in> {(4 - len) * 1024..<(4 - len) * 1024 + 1024}"
      by simp
  qed
  from card_mono [OF finite_atLeastLessThan this] have "card (snd ` set (tokenGroup m len)) \<le> 1024"
    unfolding card_atLeastLessThan by linarith
  then show "length (tokenGroup m len) \<le> 1024"
    using distinct_card [OF dist] by simp
qed

lemma tierStep_table_ok:
  assumes "tier_ok m" "table_ok bl" "len \<in> {1, 2, 3, 4}"
  shows "table_ok (writeGroup len (tierStart len) (tokenGroup m len) bl)"
proof -
  have "len * length (tokenGroup m len) \<le> len * 1024"
    using tokenGroup_facts(4) [OF assms(1)] by simp
  then show ?thesis
    using tokenGroup_facts(2) [OF assms(1), of len] assms(3)
    by (intro writeGroup_table_ok [OF assms(2)]) (auto simp: list_all_iff tierStart_def)
qed

lemma tierStep_holds:
  assumes "tier_ok m" "table_ok bl" "len \<in> {1, 2, 3, 4}" "(t, c) \<in> set m" "length t = len"
  shows "holdsIn (tierStart len) (tierStart len + len * 1024)
    (writeGroup len (tierStart len) (tokenGroup m len) bl) (t, c)"
proof -
  have le: "len * length (tokenGroup m len) \<le> len * 1024"
    using tokenGroup_facts(4) [OF assms(1)] by simp
  then have "list_all (holdsIn (tierStart len) (tierStart len + len * length (tokenGroup m len))
      (writeGroup len (tierStart len) (tokenGroup m len) bl)) (tokenGroup m len)"
    using tokenGroup_facts(2,3) [OF assms(1), of len] assms(3)
    by (intro writeGroup_holds [OF assms(2)]) (auto simp: tierStart_def)
  moreover have "(t, c) \<in> set (tokenGroup m len)"
    using tokenGroup_facts(1) [OF assms(1)] assms(4,5) by simp
  ultimately show ?thesis
    using le by (auto simp: list_all_iff elim!: holdsIn_mono)
qed

lemma tierStep_frame:
  assumes "tier_ok m" "table_ok bl" "len \<in> {1, 2, 3, 4}" "(t, c) \<in> set m" "length t \<in> {1, 2, 3, 4}" "length t \<noteq> len"
    and "holdsIn (tierStart (length t)) (tierStart (length t) + length t * 1024) bl (t, c)"
  shows "holdsIn (tierStart (length t)) (tierStart (length t) + length t * 1024)
    (writeGroup len (tierStart len) (tokenGroup m len) bl) (t, c)"
proof (rule writeGroup_frame [OF assms(7,2)])
  have le: "len * length (tokenGroup m len) \<le> len * 1024"
    using tokenGroup_facts(4) [OF assms(1)] by simp
  show "list_all (\<lambda>(t, _). length t = len) (tokenGroup m len)"
    using tokenGroup_facts(2) [OF assms(1), of len] by (auto simp: list_all_iff)
  show "tierStart len + len * length (tokenGroup m len) \<le> 10240"
    using le assms(3) by (auto simp: tierStart_def)
  show "tierStart (length t) + length t * 1024 \<le> tierStart len \<or>
      tierStart len + len * length (tokenGroup m len) \<le> tierStart (length t)"
    using le assms(3,5,6) by (auto simp: tierStart_def)
  show "c \<notin> snd ` set (tokenGroup m len)"
  proof
    assume "c \<in> snd ` set (tokenGroup m len)"
    then obtain t' where "(t', c) \<in> set m" "length t' = len"
      using tokenGroup_facts(1) [OF assms(1)] by auto
    then have "length t' = tier_length c" "length t = tier_length c"
      using assms(1,4) by (auto simp: tier_ok_def list_all_iff)
    with assms(6) \<open>length t' = len\<close> show False by simp
  qed
qed

lemma makeDictBlobs_ok:
  assumes "tier_ok m"
  shows "table_ok (makeDictBlobs m)"
    and "(t, c) \<in> set m \<Longrightarrow> holdsIn (tierStart (length t)) (tierStart (length t) + length t * 1024) (makeDictBlobs m) (t, c)"
proof -
  let ?w = "\<lambda>len bl. writeGroup len (tierStart len) (tokenGroup m len) bl"
  define b0 :: dict_blobs where "b0 = (zeros 10240, replicate 4096 0, replicate 4096 0)"
  have ok0: "table_ok b0" by (simp add: b0_def table_ok_def)
  have ok4: "table_ok (?w 4 b0)" using ok0 assms by (simp add: tierStep_table_ok)
  have ok3: "table_ok (?w 3 (?w 4 b0))" using ok4 assms by (simp add: tierStep_table_ok)
  have ok2: "table_ok (?w 2 (?w 3 (?w 4 b0)))" using ok3 assms by (simp add: tierStep_table_ok)
  have ok1: "table_ok (?w 1 (?w 2 (?w 3 (?w 4 b0))))" using ok2 assms by (simp add: tierStep_table_ok)
  have eq: "makeDictBlobs m = ?w 1 (?w 2 (?w 3 (?w 4 b0)))"
    by (simp add: makeDictBlobs_def b0_def bpe_consts)
  show "table_ok (makeDictBlobs m)" using ok1 eq by simp
  assume mem: "(t, c) \<in> set m"
  then have "length t = tier_length c \<and> c < 4096"
    using assms by (auto simp: tier_ok_def list_all_iff)
  then have "length t \<in> {1, 2, 3, 4}"
    by (auto simp: tier_length_def)
  note cases = this
  define H where "H bl = holdsIn (tierStart (length t)) (tierStart (length t) + length t * 1024) bl (t, c)" for bl
  have keep: "H (?w len bl)" if "H bl" "table_ok bl" "len \<in> {1, 2, 3, 4}" "length t \<noteq> len" for len bl
    using tierStep_frame [OF assms that(2,3) mem cases that(4)] that(1) by (simp add: H_def)
  have start: "H (?w (length t) bl)" if "table_ok bl" for bl
    using tierStep_holds [OF assms that cases mem refl] by (simp add: H_def)
  from cases consider "length t = 4" | "length t = 3" | "length t = 2" | "length t = 1" by blast
  then have "H (?w 1 (?w 2 (?w 3 (?w 4 b0))))"
  proof cases
    case 1
    have "H (?w 4 b0)" using start [OF ok0] 1 by simp
    from keep [OF this ok4] 1 have "H (?w 3 (?w 4 b0))" by simp
    from keep [OF this ok3] 1 have "H (?w 2 (?w 3 (?w 4 b0)))" by simp
    from keep [OF this ok2] 1 show ?thesis by simp
  next
    case 2
    have "H (?w 3 (?w 4 b0))" using start [OF ok4] 2 by simp
    from keep [OF this ok3] 2 have "H (?w 2 (?w 3 (?w 4 b0)))" by simp
    from keep [OF this ok2] 2 show ?thesis by simp
  next
    case 3
    have "H (?w 2 (?w 3 (?w 4 b0)))" using start [OF ok3] 3 by simp
    from keep [OF this ok2] 3 show ?thesis by simp
  next
    case 4
    then show ?thesis using start [OF ok2] by simp
  qed
  then show "holdsIn (tierStart (length t)) (tierStart (length t) + length t * 1024) (makeDictBlobs m) (t, c)"
    by (simp add: eq H_def)
qed

lemma buildDictionary_fields:
  "tokenToCode (buildDictionary corpus) = topTokens (countWindows corpus) 1024"
  "(dictBytes (buildDictionary corpus), dictOffsets (buildDictionary corpus), dictLengths (buildDictionary corpus))
     = makeDictBlobs (topTokens (countWindows corpus) 1024)"
  by (simp_all add: buildDictionary_def Let_def CODES_PER_TIER_def split: prod.splits)

lemma codeToken_build:
  assumes "(tok, code) \<in> set (tokenToCode (buildDictionary corpus))" "code \<noteq> 0"
  shows "codeToken (buildDictionary corpus) code = tok"
proof -
  let ?d = "buildDictionary corpus"
  let ?b = "(dictBytes ?d, dictOffsets ?d, dictLengths ?d)"
  have ok: "table_ok ?b" "holdsIn (tierStart (length tok)) (tierStart (length tok) + length tok * 1024) ?b (tok, code)"
    using makeDictBlobs_ok(1) [OF topTokens_tier_ok, of corpus]
      makeDictBlobs_ok(2) [OF topTokens_tier_ok, of tok code corpus] assms(1)
    unfolding buildDictionary_fields by simp_all
  have "length tok = tier_length code"
    using topTokens_tier_ok [of corpus] assms(1) by (auto simp: buildDictionary_fields(1) tier_ok_def list_all_iff)
  then have "tierStart (length tok) + length tok * 1024 \<le> 10240"
    by (auto simp: tierStart_def tier_length_def)
  then show ?thesis
    using ok assms(2) by (simp add: codeToken_def table_ok_def holdsIn_def toKey_slice)
qed

lemma buildDictionary_sound: "dict_sound (buildDictionary corpus)"
  using topTokens_tier_ok [of corpus] codeToken_build [of _ _ corpus]
  by (auto simp: dict_sound_def list_all_iff tier_ok_def buildDictionary_fields(1) tier_length_def)

lemma buildDictionary_complete: "dict_complete (buildDictionary corpus)"
  unfolding dict_complete_def list_all_iff buildDictionary_fields(1)
  using topTokens_complete [of _ corpus] by simp

section \<open>Dictionaries read back\<close>

lemma fromBytes_tokens:
  "(tok, code) \<in> set (foldl (\<lambda>m code. let key = toKey bs (tier_offset code) (tier_length code) in
        if map_get m key = None then map_set m key code else m) m0 codes) \<Longrightarrow>
   (tok, code) \<in> set m0 \<or> code \<in> set codes \<and> tok = toKey bs (tier_offset code) (tier_length code)"
proof (induction codes arbitrary: m0)
  case (Cons c codes)
  then show ?case
    using set_map_set [of m0 "toKey bs (tier_offset c) (tier_length c)" c]
    by (fastforce simp: Let_def split: if_splits)
qed simp

lemma fromBytes_sound:
  assumes "bpeDictionaryFromBytes bs = Inr d"
  shows "dict_sound d"
proof -
  have "code < 4096 \<and> (code = 0 \<longrightarrow> length tok = 4) \<and> (code \<noteq> 0 \<longrightarrow> codeToken d code = tok)"
    if "(tok, code) \<in> set (tokenToCode d)" for tok code
  proof -
    have "code \<in> set [0..<TOTAL_CODES] \<and> tok = toKey bs (tier_offset code) (tier_length code)"
      using that assms fromBytes_tokens [of tok code bs "[]" "[0..<TOTAL_CODES]"]
      by (auto simp: bpeDictionaryFromBytes_def split: if_splits)
    then have "code < 4096" "tok = toKey bs (tier_offset code) (tier_length code)"
      by (simp_all add: TOTAL_CODES_def)
    moreover have "codeToken d code = toKey bs (tier_offset code) (tier_length code)" if "code < 4096" "code \<noteq> 0"
      using assms that by (auto simp: bpeDictionaryFromBytes_def codeToken_def TOTAL_CODES_def split: if_splits)
    ultimately show ?thesis
      by (auto simp: length_toKey tier_length_def)
  qed
  then show ?thesis
    by (auto simp: dict_sound_def list_all_iff)
qed

lemma serialize_layout:
  assumes "length (dictBytes d) = 10240" "length (dictOffsets d) = 4096" "length (dictLengths d) = 4096"
  shows "serializeDictionary d = dictBytes d @ concat (map (\<lambda>i. be 2 (dictOffsets d ! i)) [0..<4096]) @ map of_nat (dictLengths d)"
proof -
  let ?o = "concat (map (\<lambda>i. be 2 (dictOffsets d ! i)) [0..<4096])"
  have len: "length ?o = 8192"
    using length_concat_chunks [of 4096 "\<lambda>i. be 2 (dictOffsets d ! i)" 2] by simp
  have "uset (zeros 22528) (dictBytes d) 0 = dictBytes d @ zeros 12288"
    using assms by (simp add: uset_fill_0)
  moreover have "foldl (\<lambda>b i. uset b (be 2 (dictOffsets d ! i)) (10240 + i * 2)) (dictBytes d @ zeros 12288) [0..<4096]
      = dictBytes d @ ?o @ zeros 4096"
    using foldl_fill_chunks [of 4096 "\<lambda>i. be 2 (dictOffsets d ! i)" 2 12288 "dictBytes d" 10240] assms by simp
  moreover have "uset ((dictBytes d @ ?o) @ zeros 4096) (map of_nat (dictLengths d)) 18432
      = (dictBytes d @ ?o) @ map of_nat (dictLengths d)"
    using assms len by (subst uset_fill) simp_all
  ultimately show ?thesis
    unfolding serializeDictionary_def Let_def bpe_consts by simp
qed

lemma deserialize_serialize:
  assumes "length (dictBytes d) = 10240" "length (dictOffsets d) = 4096" "length (dictLengths d) = 4096"
    and "list_all (\<lambda>x. x < 65536) (dictOffsets d)" "list_all (\<lambda>x. x < 256) (dictLengths d)"
  shows "\<exists>d'. deserializeDictionary (serializeDictionary d) = Inr d' \<and> dictBytes d' = dictBytes d
    \<and> dictOffsets d' = dictOffsets d \<and> dictLengths d' = dictLengths d"
proof -
  let ?f = "\<lambda>i. be 2 (dictOffsets d ! i)"
  let ?o = "concat (map ?f [0..<4096])"
  let ?s = "serializeDictionary d"
  note layout = serialize_layout [OF assms(1-3)]
  have len: "length ?o = 8192"
    using length_concat_chunks [of 4096 ?f 2] by simp
  have bytes: "slice ?s 0 10240 = dictBytes d"
    using assms by (simp add: layout slice_def)
  have lens: "map unat (slice ?s 18432 22528) = dictLengths d"
    using assms len by (simp add: layout slice_append_skip slice_all)
      (rule map_idI, simp add: list_all_iff unat_byte_of_nat)
  have off: "unbe (slice ?s (10240 + i * 2) (10240 + i * 2 + 2)) = dictOffsets d ! i" if "i < 4096" for i
  proof -
    have "slice ?s (10240 + i * 2) (10240 + i * 2 + 2) = slice ?o (2 * i) (2 * i + 2)"
      using assms len that by (simp add: layout slice_append_skip slice_append_take mult.commute)
    also have "\<dots> = be 2 (dictOffsets d ! i)"
      using that by (intro slice_concat_chunk) simp_all
    finally show ?thesis
      using assms(2,4) that by (simp add: list_all_length)
  qed
  have offs: "map (\<lambda>i. unbe (slice ?s (10240 + i * 2) (10240 + i * 2 + 2))) [0..<4096] = dictOffsets d"
    using assms(2) off by (intro nth_equalityI) simp_all
  have "length ?s = 22528"
    using assms len by (simp add: layout)
  then show ?thesis
    unfolding deserializeDictionary_def Let_def bpe_consts
    using bytes lens offs by simp
qed

section \<open>A zero window in the corpus\<close>

text \<open>
  When the four-byte window of zeros is itself frequent, assigning it a code
  overwrites its entry for code 0, the first four-byte group starts with code 1
  at offset 0, and every offset of that tier is one slot below the canonical one.
\<close>

definition zero_corpus :: bytes where
  "zero_corpus = [0, 0, 0, 0, 0, 1]"

lemma assignCodes_group:
  "list_all (\<lambda>t. length t \<noteq> len) toks \<Longrightarrow>
   filter (\<lambda>(t, _). length t = len) (assignCodes code toks m) = filter (\<lambda>(t, _). length t = len) m"
proof (induction code toks m rule: assignCodes.induct)
  case (2 code tok toks m)
  have "length k \<noteq> len \<Longrightarrow> filter (\<lambda>(t, _). length t = len) (map_set m k v) = filter (\<lambda>(t, _). length t = len) m" for m :: tokens and k v
    by (induction m k v rule: map_set.induct) auto
  with 2 show ?case by simp
qed simp

lemma zeros_4_list: "zeros 4 = [0, 0, 0, 0]"
  by (simp add: zeros_def numeral_eq_Suc)

lemma zero_corpus_windows: "topBy 1023 (countWindow zero_corpus 4) = [[0, 0, 0, 0], [0, 0, 0, 1]]"
  by (simp add: countWindow_def zero_corpus_def toKey_def upt_rec topBy_def Let_def)

lemma zero_corpus_group:
  "tokenGroup (topTokens (countWindows zero_corpus) 1024) 4 = [([0, 0, 0, 0], 1), ([0, 0, 0, 1], 2)]"
proof -
  let ?t = "\<lambda>n L. topBy n (countWindow zero_corpus L)"
  have ne: "list_all (\<lambda>t. length t \<noteq> 4) (?t 1024 3)" "list_all (\<lambda>t. length t \<noteq> 4) (?t 1024 2)"
    unfolding list_all_length by (simp_all add: topBy_lengths)
  have "assignCodes 1 (?t 1023 4) (map_set [] (zeros 4) 0) = [([0, 0, 0, 0], 1), ([0, 0, 0, 1], 2)]"
    by (simp add: zero_corpus_windows zeros_4_list)
  then show ?thesis
    using ne by (simp add: tokenGroup_def topTokens_def countWindows_def Let_def assignCodes_group list_all_iff)
qed

lemma later_tiers_frame:
  assumes "tier_ok m" "table_ok bl" "len \<in> {1, 2, 3}" "holdsIn lo hi bl (t, c)" "hi \<le> 4096" "c < 1024"
  shows "holdsIn lo hi (writeGroup len (tierStart len) (tokenGroup m len) bl) (t, c)"
proof (rule writeGroup_frame [OF assms(4,2)])
  have le: "len * length (tokenGroup m len) \<le> len * 1024"
    using tokenGroup_facts(4) [OF assms(1)] by simp
  show "list_all (\<lambda>(t, _). length t = len) (tokenGroup m len)"
    using tokenGroup_facts(2) [OF assms(1), of len] by (auto simp: list_all_iff)
  show "tierStart len + len * length (tokenGroup m len) \<le> 10240"
    using le assms(3) by (auto simp: tierStart_def)
  show "hi \<le> tierStart len \<or> tierStart len + len * length (tokenGroup m len) \<le> lo"
    using assms(3,5) by (auto simp: tierStart_def)
  show "c \<notin> snd ` set (tokenGroup m len)"
  proof
    assume "c \<in> snd ` set (tokenGroup m len)"
    then obtain t' where t': "(t', c) \<in> set m" "length t' = len"
      using tokenGroup_facts(1) [OF assms(1)] by auto
    then have "length t' = tier_length c"
      using assms(1) by (auto simp: tier_ok_def list_all_iff)
    with t'(2) assms(3,6) show False by (auto simp: tier_length_def)
  qed
qed

lemma zero_dictionary_table:
  "holdsIn 0 4 (makeDictBlobs (topTokens (countWindows zero_corpus) 1024)) ([0, 0, 0, 0], 1)"
  "holdsIn 4 8 (makeDictBlobs (topTokens (countWindows zero_corpus) 1024)) ([0, 0, 0, 1], 2)"
proof -
  let ?m = "topTokens (countWindows zero_corpus) 1024"
  let ?w = "\<lambda>len bl. writeGroup len (tierStart len) (tokenGroup ?m len) bl"
  define b0 :: dict_blobs where "b0 = (zeros 10240, replicate 4096 0, replicate 4096 0)"
  have m: "tier_ok ?m" by (rule topTokens_tier_ok)
  have "table_ok b0" by (simp add: b0_def table_ok_def)
  then have ok4: "table_ok (?w 4 b0)" using m by (simp add: tierStep_table_ok)
  then have ok3: "table_ok (?w 3 (?w 4 b0))" using m by (simp add: tierStep_table_ok)
  then have ok2: "table_ok (?w 2 (?w 3 (?w 4 b0)))" using m by (simp add: tierStep_table_ok)
  have eq: "makeDictBlobs ?m = ?w 1 (?w 2 (?w 3 (?w 4 b0)))"
    by (simp add: makeDictBlobs_def b0_def bpe_consts)
  have four: "?w 4 b0 = (uset (uset (zeros 10240) [0, 0, 0, 0] 0) [0, 0, 0, 1] 4,
      (replicate 4096 0)[1 := 0, 2 := 4], (replicate 4096 0)[1 := 4, 2 := 4])"
    by (simp add: zero_corpus_group b0_def tierStart_def)
  have s: "slice (uset (uset (zeros 10240) [0, 0, 0, 0] 0) [0, 0, 0, 1] 4) 0 4 = [0, 0, 0, 0]"
    "slice (uset (uset (zeros 10240) [0, 0, 0, 0] 0) [0, 0, 0, 1] 4) 4 8 = [0, 0, 0, 1]"
    using slice_uset_same [of 4 "[0, 0, 0, 1]" "uset (zeros 10240) [0, 0, 0, 0] 0"]
    by (simp_all add: slice_uset_other) (simp add: uset_def slice_def)
  have k4: "Suc (Suc (Suc (Suc 0))) = 4"
    by simp
  have "holdsIn 0 4 (?w 4 b0) ([0, 0, 0, 0], 1)" "holdsIn 4 8 (?w 4 b0) ([0, 0, 0, 1], 2)"
    unfolding four holdsIn_def using s by (simp_all add: nth_list_update k4)
  moreover have "holdsIn lo hi (makeDictBlobs ?m) (t, c)"
    if "holdsIn lo hi (?w 4 b0) (t, c)" "hi \<le> 4096" "c < 1024" for lo hi t c
    using later_tiers_frame [OF m ok2 _ later_tiers_frame [OF m ok3 _ later_tiers_frame [OF m ok4 _ that]]] that(2,3)
    by (simp add: eq)
  ultimately show "holdsIn 0 4 (makeDictBlobs ?m) ([0, 0, 0, 0], 1)" "holdsIn 4 8 (makeDictBlobs ?m) ([0, 0, 0, 1], 2)"
    by simp_all
qed

lemma zero_dictionary_code: "map_get (tokenToCode (buildDictionary zero_corpus)) [0, 0, 0, 0] = Some 1"
proof -
  let ?m = "tokenToCode (buildDictionary zero_corpus)"
  have frame: "map_get (assignCodes code toks m) t = map_get m t" if "t \<notin> set toks" for code toks m t
    using that by (induction code toks m rule: assignCodes.induct) auto
  have ne: "t \<notin> set (topBy n (countWindow zero_corpus L))" if "length t \<noteq> L" for t n L
    using that subsetD [OF set_topBy] countWindow_lengths by blast
  show ?thesis
    by (simp add: buildDictionary_fields(1) topTokens_def countWindows_def Let_def frame ne
        zero_corpus_windows image_iff)
qed

lemma zero_dictionary_mismatch:
  assumes "bpeDictionaryFromBytes (dictBytes (buildDictionary zero_corpus)) = Inr chain"
  shows "bpeDecode (bpeEncode [0, 0, 0, 0] (buildDictionary zero_corpus)) chain = Inr [0, 0, 0, 1]"
proof -
  let ?d = "buildDictionary zero_corpus"
  have ok: "length (dictBytes ?d) = 10240"
    using makeDictBlobs_ok(1) [OF topTokens_tier_ok, of zero_corpus]
    by (simp add: table_ok_def flip: buildDictionary_fields(2))
  have hold: "holdsIn 4 8 (dictBytes ?d, dictOffsets ?d, dictLengths ?d) ([0, 0, 0, 1], 2)"
    using zero_dictionary_table(2) by (simp only: buildDictionary_fields(2))
  then have "slice (dictBytes ?d) 4 8 = [0, 0, 0, 1]"
    by (auto simp: holdsIn_def)
  then have chain1: "codeToken chain 1 = [0, 0, 0, 1]"
    using assms ok by (auto simp: bpeDictionaryFromBytes_def codeToken_def tier_offset_def tier_length_def
        TOTAL_CODES_def DICT_BYTES_SIZE_def toKey_slice split: if_splits)
  have "encodeCodes (tokenToCode ?d) [0, 0, 0, 0] = [1]"
    by (simp add: pickCode_def tryToken_def zero_dictionary_code)
  then have "bpeDecode (bpeEncode [0, 0, 0, 0] ?d) chain = Inr (codeToken chain 1 @ codeToken chain 0)"
    using unpackCodes_packCodes [of "[1, 0]"] by (simp add: bpeEncode_def bpeDecode_def Let_def)
  then show ?thesis
    using chain1 by (simp add: codeToken_def)
qed

section \<open>Properties\<close>

text \<open>
  C12. For a dictionary built from any corpus, decoding what the greedy encoder
  wrote gives back the data: every byte string is encodable, every emitted code
  stands for the bytes it replaced, and the padding code adds nothing.
\<close>

theorem bpe_roundtrip:
  "bpeDecode (bpeEncode data (buildDictionary corpus)) (buildDictionary corpus) = Inr data"
  by (rule bpe_decode_encode [OF buildDictionary_sound buildDictionary_complete])

text \<open>
  When the zero window is frequent in the corpus, the built dictionary is not
  the one the on-chain table stands for: the table reconstructed from its own
  10240 bytes decodes the encoding of four zero bytes to different bytes.
\<close>

theorem bpe_zero_window_breaks_canonical_layout:
  "\<exists>chain. bpeDictionaryFromBytes (dictBytes (buildDictionary zero_corpus)) = Inr chain
     \<and> bpeDecode (bpeEncode [0, 0, 0, 0] (buildDictionary zero_corpus)) chain = Inr [0, 0, 0, 1]"
proof -
  have "length (dictBytes (buildDictionary zero_corpus)) = 10240"
    using makeDictBlobs_ok(1) [OF topTokens_tier_ok, of zero_corpus]
    by (simp add: table_ok_def flip: buildDictionary_fields(2))
  then obtain chain where "bpeDictionaryFromBytes (dictBytes (buildDictionary zero_corpus)) = Inr chain"
    by (simp add: bpeDictionaryFromBytes_def DICT_BYTES_SIZE_def)
  then show ?thesis
    using zero_dictionary_mismatch by blast
qed

end
