(* ===== verification/Hex.thy ===== *)
theory Hex
  imports Prelude
begin

text \<open>
  Hex strings, the form in which the repository passes addresses, hashes, tags
  and raw blobs: hexToBytes and bytesToHex of packages/bam-sdk/src/message.ts,
  JavaScript's toLowerCase on them, and the canonical tag comparison the
  packages build on it.  A string is a list of characters; the code only ever
  gives these functions ASCII strings.
\<close>

datatype hex_error = OddLength | NonHexCharacter

definition char_code :: "char \<Rightarrow> nat" where
  "char_code c = of_char c"

definition is_hex_char :: "char \<Rightarrow> bool" where
  "is_hex_char c = (let n = char_code c in
     (48 \<le> n \<and> n \<le> 57) \<or> (97 \<le> n \<and> n \<le> 102) \<or> (65 \<le> n \<and> n \<le> 70))"

definition hex_val :: "char \<Rightarrow> nat" where
  "hex_val c = (let n = char_code c in
     if n \<le> 57 then n - 48 else if n \<le> 70 then n - 55 else n - 87)"

definition hex_digit :: "nat \<Rightarrow> char" where
  "hex_digit n = ''0123456789abcdef'' ! n"

fun hex_pairs :: "string \<Rightarrow> bytes" where
  "hex_pairs (a # b # s) = of_nat (hex_val a * 16 + hex_val b) # hex_pairs s"
| "hex_pairs _ = []"

definition strip0x :: "string \<Rightarrow> string" where
  "strip0x hex = (if take 2 hex = ''0x'' then drop 2 hex else hex)"

definition hexToBytes :: "string \<Rightarrow> hex_error + bytes" where
  "hexToBytes hex =
     (let cleanHex = strip0x hex in
      if length cleanHex mod 2 \<noteq> 0 then Inl OddLength
      else if \<not> list_all is_hex_char cleanHex then Inl NonHexCharacter
      else Inr (hex_pairs cleanHex))"

definition hex_byte :: "byte \<Rightarrow> string" where
  "hex_byte b = [hex_digit (unat b div 16), hex_digit (unat b mod 16)]"

definition bytesToHex :: "bytes \<Rightarrow> string" where
  "bytesToHex bs = ''0x'' @ concat (map hex_byte bs)"

definition lower_char :: "char \<Rightarrow> char" where
  "lower_char c = (if 65 \<le> char_code c \<and> char_code c \<le> 90 then char_of (char_code c + 32) else c)"

definition toLowerCase :: "string \<Rightarrow> string" where
  "toLowerCase s = map lower_char s"

section \<open>Digits\<close>

lemma less_16_cases:
  "(n::nat) < 16 \<Longrightarrow> n \<in> {0, 1, 2, 3, 4, 5, 6, 7, 8, 9, 10, 11, 12, 13, 14, 15}"
  by simp presburger

lemma hex_digit_facts:
  assumes "n < 16"
  shows "hex_val (hex_digit n) = n" and "is_hex_char (hex_digit n)"
    and "lower_char (hex_digit n) = hex_digit n"
  using less_16_cases [OF assms]
  by (auto simp: hex_digit_def hex_val_def is_hex_char_def lower_char_def char_code_def Let_def)

lemma hex_char_cases:
  assumes "is_hex_char c"
  shows "c \<in> set ''0123456789abcdefABCDEF''"
proof -
  have c: "c = char_of (char_code c)"
    by (simp add: char_code_def)
  have "char_code c \<in> {48..57} \<union> {97..102} \<union> {65..70}"
    using assms by (auto simp: is_hex_char_def Let_def)
  also have "{48..57} \<union> {97..102} \<union> {65..70} =
     set ([48..<58] @ [97..<103] @ [65..<71])"
    by (simp only: set_append set_upt) auto
  finally have "c \<in> char_of ` set ([48..<58] @ [97..<103] @ [65..<71])"
    using c by blast
  then show ?thesis
    by (simp add: upt_rec char_of_def bit_0)
qed

lemma hex_val_lt: "is_hex_char c \<Longrightarrow> hex_val c < 16"
  by (auto simp: is_hex_char_def hex_val_def Let_def)

lemma hex_digit_val: "is_hex_char c \<Longrightarrow> hex_digit (hex_val c) = lower_char c"
  by (drule hex_char_cases)
    (auto simp: hex_digit_def hex_val_def lower_char_def char_code_def Let_def char_of_def bit_0)

lemma lower_hex_char:
  assumes "is_hex_char c"
  shows "is_hex_char (lower_char c)" and "hex_val (lower_char c) = hex_val c"
  using hex_digit_val [OF assms] hex_digit_facts [OF hex_val_lt [OF assms]] by simp_all

lemma lower_char_idem [simp]: "lower_char (lower_char c) = lower_char c"
proof -
  have "char_code (char_of (char_code c + 32)) = char_code c + 32" if "char_code c \<le> 90"
    using that by (simp add: char_code_def)
  then show ?thesis
    by (auto simp: lower_char_def)
qed

lemma toLowerCase_idem [simp]: "toLowerCase (toLowerCase s) = toLowerCase s"
  by (simp add: toLowerCase_def)

lemma length_toLowerCase [simp]: "length (toLowerCase s) = length s"
  by (simp add: toLowerCase_def)

section \<open>Round trips\<close>

lemma hex_pairs_hex_byte [simp]: "hex_pairs (hex_byte b @ s) = b # hex_pairs s"
proof -
  have "unat b < 256" by (rule unat_byte_lt)
  then have lt: "unat b div 16 < 16" by simp
  have "of_nat (unat b div 16 * 16 + unat b mod 16) = b"
    by (simp only: div_mult_mod_eq) simp
  with lt show ?thesis
    by (simp add: hex_byte_def hex_digit_facts)
qed

lemma hex_byte_hex: "list_all is_hex_char (hex_byte b)"
proof -
  have "unat b div 16 < 16" using unat_byte_lt [of b] by simp
  then show ?thesis by (simp add: hex_byte_def hex_digit_facts)
qed

lemma length_hex_byte [simp]: "length (hex_byte b) = 2"
  by (simp add: hex_byte_def)

lemma concat_hex_bytes:
  "hex_pairs (concat (map hex_byte bs)) = bs"
  "list_all is_hex_char (concat (map hex_byte bs))"
  "length (concat (map hex_byte bs)) = 2 * length bs"
  by (induction bs) (simp_all add: hex_byte_hex)

lemma hexToBytes_bytesToHex [simp]: "hexToBytes (bytesToHex bs) = Inr bs"
  by (simp add: hexToBytes_def bytesToHex_def strip0x_def concat_hex_bytes)

lemma length_bytesToHex [simp]: "length (bytesToHex bs) = 2 + 2 * length bs"
  by (simp add: bytesToHex_def concat_hex_bytes)

lemma bytesToHex_inject [simp]: "bytesToHex xs = bytesToHex ys \<longleftrightarrow> xs = ys"
  by (metis hexToBytes_bytesToHex sum.inject(2))

lemma length_hex_pairs: "length (hex_pairs s) = length s div 2"
  by (induction s rule: hex_pairs.induct) auto

lemma hex_pairs_back:
  "list_all is_hex_char s \<Longrightarrow> even (length s) \<Longrightarrow>
   concat (map hex_byte (hex_pairs s)) = toLowerCase s"
proof (induction s rule: hex_pairs.induct)
  case (1 a b s)
  have lt: "hex_val a < 16" "hex_val b < 16"
    using 1 hex_val_lt by simp_all
  then have "hex_byte (of_nat (hex_val a * 16 + hex_val b)) = [lower_char a, lower_char b]"
    using 1 by (simp add: hex_byte_def unat_byte_of_nat hex_digit_val del: of_nat_add of_nat_mult)
  with 1 show ?case
    by (simp add: toLowerCase_def)
qed (auto simp: toLowerCase_def)

lemma hexToBytes_canonical:
  "hexToBytes h = Inr bs \<Longrightarrow> bytesToHex bs = ''0x'' @ toLowerCase (strip0x h)"
  by (auto simp: hexToBytes_def bytesToHex_def Let_def hex_pairs_back split: if_splits)

lemma hexToBytes_length:
  "hexToBytes h = Inr bs \<Longrightarrow> length (strip0x h) = 2 * length bs"
  by (auto simp: hexToBytes_def Let_def length_hex_pairs split: if_splits)

lemma lower_x [simp]: "lower_char (CHR ''x'') = CHR ''x''" "lower_char (CHR ''0'') = CHR ''0''"
  by (simp_all add: lower_char_def char_code_def)

lemma hex_byte_lower: "toLowerCase (hex_byte b) = hex_byte b"
proof -
  have "unat b div 16 < 16" using unat_byte_lt [of b] by simp
  then show ?thesis by (simp add: hex_byte_def toLowerCase_def hex_digit_facts)
qed

lemma toLowerCase_append: "toLowerCase (s @ t) = toLowerCase s @ toLowerCase t"
  by (simp add: toLowerCase_def)

lemma toLowerCase_bytesToHex [simp]: "toLowerCase (bytesToHex bs) = bytesToHex bs"
proof -
  have "toLowerCase (concat (map hex_byte bs)) = concat (map hex_byte bs)"
    by (induction bs) (simp_all add: toLowerCase_append hex_byte_lower, simp add: toLowerCase_def)
  then show ?thesis
    by (simp add: bytesToHex_def toLowerCase_append) (simp add: toLowerCase_def)
qed

text \<open>
  A hex string the rest of the code treats as canonical: 0x, then an even number
  of lower-case hex digits.  These are exactly the values bytesToHex produces.
\<close>

definition canonical_hex :: "nat \<Rightarrow> string \<Rightarrow> bool" where
  "canonical_hex n h = (\<exists>bs. length bs = n \<and> h = bytesToHex bs)"

lemma canonical_hexE:
  assumes "canonical_hex n h"
  obtains bs where "length bs = n" "h = bytesToHex bs" "hexToBytes h = Inr bs"
  using assms by (auto simp: canonical_hex_def)

lemma canonical_hex_lower: "canonical_hex n h \<Longrightarrow> toLowerCase h = h"
  by (auto simp: canonical_hex_def)

lemma canonical_hex_bytesToHex [simp]: "canonical_hex n (bytesToHex bs) \<longleftrightarrow> length bs = n"
  by (auto simp: canonical_hex_def)

end
