(* ===== verification/Message.thy ===== *)
theory Message
  imports Hex
begin

text \<open>
  The ERC-8180 message primitives of packages/bam-sdk/src/message.ts: the
  message record, computeMessageHash and computeMessageId.  keccak_256 is
  third-party code (@noble/hashes): it is the parameter keccak, and what the
  code relies on, that different preimages have different hashes, is only used
  where a property says so.
\<close>

record bam_message =
  m_sender :: string
  m_nonce :: int
  m_contents :: bytes

datatype message_error =
    NonceOutOfRange
  | SenderNot20
  | ContentTagNot32
  | BatchContentHashNot32
  | MessageHex hex_error

definition uint64_max :: int where
  "uint64_max = 0xffffffffffffffff"

definition writeUint64BE :: "bytes \<Rightarrow> nat \<Rightarrow> int \<Rightarrow> bytes" where
  "writeUint64BE buf off v = store_be 8 buf off v"

text \<open>
  The function hexField is the step both functions repeat: decode a hex string, whose
  own error is thrown through, and check its byte length.
\<close>

definition hexField :: "string \<Rightarrow> nat \<Rightarrow> message_error \<Rightarrow> message_error + bytes" where
  "hexField h n err =
     (case hexToBytes h of
        Inl e \<Rightarrow> Inl (MessageHex e)
      | Inr bs \<Rightarrow> if length bs \<noteq> n then Inl err else Inr bs)"

definition messagePreimage :: "string \<Rightarrow> string \<Rightarrow> int \<Rightarrow> bytes \<Rightarrow> message_error + bytes" where
  "messagePreimage sender contentTag nonce contents =
     (if nonce < 0 \<or> nonce > uint64_max then Inl NonceOutOfRange
      else ebind (hexField sender 20 SenderNot20) (\<lambda>senderBytes.
           ebind (hexField contentTag 32 ContentTagNot32) (\<lambda>tagBytes.
             let buf0 = zeros (20 + 32 + 8 + length contents);
                 buf1 = uset buf0 senderBytes 0;
                 buf2 = uset buf1 tagBytes 20;
                 buf3 = writeUint64BE buf2 52 nonce
             in Inr (uset buf3 contents 60))))"

definition computeMessageHash ::
  "(bytes \<Rightarrow> bytes) \<Rightarrow> string \<Rightarrow> string \<Rightarrow> int \<Rightarrow> bytes \<Rightarrow> message_error + string" where
  "computeMessageHash keccak sender contentTag nonce contents =
     ebind (messagePreimage sender contentTag nonce contents) (\<lambda>buf. Inr (bytesToHex (keccak buf)))"

definition computeMessageHashForMessage ::
  "(bytes \<Rightarrow> bytes) \<Rightarrow> bam_message \<Rightarrow> string \<Rightarrow> message_error + string" where
  "computeMessageHashForMessage keccak message contentTag =
     computeMessageHash keccak (m_sender message) contentTag (m_nonce message) (m_contents message)"

definition messageIdPreimage :: "string \<Rightarrow> string \<Rightarrow> int \<Rightarrow> string \<Rightarrow> message_error + bytes" where
  "messageIdPreimage sender contentTag nonce batchContentHash =
     (if nonce < 0 \<or> nonce > uint64_max then Inl NonceOutOfRange
      else ebind (hexField sender 20 SenderNot20) (\<lambda>senderBytes.
           ebind (hexField contentTag 32 ContentTagNot32) (\<lambda>tagBytes.
           ebind (hexField batchContentHash 32 BatchContentHashNot32) (\<lambda>bchBytes.
             let buf0 = zeros (20 + 32 + 8 + 32);
                 buf1 = uset buf0 senderBytes 0;
                 buf2 = uset buf1 tagBytes 20;
                 buf3 = writeUint64BE buf2 52 nonce
             in Inr (uset buf3 bchBytes 60)))))"

definition computeMessageId ::
  "(bytes \<Rightarrow> bytes) \<Rightarrow> string \<Rightarrow> string \<Rightarrow> int \<Rightarrow> string \<Rightarrow> message_error + string" where
  "computeMessageId keccak sender contentTag nonce batchContentHash =
     ebind (messageIdPreimage sender contentTag nonce batchContentHash) (\<lambda>buf. Inr (bytesToHex (keccak buf)))"

section \<open>The preimages are the packed concatenation\<close>

definition uint64 :: "int \<Rightarrow> bool" where
  "uint64 n \<longleftrightarrow> 0 \<le> n \<and> n \<le> uint64_max"

lemma uint64_iff: "uint64 n \<longleftrightarrow> 0 \<le> n \<and> n < 256 ^ 8"
  by (auto simp: uint64_def uint64_max_def)

lemma uint64_nat: "uint64 n \<Longrightarrow> nat n < 256 ^ 8"
  by (auto simp: uint64_iff nat_less_iff)

lemma uint64_be_inject: "uint64 m \<Longrightarrow> uint64 n \<Longrightarrow> be 8 (nat m) = be 8 (nat n) \<longleftrightarrow> m = n"
  using be_inject [OF uint64_nat uint64_nat, of m n] by (auto simp: uint64_def)

lemma hexField_Inr [simp]:
  "hexField h n err = Inr bs \<longleftrightarrow> hexToBytes h = Inr bs \<and> length bs = n"
  by (auto simp: hexField_def split: sum.splits)

lemma writeUint64BE_fill:
  "uint64 v \<Longrightarrow> length xs = off \<Longrightarrow> 8 \<le> k \<Longrightarrow>
   writeUint64BE (xs @ zeros k) off v = xs @ be 8 (nat v) @ zeros (k - 8)"
  by (simp add: writeUint64BE_def store_be_eq uint64_def uset_fill)

lemma packed_fields:
  assumes "length sb = 20" "length tb = 32" "uint64 nonce"
  shows "uset (writeUint64BE (uset (uset (zeros (20 + 32 + 8 + length c)) sb 0) tb 20) 52 nonce) c 60
    = sb @ tb @ be 8 (nat nonce) @ c"
proof -
  have "uset (uset (zeros (20 + 32 + 8 + length c)) sb 0) tb 20
      = (sb @ tb) @ zeros (8 + length c)"
    using assms by (simp add: uset_fill_0 uset_fill)
  then show ?thesis
    using assms writeUint64BE_fill [of nonce "sb @ tb" 52 "8 + length c"]
      uset_fill [of "sb @ tb @ be 8 (nat nonce)" 60 "length c" c]
    by simp
qed

lemma packed_fields_32:
  "length sb = 20 \<Longrightarrow> length tb = 32 \<Longrightarrow> uint64 nonce \<Longrightarrow> length c = 32 \<Longrightarrow>
   uset (writeUint64BE (uset (uset (zeros 92) sb 0) tb 20) 52 nonce) c 60
    = sb @ tb @ be 8 (nat nonce) @ c"
  using packed_fields [of sb tb nonce c] by simp

lemma messagePreimage_Inr:
  "messagePreimage s t n c = Inr buf \<longleftrightarrow>
   uint64 n \<and> (\<exists>sb tb. hexToBytes s = Inr sb \<and> length sb = 20 \<and> hexToBytes t = Inr tb \<and>
     length tb = 32 \<and> buf = sb @ tb @ be 8 (nat n) @ c)"
  by (auto simp: messagePreimage_def Let_def packed_fields [simplified] uint64_def)

lemma messageIdPreimage_Inr:
  "messageIdPreimage s t n h = Inr buf \<longleftrightarrow>
   uint64 n \<and> (\<exists>sb tb hb. hexToBytes s = Inr sb \<and> length sb = 20 \<and> hexToBytes t = Inr tb \<and>
     length tb = 32 \<and> hexToBytes h = Inr hb \<and> length hb = 32 \<and> buf = sb @ tb @ be 8 (nat n) @ hb)"
  by (auto simp: messageIdPreimage_def Let_def packed_fields_32 uint64_def)

lemma append_eq_lengths:
  "xs @ ys = xs' @ ys' \<Longrightarrow> length xs = length xs' \<Longrightarrow> xs = xs' \<and> ys = ys'"
  by simp

lemma messagePreimage_inject:
  assumes "messagePreimage s t n c = Inr buf" "messagePreimage s' t' n' c' = Inr buf"
  shows "hexToBytes s = hexToBytes s' \<and> hexToBytes t = hexToBytes t' \<and> n = n' \<and> c = c'"
  using assms by (auto simp: messagePreimage_Inr uint64_be_inject)

lemma messageIdPreimage_inject:
  assumes "messageIdPreimage s t n h = Inr buf" "messageIdPreimage s' t' n' h' = Inr buf"
  shows "hexToBytes s = hexToBytes s' \<and> hexToBytes t = hexToBytes t' \<and> n = n' \<and> hexToBytes h = hexToBytes h'"
  using assms by (auto simp: messageIdPreimage_Inr uint64_be_inject)

text \<open>
  The two preimages coincide exactly when the message's contents are the 32 bytes
  of the batch content hash.
\<close>

lemma preimages_meet:
  assumes "messagePreimage s t n c = Inr buf" "messageIdPreimage s' t' n' h = Inr buf"
  shows "hexToBytes h = Inr c"
  using assms by (auto simp: messagePreimage_Inr messageIdPreimage_Inr)

section \<open>Properties\<close>

text \<open>
  The message hash binds the sender, the content tag, the nonce and the
  contents: under a hash function without collisions, two calls of
  computeMessageHash that succeed with the same result had the same four inputs
  (hex strings compared as the bytes they denote).
\<close>

theorem message_hash_binds:
  assumes "inj keccak"
    and "computeMessageHash keccak s t n c = Inr h" "computeMessageHash keccak s' t' n' c' = Inr h"
  shows "hexToBytes s = hexToBytes s' \<and> hexToBytes t = hexToBytes t' \<and> n = n' \<and> c = c'"
proof -
  obtain b b' where b: "messagePreimage s t n c = Inr b" "messagePreimage s' t' n' c' = Inr b'"
    and h: "bytesToHex (keccak b) = h" "bytesToHex (keccak b') = h"
    using assms(2,3) by (auto simp: computeMessageHash_def)
  have "b = b'"
    using h assms(1) by (metis bytesToHex_inject injD)
  with b show ?thesis
    using messagePreimage_inject by blast
qed

lemma computeMessageHash_bytes:
  assumes "length sb = 20" "length tb = 32" "uint64 n"
  shows "computeMessageHash keccak (bytesToHex sb) (bytesToHex tb) n c
    = Inr (bytesToHex (keccak (sb @ tb @ be 8 (nat n) @ c)))"
proof -
  have "messagePreimage (bytesToHex sb) (bytesToHex tb) n c = Inr (sb @ tb @ be 8 (nat n) @ c)"
    using assms by (simp add: messagePreimage_Inr)
  then show ?thesis by (simp add: computeMessageHash_def)
qed

theorem message_hash_binds_witness:
  "computeMessageHash (\<lambda>b. b) (bytesToHex (zeros 20)) (bytesToHex (zeros 32)) 7 [1, 2]
     = Inr (bytesToHex (zeros 52 @ be 8 7 @ [1, 2]))
   \<and> hexToBytes (bytesToHex (zeros 20)) = hexToBytes (toLowerCase (bytesToHex (zeros 20)))"
proof -
  have u: "uint64 7" by (simp add: uint64_def uint64_max_def)
  have h: "computeMessageHash (\<lambda>b. b) (bytesToHex (zeros 20)) (bytesToHex (zeros 32)) 7 [1, 2]
     = Inr (bytesToHex (zeros 52 @ be 8 7 @ [1, 2]))"
    using computeMessageHash_bytes [of "zeros 20" "zeros 32" 7 "\<lambda>b. b" "[1, 2]"] u
    by (simp add: zeros_append_left)
  moreover have "computeMessageHash (\<lambda>b. b) (toLowerCase (bytesToHex (zeros 20))) (bytesToHex (zeros 32)) 7 [1, 2]
     = Inr (bytesToHex (zeros 52 @ be 8 7 @ [1, 2]))"
    using h by simp
  ultimately show ?thesis
    using message_hash_binds [OF inj_on_id2 h, of "toLowerCase (bytesToHex (zeros 20))" "bytesToHex (zeros 32)" 7 "[1, 2]"]
    by simp
qed

end
