(* ===== verification/Compression.thy ===== *)
theory Compression
  imports Prelude
begin

unbundle bit_operations_syntax

text \<open>
  packages/bam-sdk/src/compression.ts: the Zstd dictionary loader, the compression
  placeholder, the wrapped decompressor and the two frame-header readers.
  fzstd.decompress is third-party code: it is the parameter fz, taking the data and
  the optional dictionary and either throwing a message or returning the bytes.
\<close>

record zstd_dictionary =
  zd_data :: bytes
  zd_id :: nat

datatype dict_error = DictionaryTooSmall | InvalidDictionaryMagic

definition getUint32LE :: "bytes \<Rightarrow> nat \<Rightarrow> nat" where
  "getUint32LE view o0 =
     unat (view ! o0) + 256 * unat (view ! (o0 + 1)) + 65536 * unat (view ! (o0 + 2))
       + 16777216 * unat (view ! (o0 + 3))"

definition loadDictionary :: "bytes \<Rightarrow> dict_error + zstd_dictionary" where
  "loadDictionary data =
     (if length data < 8 then Inl DictionaryTooSmall
      else let magic = getUint32LE data 0 in
        if magic \<noteq> 0xec30a437 then Inl InvalidDictionaryMagic
        else Inr \<lparr>zd_data = data, zd_id = getUint32LE data 4\<rparr>)"

definition compress :: "bytes \<Rightarrow> bytes" where
  "compress data = data"

datatype decompress_error = DecompressionError string

type_synonym fzstd = "bytes \<Rightarrow> bytes option \<Rightarrow> string + bytes"

definition decompress ::
  "fzstd \<Rightarrow> bytes \<Rightarrow> zstd_dictionary option \<Rightarrow> decompress_error + bytes" where
  "decompress fz data dictionary =
     (case fz data (map_option zd_data dictionary) of
        Inl msg \<Rightarrow> Inl (DecompressionError msg)
      | Inr out \<Rightarrow> Inr out)"

definition byte32 :: "byte \<Rightarrow> 32 word" where
  "byte32 b = ucast b"

definition isCompressed :: "bytes \<Rightarrow> bool" where
  "isCompressed data =
     (if length data < 4 then False
      else let magic = byte32 (data ! 0) OR push_bit 8 (byte32 (data ! 1))
                 OR push_bit 16 (byte32 (data ! 2)) OR push_bit 24 (byte32 (data ! 3))
           in magic = 0xfd2fb528)"

text \<open>
  The frame-content-size reader works on signed 32-bit JavaScript integers, so its
  result is read with sint; -1 stands for an unknown size.
\<close>

fun read_fcs :: "nat \<Rightarrow> bytes \<Rightarrow> nat \<Rightarrow> 32 word" where
  "read_fcs 0 data fcsOffset = 0"
| "read_fcs (Suc i) data fcsOffset =
     read_fcs i data fcsOffset OR push_bit (i * 8) (byte32 (data ! (fcsOffset + i)))"

definition getDecompressedSize :: "bytes \<Rightarrow> int" where
  "getDecompressedSize data =
     (if \<not> isCompressed data \<or> length data < 5 then -1
      else let descriptor = data ! 4;
               fcsFlag = unat (drop_bit 6 descriptor AND 3)
           in if fcsFlag = 0 then -1
              else let fcsSize = [0, 1, 2, 4, 8] ! fcsFlag;
                       singleSegment = drop_bit 5 descriptor AND 1;
                       windowDescriptorSize = (if singleSegment \<noteq> 0 then 0 else 1);
                       dictIdFlag = unat (descriptor AND 3);
                       dictIdSize = [0, 1, 2, 4] ! dictIdFlag;
                       fcsOffset = 5 + windowDescriptorSize + dictIdSize
                   in if length data < fcsOffset + fcsSize then -1
                      else let size = sint (read_fcs fcsSize data fcsOffset)
                           in if fcsFlag = 2 then size + 256 else size)"

section \<open>What the frame check accepts\<close>

lemma bit_byte_high: "8 \<le> n \<Longrightarrow> \<not> bit (b :: byte) n"
  using bit_imp_le_length [of b n] by auto

lemma le_word_bits:
  fixes a b c d :: byte
  assumes "n < 8"
  shows "bit (byte32 a OR push_bit 8 (byte32 b) OR push_bit 16 (byte32 c) OR push_bit 24 (byte32 d)) n = bit a n"
    and "bit (byte32 a OR push_bit 8 (byte32 b) OR push_bit 16 (byte32 c) OR push_bit 24 (byte32 d)) (n + 8) = bit b n"
    and "bit (byte32 a OR push_bit 8 (byte32 b) OR push_bit 16 (byte32 c) OR push_bit 24 (byte32 d)) (n + 16) = bit c n"
    and "bit (byte32 a OR push_bit 8 (byte32 b) OR push_bit 16 (byte32 c) OR push_bit 24 (byte32 d)) (n + 24) = bit d n"
  using assms by (auto simp: byte32_def bit_simps bit_byte_high)

lemma byte_eqI: "(\<And>n. n < 8 \<Longrightarrow> bit (a :: byte) n = bit b n) \<Longrightarrow> a = b"
  by (rule bit_word_eqI) simp

lemma le_word_inject:
  fixes a b c d a' b' c' d' :: byte
  assumes "byte32 a OR push_bit 8 (byte32 b) OR push_bit 16 (byte32 c) OR push_bit 24 (byte32 d)
    = byte32 a' OR push_bit 8 (byte32 b') OR push_bit 16 (byte32 c') OR push_bit 24 (byte32 d')"
  shows "a = a'" "b = b'" "c = c'" "d = d'"
proof -
  show "a = a'"
    by (rule byte_eqI) (metis assms le_word_bits(1))
  show "b = b'"
    by (rule byte_eqI) (metis assms le_word_bits(2))
  show "c = c'"
    by (rule byte_eqI) (metis assms le_word_bits(3))
  show "d = d'"
    by (rule byte_eqI) (metis assms le_word_bits(4))
qed

lemma isCompressed_iff: "isCompressed data \<longleftrightarrow> take 4 data = [0x28, 0xB5, 0x2F, 0xFD]"
proof (cases "length data < 4")
  case True
  then show ?thesis by (auto simp: isCompressed_def dest: arg_cong [of _ _ length])
next
  case False
  then obtain a b c d r where data: "data = a # b # c # d # r"
    by (auto simp: numeral_eq_Suc not_less Suc_le_length_iff)
  have magic: "byte32 0x28 OR push_bit 8 (byte32 0xB5) OR push_bit 16 (byte32 0x2F) OR push_bit 24 (byte32 0xFD)
      = 0xfd2fb528"
    by (simp add: byte32_def)
  show ?thesis
    unfolding data isCompressed_def magic [symmetric]
    by (auto simp: Let_def dest: le_word_inject)
qed

end
