(* ===== verification/BatchCodec.thy ===== *)
theory BatchCodec
  imports Message Compression
begin

text \<open>
  The reference batch codec of packages/bam-sdk/src/batch.ts: encodeBatch,
  decodeBatch and estimateBatchSize, with the byte offsets, guards and error
  order of the source.  The main facts are batch_codec_roundtrip (what encodeBatch
  writes, followed by any padding, decodes to the same messages and signatures,
  the senders in lower case) and encodeBatch_size (the estimate is exact for the
  codec without compression).
\<close>

datatype batch_codec = CodecNone | CodecZstd

datatype batch_error =
    NotParallel nat nat
  | TooManyMessages
  | SignatureNot65 nat nat
  | SenderHex hex_error
  | SenderNot20Bytes nat
  | MessageNonceRange nat
  | ContentsTooLarge nat
  | ZstdNotApplied
  | BatchTooShort nat
  | UnsupportedVersion byte
  | UnknownCodec byte
  | PayloadPastBuffer
  | Decompression decompress_error
  | RecordHeaderPastPayload nat
  | RecordBodyPastPayload nat
  | TrailingBytes nat nat

record encoded_batch =
  eb_data :: bytes
  eb_messageCount :: nat
  eb_codec :: batch_codec
  eb_size :: nat

definition BATCH_VERSION :: byte where "BATCH_VERSION = 0x02"
definition CODEC_NONE :: byte where "CODEC_NONE = 0x00"
definition CODEC_ZSTD :: byte where "CODEC_ZSTD = 0x01"
definition HEADER_SIZE :: nat where "HEADER_SIZE = 10"
definition SIGNATURE_BYTES :: nat where "SIGNATURE_BYTES = 65"
definition RECORD_FIXED_OVERHEAD :: nat where
  "RECORD_FIXED_OVERHEAD = 20 + 8 + 4 + SIGNATURE_BYTES"

definition writeU32BE :: "bytes \<Rightarrow> nat \<Rightarrow> nat \<Rightarrow> bytes" where
  "writeU32BE buf off v =
     buf[off := of_nat (v div 2 ^ 24), off + 1 := of_nat (v div 2 ^ 16),
         off + 2 := of_nat (v div 2 ^ 8), off + 3 := of_nat v]"

definition readU32BE :: "bytes \<Rightarrow> nat \<Rightarrow> nat" where
  "readU32BE buf off =
     unat (buf ! off) * 0x1000000 + unat (buf ! (off + 1)) * 2 ^ 16
       + unat (buf ! (off + 2)) * 2 ^ 8 + unat (buf ! (off + 3))"

definition writeU64BE :: "bytes \<Rightarrow> nat \<Rightarrow> int \<Rightarrow> bytes" where
  "writeU64BE buf off v = store_be 8 buf off v"

definition readU64BE :: "bytes \<Rightarrow> nat \<Rightarrow> int" where
  "readU64BE buf off = load_be 8 buf off"

definition encodeRecord :: "nat \<Rightarrow> bam_message \<Rightarrow> bytes \<Rightarrow> batch_error + bytes" where
  "encodeRecord i m sig =
     (if length sig \<noteq> SIGNATURE_BYTES then Inl (SignatureNot65 i (length sig))
      else case hexToBytes (m_sender m) of
        Inl e \<Rightarrow> Inl (SenderHex e)
      | Inr senderBytes \<Rightarrow>
          if length senderBytes \<noteq> 20 then Inl (SenderNot20Bytes i)
          else if m_nonce m < 0 \<or> m_nonce m > 0xffffffffffffffff then Inl (MessageNonceRange i)
          else if length (m_contents m) > 0xffffffff then Inl (ContentsTooLarge i)
          else let rec0 = zeros (RECORD_FIXED_OVERHEAD + length (m_contents m));
                   rec1 = uset rec0 senderBytes 0;
                   rec2 = writeU64BE rec1 20 (m_nonce m);
                   rec3 = writeU32BE rec2 28 (length (m_contents m));
                   rec4 = uset rec3 (m_contents m) 32;
                   rec5 = uset rec4 sig (32 + length (m_contents m))
               in Inr rec5)"

fun encodeRecords :: "nat \<Rightarrow> bam_message list \<Rightarrow> bytes list \<Rightarrow> batch_error + bytes list" where
  "encodeRecords i (m # ms) (sig # sigs) =
     ebind (encodeRecord i m sig) (\<lambda>rec.
     ebind (encodeRecords (Suc i) ms sigs) (\<lambda>recs. Inr (rec # recs)))"
| "encodeRecords i _ _ = Inr []"

definition encodeBatch ::
  "bam_message list \<Rightarrow> bytes list \<Rightarrow> batch_codec \<Rightarrow> batch_error + encoded_batch" where
  "encodeBatch messages signatures codec =
     (if length messages \<noteq> length signatures
      then Inl (NotParallel (length messages) (length signatures))
      else if length messages > 0xffffffff then Inl TooManyMessages
      else let useZstd = (codec = CodecZstd) in
        ebind (encodeRecords 0 messages signatures) (\<lambda>recordBuffers.
          let plain = concat recordBuffers;
              payload = (if useZstd then compress plain else plain);
              zstdActuallyApplied = (useZstd \<and> isCompressed payload);
              codecId = (if zstdActuallyApplied then CODEC_ZSTD else CODEC_NONE)
          in if useZstd \<and> \<not> zstdActuallyApplied then Inl ZstdNotApplied
             else let data0 = zeros (HEADER_SIZE + length payload);
                      data1 = data0[0 := BATCH_VERSION, 1 := codecId];
                      data2 = writeU32BE data1 2 (length messages);
                      data3 = writeU32BE data2 6 (length payload);
                      data4 = uset data3 payload HEADER_SIZE
                  in Inr \<lparr>eb_data = data4, eb_messageCount = length messages,
                          eb_codec = (if zstdActuallyApplied then CodecZstd else CodecNone),
                          eb_size = length data4\<rparr>))"

text \<open>
  The decoder's loop keeps the offset o into the payload; it returns the records
  and the final offset, which must be the payload's length.
\<close>

fun decodeRecords ::
  "nat \<Rightarrow> nat \<Rightarrow> bytes \<Rightarrow> nat \<Rightarrow> batch_error + ((bam_message \<times> bytes) list \<times> nat)" where
  "decodeRecords 0 i plain o0 = Inr ([], o0)"
| "decodeRecords (Suc n) i plain o0 =
     (if o0 + 20 + 8 + 4 > length plain then Inl (RecordHeaderPastPayload i)
      else let sender = bytesToHex (slice plain o0 (o0 + 20));
               nonce = readU64BE plain (o0 + 20);
               contentsLen = readU32BE plain (o0 + 28);
               o1 = o0 + 32
           in if o1 + contentsLen + SIGNATURE_BYTES > length plain
              then Inl (RecordBodyPastPayload i)
              else let contents = slice plain o1 (o1 + contentsLen);
                       o2 = o1 + contentsLen;
                       sig = slice plain o2 (o2 + SIGNATURE_BYTES)
                   in ebind (decodeRecords n (Suc i) plain (o2 + SIGNATURE_BYTES)) (\<lambda>(rest, o3).
                        Inr ((\<lparr>m_sender = sender, m_nonce = nonce, m_contents = contents\<rparr>, sig) # rest, o3)))"

definition decodeBatch :: "fzstd \<Rightarrow> bytes \<Rightarrow> batch_error + (bam_message list \<times> bytes list)" where
  "decodeBatch fz data =
     (if length data < HEADER_SIZE then Inl (BatchTooShort (length data))
      else if data ! 0 \<noteq> BATCH_VERSION then Inl (UnsupportedVersion (data ! 0))
      else let codecId = data ! 1 in
        if codecId \<noteq> CODEC_NONE \<and> codecId \<noteq> CODEC_ZSTD then Inl (UnknownCodec codecId)
        else let messageCount = readU32BE data 2;
                 payloadLen = readU32BE data 6
             in if HEADER_SIZE + payloadLen > length data then Inl PayloadPastBuffer
                else let payload = slice data HEADER_SIZE (HEADER_SIZE + payloadLen);
                         plainE = (if codecId = CODEC_ZSTD
                                   then (case decompress fz payload None of
                                           Inl e \<Rightarrow> Inl (Decompression e) | Inr p \<Rightarrow> Inr p)
                                   else Inr payload)
                     in ebind plainE (\<lambda>plain.
                        ebind (decodeRecords messageCount 0 plain 0) (\<lambda>(recs, o1).
                          if o1 \<noteq> length plain
                          then Inl (TrailingBytes messageCount (length plain - o1))
                          else Inr (map fst recs, map snd recs))))"

definition estimateBatchSize :: "bam_message list \<Rightarrow> nat" where
  "estimateBatchSize messages =
     foldl (\<lambda>total m. total + RECORD_FIXED_OVERHEAD + length (m_contents m)) HEADER_SIZE messages"

lemmas batch_consts = HEADER_SIZE_def SIGNATURE_BYTES_def RECORD_FIXED_OVERHEAD_def

section \<open>Header words\<close>

lemma of_nat_byte_mod: "of_nat (x mod 256) = (of_nat x :: byte)"
  by (simp add: word_of_nat_eq_iff take_bit_eq_mod)

lemma be_4: "be 4 v = [of_nat (v div 2 ^ 24), of_nat (v div 2 ^ 16), of_nat (v div 2 ^ 8), of_nat v]"
proof -
  have "be 4 v = be (Suc (Suc (Suc (Suc 0)))) v"
    by (simp only: numeral_nat One_nat_def)
  also have "\<dots> = [of_nat (v div 256 div 256 div 256), of_nat (v div 256 div 256), of_nat (v div 256), of_nat v]"
    by (simp only: be.simps of_nat_byte_mod append.simps)
  also have "\<dots> = [of_nat (v div 2 ^ 24), of_nat (v div 2 ^ 16), of_nat (v div 2 ^ 8), of_nat v]"
    by (simp only: div_mult2_eq [symmetric]) simp
  finally show ?thesis .
qed

lemma zeros_4: "4 \<le> k \<Longrightarrow> zeros k = [0, 0, 0, 0] @ zeros (k - 4)"
proof -
  have four: "zeros 4 = [0, 0, 0, 0]"
    by (simp add: zeros_def numeral_eq_Suc)
  assume "4 \<le> k"
  then show ?thesis
    using zeros_append [of 4 "k - 4"] by (simp only: four le_add_diff_inverse)
qed

lemma update_4:
  "length xs = off \<Longrightarrow>
   (xs @ [a, b, c, d] @ ys)[off := a', off + 1 := b', off + 2 := c', off + 3 := d'] = xs @ [a', b', c', d'] @ ys"
  by (simp add: list_update_append numeral_2_eq_2 numeral_3_eq_3)

lemma writeU32BE_fill:
  "length xs = off \<Longrightarrow> 4 \<le> k \<Longrightarrow> writeU32BE (xs @ zeros k) off v = xs @ be 4 v @ zeros (k - 4)"
  by (simp only: writeU32BE_def be_4 zeros_4 update_4)

lemma writeU64BE_fill:
  "uint64 v \<Longrightarrow> length xs = off \<Longrightarrow> 8 \<le> k \<Longrightarrow>
   writeU64BE (xs @ zeros k) off v = xs @ be 8 (nat v) @ zeros (k - 8)"
  by (simp add: writeU64BE_def store_be_eq uint64_def uset_fill)

lemma readU32BE_eq:
  assumes "off + 4 \<le> length buf"
  shows "readU32BE buf off = unbe (slice buf off (off + 4))"
proof -
  have idx: "[0..<4] = [0, 1, 2, 3]"
    by code_simp
  have "int (readU32BE buf off) = load_be 4 buf off"
    by (simp add: readU32BE_def load_be_def idx)
  also have "\<dots> = int (unbe (slice buf off (off + 4)))"
    using assms by (rule load_be_eq)
  finally show ?thesis by simp
qed

lemma readU64BE_eq:
  "off + 8 \<le> length buf \<Longrightarrow> readU64BE buf off = int (unbe (slice buf off (off + 8)))"
  by (simp add: readU64BE_def load_be_eq)

section \<open>Records\<close>

lemma encodeRecord_Inr:
  "encodeRecord i m sig = Inr r \<longleftrightarrow>
   length sig = 65 \<and> uint64 (m_nonce m) \<and> length (m_contents m) \<le> 0xffffffff \<and>
   (\<exists>sb. hexToBytes (m_sender m) = Inr sb \<and> length sb = 20 \<and>
     r = sb @ be 8 (nat (m_nonce m)) @ be 4 (length (m_contents m)) @ m_contents m @ sig)"
  (is "?l \<longleftrightarrow> ?r")
proof -
  have layout: "uset (uset (writeU32BE (writeU64BE (uset (zeros (97 + length c)) sb 0) 20 n) 28
      (length c)) c 32) sig (32 + length c) = sb @ be 8 (nat n) @ be 4 (length c) @ c @ sig"
    if "length sb = 20" "length sig = 65" "uint64 n" for sb n and c :: bytes
  proof -
    have "writeU64BE (uset (zeros (97 + length c)) sb 0) 20 n
        = (sb @ be 8 (nat n)) @ zeros (69 + length c)"
      using that by (simp add: uset_fill_0 writeU64BE_fill)
    then have "writeU32BE (writeU64BE (uset (zeros (97 + length c)) sb 0) 20 n) 28 (length c)
        = (sb @ be 8 (nat n) @ be 4 (length c)) @ zeros (65 + length c)"
      using that writeU32BE_fill [of "sb @ be 8 (nat n)" 28 "69 + length c"] by simp
    then show ?thesis
      using that uset_fill [of "sb @ be 8 (nat n) @ be 4 (length c)" 32 "65 + length c" c]
        uset_fill [of "sb @ be 8 (nat n) @ be 4 (length c) @ c" "32 + length c" 65 sig]
      by simp
  qed
  show ?thesis
    by (auto simp: encodeRecord_def batch_consts Let_def layout [simplified] uint64_def uint64_max_def
        split: sum.splits)
qed

lemma encodeRecord_length:
  "encodeRecord i m sig = Inr r \<Longrightarrow> length r = RECORD_FIXED_OVERHEAD + length (m_contents m)"
  by (auto simp: encodeRecord_Inr batch_consts)

definition canonical_message :: "bam_message \<Rightarrow> bam_message" where
  "canonical_message m = m\<lparr>m_sender := ''0x'' @ toLowerCase (strip0x (m_sender m))\<rparr>"

lemma canonical_message_eq:
  "hexToBytes (m_sender m) = Inr sb \<Longrightarrow>
   canonical_message m = \<lparr>m_sender = bytesToHex sb, m_nonce = m_nonce m, m_contents = m_contents m\<rparr>"
  by (simp add: canonical_message_def hexToBytes_canonical)

lemma decodeRecord_step:
  assumes "encodeRecord i m sig = Inr r"
  shows "decodeRecords (Suc n) j (pre @ r @ post) (length pre) =
    ebind (decodeRecords n (Suc j) (pre @ r @ post) (length pre + length r))
      (\<lambda>(rest, o3). Inr ((canonical_message m, sig) # rest, o3))"
proof -
  let ?c = "m_contents m"
  from assms obtain sb where sb: "hexToBytes (m_sender m) = Inr sb" "length sb = 20"
    and r: "r = sb @ be 8 (nat (m_nonce m)) @ be 4 (length ?c) @ ?c @ sig"
    and sig: "length sig = 65" and n: "uint64 (m_nonce m)" and c: "length ?c \<le> 0xffffffff"
    by (auto simp: encodeRecord_Inr)
  let ?p = "pre @ r @ post"
  have nonce: "readU64BE ?p (length pre + 20) = m_nonce m"
    using sb uint64_nat [OF n] n
    by (subst readU64BE_eq) (simp_all add: r slice_append_skip slice_append_take slice_all uint64_def)
  have len: "readU32BE ?p (length pre + 28) = length ?c"
    using sb c
    by (subst readU32BE_eq) (simp_all add: r slice_append_skip slice_append_take slice_all)
  have parts: "slice ?p (length pre) (length pre + 20) = sb"
    "slice ?p (length pre + 32) (length pre + 32 + length ?c) = ?c"
    "slice ?p (length pre + 32 + length ?c) (length pre + 32 + length ?c + 65) = sig"
    using sb sig by (simp_all add: r slice_append_skip slice_append_take slice_all)
  have "length ?p = length pre + 97 + length ?c + length post"
    using sb sig by (simp add: r)
  moreover have "length r = 97 + length ?c"
    using sb sig by (simp add: r)
  ultimately show ?thesis
    using parts by (simp add: nonce len batch_consts Let_def canonical_message_eq [OF sb(1)] add.assoc)
qed

lemma encodeRecords_length:
  "encodeRecords i ms sigs = Inr recs \<Longrightarrow> length ms = length sigs \<Longrightarrow>
   length (concat recs) = (\<Sum>m \<leftarrow> ms. RECORD_FIXED_OVERHEAD + length (m_contents m))"
  by (induction i ms sigs arbitrary: recs rule: encodeRecords.induct) (auto dest: encodeRecord_length)

lemma decodeRecords_encodeRecords:
  "encodeRecords i ms sigs = Inr recs \<Longrightarrow> length ms = length sigs \<Longrightarrow>
   decodeRecords (length ms) j (pre @ concat recs @ post) (length pre)
     = Inr (zip (map canonical_message ms) sigs, length pre + length (concat recs))"
proof (induction i ms sigs arbitrary: j pre recs rule: encodeRecords.induct)
  case (1 i m ms sig sigs)
  from 1 obtain r rs where r: "encodeRecord i m sig = Inr r"
    and rs: "encodeRecords (Suc i) ms sigs = Inr rs" and recs: "recs = r # rs"
    by auto
  have "decodeRecords (length ms) (Suc j) ((pre @ r) @ concat rs @ post) (length (pre @ r))
      = Inr (zip (map canonical_message ms) sigs, length (pre @ r) + length (concat rs))"
    using 1 r rs by (intro 1) auto
  then show ?case
    using decodeRecord_step [OF r, of "length ms" j pre "concat rs @ post"] by (simp add: recs)
qed auto

text \<open>Conversely, what the decoder accepts is exactly what the encoder writes.\<close>

lemma encodeRecords_decodeRecords:
  "decodeRecords n j plain o0 = Inr (recs, o1) \<Longrightarrow> o0 \<le> length plain \<Longrightarrow>
   length recs = n \<and> o0 \<le> o1 \<and> o1 \<le> length plain \<and>
   (\<exists>bufs. encodeRecords i (map fst recs) (map snd recs) = Inr bufs \<and> concat bufs = slice plain o0 o1)"
proof (induction n j plain o0 arbitrary: i recs o1 rule: decodeRecords.induct)
  case (1 j plain o0)
  then show ?case by (simp add: slice_def)
next
  case (2 n j plain o0)
  define len where "len = readU32BE plain (o0 + 28)"
  define m where "m = \<lparr>m_sender = bytesToHex (slice plain o0 (o0 + 20)), m_nonce = readU64BE plain (o0 + 20),
    m_contents = slice plain (o0 + 32) (o0 + 32 + len)\<rparr>"
  define sig where "sig = slice plain (o0 + 32 + len) (o0 + 32 + len + 65)"
  from 2(2) obtain rest where fits: "o0 + 32 + len + 65 \<le> length plain"
    and rest: "decodeRecords n (Suc j) plain (o0 + 32 + len + 65) = Inr (rest, o1)"
    and recs: "recs = (m, sig) # rest"
    by (auto simp: Let_def len_def m_def sig_def batch_consts add.assoc split: if_splits)
  have IH: "length rest = n \<and> o0 + 32 + len + 65 \<le> o1 \<and> o1 \<le> length plain \<and>
     (\<exists>bufs. encodeRecords (Suc i) (map fst rest) (map snd rest) = Inr bufs
        \<and> concat bufs = slice plain (o0 + 32 + len + 65) o1)"
    using 2(1) [of "bytesToHex (slice plain o0 (o0 + 20))" "readU64BE plain (o0 + 20)" len "o0 + 32"
        "slice plain (o0 + 32) (o0 + 32 + len)" "o0 + 32 + len" sig rest o1 "Suc i"] fits rest
    by (simp add: len_def sig_def batch_consts)
  have len_eq: "len = unbe (slice plain (o0 + 28) (o0 + 32))"
    using readU32BE_eq [of "o0 + 28" plain] fits by (simp add: len_def add.commute)
  have nonce_eq: "m_nonce m = int (unbe (slice plain (o0 + 20) (o0 + 28)))"
    using readU64BE_eq [of "o0 + 20" plain] fits by (simp add: m_def add.commute)
  have l8: "length (slice plain (o0 + 20) (o0 + 28)) = 8" and l4: "length (slice plain (o0 + 28) (o0 + 32)) = 4"
    using fits by simp_all
  have be8: "be 8 (nat (m_nonce m)) = slice plain (o0 + 20) (o0 + 28)"
    using be_unbe [of "slice plain (o0 + 20) (o0 + 28)"] unfolding l8 by (simp add: nonce_eq)
  have be4: "be 4 len = slice plain (o0 + 28) (o0 + 32)"
    using be_unbe [of "slice plain (o0 + 28) (o0 + 32)"] unfolding l4 by (simp add: len_eq)
  have "encodeRecord i m sig = Inr (slice plain o0 (o0 + 20) @ be 8 (nat (m_nonce m)) @ be 4 len @ m_contents m @ sig)"
    using fits unbe_lt_of_length [OF l8] unbe_lt_of_length [OF l4]
    by (auto simp: encodeRecord_Inr uint64_iff nonce_eq) (simp_all add: m_def sig_def len_eq)
  moreover have "slice plain o0 (o0 + 20) @ be 8 (nat (m_nonce m)) @ be 4 len @ m_contents m @ sig
      = slice plain o0 (o0 + 32 + len + 65)"
    unfolding be8 be4 by (simp add: m_def sig_def slice_join)
  ultimately have "encodeRecord i m sig = Inr (slice plain o0 (o0 + 32 + len + 65))"
    by simp
  with IH show ?case
    by (auto simp: recs slice_join)
qed

section \<open>Whole batches\<close>

lemma header_fill:
  "uset (writeU32BE (writeU32BE ((zeros (10 + length p))[0 := v, Suc 0 := c]) 2 n) 6 k) p 10
     = [v, c] @ be 4 n @ be 4 k @ p"
proof -
  have "(zeros (10 + length p))[0 := v, Suc 0 := c] = [v, c] @ zeros (8 + length p)"
    by (simp add: zeros_def numeral_eq_Suc)
  then show ?thesis
    using writeU32BE_fill [of "[v, c]" 2 "8 + length p" n]
      writeU32BE_fill [of "[v, c] @ be 4 n" 6 "4 + length p" k]
      uset_fill [of "[v, c] @ be 4 n @ be 4 k" 10 "length p" p]
    by simp
qed

lemma encodeBatch_plain_Inr:
  "encodeBatch ms sigs CodecNone = Inr eb \<longleftrightarrow>
   length ms = length sigs \<and> length ms \<le> 0xffffffff \<and>
   (\<exists>recs. encodeRecords 0 ms sigs = Inr recs \<and>
     (let d = [BATCH_VERSION, CODEC_NONE] @ be 4 (length ms) @ be 4 (length (concat recs)) @ concat recs in
      eb = \<lparr>eb_data = d, eb_messageCount = length ms, eb_codec = CodecNone, eb_size = length d\<rparr>))"
  by (auto simp: encodeBatch_def Let_def HEADER_SIZE_def header_fill ebind_Inl_iff)

lemma encodeBatch_zstd_Inr:
  "encodeBatch ms sigs CodecZstd = Inr eb \<longleftrightarrow>
   length ms = length sigs \<and> length ms \<le> 0xffffffff \<and>
   (\<exists>recs. encodeRecords 0 ms sigs = Inr recs \<and> isCompressed (concat recs) \<and>
     (let d = [BATCH_VERSION, CODEC_ZSTD] @ be 4 (length ms) @ be 4 (length (concat recs)) @ concat recs in
      eb = \<lparr>eb_data = d, eb_messageCount = length ms, eb_codec = CodecZstd, eb_size = length d\<rparr>))"
  by (auto simp: encodeBatch_def Let_def HEADER_SIZE_def header_fill compress_def ebind_Inl_iff)

lemma decodeBatch_framed:
  assumes "length p < 2 ^ 32" "n < 2 ^ 32"
  shows "decodeBatch fz ([BATCH_VERSION, CODEC_NONE] @ be 4 n @ be 4 (length p) @ p @ pad) =
    ebind (decodeRecords n 0 p 0) (\<lambda>(recs, o1).
      if o1 \<noteq> length p then Inl (TrailingBytes n (length p - o1))
      else Inr (map fst recs, map snd recs))"
proof -
  let ?d = "[BATCH_VERSION, CODEC_NONE] @ be 4 n @ be 4 (length p) @ p @ pad"
  have "readU32BE ?d 2 = n" "readU32BE ?d 6 = length p"
    using assms by (simp_all add: readU32BE_eq slice_append_skip slice_append_take slice_all slice_def)
  moreover have "slice ?d 10 (10 + length p) = p"
    by (simp add: slice_def)
  ultimately show ?thesis
    by (simp add: decodeBatch_def Let_def HEADER_SIZE_def CODEC_NONE_def CODEC_ZSTD_def)
qed

lemma decode_encode_batch:
  assumes "encodeBatch ms sigs CodecNone = Inr eb" and "length (eb_data eb) \<le> 2 ^ 32"
  shows "decodeBatch fz (eb_data eb @ pad) = Inr (map canonical_message ms, sigs)"
proof -
  from assms obtain recs where len: "length ms = length sigs" "length ms \<le> 0xffffffff"
    and recs: "encodeRecords 0 ms sigs = Inr recs"
    and d: "eb_data eb = [BATCH_VERSION, CODEC_NONE] @ be 4 (length ms) @ be 4 (length (concat recs)) @ concat recs"
    by (auto simp: encodeBatch_plain_Inr Let_def)
  have "length (concat recs) < 2 ^ 32"
    using assms(2) unfolding d by simp
  then show ?thesis
    using decodeBatch_framed [of "concat recs" "length ms" fz pad] len
      decodeRecords_encodeRecords [OF recs len(1), of 0 "[]" "[]"]
    by (simp add: d)
qed

lemma encodeBatch_size_eq:
  assumes "encodeBatch ms sigs c = Inr eb"
  shows "length (eb_data eb) = estimateBatchSize ms" "eb_size eb = length (eb_data eb)" "eb_messageCount eb = length ms"
proof -
  have fold: "foldl (\<lambda>total m. total + RECORD_FIXED_OVERHEAD + length (m_contents m)) k ms
     = k + (\<Sum>m \<leftarrow> ms. RECORD_FIXED_OVERHEAD + length (m_contents m))" for k
    by (induction ms arbitrary: k) simp_all
  have "length (eb_data eb) = estimateBatchSize ms \<and> eb_size eb = length (eb_data eb) \<and> eb_messageCount eb = length ms"
    using assms encodeRecords_length [of 0 ms sigs]
    by (cases c)
      (auto simp: encodeBatch_plain_Inr encodeBatch_zstd_Inr Let_def estimateBatchSize_def fold HEADER_SIZE_def)
  then show "length (eb_data eb) = estimateBatchSize ms" "eb_size eb = length (eb_data eb)" "eb_messageCount eb = length ms"
    by simp_all
qed

section \<open>Properties\<close>

text \<open>
  C3. What encodeBatch writes without compression, followed by any padding bytes
  (the zeros that fill up a field element), decodes to the same messages in order,
  with the senders in their canonical lower-case form, and the same signatures.
\<close>

theorem batch_codec_roundtrip:
  assumes "encodeBatch messages signatures CodecNone = Inr eb" "length (eb_data eb) \<le> 2 ^ 32"
  shows "decodeBatch fz (eb_data eb @ padding) = Inr (map canonical_message messages, signatures)"
  using assms by (rule decode_encode_batch)

definition sample_message :: bam_message where
  "sample_message = \<lparr>m_sender = bytesToHex (zeros 20), m_nonce = 5, m_contents = [1, 2, 3]\<rparr>"

definition sample_record :: bytes where
  "sample_record = zeros 20 @ be 8 5 @ be 4 3 @ [1, 2, 3] @ zeros 65"

lemma sample_encodeRecord: "encodeRecord i sample_message (zeros 65) = Inr sample_record"
  by (simp add: encodeRecord_Inr sample_message_def sample_record_def uint64_def uint64_max_def numeral_3_eq_3)

lemma sample_canonical: "canonical_message sample_message = sample_message"
  using canonical_message_eq [of sample_message "zeros 20"] by (simp add: sample_message_def)

lemma sample_encodeBatch:
  "encodeBatch [sample_message] [zeros 65] CodecNone = Inr
     \<lparr>eb_data = [BATCH_VERSION, CODEC_NONE] @ be 4 1 @ be 4 100 @ sample_record,
      eb_messageCount = 1, eb_codec = CodecNone, eb_size = 110\<rparr>"
  by (simp add: encodeBatch_plain_Inr sample_encodeRecord) (simp add: sample_record_def)

theorem batch_codec_roundtrip_witness:
  "decodeBatch (\<lambda>_ _. Inl []) (([BATCH_VERSION, CODEC_NONE] @ be 4 1 @ be 4 100 @ sample_record) @ [0, 0])
     = Inr ([sample_message], [zeros 65])"
  using batch_codec_roundtrip [OF sample_encodeBatch, of "\<lambda>_ _. Inl []" "[0, 0]"]
  by (simp add: sample_canonical sample_record_def)

text \<open>
  The decoder accepts only canonical encodings: if an uncompressed batch
  decodes, encoding the decoded messages and signatures again gives back the very
  bytes that were read, up to the payload length the header declares.
\<close>

theorem decodeBatch_canonical:
  assumes "decodeBatch fz data = Inr (messages, signatures)" "data ! 1 = CODEC_NONE"
  shows "\<exists>eb rest. encodeBatch messages signatures CodecNone = Inr eb \<and> data = eb_data eb @ rest"
proof -
  define n k where "n = readU32BE data 2" and "k = readU32BE data 6"
  let ?p = "slice data 10 (10 + k)"
  obtain recs o1 where len: "10 \<le> length data" "10 + k \<le> length data" and v: "data ! 0 = BATCH_VERSION"
    and recs: "decodeRecords n 0 ?p 0 = Inr (recs, o1)" "o1 = length ?p"
    and ms: "messages = map fst recs" "signatures = map snd recs"
    using assms
    by (auto simp: decodeBatch_def HEADER_SIZE_def Let_def CODEC_NONE_def CODEC_ZSTD_def n_def k_def
        split: if_splits)
  from encodeRecords_decodeRecords [OF recs(1), of 0] obtain bufs where cnt: "length recs = n"
    and bufs: "encodeRecords 0 messages signatures = Inr bufs" "concat bufs = ?p"
    using recs(2) by (auto simp: ms slice_all)
  have be: "be 4 n = slice data 2 6" "be 4 k = slice data 6 10"
    using be_unbe [of "slice data 2 6"] be_unbe [of "slice data 6 10"] readU32BE_eq [of 2 data] readU32BE_eq [of 6 data] len
    by (simp_all add: n_def k_def)
  have n: "n < 2 ^ 32"
    using unbe_lt_of_length [of "slice data 2 6" 4] readU32BE_eq [of 2 data] len by (simp add: n_def)
  have plen: "length ?p = k"
    using len by simp
  have hd2: "slice data 0 2 = [data ! 0, data ! 1]"
    using len by (cases data; cases "tl data") (auto simp: slice_def numeral_2_eq_2)
  have "data = slice data 0 (10 + k) @ drop (10 + k) data"
    by (simp add: slice_def)
  also have "slice data 0 (10 + k) = slice data 0 2 @ slice data 2 6 @ slice data 6 10 @ ?p"
    by (simp add: slice_join)
  finally have "data = ([BATCH_VERSION, CODEC_NONE] @ be 4 n @ be 4 k @ ?p) @ drop (10 + k) data"
    using v assms(2) by (simp add: be hd2)
  then show ?thesis
    using bufs cnt n plen unfolding encodeBatch_plain_Inr by (auto simp: ms Let_def)
qed

theorem decodeBatch_canonical_witness:
  "\<exists>eb rest. encodeBatch [sample_message] [zeros 65] CodecNone = Inr eb
     \<and> ([BATCH_VERSION, CODEC_NONE] @ be 4 1 @ be 4 100 @ sample_record) @ [0, 0] = eb_data eb @ rest"
  by (rule decodeBatch_canonical [of "\<lambda>_ _. Inl []"])
    (use decode_encode_batch [OF sample_encodeBatch, of "\<lambda>_ _. Inl []" "[0, 0]"]
     in \<open>simp_all add: sample_canonical sample_record_def\<close>)

text \<open>
  The size estimate the aggregator packs with is exact: whichever codec is
  asked for, a batch that encodes has exactly the estimated number of bytes, and
  its size and messageCount fields say so.
\<close>

theorem encodeBatch_size:
  assumes "encodeBatch messages signatures codec = Inr eb"
  shows "length (eb_data eb) = estimateBatchSize messages \<and> eb_size eb = length (eb_data eb)
    \<and> eb_messageCount eb = length messages"
  using encodeBatch_size_eq [OF assms] by simp

theorem encodeBatch_size_witness:
  "length ([BATCH_VERSION, CODEC_NONE] @ be 4 1 @ be 4 100 @ sample_record) = estimateBatchSize [sample_message]"
  using encodeBatch_size [OF sample_encodeBatch] by simp

definition magic_message :: bam_message where
  "magic_message = \<lparr>m_sender = bytesToHex ([0x28, 0xB5, 0x2F, 0xFD] @ zeros 16), m_nonce = 0, m_contents = []\<rparr>"

definition magic_record :: bytes where
  "magic_record = [0x28, 0xB5, 0x2F, 0xFD] @ zeros 93"

text \<open>
  The zstd guard can be passed by plain data: a first sender whose address
  starts with the Zstd magic bytes makes isCompressed accept the uncompressed
  payload, so encodeBatch stamps the zstd codec on data it did not compress; the
  decoder then hands those plain records to the decompressor.
\<close>

theorem encodeBatch_stamps_plain_payload:
  "\<exists>eb. encodeBatch [magic_message] [zeros 65] CodecZstd = Inr eb \<and> eb_codec eb = CodecZstd
     \<and> eb_data eb ! 1 = CODEC_ZSTD \<and> drop 10 (eb_data eb) = magic_record
     \<and> decodeBatch (\<lambda>_ _. Inl ''bad block'') (eb_data eb) = Inl (Decompression (DecompressionError ''bad block''))"
proof -
  have z: "zeros 93 = zeros 16 @ be 8 0 @ be 4 0 @ zeros 65"
  proof -
    have b0: "be n 0 = zeros n" for n
      by (induction n) (simp_all add: zeros_append zeros_def replicate_append_same)
    show ?thesis
      by (simp add: b0 zeros_append)
  qed
  have r: "encodeRecord 0 magic_message (zeros 65) = Inr magic_record"
    unfolding magic_record_def z by (simp add: encodeRecord_Inr magic_message_def uint64_def uint64_max_def)
  have c: "isCompressed magic_record"
    by (simp add: isCompressed_iff magic_record_def numeral_eq_Suc)
  let ?d = "[BATCH_VERSION, CODEC_ZSTD] @ be 4 1 @ be 4 97 @ magic_record"
  have e: "encodeBatch [magic_message] [zeros 65] CodecZstd = Inr
      \<lparr>eb_data = ?d, eb_messageCount = 1, eb_codec = CodecZstd, eb_size = 107\<rparr>"
    using c by (simp add: encodeBatch_zstd_Inr r) (simp add: magic_record_def)
  have "readU32BE ?d 6 = 97"
    by (simp add: readU32BE_eq slice_append_skip slice_append_take slice_all slice_def)
  then have "decodeBatch (\<lambda>_ _. Inl ''bad block'') ?d = Inl (Decompression (DecompressionError ''bad block''))"
    by (simp add: decodeBatch_def Let_def HEADER_SIZE_def CODEC_NONE_def CODEC_ZSTD_def decompress_def) (simp add: magic_record_def)
  with e show ?thesis by simp
qed

end
