(* ===== verification/BpeCodec.thy ===== *)
theory BpeCodec
  imports Bpe BatchCodec
begin

text \<open>
  The BPE wire format of packages/bam-sdk/src/codec/bpe.ts: a 16-bit message
  count, a table of 16-bit offsets, one body per message (sender, nonce, BPE
  contents) and an opaque signature trailer whose size the caller supplies.
\<close>

datatype bpe_codec_error =
    TooManyBpeMessages nat
  | Uint16Range nat
  | OffsetOverflow nat nat
  | BpeSenderHex hex_error
  | BpeSenderNot20 nat
  | BpeNonceRange nat
  | SignatureSizeInvalid int
  | PayloadTooShort nat
  | SignatureExceedsPayload nat nat
  | SignatureOverrunsHeaders nat
  | BodyTooShort nat
  | BodyOverrunsTrailer nat
  | BpeBody bpe_error

definition RECORD_HEADER :: nat where "RECORD_HEADER = 20 + 8"
definition HEADER_BASE :: nat where "HEADER_BASE = 2"

definition u16beWrite :: "bytes \<Rightarrow> nat \<Rightarrow> nat \<Rightarrow> bpe_codec_error + bytes" where
  "u16beWrite buf off v =
     (if v > 0xffff then Inl (Uint16Range v)
      else Inr (buf[off := of_nat (v div 2 ^ 8), off + 1 := of_nat v]))"

definition u16beRead :: "bytes \<Rightarrow> nat \<Rightarrow> nat" where
  "u16beRead buf off = unat (buf ! off) * 2 ^ 8 + unat (buf ! (off + 1))"

definition u64beWrite :: "bytes \<Rightarrow> nat \<Rightarrow> int \<Rightarrow> bytes" where
  "u64beWrite buf off v = store_be 8 buf off v"

definition u64beRead :: "bytes \<Rightarrow> nat \<Rightarrow> int" where
  "u64beRead buf off = load_be 8 buf off"

fun layoutOffsets :: "nat \<Rightarrow> nat \<Rightarrow> bytes list \<Rightarrow> bpe_codec_error + (nat list \<times> nat)" where
  "layoutOffsets i cursor [] = Inr ([], cursor)"
| "layoutOffsets i cursor (e # es) =
     (if cursor > 0xffff then Inl (OffsetOverflow i cursor)
      else ebind (layoutOffsets (i + 1) (cursor + (RECORD_HEADER + length e)) es) (\<lambda>(offs, c).
        Inr (cursor # offs, c)))"

fun writeOffsets :: "nat \<Rightarrow> nat list \<Rightarrow> bytes \<Rightarrow> bpe_codec_error + bytes" where
  "writeOffsets i [] out = Inr out"
| "writeOffsets i (v # vs) out = ebind (u16beWrite out (2 + i * 2) v) (writeOffsets (i + 1) vs)"

fun writeBodies :: "nat \<Rightarrow> (bam_message \<times> bytes \<times> nat) list \<Rightarrow> bytes \<Rightarrow> bpe_codec_error + bytes" where
  "writeBodies i [] out = Inr out"
| "writeBodies i ((m, enc, base) # rest) out =
     (case hexToBytes (m_sender m) of
        Inl e \<Rightarrow> Inl (BpeSenderHex e)
      | Inr senderBytes \<Rightarrow>
          if length senderBytes \<noteq> 20 then Inl (BpeSenderNot20 i)
          else if m_nonce m < 0 \<or> m_nonce m > 0xffffffffffffffff then Inl (BpeNonceRange i)
          else writeBodies (i + 1) rest
                 (uset (u64beWrite (uset out senderBytes base) (base + 20) (m_nonce m)) enc (base + 28)))"

definition encodeBatchBPE :: "bam_message list \<Rightarrow> bytes \<Rightarrow> bpe_dict \<Rightarrow> bpe_codec_error + bytes" where
  "encodeBatchBPE messages signatureData dict =
     (let n = length messages in
      if n > 0xffff then Inl (TooManyBpeMessages n)
      else let encoded = map (\<lambda>m. bpeEncode (m_contents m) dict) messages;
               headerSize = HEADER_BASE + 2 * n
           in ebind (layoutOffsets 0 headerSize encoded) (\<lambda>(offsets, cursor).
              let bodiesTotal = cursor - headerSize;
                  out0 = zeros (headerSize + bodiesTotal + length signatureData)
              in ebind (u16beWrite out0 0 n) (\<lambda>out1.
                 ebind (writeOffsets 0 offsets out1) (\<lambda>out2.
                 ebind (writeBodies 0 (zip messages (zip encoded offsets)) out2) (\<lambda>out3.
                   Inr (uset out3 signatureData (headerSize + bodiesTotal)))))))"

text \<open>The decoder's loop: k messages left, the next one being number i of n.\<close>

primrec decodeBodies ::
  "nat \<Rightarrow> nat \<Rightarrow> nat \<Rightarrow> bytes \<Rightarrow> nat \<Rightarrow> bpe_dict \<Rightarrow> bpe_codec_error + bam_message list" where
  "decodeBodies 0 i n payload sigStart dict = Inr []"
| "decodeBodies (Suc k) i n payload sigStart dict =
     (let startOff = u16beRead payload (2 + i * 2);
          endOff = (if i + 1 < n then u16beRead payload (2 + (i + 1) * 2) else sigStart)
      in if endOff < startOff + RECORD_HEADER then Inl (BodyTooShort i)
         else if endOff > sigStart then Inl (BodyOverrunsTrailer i)
         else let sender = bytesToHex (slice payload startOff (startOff + 20));
                  nonce = u64beRead payload (startOff + 20);
                  encoded = slice payload (startOff + 28) endOff
              in case bpeDecode encoded dict of
                   Inl e \<Rightarrow> Inl (BpeBody e)
                 | Inr contents \<Rightarrow>
                     ebind (decodeBodies k (i + 1) n payload sigStart dict) (\<lambda>ms.
                       Inr (\<lparr>m_sender = sender, m_nonce = nonce, m_contents = contents\<rparr> # ms)))"

definition decodeBatchBPE ::
  "bytes \<Rightarrow> bpe_dict \<Rightarrow> int \<Rightarrow> bpe_codec_error + (bam_message list \<times> bytes)" where
  "decodeBatchBPE payload dict signatureSize =
     (if signatureSize < 0 then Inl (SignatureSizeInvalid signatureSize)
      else if length payload = 0 then Inr ([], [])
      else if length payload < 2 then Inl (PayloadTooShort (length payload))
      else if nat signatureSize > length payload
      then Inl (SignatureExceedsPayload (nat signatureSize) (length payload))
      else let n = u16beRead payload 0;
               headerSize = HEADER_BASE + 2 * n;
               sigStart = length payload - nat signatureSize
           in if sigStart < headerSize then Inl (SignatureOverrunsHeaders (nat signatureSize))
              else ebind (decodeBodies n 0 n payload sigStart dict) (\<lambda>messages.
                Inr (messages, drop sigStart payload)))"

definition decodeBatchBPEPerMessage ::
  "bytes \<Rightarrow> bpe_dict \<Rightarrow> int \<Rightarrow> bpe_codec_error + (bam_message list \<times> bytes)" where
  "decodeBatchBPEPerMessage payload dict sigUnitSize =
     (if length payload = 0 then Inr ([], [])
      else if length payload < 2 then Inl (PayloadTooShort (length payload))
      else decodeBatchBPE payload dict (sigUnitSize * int (u16beRead payload 0)))"

section \<open>The wire layout\<close>

lemma be_2: "be 2 v = [of_nat (v div 2 ^ 8), of_nat v]"
proof -
  have "be 2 v = be (Suc (Suc 0)) v"
    by (simp only: numeral_2_eq_2)
  then show ?thesis
    by (simp add: of_nat_byte_mod)
qed

lemma u16beWrite_fill:
  assumes "length xs = off" "2 \<le> k" "v \<le> 0xffff"
  shows "u16beWrite (xs @ zeros k) off v = Inr (xs @ be 2 v @ zeros (k - 2))"
proof -
  have "zeros k = [0, 0] @ zeros (k - 2)"
  proof -
    have "zeros 2 = [0, 0]"
      by (simp add: zeros_def numeral_2_eq_2)
    then show ?thesis
      using zeros_append [of 2 "k - 2"] assms(2) by (simp only: le_add_diff_inverse)
  qed
  then show ?thesis
    using assms(1,3) by (simp add: u16beWrite_def be_2 list_update_append)
qed

lemma u16beRead_eq:
  assumes "off + 2 \<le> length buf"
  shows "u16beRead buf off = unbe (slice buf off (off + 2))"
proof -
  have idx: "[0..<2] = [0, 1]"
    by code_simp
  have "int (u16beRead buf off) = load_be 2 buf off"
    by (simp add: u16beRead_def load_be_def idx)
  then show ?thesis
    using load_be_eq [OF assms] by simp
qed

lemma u64beWrite_fill:
  "uint64 v \<Longrightarrow> length xs = off \<Longrightarrow> 8 \<le> k \<Longrightarrow>
   u64beWrite (xs @ zeros k) off v = xs @ be 8 (nat v) @ zeros (k - 8)"
  by (simp add: u64beWrite_def store_be_eq uint64_def uset_fill)

lemma u64beRead_eq: "off + 8 \<le> length buf \<Longrightarrow> u64beRead buf off = int (unbe (slice buf off (off + 8)))"
  by (simp add: u64beRead_def load_be_eq)

fun body_starts :: "nat \<Rightarrow> bytes list \<Rightarrow> nat list" where
  "body_starts c [] = []"
| "body_starts c (r # rs) = c # body_starts (c + length r) rs"

lemma length_body_starts [simp]: "length (body_starts c rs) = length rs"
  by (induction c rs rule: body_starts.induct) simp_all

definition body_of :: "bpe_dict \<Rightarrow> bam_message \<Rightarrow> bytes" where
  "body_of dict m =
     (case hexToBytes (m_sender m) of Inl _ \<Rightarrow> [] | Inr sb \<Rightarrow> sb @ be 8 (nat (m_nonce m)) @ bpeEncode (m_contents m) dict)"

definition bpe_message_ok :: "bam_message \<Rightarrow> bool" where
  "bpe_message_ok m \<longleftrightarrow> uint64 (m_nonce m) \<and> (\<exists>sb. hexToBytes (m_sender m) = Inr sb \<and> length sb = 20)"

lemma length_body_of: "bpe_message_ok m \<Longrightarrow> length (body_of dict m) = 28 + length (bpeEncode (m_contents m) dict)"
  by (auto simp: bpe_message_ok_def body_of_def)

lemma layoutOffsets_Inr:
  "list_all bpe_message_ok ms \<Longrightarrow>
   layoutOffsets i c (map (\<lambda>m. bpeEncode (m_contents m) dict) ms) = Inr (offs, c') \<Longrightarrow>
   offs = body_starts c (map (body_of dict) ms) \<and> c' = c + length (concat (map (body_of dict) ms))
     \<and> list_all (\<lambda>v. v \<le> 0xffff) offs"
  by (induction ms arbitrary: i c offs c')
    (auto simp: RECORD_HEADER_def length_body_of split: if_splits, force+)

lemma writeOffsets_fill:
  assumes "length pre = 2 + i * 2" "2 * length offs \<le> k" "list_all (\<lambda>v. v \<le> 0xffff) offs"
  shows "writeOffsets i offs (pre @ zeros k) = Inr (pre @ concat (map (be 2) offs) @ zeros (k - 2 * length offs))"
  using assms
proof (induction offs arbitrary: i pre k)
  case (Cons v vs)
  have "writeOffsets (i + 1) vs ((pre @ be 2 v) @ zeros (k - 2))
      = Inr ((pre @ be 2 v) @ concat (map (be 2) vs) @ zeros (k - 2 - 2 * length vs))"
    using Cons.prems by (intro Cons.IH) auto
  then show ?case
    using Cons.prems by (simp add: u16beWrite_fill)
qed simp

lemma writeBodies_ok:
  "length ms = length encs \<Longrightarrow> length encs = length offs \<Longrightarrow> writeBodies i (zip ms (zip encs offs)) out = Inr out' \<Longrightarrow>
   list_all bpe_message_ok ms"
proof (induction ms arbitrary: i encs offs out)
  case (Cons m ms)
  then obtain e es v vs where "encs = e # es" "offs = v # vs"
    by (metis length_Suc_conv)
  with Cons show ?case
    by (auto simp: bpe_message_ok_def uint64_def uint64_max_def split: sum.splits if_splits)
qed simp

lemma writeBodies_fill:
  assumes "list_all bpe_message_ok ms" "length (concat (map (body_of dict) ms)) \<le> k"
  shows "writeBodies i (zip ms (zip (map (\<lambda>m. bpeEncode (m_contents m) dict) ms)
      (body_starts (length pre) (map (body_of dict) ms)))) (pre @ zeros k)
    = Inr (pre @ concat (map (body_of dict) ms) @ zeros (k - length (concat (map (body_of dict) ms))))"
  using assms
proof (induction ms arbitrary: i pre k)
  case (Cons m ms)
  then obtain sb where sb: "hexToBytes (m_sender m) = Inr sb" "length sb = 20" and n: "uint64 (m_nonce m)"
    by (auto simp: bpe_message_ok_def)
  let ?e = "bpeEncode (m_contents m) dict"
  have body: "body_of dict m = sb @ be 8 (nat (m_nonce m)) @ ?e"
    by (simp add: body_of_def sb)
  have k: "28 + length ?e \<le> k"
    using Cons.prems(2) sb by (simp add: body)
  have "u64beWrite (uset (pre @ zeros k) sb (length pre)) (length pre + 20) (m_nonce m)
      = (pre @ sb @ be 8 (nat (m_nonce m))) @ zeros (k - 28)"
    using u64beWrite_fill [OF n, of "pre @ sb" "length pre + 20" "k - 20"] sb k by (simp add: uset_fill)
  then have "uset (u64beWrite (uset (pre @ zeros k) sb (length pre)) (length pre + 20) (m_nonce m)) ?e (length pre + 28)
      = (pre @ body_of dict m) @ zeros (k - length (body_of dict m))"
    using uset_fill [of "pre @ sb @ be 8 (nat (m_nonce m))" "length pre + 28" "k - 28" ?e] sb k
    by (simp add: body)
  moreover have "writeBodies (i + 1) (zip ms (zip (map (\<lambda>m. bpeEncode (m_contents m) dict) ms)
      (body_starts (length (pre @ body_of dict m)) (map (body_of dict) ms)))) ((pre @ body_of dict m) @ zeros (k - length (body_of dict m)))
     = Inr ((pre @ body_of dict m) @ concat (map (body_of dict) ms)
          @ zeros (k - length (body_of dict m) - length (concat (map (body_of dict) ms))))"
    using Cons.prems by (intro Cons.IH) auto
  ultimately show ?case
    using sb n by (simp add: uint64_def uint64_max_def)
qed simp

lemma encodeBatchBPE_layout:
  assumes "encodeBatchBPE ms sig dict = Inr out"
  shows "list_all bpe_message_ok ms \<and> length ms \<le> 0xffff \<and>
    (let bodies = map (body_of dict) ms; offs = body_starts (2 + 2 * length ms) bodies
     in list_all (\<lambda>v. v \<le> 0xffff) offs \<and>
        out = be 2 (length ms) @ concat (map (be 2) offs) @ concat bodies @ sig)"
proof -
  let ?n = "length ms" and ?enc = "map (\<lambda>m. bpeEncode (m_contents m) dict) ms"
  from assms obtain offs c out1 out2 out3 where n: "?n \<le> 0xffff"
    and lay: "layoutOffsets 0 (2 + 2 * ?n) ?enc = Inr (offs, c)"
    and o1: "u16beWrite (zeros (2 + 2 * ?n + (c - (2 + 2 * ?n)) + length sig)) 0 ?n = Inr out1"
    and o2: "writeOffsets 0 offs out1 = Inr out2"
    and o3: "writeBodies 0 (zip ms (zip ?enc offs)) out2 = Inr out3"
    and out: "out = uset out3 sig (2 + 2 * ?n + (c - (2 + 2 * ?n)))"
    by (auto simp: encodeBatchBPE_def HEADER_BASE_def Let_def split: if_splits)
  have len_offs: "layoutOffsets i c' es = Inr (os, d) \<Longrightarrow> length os = length es" for i c' es os d
    by (induction i c' es arbitrary: os d rule: layoutOffsets.induct) (auto split: if_splits)
  have ok: "list_all bpe_message_ok ms"
    using writeBodies_ok [OF _ _ o3] len_offs [OF lay] by simp
  define bodies where "bodies = map (body_of dict) ms"
  have offs: "offs = body_starts (2 + 2 * ?n) bodies" and c: "c = 2 + 2 * ?n + length (concat bodies)"
    and small: "list_all (\<lambda>v. v \<le> 0xffff) offs"
    using layoutOffsets_Inr [OF ok lay] unfolding bodies_def by blast+
  have lo: "length offs = ?n"
    by (simp add: offs bodies_def)
  have "out1 = be 2 ?n @ zeros (2 * ?n + length (concat bodies) + length sig)"
    using o1 n u16beWrite_fill [of "[]" 0 "2 + 2 * ?n + length (concat bodies) + length sig" ?n]
    by (simp add: c)
  then have "out2 = be 2 ?n @ concat (map (be 2) offs) @ zeros (length (concat bodies) + length sig)"
    using o2 writeOffsets_fill [of "be 2 ?n" 0 offs "2 * ?n + length (concat bodies) + length sig"] small lo
    by simp
  moreover have hdr: "length (be 2 ?n @ concat (map (be 2) offs)) = 2 + 2 * ?n"
  proof -
    have "length (concat (map (be 2) vs)) = 2 * length vs" for vs
      by (induction vs) simp_all
    then show ?thesis by (simp add: lo)
  qed
  ultimately have "out3 = (be 2 ?n @ concat (map (be 2) offs)) @ concat bodies @ zeros (length sig)"
    using o3 writeBodies_fill [OF ok, of dict "length (concat bodies) + length sig" 0 "be 2 ?n @ concat (map (be 2) offs)"]
    unfolding bodies_def [symmetric] hdr offs [symmetric] by simp
  then have "out = be 2 ?n @ concat (map (be 2) offs) @ concat bodies @ sig"
    using hdr by (simp add: out c uset_def)
  then show ?thesis
    using ok n small unfolding bodies_def offs Let_def by blast
qed

section \<open>Round trip\<close>

lemma nth_body_starts:
  "j < length rs \<Longrightarrow> body_starts c rs ! j = c + length (concat (take j rs))"
proof (induction c rs arbitrary: j rule: body_starts.induct)
  case (2 c r rs)
  then show ?case by (cases j) simp_all
qed simp

lemma decodeBodies_bodies:
  assumes "list_all bpe_message_ok ms" "dict_sound dict" "dict_complete dict"
    and "payload = pre @ concat (map (body_of dict) ms) @ sig"
    and "sigStart = length pre + length (concat (map (body_of dict) ms))"
    and "i + length ms = n"
    and "\<And>j. j < length ms \<Longrightarrow> u16beRead payload (2 + (i + j) * 2) = body_starts (length pre) (map (body_of dict) ms) ! j"
  shows "decodeBodies (length ms) i n payload sigStart dict = Inr (map canonical_message ms)"
  using assms
proof (induction ms arbitrary: i pre)
  case (Cons m ms)
  then obtain sb where sb: "hexToBytes (m_sender m) = Inr sb" "length sb = 20" and n: "uint64 (m_nonce m)"
    by (auto simp: bpe_message_ok_def)
  define e where "e = bpeEncode (m_contents m) dict"
  have body: "body_of dict m = sb @ be 8 (nat (m_nonce m)) @ e"
    by (simp add: body_of_def sb e_def)
  let ?rest = "concat (map (body_of dict) ms) @ sig"
  have payload: "payload = pre @ sb @ be 8 (nat (m_nonce m)) @ e @ ?rest"
    using Cons.prems(4) by (simp add: body)
  have start: "u16beRead payload (2 + i * 2) = length pre"
    using Cons.prems(7) [of 0] by simp
  have fin: "(if i + 1 < n then u16beRead payload (2 + (i + 1) * 2) else sigStart) = length pre + 28 + length e"
  proof (cases ms)
    case Nil
    then show ?thesis using Cons.prems(5,6) sb by (simp add: body)
  next
    case (Cons m' ms')
    then show ?thesis
      using Cons.prems(7) [of 1] Cons.prems(6) sb by (simp add: body)
  qed
  have nonce: "u64beRead payload (length pre + 20) = m_nonce m"
    using sb uint64_nat [OF n] n
    by (subst u64beRead_eq) (simp_all add: payload slice_append_skip slice_append_take slice_all uint64_def)
  have parts: "slice payload (length pre) (length pre + 20) = sb"
    "slice payload (length pre + 28) (length pre + 28 + length e) = e"
    using sb by (simp_all add: payload slice_append_skip slice_append_take slice_all)
  have "decodeBodies (length ms) (i + 1) n payload sigStart dict = Inr (map canonical_message ms)"
  proof (rule Cons.IH [of "pre @ body_of dict m"])
    fix j assume "j < length ms"
    then show "u16beRead payload (2 + (i + 1 + j) * 2) = body_starts (length (pre @ body_of dict m)) (map (body_of dict) ms) ! j"
      using Cons.prems(7) [of "Suc j"] by simp
  qed (use Cons.prems in simp_all)
  moreover have "bpeDecode e dict = Inr (m_contents m)"
    unfolding e_def using Cons.prems(2,3) by (rule bpe_decode_encode)
  moreover have "length pre + 28 + length e \<le> sigStart"
    using Cons.prems(5) sb by (simp add: body)
  ultimately show ?case
    using fin by (simp add: start [simplified] nonce parts RECORD_HEADER_def Let_def canonical_message_eq [OF sb(1)] cong del: if_weak_cong)
qed simp

lemma decode_encode_bpe:
  assumes "encodeBatchBPE ms sig dict = Inr out" "dict_sound dict" "dict_complete dict"
  shows "decodeBatchBPE out dict (int (length sig)) = Inr (map canonical_message ms, sig)"
proof -
  let ?n = "length ms"
  define bodies where "bodies = map (body_of dict) ms"
  define offs where "offs = body_starts (2 + 2 * ?n) bodies"
  have ok: "list_all bpe_message_ok ms" and n: "?n \<le> 0xffff" and small: "list_all (\<lambda>v. v \<le> 0xffff) offs"
    and out: "out = be 2 ?n @ concat (map (be 2) offs) @ concat bodies @ sig"
    using encodeBatchBPE_layout [OF assms(1)] by (auto simp: bodies_def offs_def Let_def)
  have lo: "length offs = ?n" by (simp add: offs_def bodies_def)
  have tab: "concat (map (be 2) offs) = concat (map (\<lambda>j. be 2 (offs ! j)) [0..<?n])"
    using map_nth [of offs] lo by (metis (no_types, lifting) map_map comp_apply map_eq_conv)
  have lt: "length (concat (map (be 2) offs)) = 2 * ?n"
    unfolding tab by (rule length_concat_chunks) simp
  have "u16beRead out (2 + j * 2) = offs ! j" if "j < ?n" for j
  proof -
    have "slice out (2 + j * 2) (2 + j * 2 + 2) = slice (concat (map (be 2) offs)) (2 * j) (2 * j + 2)"
      using lt that by (simp add: out slice_append_skip slice_append_take mult.commute)
    also have "\<dots> = be 2 (offs ! j)"
      unfolding tab using that by (intro slice_concat_chunk) simp_all
    finally have "slice out (2 + j * 2) (2 + j * 2 + 2) = be 2 (offs ! j)" .
    moreover have "2 + j * 2 + 2 \<le> length out"
      using that lt by (simp add: out)
    moreover have "offs ! j < 65536"
      using small lo that by (fastforce simp: list_all_length)
    ultimately show ?thesis
      by (simp add: u16beRead_eq)
  qed
  then have "decodeBodies ?n 0 ?n out (2 + 2 * ?n + length (concat bodies)) dict = Inr (map canonical_message ms)"
    using ok lt lo assms(2,3)
    by (intro decodeBodies_bodies [where pre = "be 2 ?n @ concat (map (be 2) offs)" and sig = sig])
      (simp_all add: out bodies_def offs_def)
  moreover have "u16beRead out 0 = ?n"
    using n by (simp add: u16beRead_eq out slice_append_take slice_all)
  moreover have "length out = 2 + 2 * ?n + length (concat bodies) + length sig"
    by (simp add: out lt)
  ultimately show ?thesis
    using lt by (simp add: decodeBatchBPE_def HEADER_BASE_def Let_def) (simp add: out)
qed

section \<open>Properties\<close>

text \<open>
  A batch in the BPE wire format decodes to the messages it was built from,
  senders in canonical form, and the untouched signature trailer, for every
  dictionary built from a corpus.
\<close>

theorem bpe_batch_roundtrip:
  assumes "encodeBatchBPE messages signatureData (buildDictionary corpus) = Inr payload"
  shows "decodeBatchBPE payload (buildDictionary corpus) (int (length signatureData))
    = Inr (map canonical_message messages, signatureData)"
  using decode_encode_bpe [OF assms buildDictionary_sound buildDictionary_complete] .

theorem bpe_batch_roundtrip_witness:
  "decodeBatchBPE [0, 0, 9, 8, 7] (buildDictionary [1, 2]) (int (length [9, 8, 7 :: byte])) = Inr ([], [9, 8, 7])"
proof -
  have "encodeBatchBPE [] [9, 8, 7] (buildDictionary [1, 2]) = Inr [0, 0, 9, 8, 7]"
  proof -
    have w: "u16beWrite (zeros 5) 0 0 = Inr ([0, 0] @ zeros 3)"
      using u16beWrite_fill [of "[]" 0 5 0] by (simp add: be_2)
    have "uset ([0, 0] @ zeros 3) [9, 8, 7] 2 = [0, 0, 9, 8, 7]"
      using uset_fill [of "[0, 0]" 2 3 "[9, 8, 7]"] by simp
    then show ?thesis
      using w by (simp add: encodeBatchBPE_def HEADER_BASE_def) (simp add: eval_nat_numeral)
  qed
  then show ?thesis
    using bpe_batch_roundtrip [of "[]" "[9, 8, 7]" "[1, 2]" "[0, 0, 9, 8, 7]"] by simp
qed

end
