(* ===== verification/BlobLayout.thy ===== *)
theory BlobLayout
  imports Prelude
begin

text \<open>
  The EIP-4844 byte layout of packages/bam-sdk/src/blob: the constants, the
  producer assembleMultiSegmentBlob and the consumer extractSegmentBytes.  A blob
  is 4096 field elements of 32 bytes; byte 0 of each element stays zero and the
  other 31 carry the payload.  The functions pack and unpack describe the layout
  without offsets; the loops of the source are shown equal to them.
\<close>

definition BYTES_PER_FIELD_ELEMENT :: nat where "BYTES_PER_FIELD_ELEMENT = 32"
definition USABLE_BYTES_PER_FIELD_ELEMENT :: nat where "USABLE_BYTES_PER_FIELD_ELEMENT = 31"
definition FIELD_ELEMENTS_PER_BLOB :: nat where "FIELD_ELEMENTS_PER_BLOB = 4096"
definition BYTES_PER_BLOB :: nat where
  "BYTES_PER_BLOB = FIELD_ELEMENTS_PER_BLOB * BYTES_PER_FIELD_ELEMENT"
definition USABLE_BYTES_PER_BLOB :: nat where
  "USABLE_BYTES_PER_BLOB = FIELD_ELEMENTS_PER_BLOB * USABLE_BYTES_PER_FIELD_ELEMENT"

text \<open>constants.ts has the capacity as a number of its own.\<close>

definition BLOB_USABLE_CAPACITY :: nat where "BLOB_USABLE_CAPACITY = 126976"

lemmas blob_consts = BYTES_PER_FIELD_ELEMENT_def USABLE_BYTES_PER_FIELD_ELEMENT_def
  FIELD_ELEMENTS_PER_BLOB_def BYTES_PER_BLOB_def USABLE_BYTES_PER_BLOB_def

record segment_input =
  si_contentTag :: string
  si_payload :: bytes

record assembled_segment =
  as_contentTag :: string
  as_startFE :: nat
  as_endFE :: nat

datatype assemble_error = AggregateExceedsBlob nat

datatype extract_error =
    StartNegative int
  | EndBeyondBlob int
  | EmptyRange int int
  | BlobTooShort nat nat

text \<open>The copy loop of one segment: n field elements still to write, from field
  element fe, with srcOffset payload bytes already copied.\<close>

primrec copyFEs :: "nat \<Rightarrow> nat \<Rightarrow> nat \<Rightarrow> bytes \<Rightarrow> bytes \<Rightarrow> bytes" where
  "copyFEs 0 fe srcOffset payload blob = blob"
| "copyFEs (Suc n) fe srcOffset payload blob =
     (let feOffset = fe * BYTES_PER_FIELD_ELEMENT;
          remaining = length payload - srcOffset;
          bytesToCopy = (if remaining > USABLE_BYTES_PER_FIELD_ELEMENT
                         then USABLE_BYTES_PER_FIELD_ELEMENT else remaining)
      in copyFEs n (fe + 1) (srcOffset + bytesToCopy) payload
           (uset blob (slice payload srcOffset (srcOffset + bytesToCopy)) (feOffset + 1)))"

fun assembleSegments ::
  "segment_input list \<Rightarrow> nat \<Rightarrow> bytes \<Rightarrow> assemble_error + (bytes \<times> assembled_segment list)" where
  "assembleSegments [] cursorFE blob = Inr (blob, [])"
| "assembleSegments (s # ss) cursorFE blob =
     (let segmentFEs = ceil_div (length (si_payload s)) USABLE_BYTES_PER_FIELD_ELEMENT;
          startFE = cursorFE;
          endFE = startFE + segmentFEs
      in if endFE > FIELD_ELEMENTS_PER_BLOB then Inl (AggregateExceedsBlob endFE)
         else ebind (assembleSegments ss endFE
                (copyFEs (endFE - startFE) startFE 0 (si_payload s) blob)) (\<lambda>(blob', segs).
              Inr (blob', \<lparr>as_contentTag = si_contentTag s, as_startFE = startFE, as_endFE = endFE\<rparr> # segs)))"

definition assembleMultiSegmentBlob ::
  "segment_input list \<Rightarrow> assemble_error + (bytes \<times> assembled_segment list)" where
  "assembleMultiSegmentBlob segments = assembleSegments segments 0 (zeros BYTES_PER_BLOB)"

primrec extractFEs :: "nat \<Rightarrow> nat \<Rightarrow> nat \<Rightarrow> bytes \<Rightarrow> bytes \<Rightarrow> bytes" where
  "extractFEs 0 fe dst blob result = result"
| "extractFEs (Suc n) fe dst blob result =
     (let feOffset = fe * BYTES_PER_FIELD_ELEMENT
      in extractFEs n (fe + 1) (dst + USABLE_BYTES_PER_FIELD_ELEMENT) blob
           (uset result (slice blob (feOffset + 1) (feOffset + 1 + USABLE_BYTES_PER_FIELD_ELEMENT)) dst))"

text \<open>Both bounds are integers here; the source's Number.isInteger guard is what
  lets the model use the type int.\<close>

definition extractSegmentBytes :: "bytes \<Rightarrow> int \<Rightarrow> int \<Rightarrow> extract_error + bytes" where
  "extractSegmentBytes blob startFE endFE =
     (if startFE < 0 then Inl (StartNegative startFE)
      else if endFE > int FIELD_ELEMENTS_PER_BLOB then Inl (EndBeyondBlob endFE)
      else if startFE \<ge> endFE then Inl (EmptyRange startFE endFE)
      else let requiredBytes = nat endFE * BYTES_PER_FIELD_ELEMENT in
        if length blob < requiredBytes then Inl (BlobTooShort requiredBytes (length blob))
        else let n = nat endFE - nat startFE;
                 result = zeros (n * USABLE_BYTES_PER_FIELD_ELEMENT)
             in Inr (extractFEs n (nat startFE) 0 blob result))"

section \<open>The layout without offsets\<close>

fun pack :: "nat \<Rightarrow> bytes \<Rightarrow> bytes" where
  "pack 0 p = []"
| "pack (Suc n) p = 0 # take 31 p @ zeros (31 - length p) @ pack n (drop 31 p)"

fun unpack :: "nat \<Rightarrow> bytes \<Rightarrow> bytes" where
  "unpack 0 b = []"
| "unpack (Suc n) b = take 31 (drop 1 b) @ unpack n (drop 32 b)"

lemma length_pack [simp]: "length (pack n p) = 32 * n"
  by (induction n arbitrary: p) auto

lemma length_unpack: "32 * n \<le> length b \<Longrightarrow> length (unpack n b) = 31 * n"
  by (induction n arbitrary: b) auto

lemma unpack_append: "32 * n \<le> length b \<Longrightarrow> unpack n (b @ r) = unpack n b"
  by (induction n arbitrary: b) auto

lemma unpack_pack: "length p \<le> 31 * n \<Longrightarrow> unpack n (pack n p) = p @ zeros (31 * n - length p)"
proof (induction n arbitrary: p)
  case 0
  then show ?case by simp
next
  case (Suc n)
  show ?case
  proof (cases "length p \<le> 31")
    case True
    then have "unpack n (pack n []) = zeros (31 * n)"
      using Suc(1) [of "[]"] by simp
    with True show ?thesis
      by (simp add: zeros_append)
  next
    case False
    then have "length (drop 31 p) \<le> 31 * n"
      using Suc.prems by simp
    from Suc.IH [OF this] False show ?thesis
      by (simp add: append_assoc [symmetric] add.commute del: append_assoc)
  qed
qed

lemma pack_byte0: "i < n \<Longrightarrow> pack n p ! (32 * i) = 0"
proof (induction n arbitrary: i p)
  case (Suc n)
  show ?case
  proof (cases i)
    case (Suc j)
    define h where "h = 0 # take 31 p @ zeros (31 - length p)"
    have len: "length h = 32"
      by (simp add: h_def min_def)
    have "pack (Suc n) p ! (32 * i) = (h @ pack n (drop 31 p)) ! (length h + 32 * j)"
      by (simp only: len) (simp add: h_def Suc)
    also have "\<dots> = pack n (drop 31 p) ! (32 * j)"
      by (rule nth_append_length_plus)
    finally show ?thesis
      using Suc Suc.IH [of j "drop 31 p"] \<open>i < Suc n\<close> by simp
  qed simp
qed simp

lemma copyFEs_pack:
  assumes "length pre = 32 * fe" "32 * n \<le> k" "src \<le> length p"
  shows "copyFEs n fe src p (pre @ zeros k) = pre @ pack n (drop src p) @ zeros (k - 32 * n)"
  using assms
proof (induction n arbitrary: fe src pre k)
  case 0
  then show ?case by simp
next
  case (Suc n)
  define c where "c = take 31 (drop src p)"
  define b where "b = (if length p - src > 31 then 31 else length p - src)"
  have b: "b = length c" "slice p src (src + b) = c"
    by (auto simp: b_def c_def slice_def)
  have k: "zeros k = 0 # zeros (k - 1)"
    using Suc.prems by (cases k) (simp_all add: zeros_def)
  have "uset (pre @ zeros k) c (fe * 32 + 1) = (pre @ [0]) @ c @ zeros (k - 1 - length c)"
    using uset_fill [of "pre @ [0]" "fe * 32 + 1" "k - 1" c] Suc.prems by (simp add: k mult.commute)
  also have "zeros (k - 1 - length c) = zeros (31 - length c) @ zeros (k - 32)"
    using Suc.prems by (simp add: zeros_append c_def)
  finally have step: "uset (pre @ zeros k) c (fe * 32 + 1)
      = (pre @ 0 # c @ zeros (31 - length c)) @ zeros (k - 32)"
    by simp
  have "copyFEs (Suc n) fe src p (pre @ zeros k)
      = copyFEs n (fe + 1) (src + b) p ((pre @ 0 # c @ zeros (31 - length c)) @ zeros (k - 32))"
    by (simp only: copyFEs.simps blob_consts Let_def b_def [symmetric] b(2) step)
  also have "\<dots> = (pre @ 0 # c @ zeros (31 - length c)) @ pack n (drop (src + b) p) @ zeros (k - 32 - 32 * n)"
    using Suc.prems by (intro Suc.IH) (auto simp: c_def b_def)
  also have "drop (src + b) p = drop 31 (drop src p)"
    by (auto simp: b_def add.commute)
  also have "31 - length c = 31 - length (drop src p)"
    by (simp add: c_def)
  finally show ?case
    by (simp add: c_def)
qed

lemma extractFEs_unpack:
  assumes "length acc = dst" "32 * (fe + n) \<le> length blob"
  shows "extractFEs n fe dst blob (acc @ zeros (31 * n)) = acc @ unpack n (drop (32 * fe) blob)"
  using assms
proof (induction n arbitrary: fe dst acc)
  case 0
  then show ?case by simp
next
  case (Suc n)
  define c where "c = slice blob (fe * 32 + 1) (fe * 32 + 1 + 31)"
  have c: "length c = 31" "c = take 31 (drop 1 (drop (32 * fe) blob))"
    using Suc.prems by (simp_all add: c_def slice_def mult.commute)
  have u: "uset (acc @ zeros (31 * Suc n)) c dst = (acc @ c) @ zeros (31 * n)"
    using uset_fill [OF Suc.prems(1), of "31 * Suc n" c] c(1) by simp
  have "extractFEs (Suc n) fe dst blob (acc @ zeros (31 * Suc n))
      = extractFEs n (fe + 1) (dst + 31) blob ((acc @ c) @ zeros (31 * n))"
    by (simp only: extractFEs.simps blob_consts Let_def c_def [symmetric] u)
  also have "\<dots> = (acc @ c) @ unpack n (drop (32 * (fe + 1)) blob)"
    using Suc.prems c(1) by (intro Suc.IH) auto
  also have "drop (32 * (fe + 1)) blob = drop 32 (drop (32 * fe) blob)"
    by (simp add: add.commute)
  finally show ?case
    by (simp only: c(2) unpack.simps append_assoc)
qed

lemma extractSegmentBytes_Inr:
  "extractSegmentBytes blob a b = Inr r \<longleftrightarrow>
   0 \<le> a \<and> a < b \<and> b \<le> 4096 \<and> nat b * 32 \<le> length blob \<and>
   r = unpack (nat b - nat a) (drop (32 * nat a) blob)"
  using extractFEs_unpack [of "[]" 0 "nat a" "nat b - nat a" blob]
  by (auto simp: extractSegmentBytes_def blob_consts Let_def mult.commute)

section \<open>The assembled blob\<close>

abbreviation segment_fes :: "segment_input \<Rightarrow> nat" where
  "segment_fes s \<equiv> ceil_div (length (si_payload s)) 31"

fun segment_ranges :: "nat \<Rightarrow> segment_input list \<Rightarrow> assembled_segment list" where
  "segment_ranges c [] = []"
| "segment_ranges c (s # ss) =
     \<lparr>as_contentTag = si_contentTag s, as_startFE = c, as_endFE = c + segment_fes s\<rparr>
       # segment_ranges (c + segment_fes s) ss"

definition segments_fes :: "segment_input list \<Rightarrow> nat" where
  "segments_fes ss = (\<Sum>s \<leftarrow> ss. segment_fes s)"

lemma segments_fes_simps [simp]:
  "segments_fes [] = 0" "segments_fes (s # ss) = segment_fes s + segments_fes ss"
  "segments_fes (ss @ ts) = segments_fes ss + segments_fes ts"
  by (simp_all add: segments_fes_def)

definition pack_segments :: "segment_input list \<Rightarrow> bytes" where
  "pack_segments ss = concat (map (\<lambda>s. pack (segment_fes s) (si_payload s)) ss)"

lemma length_pack_segments [simp]: "length (pack_segments ss) = 32 * segments_fes ss"
  by (induction ss) (simp_all add: pack_segments_def)

lemma assembleSegments_eq:
  assumes "length pre = 32 * c" "c + segments_fes ss \<le> 4096" "32 * segments_fes ss \<le> k"
  shows "assembleSegments ss c (pre @ zeros k)
    = Inr (pre @ pack_segments ss @ zeros (k - 32 * segments_fes ss), segment_ranges c ss)"
  using assms
proof (induction ss arbitrary: c pre k)
  case Nil
  then show ?case by (simp add: pack_segments_def)
next
  case (Cons s ss)
  define n where "n = segment_fes s"
  have copy: "copyFEs n c 0 (si_payload s) (pre @ zeros k)
      = (pre @ pack n (si_payload s)) @ zeros (k - 32 * n)"
    using copyFEs_pack [of pre c n k 0 "si_payload s"] Cons.prems by (simp add: n_def)
  have "assembleSegments ss (c + n) ((pre @ pack n (si_payload s)) @ zeros (k - 32 * n))
      = Inr ((pre @ pack n (si_payload s)) @ pack_segments ss @ zeros (k - 32 * n - 32 * segments_fes ss),
          segment_ranges (c + n) ss)"
    using Cons.prems by (intro Cons.IH) (auto simp: n_def)
  moreover have "c + n \<le> 4096"
    using Cons.prems by (simp add: n_def)
  ultimately show ?case
    by (simp add: blob_consts Let_def copy flip: n_def) (simp add: pack_segments_def n_def algebra_simps)
qed

lemma assembleSegments_error:
  "4096 < c + segments_fes ss \<Longrightarrow> c \<le> 4096 \<Longrightarrow> \<exists>e. assembleSegments ss c b = Inl (AggregateExceedsBlob e) \<and> 4096 < e"
proof (induction ss arbitrary: c b)
  case (Cons s ss)
  then show ?case
    by (cases "c + segment_fes s \<le> 4096") (auto simp: blob_consts Let_def ebind_Inl_iff add.assoc)
qed simp

lemma assemble_eq:
  "segments_fes ss \<le> 4096 \<Longrightarrow>
   assembleMultiSegmentBlob ss = Inr (pack_segments ss @ zeros (131072 - 32 * segments_fes ss), segment_ranges 0 ss)"
  using assembleSegments_eq [of "[]" 0 ss 131072]
  by (simp add: assembleMultiSegmentBlob_def blob_consts)

lemma assemble_Inr_iff:
  "assembleMultiSegmentBlob ss = Inr (blob, segs) \<longleftrightarrow>
   segments_fes ss \<le> 4096 \<and> blob = pack_segments ss @ zeros (131072 - 32 * segments_fes ss)
     \<and> segs = segment_ranges 0 ss"
proof (cases "segments_fes ss \<le> 4096")
  case True
  then show ?thesis by (auto simp: assemble_eq)
next
  case False
  then show ?thesis
    using assembleSegments_error [of 0 ss "zeros BYTES_PER_BLOB"]
    by (auto simp: assembleMultiSegmentBlob_def)
qed

lemma segment_ranges_append:
  "segment_ranges c (ss @ ts) = segment_ranges c ss @ segment_ranges (c + segments_fes ss) ts"
  by (induction ss arbitrary: c) (simp_all add: add.assoc)

lemma length_segment_ranges [simp]: "length (segment_ranges c ss) = length ss"
  by (induction ss arbitrary: c) simp_all

lemma extract_assembled:
  assumes "assembleMultiSegmentBlob (ss @ s # ts) = Inr (blob, segs)" "si_payload s \<noteq> []"
  shows "extractSegmentBytes blob (int (segments_fes ss)) (int (segments_fes ss + segment_fes s))
    = Inr (si_payload s @ zeros (31 * segment_fes s - length (si_payload s)))"
proof -
  define n where "n = segment_fes s"
  have fits: "segments_fes ss + n + segments_fes ts \<le> 4096"
    and blob: "blob = pack_segments ss @ pack n (si_payload s) @ pack_segments ts @ zeros (131072 - 32 * (segments_fes ss + n + segments_fes ts))"
    using assms by (auto simp: assemble_Inr_iff pack_segments_def n_def add.assoc)
  have pos: "0 < n" and le: "length (si_payload s) \<le> 31 * n"
    using ceil_div_bounds(1) [of 31 "length (si_payload s)"] assms(2) by (auto simp: n_def mult.commute intro: Suc_leI gr0I)
  have "unpack n (drop (32 * segments_fes ss) blob) = si_payload s @ zeros (31 * n - length (si_payload s))"
    using le by (simp add: blob unpack_append unpack_pack)
  moreover have "length blob = 131072"
    using fits by (simp add: blob)
  ultimately show ?thesis
    using fits pos by (simp add: extractSegmentBytes_Inr n_def nat_add_distrib)
qed

section \<open>Properties\<close>

text \<open>
  C4. Every segment of an assembled multi-segment blob can be read back on its
  own: extracting the field-element range recorded for a non-empty segment gives
  its payload followed by the zeros that fill its last field element, whatever
  the segments before and after it hold.
\<close>

theorem segment_roundtrip:
  assumes "assembleMultiSegmentBlob (before @ s # after) = Inr (blob, segs)" "si_payload s \<noteq> []"
  shows "as_contentTag (segs ! length before) = si_contentTag s
    \<and> extractSegmentBytes blob (int (as_startFE (segs ! length before))) (int (as_endFE (segs ! length before)))
      = Inr (si_payload s @ zeros (31 * segment_fes s - length (si_payload s)))"
proof -
  have "segs ! length before = \<lparr>as_contentTag = si_contentTag s, as_startFE = segments_fes before,
      as_endFE = segments_fes before + segment_fes s\<rparr>"
    using assms(1) by (auto simp: assemble_Inr_iff segment_ranges_append nth_append)
  then show ?thesis
    using extract_assembled [OF assms] by simp
qed

theorem segment_roundtrip_witness:
  "\<exists>blob segs. assembleMultiSegmentBlob ([\<lparr>si_contentTag = ''0xa'', si_payload = [1, 2]\<rparr>]
       @ \<lparr>si_contentTag = ''0xb'', si_payload = [3]\<rparr> # []) = Inr (blob, segs)
     \<and> as_contentTag (segs ! 1) = ''0xb''
     \<and> extractSegmentBytes blob (int (as_startFE (segs ! 1))) (int (as_endFE (segs ! 1))) = Inr ([3] @ zeros 30)"
proof -
  let ?a = "\<lparr>si_contentTag = ''0xa'', si_payload = [1, 2]\<rparr>" and ?b = "\<lparr>si_contentTag = ''0xb'', si_payload = [3]\<rparr>"
  have "segments_fes ([?a] @ ?b # []) \<le> 4096"
    by (simp add: ceil_div_def)
  then obtain blob segs where e: "assembleMultiSegmentBlob ([?a] @ ?b # []) = Inr (blob, segs)"
    using assemble_eq by blast
  from segment_roundtrip [OF e] show ?thesis
    using e by (intro exI [of _ blob] exI [of _ segs]) (simp add: ceil_div_def)
qed

text \<open>
  An assembled blob is a valid EIP-4844 blob: it has 131072 bytes and byte 0 of
  each of its 4096 field elements is zero; assembly fails exactly when the segments
  need more than 4096 field elements.
\<close>

theorem assembled_blob_valid:
  "case assembleMultiSegmentBlob segments of
     Inl (AggregateExceedsBlob e) \<Rightarrow> segments_fes segments > 4096 \<and> e > 4096
   | Inr (blob, segs) \<Rightarrow> segments_fes segments \<le> 4096 \<and> length blob = BYTES_PER_BLOB
       \<and> length segs = length segments
       \<and> list_all (\<lambda>i. blob ! (BYTES_PER_FIELD_ELEMENT * i) = 0) [0..<FIELD_ELEMENTS_PER_BLOB]"
proof (cases "segments_fes segments \<le> 4096")
  case True
  have zero: "pack_segments ss ! (32 * i) = 0" if "i < segments_fes ss" for ss i
    using that
  proof (induction ss arbitrary: i)
    case (Cons s ss)
    have split: "pack_segments (s # ss) = pack (segment_fes s) (si_payload s) @ pack_segments ss"
      by (simp add: pack_segments_def)
    show ?case
    proof (cases "i < segment_fes s")
      case True
      then show ?thesis by (simp add: split nth_append pack_byte0)
    next
      case False
      then have "32 * i = length (pack (segment_fes s) (si_payload s)) + 32 * (i - segment_fes s)"
        by simp
      then have "pack_segments (s # ss) ! (32 * i) = pack_segments ss ! (32 * (i - segment_fes s))"
        unfolding split by (simp only: nth_append_length_plus)
      with False Cons show ?thesis by simp
    qed
  qed simp
  have "(pack_segments segments @ zeros (131072 - 32 * segments_fes segments)) ! (32 * i) = 0" if "i < 4096" for i
    using that True zero by (cases "i < segments_fes segments") (simp_all add: nth_append)
  with True show ?thesis
    by (simp add: assemble_eq blob_consts list_all_iff)
next
  case False
  then show ?thesis
    using assembleSegments_error [of 0 segments "zeros BYTES_PER_BLOB"]
    by (auto simp: assembleMultiSegmentBlob_def)
qed

end
