(* ===== verification/KzgBlob.thy ===== *)
theory KzgBlob
  imports BlobLayout Hex
begin

text \<open>
  packages/bam-sdk/src/kzg/proof-generator.ts: one-segment blobs, byte ranges over
  a blob's usable bytes, commitments, versioned hashes and per-element proofs.  The
  c-kzg library and sha256 are third-party code and are parameters (the record
  ckzg and the argument sha256); whether the trusted setup has been loaded is the
  flag the module keeps, passed explicitly.
\<close>

record ckzg =
  blobToKzgCommitment :: "bytes \<Rightarrow> bytes"
  computeBlobKzgProof :: "bytes \<Rightarrow> bytes \<Rightarrow> bytes"
  verifyKzgProof :: "bytes \<Rightarrow> bytes \<Rightarrow> bytes \<Rightarrow> bytes \<Rightarrow> bool option"

datatype kzg_error =
    SetupNotLoaded
  | DataTooLarge nat
  | BlobAssembly assemble_error
  | InvalidBlobSize nat
  | RangeExceedsBlob nat
  | FieldElementOutOfRange int

record fe_range =
  fr_start :: int
  fr_end :: int
  fr_count :: int

record kzg_proof =
  kp_z :: int
  kp_y :: int
  kp_commitment :: bytes
  kp_proof :: bytes

record kzg_proof_batch =
  kb_versionedHash :: string
  kb_proofs :: "kzg_proof list"
  kb_byteOffset :: nat
  kb_byteLength :: nat

datatype setup_load = SetupOk | AlreadyLoaded | SetupFailed string

definition loadTrustedSetup :: "bool \<Rightarrow> setup_load \<Rightarrow> string + bool" where
  "loadTrustedSetup setupLoaded outcome =
     (if setupLoaded then Inr True
      else case outcome of SetupOk \<Rightarrow> Inr True | AlreadyLoaded \<Rightarrow> Inr True | SetupFailed e \<Rightarrow> Inl e)"

definition ensureSetupLoaded :: "bool \<Rightarrow> kzg_error + unit" where
  "ensureSetupLoaded setupLoaded = (if \<not> setupLoaded then Inl SetupNotLoaded else Inr ())"

definition VERSIONED_HASH_PREFIX :: byte where "VERSIONED_HASH_PREFIX = 0x01"

definition computeVersionedHash :: "(bytes \<Rightarrow> bytes) \<Rightarrow> bytes \<Rightarrow> string" where
  "computeVersionedHash sha256 commitment =
     (let hash = sha256 commitment;
          versionedHash = uset ((zeros 32)[0 := VERSIONED_HASH_PREFIX]) (drop 1 hash) 1
      in bytesToHex versionedHash)"

definition ZERO_TAG :: string where
  "ZERO_TAG = bytesToHex (zeros 32)"

definition createBlob :: "bytes \<Rightarrow> kzg_error + bytes" where
  "createBlob data =
     (if length data > USABLE_BYTES_PER_BLOB then Inl (DataTooLarge (length data))
      else case assembleMultiSegmentBlob [\<lparr>si_contentTag = ZERO_TAG, si_payload = data\<rparr>] of
        Inl e \<Rightarrow> Inl (BlobAssembly e)
      | Inr (blob, _) \<Rightarrow> Inr blob)"

definition commitToBlob ::
  "ckzg \<Rightarrow> (bytes \<Rightarrow> bytes) \<Rightarrow> bool \<Rightarrow> bytes \<Rightarrow> kzg_error + (bytes \<times> bytes \<times> string)" where
  "commitToBlob kzg sha256 setupLoaded blob =
     ebind (ensureSetupLoaded setupLoaded) (\<lambda>_.
       if length blob \<noteq> BYTES_PER_BLOB then Inl (InvalidBlobSize (length blob))
       else let commitment = blobToKzgCommitment kzg blob
            in Inr (blob, commitment, computeVersionedHash sha256 commitment))"

definition calculateFieldElements :: "nat \<Rightarrow> nat \<Rightarrow> kzg_error + fe_range" where
  "calculateFieldElements byteOffset byteLength =
     (let maxBytes = FIELD_ELEMENTS_PER_BLOB * USABLE_BYTES_PER_FIELD_ELEMENT in
      if byteOffset + byteLength > maxBytes then Inl (RangeExceedsBlob (byteOffset + byteLength))
      else let start = int byteOffset div int USABLE_BYTES_PER_FIELD_ELEMENT;
               end' = (int (byteOffset + byteLength) - 1) div int USABLE_BYTES_PER_FIELD_ELEMENT
           in Inr \<lparr>fr_start = start, fr_end = end', fr_count = end' - start + 1\<rparr>)"

definition generateProofForFieldElement ::
  "ckzg \<Rightarrow> bool \<Rightarrow> bytes \<Rightarrow> bytes \<Rightarrow> int \<Rightarrow> kzg_error + kzg_proof" where
  "generateProofForFieldElement kzg setupLoaded blob commitment fieldElementIndex =
     ebind (ensureSetupLoaded setupLoaded) (\<lambda>_.
       if fieldElementIndex < 0 \<or> fieldElementIndex \<ge> int FIELD_ELEMENTS_PER_BLOB
       then Inl (FieldElementOutOfRange fieldElementIndex)
       else let feOffset = nat fieldElementIndex * BYTES_PER_FIELD_ELEMENT;
                feBytes = slice blob feOffset (feOffset + BYTES_PER_FIELD_ELEMENT)
            in Inr \<lparr>kp_z = fieldElementIndex, kp_y = int (unbe feBytes), kp_commitment = commitment,
                    kp_proof = computeBlobKzgProof kzg blob commitment\<rparr>)"

definition generateProofsForByteRange ::
  "ckzg \<Rightarrow> (bytes \<Rightarrow> bytes) \<Rightarrow> bool \<Rightarrow> bytes \<Rightarrow> bytes \<Rightarrow> nat \<Rightarrow> nat \<Rightarrow> kzg_error + kzg_proof_batch" where
  "generateProofsForByteRange kzg sha256 setupLoaded blob commitment byteOffset byteLength =
     ebind (ensureSetupLoaded setupLoaded) (\<lambda>_.
     ebind (calculateFieldElements byteOffset byteLength) (\<lambda>r.
     ebind (mapE (generateProofForFieldElement kzg setupLoaded blob commitment) [fr_start r..fr_end r])
       (\<lambda>proofs. Inr \<lparr>kb_versionedHash = computeVersionedHash sha256 commitment, kb_proofs = proofs,
          kb_byteOffset = byteOffset, kb_byteLength = byteLength\<rparr>)))"

primrec extractLoop :: "nat \<Rightarrow> nat \<Rightarrow> nat \<Rightarrow> nat \<Rightarrow> nat \<Rightarrow> nat \<Rightarrow> bytes \<Rightarrow> bytes \<Rightarrow> bytes" where
  "extractLoop 0 fe start src0 dst remaining blob result = result"
| "extractLoop (Suc n) fe start src0 dst remaining blob result =
     (if remaining = 0 then result
      else let feOffset = fe * BYTES_PER_FIELD_ELEMENT;
               feStartByte = (if fe = start then src0 else 0);
               available = USABLE_BYTES_PER_FIELD_ELEMENT - feStartByte;
               toCopy = min available remaining;
               srcStart = feOffset + 1 + feStartByte
           in extractLoop n (fe + 1) start src0 (dst + toCopy) (remaining - toCopy) blob
                (uset result (slice blob srcStart (srcStart + toCopy)) dst))"

definition extractBytes :: "bytes \<Rightarrow> nat \<Rightarrow> nat \<Rightarrow> kzg_error + bytes" where
  "extractBytes blob byteOffset byteLength =
     (if byteOffset + byteLength > FIELD_ELEMENTS_PER_BLOB * USABLE_BYTES_PER_FIELD_ELEMENT
      then Inl (RangeExceedsBlob (byteOffset + byteLength))
      else ebind (calculateFieldElements byteOffset byteLength) (\<lambda>r.
        Inr (extractLoop (nat (fr_count r)) (nat (fr_start r)) (nat (fr_start r))
               (byteOffset mod USABLE_BYTES_PER_FIELD_ELEMENT) 0 byteLength blob (zeros byteLength))))"

definition extractBytesWithProofs ::
  "ckzg \<Rightarrow> (bytes \<Rightarrow> bytes) \<Rightarrow> bool \<Rightarrow> bytes \<Rightarrow> bytes \<Rightarrow> nat \<Rightarrow> nat
     \<Rightarrow> kzg_error + (bytes \<times> fe_range \<times> kzg_proof list)" where
  "extractBytesWithProofs kzg sha256 setupLoaded blob commitment byteOffset byteLength =
     ebind (extractBytes blob byteOffset byteLength) (\<lambda>data.
     ebind (calculateFieldElements byteOffset byteLength) (\<lambda>fieldElements.
     ebind (generateProofsForByteRange kzg sha256 setupLoaded blob commitment byteOffset byteLength)
       (\<lambda>b. Inr (data, fieldElements, kb_proofs b))))"

definition bigintToBytes32 :: "int \<Rightarrow> bytes" where
  "bigintToBytes32 v = be 32 (nat v)"

definition verifyProof :: "ckzg \<Rightarrow> bool \<Rightarrow> bytes \<Rightarrow> int \<Rightarrow> int \<Rightarrow> bytes \<Rightarrow> kzg_error + bool" where
  "verifyProof kzg setupLoaded commitment z y proof =
     ebind (ensureSetupLoaded setupLoaded) (\<lambda>_.
       case verifyKzgProof kzg commitment (bigintToBytes32 z) (bigintToBytes32 y) proof of
         Some b \<Rightarrow> Inr b
       | None \<Rightarrow> Inr False)"

section \<open>Byte ranges\<close>

lemma drop_unpack: "k \<le> n \<Longrightarrow> 32 * n \<le> length b \<Longrightarrow> drop (31 * k) (unpack n b) = unpack (n - k) (drop (32 * k) b)"
proof (induction k arbitrary: n b)
  case (Suc k)
  then obtain m where "n = Suc m" by (cases n) auto
  with Suc show ?case by (simp add: add.commute)
qed simp

lemma slice_unpack:
  assumes "fe < n" "32 * n \<le> length b" "j + t \<le> 31"
  shows "slice (unpack n b) (31 * fe + j) (31 * fe + j + t) = slice b (fe * 32 + 1 + j) (fe * 32 + 1 + j + t)"
proof -
  obtain m where m: "n - fe = Suc m" using assms(1) by (metis Suc_diff_Suc)
  have "drop (31 * fe) (unpack n b) = take 31 (drop (1 + 32 * fe) b) @ unpack m (drop (32 + 32 * fe) b)"
    using drop_unpack [of fe n b] assms by (simp add: m)
  moreover define L where "L = take 31 (drop (1 + 32 * fe) b)"
  ultimately have "drop (31 * fe + j) (unpack n b) = drop j (L @ unpack m (drop (32 + 32 * fe) b))"
    by (metis add.commute drop_drop)
  moreover have lenL: "length L = 31"
    using assms by (simp add: L_def)
  ultimately have "slice (unpack n b) (31 * fe + j) (31 * fe + j + t) = take t (drop j L)"
    using assms(3) by (simp add: slice_def)
  also have "\<dots> = take t (drop j (drop (1 + 32 * fe) b))"
    using assms(3) by (simp add: L_def drop_take min_def del: drop_drop)
  also have "\<dots> = slice b (fe * 32 + 1 + j) (fe * 32 + 1 + j + t)"
    by (simp add: slice_def ac_simps)
  finally show ?thesis .
qed

lemma extractLoop_eq:
  assumes "length acc = dst" "fe = (start * 31 + src0 + dst) div 31 \<or> remaining = 0"
    and "(if fe = start then src0 else 0) = (start * 31 + src0 + dst) mod 31 \<or> remaining = 0"
    and "start * 31 + src0 + dst + remaining \<le> 31 * (fe + n)" "fe + n \<le> 4096" "131072 \<le> length blob"
  shows "extractLoop n fe start src0 dst remaining blob (acc @ zeros remaining)
    = acc @ slice (unpack 4096 blob) (start * 31 + src0 + dst) (start * 31 + src0 + dst + remaining)"
  using assms
proof (induction n arbitrary: fe dst remaining acc)
  case 0
  then have "remaining = 0" by (auto simp: algebra_simps dividend_less_times_div)
  then show ?case by (simp add: slice_def)
next
  case (Suc n)
  show ?case
  proof (cases "remaining = 0")
    case True
    then show ?thesis by (simp add: slice_def)
  next
    case False
    define pos where "pos = start * 31 + src0 + dst"
    define t where "t = min (31 - pos mod 31) remaining"
    have fe: "fe = pos div 31" and st: "(if fe = start then src0 else 0) = pos mod 31"
      using Suc.prems False by (auto simp: pos_def)
    have pos: "31 * fe + pos mod 31 = pos" by (simp add: fe)
    have t: "pos mod 31 + t \<le> 31" "t \<le> remaining" "0 < t"
      using False by (auto simp: t_def)
    have lt: "fe < 4096" using Suc.prems by simp
    define c where "c = slice blob (fe * 32 + 1 + pos mod 31) (fe * 32 + 1 + pos mod 31 + t)"
    have c: "c = slice (unpack 4096 blob) pos (pos + t)"
      using slice_unpack [OF lt, of blob "pos mod 31" t] Suc.prems t by (simp add: c_def pos)
    have lenc: "length c = t"
      using Suc.prems t lt by (simp add: c_def)
    have u: "uset (acc @ zeros remaining) c dst = (acc @ c) @ zeros (remaining - t)"
      using uset_fill [OF Suc.prems(1)] lenc by simp
    have next_fe: "remaining - t = 0 \<or> pos + t = 31 * (fe + 1)"
      using pos by (auto simp: t_def min_def)
    have start_le: "start \<le> fe" by (simp add: fe pos_def)
    have "extractLoop (Suc n) fe start src0 dst remaining blob (acc @ zeros remaining)
        = extractLoop n (fe + 1) start src0 (dst + t) (remaining - t) blob ((acc @ c) @ zeros (remaining - t))"
      using False by (simp only: extractLoop.simps blob_consts Let_def st t_def [symmetric] c_def [symmetric] u if_False)
    also have "\<dots> = (acc @ c) @ slice (unpack 4096 blob) (start * 31 + src0 + (dst + t))
          (start * 31 + src0 + (dst + t) + (remaining - t))"
    proof (rule Suc.IH)
      have q: "start * 31 + src0 + (dst + t) = 31 * (fe + 1) \<or> remaining - t = 0"
        using next_fe by (auto simp: pos_def add.assoc)
      show "length (acc @ c) = dst + t" using Suc.prems lenc by simp
      show "fe + 1 = (start * 31 + src0 + (dst + t)) div 31 \<or> remaining - t = 0"
        using q by auto
      show "(if fe + 1 = start then src0 else 0) = (start * 31 + src0 + (dst + t)) mod 31 \<or> remaining - t = 0"
        using q start_le by auto
      show "start * 31 + src0 + (dst + t) + (remaining - t) \<le> 31 * (fe + 1 + n)"
        using Suc.prems t(2) by simp
      show "fe + 1 + n \<le> 4096" "131072 \<le> length blob" using Suc.prems by simp_all
    qed
    also have "\<dots> = acc @ slice (unpack 4096 blob) pos (pos + t) @ slice (unpack 4096 blob) (pos + t) (pos + remaining)"
      using t by (simp add: c pos_def add.assoc)
    finally show ?thesis
      using t by (simp add: slice_join flip: pos_def)
  qed
qed

lemma calculateFieldElements_Inr:
  "calculateFieldElements off len = Inr r \<longleftrightarrow> off + len \<le> 126976 \<and>
     r = \<lparr>fr_start = int (off div 31), fr_end = (int (off + len) - 1) div 31,
          fr_count = (int (off + len) - 1) div 31 - int (off div 31) + 1\<rparr>"
  by (auto simp: calculateFieldElements_def blob_consts Let_def zdiv_int)

lemma extractBytes_eq:
  assumes "131072 \<le> length blob" "off + len \<le> 126976"
  shows "extractBytes blob off len = Inr (slice (unpack 4096 blob) off (off + len))"
proof (cases "len = 0")
  case True
  then have "extractLoop n fe s src 0 0 blob (zeros 0) = []" for n fe s src
    by (cases n) simp_all
  with True assms show ?thesis
    by (auto simp: extractBytes_def calculateFieldElements_def blob_consts Let_def slice_def)
next
  case False
  define n where "n = nat ((int (off + len) - 1) div 31 - int (off div 31) + 1)"
  define e where "e = (off + len - 1) div 31"
  have e: "(int off + int len - 1) div 31 = int e"
    using False by (simp add: e_def zdiv_int of_nat_diff)
  have n: "n = e + 1 - off div 31"
    by (simp add: n_def e nat_diff_distrib' flip: of_nat_Suc)
  have le: "off div 31 \<le> e" "e < 4096" "off + len \<le> 31 * (e + 1)"
    using False assms(2) by (auto simp: e_def intro: div_le_mono)
  have "extractLoop n (off div 31) (off div 31) (off mod 31) 0 len blob ([] @ zeros len)
     = [] @ slice (unpack 4096 blob) (off div 31 * 31 + off mod 31 + 0) (off div 31 * 31 + off mod 31 + 0 + len)"
    using assms le by (intro extractLoop_eq) (auto simp: n)
  moreover have "nat (int off div 31) = off div 31"
    by (metis nat_int of_nat_numeral zdiv_int)
  ultimately show ?thesis
    using assms(2) by (simp add: extractBytes_def blob_consts calculateFieldElements_def Let_def n_def zdiv_int)
qed

lemma unpack_split:
  "length a = 32 * n \<Longrightarrow> 32 * m \<le> length b \<Longrightarrow> unpack (n + m) (a @ b) = unpack n a @ unpack m b"
  by (induction n arbitrary: a) auto

lemma unpack_zeros: "32 * m \<le> k \<Longrightarrow> unpack m (zeros k) = zeros (31 * m)"
proof (induction m arbitrary: k)
  case (Suc m)
  then have m: "min (k - 1) 31 = 31" "unpack m (zeros (k - 32)) = zeros (31 * m)"
    by auto
  then show ?case
    by (simp add: zeros_append min.commute)
qed simp

lemma ceil_div_31_4096: "k \<le> 126976 \<Longrightarrow> ceil_div k 31 \<le> 4096"
  using ceil_div_mono [of k 126976 31] by (simp add: ceil_div_def)

lemma createBlob_eq:
  assumes "length data \<le> 126976"
  shows "createBlob data = Inr (pack (ceil_div (length data) 31) data @ zeros (131072 - 32 * ceil_div (length data) 31))"
  using assms assemble_eq [of "[\<lparr>si_contentTag = ZERO_TAG, si_payload = data\<rparr>]"] ceil_div_31_4096
  by (simp add: createBlob_def blob_consts pack_segments_def)

lemma unpack_createBlob:
  assumes "createBlob data = Inr blob"
  shows "length blob = 131072" and "unpack 4096 blob = data @ zeros (126976 - length data)"
proof -
  let ?n = "ceil_div (length data) 31"
  have len: "length data \<le> 126976"
    using assms by (auto simp: createBlob_def blob_consts split: if_splits)
  have n: "?n \<le> 4096" using len by (rule ceil_div_31_4096)
  have blob: "blob = pack ?n data @ zeros (131072 - 32 * ?n)"
    using assms createBlob_eq [OF len] by simp
  show "length blob = 131072" using n by (simp add: blob)
  have le: "length data \<le> 31 * ?n"
    using ceil_div_bounds(1) [of 31 "length data"] by (simp add: mult.commute)
  have "unpack (?n + (4096 - ?n)) blob = unpack ?n (pack ?n data) @ unpack (4096 - ?n) (zeros (131072 - 32 * ?n))"
    unfolding blob using n by (intro unpack_split) auto
  also have "unpack (4096 - ?n) (zeros (131072 - 32 * ?n)) = zeros (31 * (4096 - ?n))"
    using n by (intro unpack_zeros) auto
  also have "unpack ?n (pack ?n data) @ zeros (31 * (4096 - ?n)) = data @ zeros (126976 - length data)"
    using le n by (simp add: unpack_pack zeros_append) (rule arg_cong [of _ _ zeros], linarith)
  finally show "unpack 4096 blob = data @ zeros (126976 - length data)"
    using n by simp
qed

section \<open>Properties\<close>

text \<open>
  Any byte range inside the data can be read back from the blob built for it:
  the offsets of extractBytes count usable bytes and step over the padding byte of
  every field element.
\<close>

theorem createBlob_extractBytes:
  assumes "length data \<le> USABLE_BYTES_PER_BLOB" "off + len \<le> length data"
  shows "ebind (createBlob data) (\<lambda>blob. extractBytes blob off len) = Inr (slice data off (off + len))"
proof -
  have le: "length data \<le> 126976"
    using assms(1) by (simp add: blob_consts)
  obtain blob where blob: "createBlob data = Inr blob"
    using createBlob_eq [OF le] by blast
  have "extractBytes blob off len = Inr (slice (data @ zeros (126976 - length data)) off (off + len))"
    using extractBytes_eq [of blob off len] unpack_createBlob [OF blob] assms(2) le by simp
  then show ?thesis
    using assms(2) by (simp add: blob slice_append_take)
qed

theorem createBlob_extractBytes_witness:
  "ebind (createBlob [1, 2, 3]) (\<lambda>blob. extractBytes blob 1 2) = Inr [2, 3]"
  using createBlob_extractBytes [of "[1, 2, 3]" 1 2] by (simp add: blob_consts slice_def)

end
