(* ===== verification/NonceCodec.thy ===== *)
theory NonceCodec
  imports Prelude "HOL-Library.Char_ord" "HOL-Library.List_Lexorder"
begin

text \<open>
  packages/bam-store/src/nonce-codec.ts: nonces are stored as 20 decimal digits,
  padded with zeros on the left, so that the database compares and orders the text
  column as it would the numbers.
\<close>

datatype nonce_error =
    NonceOutOfUint64 int
  | NonceWidth nat
  | NonceNotDigits
  | NonceExceedsMax int

definition NONCE_TEXT_WIDTH :: nat where "NONCE_TEXT_WIDTH = 20"
definition MIN_NONCE :: int where "MIN_NONCE = 0"
definition MAX_NONCE :: int where "MAX_NONCE = 2 ^ 64 - 1"

definition digit_char :: "nat \<Rightarrow> char" where
  "digit_char d = char_of (48 + d)"

definition digit_val :: "char \<Rightarrow> nat" where
  "digit_val c = of_char c - 48"

definition is_digit :: "char \<Rightarrow> bool" where
  "is_digit c \<longleftrightarrow> 48 \<le> (of_char c :: nat) \<and> (of_char c :: nat) \<le> 57"

fun toString10 :: "nat \<Rightarrow> string" where
  "toString10 n = (if n < 10 then [digit_char n] else toString10 (n div 10) @ [digit_char (n mod 10)])"

declare toString10.simps [simp del]

definition padStart0 :: "nat \<Rightarrow> string \<Rightarrow> string" where
  "padStart0 w s = replicate (w - length s) (digit_char 0) @ s"

definition encodeNonce :: "int \<Rightarrow> nonce_error + string" where
  "encodeNonce nonce =
     (if nonce < MIN_NONCE \<or> nonce > MAX_NONCE then Inl (NonceOutOfUint64 nonce)
      else Inr (padStart0 NONCE_TEXT_WIDTH (toString10 (nat nonce))))"

definition BigInt10 :: "string \<Rightarrow> int" where
  "BigInt10 s = foldl (\<lambda>v c. v * 10 + int (digit_val c)) 0 s"

definition decodeNonce :: "string \<Rightarrow> nonce_error + int" where
  "decodeNonce text =
     (if length text \<noteq> NONCE_TEXT_WIDTH then Inl (NonceWidth (length text))
      else if \<not> list_all is_digit text then Inl NonceNotDigits
      else let n = BigInt10 text in
        if n > MAX_NONCE then Inl (NonceExceedsMax n) else Inr n)"

section \<open>Fixed-width digits\<close>

fun fixed_digits :: "nat \<Rightarrow> nat \<Rightarrow> string" where
  "fixed_digits 0 n = []"
| "fixed_digits (Suc k) n = fixed_digits k (n div 10) @ [digit_char (n mod 10)]"

lemma length_fixed_digits [simp]: "length (fixed_digits k n) = k"
  by (induction k arbitrary: n) auto

lemma of_char_digit: "d < 10 \<Longrightarrow> of_char (digit_char d) = 48 + d"
  by (simp add: digit_char_def)

lemma digit_val_char [simp]: "digit_val (digit_char (n mod 10)) = n mod 10"
  by (simp add: digit_val_def of_char_digit)

lemma is_digit_char [simp]: "is_digit (digit_char (n mod 10))"
  by (simp add: is_digit_def of_char_digit)

lemma fixed_digits_zero: "fixed_digits k 0 = replicate k (digit_char 0)"
  by (induction k) (simp_all add: replicate_append_same)

lemma length_toString10: "n < 10 ^ k \<Longrightarrow> 0 < k \<Longrightarrow> length (toString10 n) \<le> k"
proof (induction n arbitrary: k rule: toString10.induct)
  case (1 n)
  show ?case
  proof (cases "n < 10")
    case True
    then show ?thesis using 1 by (simp add: toString10.simps [of n])
  next
    case False
    then obtain j where k: "k = Suc j" "0 < j"
      using 1(2) by (cases k; cases "k - 1") auto
    then have "length (toString10 (n div 10)) \<le> j"
      using 1 False by (intro 1(1)) auto
    then show ?thesis using False k by (simp add: toString10.simps [of n])
  qed
qed

lemma pad_toString10: "n < 10 ^ k \<Longrightarrow> 0 < k \<Longrightarrow> padStart0 k (toString10 n) = fixed_digits k n"
proof (induction n arbitrary: k rule: toString10.induct)
  case (1 n)
  obtain j where k: "k = Suc j"
    using 1(3) by (cases k) auto
  show ?case
  proof (cases "n < 10")
    case True
    then show ?thesis
      by (simp add: toString10.simps [of n] padStart0_def k fixed_digits_zero)
  next
    case False
    then have j: "0 < j" "n div 10 < 10 ^ j"
      using 1(2) k by (cases j; auto)+
    then have "padStart0 j (toString10 (n div 10)) = fixed_digits j (n div 10)"
      using False by (intro 1(1)) auto
    then show ?thesis
      using False by (simp add: toString10.simps [of n] padStart0_def k flip: append_assoc)
  qed
qed

lemma encodeNonce_Inr:
  "encodeNonce n = Inr t \<longleftrightarrow> 0 \<le> n \<and> n \<le> MAX_NONCE \<and> t = fixed_digits 20 (nat n)"
proof -
  have "nat n < 10 ^ 20" if "0 \<le> n" "n \<le> MAX_NONCE"
    using that by (simp add: MAX_NONCE_def nat_less_iff)
  then show ?thesis
    by (auto simp: encodeNonce_def MIN_NONCE_def NONCE_TEXT_WIDTH_def pad_toString10)
qed

lemma BigInt10_fixed: "n < 10 ^ k \<Longrightarrow> BigInt10 (fixed_digits k n) = int n"
proof (induction k arbitrary: n)
  case (Suc k)
  then have "BigInt10 (fixed_digits k (n div 10)) = int (n div 10)"
    by (intro Suc.IH) auto
  then show ?case
    by (simp add: BigInt10_def) presburger
qed (simp add: BigInt10_def)

lemma decode_encode_nonce [simp]: "encodeNonce n = Inr t \<Longrightarrow> decodeNonce t = Inr n"
proof -
  assume "encodeNonce n = Inr t"
  then have n: "0 \<le> n" "n \<le> MAX_NONCE" and t: "t = fixed_digits 20 (nat n)"
    by (simp_all add: encodeNonce_Inr)
  have "nat n < 10 ^ 20"
    using n by (simp add: MAX_NONCE_def nat_less_iff)
  moreover have "list_all is_digit (fixed_digits k m)" for k m
    by (induction k arbitrary: m) auto
  ultimately show ?thesis
    using n by (simp add: decodeNonce_def NONCE_TEXT_WIDTH_def t BigInt10_fixed)
qed

lemma encodeNonce_inject: "encodeNonce m = Inr t \<Longrightarrow> encodeNonce n = Inr t \<Longrightarrow> m = n"
  using decode_encode_nonce by fastforce

section \<open>Text order is numeric order\<close>

lemma snoc_less:
  fixes xs ys :: "'a::linorder list"
  assumes "length xs = length ys"
  shows "xs @ [a] < ys @ [b] \<longleftrightarrow> xs < ys \<or> xs = ys \<and> a < b"
  using assms by (induction xs ys rule: list_induct2) auto

lemma two_digits_less:
  "r < 10 \<Longrightarrow> r' < 10 \<Longrightarrow> q < q' \<or> q = q' \<and> r < r' \<longleftrightarrow> 10 * q + r < 10 * q' + (r' :: nat)"
  by linarith

lemma fixed_digits_less:
  "m < 10 ^ k \<Longrightarrow> n < 10 ^ k \<Longrightarrow> fixed_digits k m < fixed_digits k n \<longleftrightarrow> m < n"
proof (induction k arbitrary: m n)
  case (Suc k)
  have b: "m div 10 < 10 ^ k" "n div 10 < 10 ^ k"
    using Suc.prems by simp_all
  have inj: "fixed_digits k (m div 10) = fixed_digits k (n div 10) \<longleftrightarrow> m div 10 = n div 10"
    using b by (metis BigInt10_fixed of_nat_eq_iff)
  have d: "digit_char (m mod 10) < digit_char (n mod 10) \<longleftrightarrow> m mod 10 < n mod 10"
    by (simp add: less_char_def of_char_digit)
  have "fixed_digits (Suc k) m < fixed_digits (Suc k) n \<longleftrightarrow>
      m div 10 < n div 10 \<or> m div 10 = n div 10 \<and> m mod 10 < n mod 10"
    using Suc.IH [OF b] by (simp add: snoc_less inj d)
  also have "\<dots> \<longleftrightarrow> 10 * (m div 10) + m mod 10 < 10 * (n div 10) + n mod 10"
    by (rule two_digits_less) simp_all
  also have "\<dots> \<longleftrightarrow> m < n"
    by (simp only: mult_div_mod_eq)
  finally show ?case .
qed simp

lemma encodeNonce_less:
  "encodeNonce m = Inr s \<Longrightarrow> encodeNonce n = Inr t \<Longrightarrow> s < t \<longleftrightarrow> m < n"
  by (auto simp: encodeNonce_Inr MAX_NONCE_def fixed_digits_less nat_less_iff nat_less_eq_zless)

lemma encodeNonce_le:
  "encodeNonce m = Inr s \<Longrightarrow> encodeNonce n = Inr t \<Longrightarrow> s \<le> t \<longleftrightarrow> m \<le> n"
  using encodeNonce_less [of n t m s] by (auto simp: not_less [symmetric])

end
