(* ===== verification/Json.thy ===== *)
theory Json
  imports NonceCodec Hex
begin

text \<open>
  The values JSON.parse returns, as the code inspects them: member access, the nullish and
  truth tests, the conversion String(v), and the type guards of the parsers. A number is
  an integer (JNum) or, when it is not one, its decimal text (JFrac); an object has
  distinct members. Turning bytes into such a value is the engine's JSON.parse, an argument
  of the definitions that use it.
\<close>

datatype json =
    JNull
  | JBool bool
  | JNum int
  | JFrac string
  | JStr string
  | JArr "json list"
  | JObj "(string \<times> json) list"

fun jget :: "string \<Rightarrow> json option \<Rightarrow> json option" where
  "jget k (Some (JObj members)) = map_of members k"
| "jget k _ = None"

definition nullish :: "json option \<Rightarrow> bool" where
  "nullish x = (x = None \<or> x = Some JNull)"

definition or_else :: "json option \<Rightarrow> json option \<Rightarrow> json option" where
  "or_else x y = (if nullish x then y else x)"

definition truthy :: "json option \<Rightarrow> bool" where
  "truthy x = (x \<notin> {None, Some JNull, Some (JBool False), Some (JNum 0), Some (JStr [])})"

fun join_comma :: "string list \<Rightarrow> string" where
  "join_comma [] = []"
| "join_comma [s] = s"
| "join_comma (s # ss) = s @ '','' @ join_comma ss"

fun js_String :: "json \<Rightarrow> string" where
  "js_String JNull = ''null''"
| "js_String (JBool b) = (if b then ''true'' else ''false'')"
| "js_String (JNum n) = (if n < 0 then ''-'' @ toString10 (nat (- n)) else toString10 (nat n))"
| "js_String (JFrac t) = t"
| "js_String (JStr s) = s"
| "js_String (JArr xs) = join_comma (map (\<lambda>x. if x = JNull then [] else js_String x) xs)"
| "js_String (JObj _) = ''[object Object]''"

text \<open>isObject of the parsers: an object that is neither null nor an array.\<close>

fun is_object :: "json option \<Rightarrow> bool" where
  "is_object (Some (JObj _)) = True"
| "is_object _ = False"

text \<open>The pattern ^0x[0-9a-fA-F]+$, and the value BigInt gives such a text.\<close>

definition prefixed_hex :: "string \<Rightarrow> bool" where
  "prefixed_hex s \<longleftrightarrow> take 2 s = ''0x'' \<and> drop 2 s \<noteq> [] \<and> list_all is_hex_char (drop 2 s)"

definition BigInt16 :: "string \<Rightarrow> int" where
  "BigInt16 s = foldl (\<lambda>n c. n * 16 + int (hex_val c)) 0 (drop 2 s)"

end
