(* ===== verification/TextMatch.thy ===== *)
theory TextMatch
  imports Hex
begin

text \<open>
  The regular expressions the code tests error messages with: case-insensitive patterns
  found anywhere in a message (build-and-submit.ts, log-scan.ts), with the word
  boundary, the digit run and the bounded gap that some of them contain.
\<close>

fun starts_ci :: "string \<Rightarrow> string \<Rightarrow> bool" where
  "starts_ci [] s = True"
| "starts_ci (p # ps) [] = False"
| "starts_ci (p # ps) (c # cs) = (lower_char p = lower_char c \<and> starts_ci ps cs)"

definition word_char :: "char \<Rightarrow> bool" where
  "word_char c = (let n = char_code c in 48 \<le> n \<and> n \<le> 57 \<or> 65 \<le> n \<and> n \<le> 90 \<or> 97 \<le> n \<and> n \<le> 122 \<or> n = 95)"

text \<open>A case-insensitive pattern, with or without a final word boundary, tested at every position.\<close>

fun pattern_test :: "string \<Rightarrow> bool \<Rightarrow> string \<Rightarrow> bool" where
  "pattern_test pat boundary [] = (pat = [])"
| "pattern_test pat boundary (c # cs) =
     (starts_ci pat (c # cs)
        \<and> (boundary \<longrightarrow> (case drop (length pat) (c # cs) of [] \<Rightarrow> True | d # _ \<Rightarrow> \<not> word_char d))
      \<or> pattern_test pat boundary cs)"

text \<open>The pattern more than \d+ results.\<close>

definition ascii_digit :: "char \<Rightarrow> bool" where
  "ascii_digit c = (48 \<le> char_code c \<and> char_code c \<le> 57)"

fun more_than_results :: "string \<Rightarrow> bool" where
  "more_than_results [] = False"
| "more_than_results (c # cs) =
     (starts_ci ''more than '' (c # cs)
        \<and> (let rest = drop 10 (c # cs) in takeWhile ascii_digit rest \<noteq> [] \<and> starts_ci '' results'' (dropWhile ascii_digit rest))
      \<or> more_than_results cs)"

text \<open>
  The pattern exceeds.*(?:result|response|range|log|block)\s*(?:limit|size|cap): after the
  word exceeds, within the same line, one of the first words, blanks, one of the last.
\<close>

definition is_blank :: "char \<Rightarrow> bool" where
  "is_blank c = (char_code c \<in> {9, 10, 11, 12, 13, 32, 160})"

definition is_newline :: "char \<Rightarrow> bool" where
  "is_newline c = (char_code c \<in> {10, 13})"

definition limit_phrase :: "string \<Rightarrow> bool" where
  "limit_phrase s = list_ex (\<lambda>w. starts_ci w s
     \<and> list_ex (\<lambda>v. starts_ci v (dropWhile is_blank (drop (length w) s))) [''limit'', ''size'', ''cap''])
     [''result'', ''response'', ''range'', ''log'', ''block'']"

fun in_line :: "string \<Rightarrow> bool" where
  "in_line [] = False"
| "in_line (c # cs) = (limit_phrase (c # cs) \<or> (\<not> is_newline c \<and> in_line cs))"

fun exceeds_limit :: "string \<Rightarrow> bool" where
  "exceeds_limit [] = False"
| "exceeds_limit (c # cs) = (starts_ci ''exceeds'' (c # cs) \<and> in_line (drop 7 (c # cs)) \<or> exceeds_limit cs)"

end
