(* ===== verification/BlobFetch.thy ===== *)
theory BlobFetch
  imports KzgBlob Json TextMatch
begin

text \<open>
  How the Reader obtains the bytes of a blob (packages/bam-reader/src/blob-fetch): the
  recomputed versioned hash, the archive and its verifying wrapper, the beacon API, Blobscan
  and the orchestrator that tries them in turn. Third-party code is an argument: c-kzg and
  sha256 (the record hash_env), viem's commitmentsToVersionedHashes (commits), the HTTP
  client (fetchImpl), the URL parser and isIP (url_env). JSON bodies are the parsed values of
  theory Json.
\<close>

datatype fetch_error =
    VersionedHashMismatch
  | BlobLengthRange nat
  | SetupFailure string
  | CommitFailure kzg_error
  | InvalidArchiveHash string
  | ArchiveIO string
  | NetworkError string
  | JsonTypeError
  | HexOddLength
  | RefusedUrl string
  | NoContentLength string
  | ImplausibleLength string
  | NoArrayBuffer

section \<open>Versioned hashes\<close>

record hash_env =
  he_kzg :: ckzg
  he_sha256 :: "bytes \<Rightarrow> bytes"
  he_setup :: setup_load

definition FULL_BLOB_BYTE_LENGTH :: nat where
  "FULL_BLOB_BYTE_LENGTH = FIELD_ELEMENTS_PER_BLOB * BYTES_PER_FIELD_ELEMENT"

definition ensureTrustedSetup :: "hash_env \<Rightarrow> fetch_error + bool" where
  "ensureTrustedSetup env =
     (case loadTrustedSetup False (he_setup env) of Inl m \<Rightarrow> Inl (SetupFailure m) | Inr loaded \<Rightarrow> Inr loaded)"

definition recomputeVersionedHash :: "hash_env \<Rightarrow> bytes \<Rightarrow> fetch_error + string" where
  "recomputeVersionedHash env blobBytes =
     (if length blobBytes \<noteq> FULL_BLOB_BYTE_LENGTH then Inl (BlobLengthRange (length blobBytes))
      else ebind (ensureTrustedSetup env) (\<lambda>loaded.
        case commitToBlob (he_kzg env) (he_sha256 env) loaded blobBytes of
          Inl e \<Rightarrow> Inl (CommitFailure e)
        | Inr (_, _, versionedHash) \<Rightarrow> Inr (toLowerCase versionedHash)))"

definition normaliseHash :: "string \<Rightarrow> string" where
  "normaliseHash h = (let lower = toLowerCase h in if take 2 lower = ''0x'' then lower else ''0x'' @ lower)"

definition assertVersionedHashMatches :: "hash_env \<Rightarrow> bytes \<Rightarrow> string \<Rightarrow> fetch_error + unit" where
  "assertVersionedHashMatches env blobBytes expectedHash =
     ebind (recomputeVersionedHash env blobBytes) (\<lambda>got.
       if got \<noteq> normaliseHash expectedHash then Inl VersionedHashMismatch else Inr ())"

section \<open>The archive\<close>

record 's blob_archive =
  ba_get :: "'s \<Rightarrow> string \<Rightarrow> fetch_error + bytes option"
  ba_put :: "'s \<Rightarrow> string \<Rightarrow> bytes \<Rightarrow> (fetch_error + unit) \<times> 's"

definition lower_hex_char :: "char \<Rightarrow> bool" where
  "lower_hex_char c = (is_hex_char c \<and> lower_char c = c)"

definition normalizeVersionedHash :: "string \<Rightarrow> fetch_error + string" where
  "normalizeVersionedHash vh =
     (let lower = toLowerCase vh in
      if \<not> (length lower = 66 \<and> take 2 lower = ''0x'' \<and> list_all lower_hex_char (drop 2 lower))
      then Inl (InvalidArchiveHash vh) else Inr lower)"

definition pathsFor :: "string \<Rightarrow> string \<Rightarrow> string \<times> string" where
  "pathsFor root vh =
     (let shard = take 2 (drop 2 vh); shardDir = root @ ''/'' @ shard
      in (shardDir, shardDir @ ''/'' @ vh @ ''.blob''))"

definition verifyingArchive :: "hash_env \<Rightarrow> 's blob_archive \<Rightarrow> 's blob_archive" where
  "verifyingArchive env inner =
     \<lparr>ba_get = (\<lambda>s vh. ebind (ba_get inner s vh) (\<lambda>got. case got of
          None \<Rightarrow> Inr None
        | Some b \<Rightarrow> ebind (assertVersionedHashMatches env b vh) (\<lambda>_. Inr (Some b)))),
      ba_put = (\<lambda>s vh b. if length b \<noteq> FULL_BLOB_BYTE_LENGTH then (Inl VersionedHashMismatch, s) else ba_put inner s vh b)\<rparr>"

text \<open>
  The filesystem archive over a map from paths to contents. The argument openErr gives the
  error opening an existing file raises, writeErr the error of writing or renaming; a
  failed write leaves no file behind, since the temporary file is unlinked.
\<close>

type_synonym files = "string \<rightharpoonup> bytes"

definition fs_get :: "(string \<Rightarrow> string option) \<Rightarrow> string \<Rightarrow> files \<Rightarrow> string \<Rightarrow> fetch_error + bytes option" where
  "fs_get openErr root files versionedHash =
     ebind (normalizeVersionedHash versionedHash) (\<lambda>vh.
       let file = snd (pathsFor root vh) in
       case files file of
         None \<Rightarrow> Inr None
       | Some contents \<Rightarrow>
           (case openErr file of
              Some m \<Rightarrow> Inl (ArchiveIO m)
            | None \<Rightarrow> if length contents \<noteq> FULL_BLOB_BYTE_LENGTH then Inl VersionedHashMismatch else Inr (Some contents)))"

definition fs_put ::
  "(string \<Rightarrow> string option) \<Rightarrow> string \<Rightarrow> files \<Rightarrow> string \<Rightarrow> bytes \<Rightarrow> (fetch_error + unit) \<times> files" where
  "fs_put writeErr root files versionedHash b =
     (case normalizeVersionedHash versionedHash of
        Inl e \<Rightarrow> (Inl e, files)
      | Inr vh \<Rightarrow>
          let file = snd (pathsFor root vh) in
          case writeErr file of
            Some m \<Rightarrow> (Inl (ArchiveIO m), files)
          | None \<Rightarrow> (Inr (), files(file \<mapsto> b)))"

definition createFilesystemBlobArchive ::
  "(string \<Rightarrow> string option) \<Rightarrow> (string \<Rightarrow> string option) \<Rightarrow> string \<Rightarrow> files blob_archive" where
  "createFilesystemBlobArchive openErr writeErr root =
     \<lparr>ba_get = fs_get openErr root, ba_put = fs_put writeErr root\<rparr>"

section \<open>HTTP\<close>

text \<open>
  A response: hr_json the parsed body or the parser's error, hr_contentLength the header
  when present, as a number when it is a finite one; hr_body None where the client has no
  arrayBuffer. The second argument of the client is the redirect: error option.
\<close>

record http_response =
  hr_ok :: bool
  hr_json :: "string + json"
  hr_contentLength :: "int option option"
  hr_body :: "bytes option"

type_synonym fetch_like = "string \<Rightarrow> bool \<Rightarrow> string + http_response"

definition net :: "string + 'a \<Rightarrow> fetch_error + 'a" where
  "net r = (case r of Inl m \<Rightarrow> Inl (NetworkError m) | Inr x \<Rightarrow> Inr x)"

definition trimSlash :: "string \<Rightarrow> string" where
  "trimSlash s = (if s \<noteq> [] \<and> last s = CHR ''/'' then butlast s else s)"

definition ensure0x :: "string \<Rightarrow> string" where
  "ensure0x hex = (if take 2 hex = ''0x'' then hex else ''0x'' @ hex)"

section \<open>The beacon API\<close>

definition findSlotForParentRoot :: "string \<Rightarrow> string \<Rightarrow> fetch_like \<Rightarrow> fetch_error + string option" where
  "findSlotForParentRoot base parentRoot fetchImpl =
     ebind (net (fetchImpl (base @ ''/eth/v1/beacon/headers?parent_root='' @ parentRoot) False)) (\<lambda>res.
       if \<not> hr_ok res then Inr None
       else ebind (net (hr_json res)) (\<lambda>data.
         case jget ''data'' (Some data) of
           Some (JArr (h # _)) \<Rightarrow>
             let slot = or_else (jget ''slot'' (jget ''message'' (jget ''header'' (Some h))))
                          (or_else (jget ''slot'' (jget ''message'' (Some h))) (jget ''slot'' (Some h)))
             in Inr (if nullish slot then None else Some (js_String (the slot)))
         | _ \<Rightarrow> Inr None))"

primrec sidecarLoop ::
  "hash_env \<Rightarrow> (string \<Rightarrow> string option) \<Rightarrow> string \<Rightarrow> string \<Rightarrow> json list \<Rightarrow> fetch_error + bytes option" where
  "sidecarLoop env commits versionedHash target [] = Inr None"
| "sidecarLoop env commits versionedHash target (sc # scs) =
     (let skip = sidecarLoop env commits versionedHash target scs;
          commitment = jget ''kzg_commitment'' (Some sc);
          blob = jget ''blob'' (Some sc)
      in if sc = JNull then Inl JsonTypeError
      else if \<not> truthy commitment then skip
      else case commitment of
        Some (JStr c) \<Rightarrow>
          if take 2 c \<noteq> ''0x'' \<or> \<not> truthy blob then skip
          else (case commits c of
              None \<Rightarrow> skip
            | Some vh \<Rightarrow>
                if toLowerCase vh \<noteq> target then skip
                else (case blob of
                    Some (JStr h) \<Rightarrow>
                      (case hexToBytes h of
                         Inl _ \<Rightarrow> skip
                       | Inr bytes \<Rightarrow> ebind (assertVersionedHashMatches env bytes versionedHash) (\<lambda>_. Inr (Some bytes)))
                  | _ \<Rightarrow> skip))
      | _ \<Rightarrow> Inl JsonTypeError)"

definition fetchFromBeaconApi ::
  "hash_env \<Rightarrow> (string \<Rightarrow> string option) \<Rightarrow> fetch_like \<Rightarrow> string \<Rightarrow> string \<Rightarrow> string \<Rightarrow> fetch_error + bytes option" where
  "fetchFromBeaconApi env commits fetchImpl beaconUrl parentBeaconBlockRoot versionedHash =
     (let base = trimSlash beaconUrl;
          parentRoot = ensure0x parentBeaconBlockRoot;
          target = toLowerCase (ensure0x versionedHash)
      in ebind (findSlotForParentRoot base parentRoot fetchImpl) (\<lambda>slot.
         case slot of
           None \<Rightarrow> Inr None
         | Some s \<Rightarrow>
             if s = [] then Inr None
             else ebind (net (fetchImpl (base @ ''/eth/v1/beacon/blob_sidecars/'' @ s) False)) (\<lambda>res.
               if \<not> hr_ok res then Inr None
               else ebind (net (hr_json res)) (\<lambda>body.
                 let data = jget ''data'' (Some body) in
                 if nullish data then Inr None
                 else case the data of
                   JArr scs \<Rightarrow> sidecarLoop env commits versionedHash target scs
                 | JStr _ \<Rightarrow> Inr None
                 | JObj members \<Rightarrow> if map_of members ''length'' = Some (JNum 0) then Inr None else Inl JsonTypeError
                 | _ \<Rightarrow> Inl JsonTypeError))))"

section \<open>Blobscan\<close>

text \<open>parseInt(s, 16) on two characters, and the conversion to a byte (NaN becomes 0).\<close>

definition parse_hex_prefix :: "string \<Rightarrow> int option" where
  "parse_hex_prefix s =
     (let body = (if take 2 (toLowerCase s) = ''0x'' then drop 2 s else s);
          digits = takeWhile is_hex_char body
      in if digits = [] then None else Some (foldl (\<lambda>a c. a * 16 + int (hex_val c)) 0 digits))"

definition parseInt16 :: "string \<Rightarrow> int option" where
  "parseInt16 s =
     (case dropWhile is_blank s of
        [] \<Rightarrow> None
      | c # cs \<Rightarrow>
          if c = CHR ''-'' then map_option uminus (parse_hex_prefix cs)
          else if c = CHR ''+'' then parse_hex_prefix cs
          else parse_hex_prefix (c # cs))"

definition to_uint8 :: "int option \<Rightarrow> byte" where
  "to_uint8 v = (case v of None \<Rightarrow> 0 | Some n \<Rightarrow> of_int n)"

fun lax_pairs :: "string \<Rightarrow> bytes" where
  "lax_pairs (a # b # s) = to_uint8 (parseInt16 [a, b]) # lax_pairs s"
| "lax_pairs _ = []"

definition lax_hexToBytes :: "string \<Rightarrow> fetch_error + bytes" where
  "lax_hexToBytes hex =
     (let cleaned = strip0x hex in if length cleaned mod 2 \<noteq> 0 then Inl HexOddLength else Inr (lax_pairs cleaned))"

record url_env =
  ue_parse :: "string \<Rightarrow> (string \<times> string) option"
  ue_isIP :: "string \<Rightarrow> nat"

definition MAX_BLOB_BYTES :: int where "MAX_BLOB_BYTES = 131072"

definition starts_with :: "string \<Rightarrow> string \<Rightarrow> bool" where
  "starts_with p s = (take (length p) s = p)"

definition ends_with :: "string \<Rightarrow> string \<Rightarrow> bool" where
  "ends_with p s = (length p \<le> length s \<and> drop (length s - length p) s = p)"

definition storage_url :: "json \<Rightarrow> string list" where
  "storage_url ref =
     (case jget ''url'' (Some ref) of
        Some (JStr url) \<Rightarrow> if starts_with ''https://'' url \<or> starts_with ''http://'' url then [url] else []
      | _ \<Rightarrow> [])"

definition extractStorageUrls :: "json \<Rightarrow> string list" where
  "extractStorageUrls data =
     (case jget ''dataStorageReferences'' (Some data) of
        Some (JArr refs) \<Rightarrow> concat (map storage_url refs)
      | _ \<Rightarrow> [])"

definition assertPublicHttpUrl :: "url_env \<Rightarrow> string \<Rightarrow> fetch_error + unit" where
  "assertPublicHttpUrl uenv url =
     (case ue_parse uenv url of
        None \<Rightarrow> Inl (RefusedUrl url)
      | Some (protocol, hostname) \<Rightarrow>
          if protocol \<noteq> ''http:'' \<and> protocol \<noteq> ''https:'' then Inl (RefusedUrl url)
          else let lower = toLowerCase hostname;
                   host = (if lower \<noteq> [] \<and> last lower = CHR ''.'' then butlast lower else lower);
                   ipCandidate = (if starts_with ''['' host \<and> ends_with '']'' host then butlast (drop 1 host) else host)
               in if ue_isIP uenv ipCandidate \<noteq> 0 then Inl (RefusedUrl url)
               else if host = ''localhost'' \<or> host = ''localhost.localdomain'' \<or> ends_with ''.local'' host
                      \<or> ends_with ''.internal'' host \<or> ends_with ''.lan'' host
                    then Inl (RefusedUrl url)
               else Inr ())"

definition blob_hex_text :: "string \<Rightarrow> bool" where
  "blob_hex_text s = (take 2 s = ''0x'' \<and> 2 < length s \<and> list_all is_hex_char (drop 2 s))"

definition candidate_hex :: "json option \<Rightarrow> string option" where
  "candidate_hex raw =
     (case raw of
        Some (JStr s) \<Rightarrow> if blob_hex_text s then Some s else None
      | _ \<Rightarrow>
          (case jget ''hex'' raw of
             Some (JStr h) \<Rightarrow> Some h
           | _ \<Rightarrow> (case jget ''data'' raw of Some (JStr d) \<Rightarrow> Some d | _ \<Rightarrow> None)))"

primrec first_candidate :: "json option list \<Rightarrow> string option" where
  "first_candidate [] = None"
| "first_candidate (raw # raws) = (case candidate_hex raw of Some h \<Rightarrow> Some h | None \<Rightarrow> first_candidate raws)"

definition extractBlobHex :: "json \<Rightarrow> string option" where
  "extractBlobHex data =
     (case data of
        JStr s \<Rightarrow> if blob_hex_text s then Some s else None
      | _ \<Rightarrow>
          let o' = Some data; blob = jget ''blob'' o' in
          first_candidate [jget ''data'' o', blob, jget ''blobData'' o', jget ''data'' blob, jget ''blobData'' blob])"

primrec storageLoop :: "hash_env \<Rightarrow> url_env \<Rightarrow> fetch_like \<Rightarrow> string \<Rightarrow> string list \<Rightarrow> fetch_error + bytes option" where
  "storageLoop env uenv fetchImpl versionedHash [] = Inr None"
| "storageLoop env uenv fetchImpl versionedHash (url # urls) =
     ebind (assertPublicHttpUrl uenv url) (\<lambda>_.
     ebind (net (fetchImpl url True)) (\<lambda>bin.
       if \<not> hr_ok bin then storageLoop env uenv fetchImpl versionedHash urls
       else case hr_body bin of
         None \<Rightarrow> Inl NoArrayBuffer
       | Some bytes \<Rightarrow>
           (case hr_contentLength bin of
              None \<Rightarrow> Inl (NoContentLength url)
            | Some len \<Rightarrow>
                if len = None \<or> the len < 0 \<or> the len > MAX_BLOB_BYTES then Inl (ImplausibleLength url)
                else ebind (assertVersionedHashMatches env bytes versionedHash) (\<lambda>_. Inr (Some bytes)))))"

definition fetchFromBlobscan ::
  "hash_env \<Rightarrow> url_env \<Rightarrow> fetch_like \<Rightarrow> string \<Rightarrow> string \<Rightarrow> fetch_error + bytes option" where
  "fetchFromBlobscan env uenv fetchImpl baseUrl versionedHash =
     ebind (net (fetchImpl (trimSlash baseUrl @ ''/blobs/'' @ ensure0x versionedHash) False)) (\<lambda>res.
       if \<not> hr_ok res then Inr None
       else ebind (net (hr_json res)) (\<lambda>data.
         case extractBlobHex data of
           Some (c # cs) \<Rightarrow>
             ebind (lax_hexToBytes (c # cs)) (\<lambda>bytes.
             ebind (assertVersionedHashMatches env bytes versionedHash) (\<lambda>_. Inr (Some bytes)))
         | _ \<Rightarrow> storageLoop env uenv fetchImpl versionedHash (extractStorageUrls data)))"

section \<open>The orchestrator\<close>

datatype blob_source_name = ArchiveSource | BeaconSource | BlobscanSource

datatype blob_source_event =
    SourceLied blob_source_name string
  | AllSourcesLied string
  | ArchiveHit string
  | ArchiveReadFailed string
  | ArchiveWriteFailed string

text \<open>One source: its result, the flag allLied afterwards and the events it logs.\<close>

definition trySource ::
  "string \<Rightarrow> blob_source_name \<Rightarrow> fetch_error + bytes option \<Rightarrow> bool
    \<Rightarrow> (fetch_error + bytes option) \<times> bool \<times> blob_source_event list" where
  "trySource vh name got allLied =
     (case got of
        Inr (Some b) \<Rightarrow> (Inr (Some b), allLied, [])
      | Inr None \<Rightarrow> (Inr None, False, [])
      | Inl err \<Rightarrow>
          if err = VersionedHashMismatch then (Inr None, allLied, [SourceLied name vh])
          else if name = ArchiveSource then (Inr None, False, [ArchiveReadFailed vh])
          else (Inl err, allLied, []))"

definition given :: "string option \<Rightarrow> bool" where
  "given s = (s \<noteq> None \<and> s \<noteq> Some [])"

record 's blob_sources =
  bs_beaconUrl :: "string option"
  bs_blobscanUrl :: "string option"
  bs_archive :: "'s blob_archive option"

record fetch_env =
  fe_hash :: hash_env
  fe_urls :: url_env
  fe_commits :: "string \<Rightarrow> string option"
  fe_fetch :: fetch_like

text \<open>The two network sources in order, with the flags triedAny and allLied and the events.\<close>

definition networkSources ::
  "fetch_env \<Rightarrow> 's blob_sources \<Rightarrow> string \<Rightarrow> string option \<Rightarrow> bool \<Rightarrow> bool
    \<Rightarrow> (fetch_error + bytes option) \<times> bool \<times> bool \<times> blob_source_event list" where
  "networkSources fe sources vh parentRoot triedAny allLied =
     (let (beacon, tried1, lied1, ev1) =
            (if given (bs_beaconUrl sources) \<and> given parentRoot
             then let (r, l, e) = trySource vh BeaconSource
                        (fetchFromBeaconApi (fe_hash fe) (fe_commits fe) (fe_fetch fe)
                           (the (bs_beaconUrl sources)) (the parentRoot) vh) allLied
                  in (r, True, l, e)
             else (Inr None, triedAny, allLied, []))
      in if beacon = Inr None \<and> given (bs_blobscanUrl sources)
         then let (r, l, e) = trySource vh BlobscanSource
                    (fetchFromBlobscan (fe_hash fe) (fe_urls fe) (fe_fetch fe) (the (bs_blobscanUrl sources)) vh) lied1
              in (r, True, l, ev1 @ e)
         else (beacon, tried1, lied1, ev1))"

definition writeBack ::
  "'s blob_archive option \<Rightarrow> string \<Rightarrow> bytes \<Rightarrow> 's \<Rightarrow> 's \<times> blob_source_event list" where
  "writeBack archive vh b s =
     (case archive of
        None \<Rightarrow> (s, [])
      | Some a \<Rightarrow> (case ba_put a s vh b of (Inl _, s') \<Rightarrow> (s', [ArchiveWriteFailed vh]) | (Inr _, s') \<Rightarrow> (s', [])))"

definition readArchive ::
  "'s blob_archive option \<Rightarrow> string \<Rightarrow> 's \<Rightarrow> (fetch_error + bytes option) \<times> bool \<times> bool \<times> blob_source_event list" where
  "readArchive archive vh s =
     (case archive of
        None \<Rightarrow> (Inr None, False, True, [])
      | Some a \<Rightarrow> let (r, l, e) = trySource vh ArchiveSource (ba_get a s vh) True in (r, True, l, e))"

definition fetchBlob ::
  "fetch_env \<Rightarrow> 's blob_sources \<Rightarrow> string \<Rightarrow> string option \<Rightarrow> 's
    \<Rightarrow> (fetch_error + bytes option) \<times> 's \<times> blob_source_event list" where
  "fetchBlob fe sources vh parentRoot s =
     (let (archived, tried0, lied0, ev0) = readArchive (bs_archive sources) vh s in
      case archived of
        Inr (Some b) \<Rightarrow> (Inr (Some b), s, ev0 @ [ArchiveHit vh])
      | Inl e \<Rightarrow> (Inl e, s, ev0)
      | Inr None \<Rightarrow>
          let (network, tried, lied, ev) = networkSources fe sources vh parentRoot tried0 lied0 in
          case network of
            Inl e \<Rightarrow> (Inl e, s, ev0 @ ev)
          | Inr (Some b) \<Rightarrow> (let (s', evw) = writeBack (bs_archive sources) vh b s in (Inr (Some b), s', ev0 @ ev @ evw))
          | Inr None \<Rightarrow> (Inr None, s, ev0 @ ev @ (if tried \<and> lied then [AllSourcesLied vh] else [])))"


section \<open>What every source promises\<close>

text \<open>
  The contract between the orchestrator and a source: bytes come back only when they hash
  to the requested versioned hash.
\<close>

locale blob_source =
  fixes env :: hash_env and fetch :: "string \<Rightarrow> fetch_error + bytes option"
  assumes authentic: "fetch vh = Inr (Some b) \<Longrightarrow> recomputeVersionedHash env b = Inr (normaliseHash vh)"
begin

lemma full_length: "fetch vh = Inr (Some b) \<Longrightarrow> length b = FULL_BLOB_BYTE_LENGTH"
  using authentic [of vh b] by (simp add: recomputeVersionedHash_def split: if_splits)

lemma try_authentic:
  "trySource vh name (fetch vh) lied = (Inr (Some b), rest) \<Longrightarrow> recomputeVersionedHash env b = Inr (normaliseHash vh)"
  using authentic by (auto simp: trySource_def split: sum.splits option.splits if_splits)

end

lemma assert_authentic:
  "assertVersionedHashMatches env b vh = Inr u \<Longrightarrow> recomputeVersionedHash env b = Inr (normaliseHash vh)"
  by (auto simp: assertVersionedHashMatches_def split: if_splits)

lemma sidecarLoop_authentic:
  "sidecarLoop env commits vh target scs = Inr (Some b) \<Longrightarrow> recomputeVersionedHash env b = Inr (normaliseHash vh)"
  by (induction scs)
    (auto simp: Let_def assert_authentic split: if_splits option.splits json.splits sum.splits)

lemma storageLoop_authentic:
  "storageLoop env uenv f vh urls = Inr (Some b) \<Longrightarrow> recomputeVersionedHash env b = Inr (normaliseHash vh)"
  by (induction urls) (auto simp: assert_authentic split: if_splits option.splits)

lemma beacon_authentic:
  assumes "fetchFromBeaconApi env commits f beaconUrl parentRoot vh = Inr (Some b)"
  shows "recomputeVersionedHash env b = Inr (normaliseHash vh)"
proof -
  obtain body where "(case the (jget ''data'' (Some body)) of
      JArr scs \<Rightarrow> sidecarLoop env commits vh (toLowerCase (ensure0x vh)) scs
    | JStr _ \<Rightarrow> Inr None
    | JObj members \<Rightarrow> if map_of members ''length'' = Some (JNum 0) then Inr None else Inl JsonTypeError
    | _ \<Rightarrow> Inl JsonTypeError) = Inr (Some b)"
    using assms by (auto simp: fetchFromBeaconApi_def Let_def split: if_split_asm option.split_asm)
  then show ?thesis
    by (auto dest: sidecarLoop_authentic split: json.split_asm if_split_asm)
qed

lemma blobscan_authentic:
  assumes "fetchFromBlobscan env uenv f baseUrl vh = Inr (Some b)"
  shows "recomputeVersionedHash env b = Inr (normaliseHash vh)"
proof -
  obtain data where "(case extractBlobHex data of
      Some (c # cs) \<Rightarrow> ebind (lax_hexToBytes (c # cs)) (\<lambda>bytes.
        ebind (assertVersionedHashMatches env bytes vh) (\<lambda>_. Inr (Some bytes)))
    | _ \<Rightarrow> storageLoop env uenv f vh (extractStorageUrls data)) = Inr (Some b)"
    using assms by (auto simp: fetchFromBlobscan_def split: if_split_asm)
  then show ?thesis
    by (auto dest: storageLoop_authentic assert_authentic split: option.split_asm list.split_asm)
qed

interpretation beacon: blob_source env "fetchFromBeaconApi env commits f beaconUrl parentRoot"
  for env commits f beaconUrl parentRoot
  by unfold_locales (rule beacon_authentic)

interpretation blobscan: blob_source env "fetchFromBlobscan env uenv f baseUrl"
  for env uenv f baseUrl
  by unfold_locales (rule blobscan_authentic)

interpretation verified_archive: blob_source env "ba_get (verifyingArchive env inner) s"
  for env and inner :: "'s blob_archive" and s
  by unfold_locales (auto simp: verifyingArchive_def dest: assert_authentic split: option.splits)

lemma networkSources_authentic:
  assumes "networkSources fe sources vh parentRoot tried lied = (Inr (Some b), rest)"
  shows "recomputeVersionedHash (fe_hash fe) b = Inr (normaliseHash vh)"
  using assms
  by (auto simp: networkSources_def Let_def dest: beacon.try_authentic blobscan.try_authentic
      split: prod.split_asm if_split_asm)

lemma fetchBlob_facts:
  assumes "fetchBlob fe (sources\<lparr>bs_archive := map_option (verifyingArchive (fe_hash fe)) inner\<rparr>) vh parentRoot s
      = (Inr (Some b), s', events)"
  shows "recomputeVersionedHash (fe_hash fe) b = Inr (normaliseHash vh) \<and> length b = FULL_BLOB_BYTE_LENGTH"
proof -
  have "recomputeVersionedHash (fe_hash fe) b = Inr (normaliseHash vh)"
    using assms
    by (auto simp: fetchBlob_def readArchive_def Let_def dest: verified_archive.try_authentic networkSources_authentic
        split: prod.split_asm sum.split_asm option.split_asm)
  then show ?thesis
    by (simp add: recomputeVersionedHash_def split: if_splits)
qed

text \<open>
  C5. The Reader never takes bytes on a source's word: whatever the archive, the beacon API and Blobscan answer, and whatever viem computes, the bytes fetchBlob returns have the length of a blob and a recomputed versioned hash equal to the one asked for.
\<close>

theorem fetchBlob_authentic:
  assumes "fetchBlob fe (sources\<lparr>bs_archive := map_option (verifyingArchive (fe_hash fe)) inner\<rparr>) vh parentRoot s
      = (Inr (Some b), s', events)"
  shows "recomputeVersionedHash (fe_hash fe) b = Inr (normaliseHash vh) \<and> length b = FULL_BLOB_BYTE_LENGTH"
  using fetchBlob_facts [OF assms] .

section \<open>The archive as a cache\<close>

locale blob_cache =
  fixes archive :: "'s blob_archive"
  assumes get_put: "ba_put archive s vh b = (Inr (), s') \<Longrightarrow> length b = FULL_BLOB_BYTE_LENGTH
      \<Longrightarrow> ba_get archive s' vh = Inr (Some b)"
begin

lemma verified_get_put:
  assumes "ba_put (verifyingArchive env archive) s vh b = (Inr (), s')"
    and "recomputeVersionedHash env b = Inr (normaliseHash vh)"
  shows "ba_get (verifyingArchive env archive) s' vh = Inr (Some b)"
  using assms get_put [of s vh b s']
  by (auto simp: verifyingArchive_def assertVersionedHashMatches_def split: if_splits)

end

interpretation fs_cache: blob_cache "createFilesystemBlobArchive (\<lambda>_. None) writeErr root"
  for writeErr root
  by unfold_locales
    (auto simp: createFilesystemBlobArchive_def fs_put_def fs_get_def Let_def split: sum.splits option.splits)

lemma fs_put_total:
  "normalizeVersionedHash vh = Inr v \<Longrightarrow> length b = FULL_BLOB_BYTE_LENGTH \<Longrightarrow>
    \<exists>s'. ba_put (verifyingArchive env (createFilesystemBlobArchive openErr (\<lambda>_. None) root)) s vh b = (Inr (), s')"
  by (simp add: verifyingArchive_def createFilesystemBlobArchive_def fs_put_def Let_def)

lemma fetchBlob_hit:
  assumes "bs_archive sources = Some a" "ba_get a s vh = Inr (Some b)"
  shows "fetchBlob fe sources vh parentRoot s = (Inr (Some b), s, [ArchiveHit vh])"
  using assms by (simp add: fetchBlob_def readArchive_def trySource_def)

lemma readArchive_hit:
  "readArchive (Some a) vh s = (Inr (Some b), rest) \<Longrightarrow> ba_get a s vh = Inr (Some b)"
  by (auto simp: readArchive_def trySource_def Let_def split: prod.split_asm sum.split_asm option.split_asm if_split_asm)

text \<open>
  The filesystem archive makes a blob permanent: once fetchBlob has returned its bytes, from any source, every later fetch of that hash returns the same bytes from the archive, whatever the network then answers.
\<close>

theorem archive_replays:
  fixes dir :: string
  defines "archive \<equiv> (\<lambda>env. verifyingArchive env (createFilesystemBlobArchive (\<lambda>_. None) (\<lambda>_. None) dir))"
  assumes fetched: "fetchBlob fe (sources\<lparr>bs_archive := Some (archive (fe_hash fe))\<rparr>) vh parentRoot s
      = (Inr (Some b), s', events)"
    and vh: "normalizeVersionedHash vh = Inr v"
    and later: "fe_hash fe' = fe_hash fe"
  shows "fetchBlob fe' (sources'\<lparr>bs_archive := Some (archive (fe_hash fe'))\<rparr>) vh parentRoot' s'
    = (Inr (Some b), s', [ArchiveHit vh])"
proof -
  let ?a = "archive (fe_hash fe)"
  have "fetchBlob fe (sources\<lparr>bs_archive :=
      map_option (verifyingArchive (fe_hash fe)) (Some (createFilesystemBlobArchive (\<lambda>_. None) (\<lambda>_. None) dir))\<rparr>)
      vh parentRoot s = (Inr (Some b), s', events)"
    using fetched by (simp add: archive_def)
  note auth = fetchBlob_facts [OF this]
  obtain w where put: "ba_put ?a s vh b = (Inr (), w)"
    unfolding archive_def using fs_put_total [OF vh] auth by blast
  have "ba_get ?a s vh = Inr (Some b) \<and> s' = s \<or> s' = w"
    using fetched put
    by (auto simp: fetchBlob_def writeBack_def dest: readArchive_hit
        split: prod.split_asm sum.split_asm option.split_asm)
  moreover have "ba_get ?a w vh = Inr (Some b)"
    using put auth unfolding archive_def by (intro fs_cache.verified_get_put) simp_all
  ultimately have "ba_get ?a s' vh = Inr (Some b)"
    by auto
  then show ?thesis
    using later by (intro fetchBlob_hit) simp_all
qed

section \<open>A short sidecar\<close>

text \<open>
  A beacon node that serves, under the right commitment, a well-formed hex string of the wrong length makes the whole fetch fail with a range error: the malformed sidecar is not skipped, Blobscan is never consulted, and no source is reported as lying.
\<close>

theorem short_sidecar_disables_fallback:
  assumes "findSlotForParentRoot (trimSlash url) (ensure0x root) (fe_fetch fe) = Inr (Some slot)" "slot \<noteq> []"
    and "fe_fetch fe (trimSlash url @ ''/eth/v1/beacon/blob_sidecars/'' @ slot) False = Inr res" "hr_ok res"
    and "hr_json res = Inr (JObj [(''data'', JArr (JObj [(''kzg_commitment'', JStr c), (''blob'', JStr h)] # scs))])"
    and "take 2 c = ''0x''" "h \<noteq> []" "fe_commits fe c = Some cand" "toLowerCase cand = toLowerCase (ensure0x vh)"
    and "hexToBytes h = Inr short" "length short \<noteq> FULL_BLOB_BYTE_LENGTH"
    and "bs_beaconUrl sources = Some url" "bs_archive sources = None" "url \<noteq> []" "root \<noteq> []"
  shows "fetchBlob fe sources vh (Some root) s = (Inl (BlobLengthRange (length short)), s, [])"
proof -
  have "c \<noteq> []"
    using assms(6) by auto
  then have "fetchFromBeaconApi (fe_hash fe) (fe_commits fe) (fe_fetch fe) url root vh = Inl (BlobLengthRange (length short))"
    using assms
    by (simp add: fetchFromBeaconApi_def Let_def net_def nullish_def truthy_def assertVersionedHashMatches_def
        recomputeVersionedHash_def)
  then show ?thesis
    using assms by (simp add: fetchBlob_def readArchive_def networkSources_def given_def trySource_def)
qed

section \<open>Outbound requests\<close>

text \<open>
  The requests Blobscan can make the Reader send: the metadata request and storage URLs the
  guard accepts. Two clients that agree on those give the same result.
\<close>

lemma storageLoop_guarded:
  assumes "\<And>u. assertPublicHttpUrl uenv u = Inr () \<Longrightarrow> f u True = g u True"
  shows "storageLoop env uenv f vh urls = storageLoop env uenv g vh urls"
proof (induction urls)
  case (Cons u urls)
  then show ?case
    using assms [of u] by (cases "assertPublicHttpUrl uenv u") (auto cong: if_cong)
qed simp

theorem blobscan_outbound_guarded:
  assumes "\<And>u. assertPublicHttpUrl uenv u = Inr () \<Longrightarrow> f u True = g u True"
    and "f (trimSlash baseUrl @ ''/blobs/'' @ ensure0x vh) False = g (trimSlash baseUrl @ ''/blobs/'' @ ensure0x vh) False"
  shows "fetchFromBlobscan env uenv f baseUrl vh = fetchFromBlobscan env uenv g baseUrl vh"
  using assms(2) unfolding fetchFromBlobscan_def by (simp only: storageLoop_guarded [where f = f and g = g, OF assms(1)])


section \<open>Sample sources\<close>

definition sample_hash_env :: hash_env where
  "sample_hash_env = \<lparr>he_kzg = \<lparr>blobToKzgCommitment = (\<lambda>_. [9]), computeBlobKzgProof = (\<lambda>_ _. []),
       verifyKzgProof = (\<lambda>_ _ _ _. None)\<rparr>,
     he_sha256 = (\<lambda>_. zeros 32), he_setup = SetupOk\<rparr>"

definition sample_hash :: string where
  "sample_hash = computeVersionedHash (\<lambda>_. zeros 32) [9]"

definition sample_blob :: bytes where
  "sample_blob = zeros FULL_BLOB_BYTE_LENGTH"

text \<open>Blobscan points at a storage URL that serves sample_blob; the beacon node serves one byte under the right commitment.\<close>

definition sample_scan_body :: json where
  "sample_scan_body = JObj [(''dataStorageReferences'', JArr [JObj [(''url'', JStr ''https://s.example/b'')]])]"

definition sample_sidecars :: json where
  "sample_sidecars = JObj [(''data'', JArr [JObj [(''kzg_commitment'', JStr ''0x09''), (''blob'', JStr ''0x00'')]])]"

definition sample_headers :: json where
  "sample_headers = JObj [(''data'', JArr [JObj [(''slot'', JNum 7)]])]"

definition json_response :: "json \<Rightarrow> http_response" where
  "json_response j = \<lparr>hr_ok = True, hr_json = Inr j, hr_contentLength = None, hr_body = None\<rparr>"

definition sample_client :: fetch_like where
  "sample_client url redirectError =
     (if redirectError then Inr \<lparr>hr_ok = True, hr_json = Inl [], hr_contentLength = Some (Some 131072), hr_body = Some sample_blob\<rparr>
      else if starts_with ''s/blobs/'' url then Inr (json_response sample_scan_body)
      else if starts_with ''b/eth/v1/beacon/headers'' url then Inr (json_response sample_headers)
      else Inr (json_response sample_sidecars))"

definition sample_fetch_env :: fetch_env where
  "sample_fetch_env = \<lparr>fe_hash = sample_hash_env,
     fe_urls = \<lparr>ue_parse = (\<lambda>_. Some (''https:'', ''s.example'')), ue_isIP = (\<lambda>_. 0)\<rparr>,
     fe_commits = (\<lambda>_. Some sample_hash), fe_fetch = sample_client\<rparr>"

lemma length_sample_blob [simp]: "length sample_blob = FULL_BLOB_BYTE_LENGTH"
  by (simp add: sample_blob_def)

lemma sample_hash_facts: "toLowerCase sample_hash = sample_hash" "normaliseHash sample_hash = sample_hash"
  "normalizeVersionedHash sample_hash = Inr sample_hash" "ensure0x sample_hash = sample_hash"
  by code_simp+

lemma sample_recompute: "length b = FULL_BLOB_BYTE_LENGTH \<Longrightarrow> recomputeVersionedHash sample_hash_env b = Inr sample_hash"
  by (simp add: recomputeVersionedHash_def sample_hash_env_def ensureTrustedSetup_def loadTrustedSetup_def
      commitToBlob_def ensureSetupLoaded_def FULL_BLOB_BYTE_LENGTH_def BYTES_PER_BLOB_def
      sample_hash_facts flip: sample_hash_def)

lemma sample_assert: "assertVersionedHashMatches sample_hash_env sample_blob sample_hash = Inr ()"
  by (simp add: assertVersionedHashMatches_def sample_recompute sample_hash_facts)

lemma sample_scan: "fetchFromBlobscan sample_hash_env (fe_urls sample_fetch_env) sample_client ''s'' sample_hash = Inr (Some sample_blob)"
proof -
  have urls: "extractStorageUrls sample_scan_body = [''https://s.example/b'']" "extractBlobHex sample_scan_body = None"
    by code_simp+
  have guard: "assertPublicHttpUrl (fe_urls sample_fetch_env) u = Inr ()" for u
    by (simp add: assertPublicHttpUrl_def sample_fetch_env_def toLowerCase_def lower_char_def char_code_def
        starts_with_def ends_with_def)
  show ?thesis
    by (simp add: fetchFromBlobscan_def trimSlash_def sample_client_def starts_with_def net_def json_response_def
        urls guard sample_assert MAX_BLOB_BYTES_def)
qed

definition sample_sources :: "files blob_sources" where
  "sample_sources = \<lparr>bs_beaconUrl = None, bs_blobscanUrl = Some ''s'', bs_archive = None\<rparr>"

definition sample_archive :: "files blob_archive" where
  "sample_archive = createFilesystemBlobArchive (\<lambda>_. None) (\<lambda>_. None) ''d''"


abbreviation sample_verified :: "files blob_archive" where
  "sample_verified \<equiv> verifyingArchive sample_hash_env (createFilesystemBlobArchive (\<lambda>_. None) (\<lambda>_. None) ''d'')"

lemma sample_first_fetch:
  "\<exists>s' events. fetchBlob sample_fetch_env (sample_sources\<lparr>bs_archive := Some sample_verified\<rparr>) sample_hash None Map.empty
    = (Inr (Some sample_blob), s', events)"
proof -
  have env: "fe_hash sample_fetch_env = sample_hash_env" "fe_fetch sample_fetch_env = sample_client"
    by (simp_all add: sample_fetch_env_def)
  have "ba_get sample_verified Map.empty sample_hash = Inr None"
    by (simp add: verifyingArchive_def createFilesystemBlobArchive_def fs_get_def sample_hash_facts Let_def)
  then show ?thesis
    by (simp add: fetchBlob_def readArchive_def trySource_def networkSources_def given_def sample_sources_def
        writeBack_def env sample_scan split: prod.split sum.split)
qed

theorem fetchBlob_authentic_witness:
  "recomputeVersionedHash sample_hash_env sample_blob = Inr (normaliseHash sample_hash)"
proof -
  obtain s' events where "fetchBlob sample_fetch_env (sample_sources\<lparr>bs_archive :=
      map_option (verifyingArchive (fe_hash sample_fetch_env)) (Some sample_archive)\<rparr>) sample_hash None Map.empty
    = (Inr (Some sample_blob), s', events)"
    using sample_first_fetch by (auto simp: sample_archive_def sample_fetch_env_def)
  from fetchBlob_authentic [OF this] show ?thesis
    by (simp add: sample_fetch_env_def)
qed

theorem archive_replays_witness:
  "\<exists>s'. fetchBlob (sample_fetch_env\<lparr>fe_fetch := \<lambda>_ _. Inl ''down''\<rparr>)
      (sample_sources\<lparr>bs_archive := Some sample_verified\<rparr>) sample_hash (Some ''0x01'') s'
    = (Inr (Some sample_blob), s', [ArchiveHit sample_hash])"
proof -
  have env: "fe_hash sample_fetch_env = sample_hash_env"
    by (simp add: sample_fetch_env_def)
  obtain s' events where "fetchBlob sample_fetch_env (sample_sources\<lparr>bs_archive :=
      Some (verifyingArchive (fe_hash sample_fetch_env) (createFilesystemBlobArchive (\<lambda>_. None) (\<lambda>_. None) ''d''))\<rparr>)
      sample_hash None Map.empty = (Inr (Some sample_blob), s', events)"
    using sample_first_fetch by (auto simp: env)
  from archive_replays [OF this sample_hash_facts(3), of "sample_fetch_env\<lparr>fe_fetch := \<lambda>_ _. Inl ''down''\<rparr>" sample_sources "Some ''0x01''"]
  show ?thesis
    by (auto simp: env)
qed

theorem short_sidecar_disables_fallback_witness:
  "fetchBlob sample_fetch_env (sample_sources\<lparr>bs_beaconUrl := Some ''b''\<rparr>) sample_hash (Some ''0x01'') Map.empty
    = (Inl (BlobLengthRange 1), Map.empty, [])"
proof -
  have seven: "toString10 7 = ''7''"
    by code_simp
  have slot: "findSlotForParentRoot (trimSlash ''b'') (ensure0x ''0x01'') (fe_fetch sample_fetch_env) = Inr (Some ''7'')"
    by (simp add: findSlotForParentRoot_def trimSlash_def ensure0x_def sample_fetch_env_def sample_client_def
        starts_with_def net_def json_response_def sample_headers_def or_else_def nullish_def seven)
  have sidecars: "fe_fetch sample_fetch_env (trimSlash ''b'' @ ''/eth/v1/beacon/blob_sidecars/'' @ ''7'') False
      = Inr (json_response sample_sidecars)"
    by (simp add: trimSlash_def sample_fetch_env_def sample_client_def starts_with_def)
  have bytes: "hexToBytes ''0x00'' = Inr [0]" "take 2 ''0x09'' = ''0x''"
    by code_simp+
  have "fetchBlob sample_fetch_env (sample_sources\<lparr>bs_beaconUrl := Some ''b''\<rparr>) sample_hash (Some ''0x01'') Map.empty
      = (Inl (BlobLengthRange (length [0 :: byte])), Map.empty, [])"
    by (intro short_sidecar_disables_fallback [OF slot _ sidecars, where c = "''0x09''" and h = "''0x00''" and scs = "[]" and cand = sample_hash])
      (simp_all add: bytes json_response_def sample_sidecars_def sample_fetch_env_def sample_hash_facts sample_sources_def
        FULL_BLOB_BYTE_LENGTH_def FIELD_ELEMENTS_PER_BLOB_def BYTES_PER_FIELD_ELEMENT_def)
  then show ?thesis
    by simp
qed

theorem blobscan_outbound_guarded_witness:
  "fetchFromBlobscan sample_hash_env \<lparr>ue_parse = (\<lambda>_. None), ue_isIP = (\<lambda>_. 0)\<rparr> sample_client ''s'' sample_hash
    = fetchFromBlobscan sample_hash_env \<lparr>ue_parse = (\<lambda>_. None), ue_isIP = (\<lambda>_. 0)\<rparr>
        (\<lambda>u r. if r then Inl ''internal'' else sample_client u r) ''s'' sample_hash"
  by (rule blobscan_outbound_guarded) (simp_all add: assertPublicHttpUrl_def)

end
