(* ===== verification/Decode.thy ===== *)
theory Decode
  imports BatchCodec BlobFetch
begin

unbundle bit_operations_syntax

text \<open>
  The Reader's dispatch of a segment's bytes to a decoder and of each message to a
  signature check (packages/bam-reader/src/decode and src/verify). The on-chain contracts
  are clients of their own, functions from the call to its outcome; the SDK's ECDSA check
  and digest (secp256k1 and EIP-712, third-party) are arguments too.
\<close>

section \<open>The decompression bound\<close>

datatype decode_error =
    MissingZstdMagic
  | MissingContentSize
  | DeclaredTooLarge nat nat
  | NoPublicClient
  | DecoderTimeout
  | DecoderCallFailed string
  | SignaturesForEmptyBatch
  | SignaturesNotDivisible nat nat
  | DecoderHex fetch_error
  | Structural batch_error

definition DEFAULT_DECOMPRESS_MULTIPLIER :: nat where "DEFAULT_DECOMPRESS_MULTIPLIER = 2"

definition hasZstdMagic :: "bytes \<Rightarrow> bool" where
  "hasZstdMagic payload = (4 \<le> length payload \<and> take 4 payload = [0x28, 0xb5, 0x2f, 0xfd])"

fun read_fcs_le :: "nat \<Rightarrow> bytes \<Rightarrow> nat \<Rightarrow> nat" where
  "read_fcs_le 0 payload fcsOffset = 0"
| "read_fcs_le (Suc i) payload fcsOffset = read_fcs_le i payload fcsOffset + unat (payload ! (fcsOffset + i)) * 256 ^ i"

text \<open>
  The sum is exact here; the code adds doubles, which differ only above 2 ^ 53, far beyond
  every cap it is compared with.
\<close>

definition readFrameContentSize :: "bytes \<Rightarrow> nat option" where
  "readFrameContentSize payload =
     (if length payload < 5 then None
      else let descriptor = payload ! 4;
               fcsFlag = unat (drop_bit 6 descriptor AND 3);
               singleSegment = drop_bit 5 descriptor AND 1;
               dictIdSize = [0, 1, 2, 4] ! unat (descriptor AND 3);
               windowDescriptorSize = (if singleSegment \<noteq> 0 then 0 else 1);
               fcsSize = (if fcsFlag = 0 then (if singleSegment \<noteq> 0 then 1 else 0)
                          else if fcsFlag = 1 then 2 else if fcsFlag = 2 then 4 else 8)
           in if fcsSize = 0 then None
              else let fcsOffset = 5 + windowDescriptorSize + dictIdSize
                   in if length payload < fcsOffset + fcsSize then None
                      else let size = read_fcs_le fcsSize payload fcsOffset
                           in Some (if fcsFlag = 1 then size + 256 else size))"

definition assertZstdWithinBound :: "nat \<Rightarrow> bytes \<Rightarrow> decode_error + unit" where
  "assertZstdWithinBound multiplier usableBytes =
     (if length usableBytes < HEADER_SIZE then Inr ()
      else if usableBytes ! 1 \<noteq> CODEC_ZSTD then Inr ()
      else let payloadLen = readU32BE usableBytes 6
           in if HEADER_SIZE + payloadLen > length usableBytes then Inr ()
              else let payload = slice usableBytes HEADER_SIZE (HEADER_SIZE + payloadLen)
                   in if \<not> hasZstdMagic payload then Inl MissingZstdMagic
                      else case readFrameContentSize payload of
                        None \<Rightarrow> Inl MissingContentSize
                      | Some declared \<Rightarrow>
                          let cap = length usableBytes * multiplier
                          in if declared > cap then Inl (DeclaredTooLarge declared cap) else Inr ())"

section \<open>The on-chain decoder\<close>

datatype 'a call_outcome = TimedOut | CallFailed string | Returned 'a

type_synonym decoder_client = "string \<Rightarrow> string \<Rightarrow> ((string \<times> int \<times> string) list \<times> string) call_outcome"

definition splitSignatureData :: "bytes \<Rightarrow> nat \<Rightarrow> decode_error + bytes list" where
  "splitSignatureData signatureData messageCount =
     (if messageCount = 0
      then if length signatureData \<noteq> 0 then Inl SignaturesForEmptyBatch else Inr []
      else if length signatureData mod messageCount \<noteq> 0
      then Inl (SignaturesNotDivisible (length signatureData) messageCount)
      else let sigSize = length signatureData div messageCount
           in Inr (map (\<lambda>i. slice signatureData (i * sigSize) ((i + 1) * sigSize)) [0..<messageCount]))"

definition decoder_bytes :: "string \<Rightarrow> decode_error + bytes" where
  "decoder_bytes hex = (case lax_hexToBytes hex of Inl e \<Rightarrow> Inl (DecoderHex e) | Inr b \<Rightarrow> Inr b)"

definition decoder_message :: "string \<times> int \<times> string \<Rightarrow> decode_error + bam_message" where
  "decoder_message raw =
     (case raw of (sender, nonce, contents) \<Rightarrow>
        ebind (decoder_bytes contents) (\<lambda>b. Inr \<lparr>m_sender = sender, m_nonce = nonce, m_contents = b\<rparr>))"

definition callOnChainDecoder :: "decoder_client \<Rightarrow> string \<Rightarrow> bytes \<Rightarrow> decode_error + (bam_message list \<times> bytes list)" where
  "callOnChainDecoder client decoderAddress usableBytes =
     (case client decoderAddress (bytesToHex usableBytes) of
        TimedOut \<Rightarrow> Inl DecoderTimeout
      | CallFailed detail \<Rightarrow> Inl (DecoderCallFailed detail)
      | Returned (rawMessages, sigDataHex) \<Rightarrow>
          ebind (mapE decoder_message rawMessages) (\<lambda>messages.
          ebind (decoder_bytes sigDataHex) (\<lambda>signatureData.
          ebind (splitSignatureData signatureData (length messages)) (\<lambda>signatures. Inr (messages, signatures)))))"

section \<open>Decode dispatch\<close>

definition ZERO_ADDRESS :: string where
  "ZERO_ADDRESS = ''0x'' @ replicate 40 CHR ''0''"

definition isZeroAddress :: "string \<Rightarrow> bool" where
  "isZeroAddress addr = (toLowerCase addr = ZERO_ADDRESS)"

definition decode ::
  "fzstd \<Rightarrow> decoder_client option \<Rightarrow> nat option \<Rightarrow> string \<Rightarrow> bytes \<Rightarrow> decode_error + (bam_message list \<times> bytes list)" where
  "decode fz publicClient zstdBound decoderAddress usableBytes =
     (if isZeroAddress decoderAddress
      then ebind (assertZstdWithinBound (case zstdBound of None \<Rightarrow> DEFAULT_DECOMPRESS_MULTIPLIER | Some m \<Rightarrow> m) usableBytes) (\<lambda>_.
           case decodeBatch fz usableBytes of Inl e \<Rightarrow> Inl (Structural e) | Inr r \<Rightarrow> Inr r)
      else case publicClient of
        None \<Rightarrow> Inl NoPublicClient
      | Some client \<Rightarrow> callOnChainDecoder client decoderAddress usableBytes)"

section \<open>Verify dispatch\<close>

datatype verify_failure = GasCap | Timeout | Revert

fun str_includes :: "string \<Rightarrow> string \<Rightarrow> bool" where
  "str_includes needle [] = (needle = [])"
| "str_includes needle (c # cs) = (take (length needle) (c # cs) = needle \<or> str_includes needle cs)"

definition classify :: "string \<Rightarrow> verify_failure" where
  "classify detail =
     (let lower = toLowerCase detail in
      if str_includes ''gas'' lower \<and> (str_includes ''cap'' lower \<or> str_includes ''exceeds'' lower) then GasCap else Revert)"

type_synonym registry_client = "string \<Rightarrow> string \<Rightarrow> string \<Rightarrow> string \<Rightarrow> bool call_outcome"

definition callOnChainVerify ::
  "registry_client \<Rightarrow> string \<Rightarrow> string \<Rightarrow> string \<Rightarrow> string \<Rightarrow> bool \<times> verify_failure list" where
  "callOnChainVerify client registryAddress owner messageHash signatureHex =
     (case client registryAddress owner messageHash signatureHex of
        Returned ok \<Rightarrow> (ok, [])
      | TimedOut \<Rightarrow> (False, [Timeout])
      | CallFailed detail \<Rightarrow> (False, [classify detail]))"

record ecdsa =
  ec_verify :: "bam_message \<Rightarrow> string \<Rightarrow> string \<Rightarrow> string \<Rightarrow> nat \<Rightarrow> bool"
  ec_digest :: "bam_message \<Rightarrow> string \<Rightarrow> nat \<Rightarrow> string"

definition verifyMessage ::
  "ecdsa \<Rightarrow> registry_client option \<Rightarrow> string \<Rightarrow> bam_message \<Rightarrow> string \<Rightarrow> bytes \<Rightarrow> nat \<Rightarrow> bool \<times> verify_failure list" where
  "verifyMessage ec publicClient registryAddress message contentTag signatureBytes chainId =
     (let sigHex = bytesToHex signatureBytes in
      if isZeroAddress registryAddress
      then (ec_verify ec message contentTag sigHex (m_sender message) chainId, [])
      else case publicClient of
        None \<Rightarrow> (False, [Revert])
      | Some client \<Rightarrow> callOnChainVerify client registryAddress (m_sender message) (ec_digest ec message contentTag chainId) sigHex)"

section \<open>What the dispatch guarantees\<close>

lemma splitSignatureData_length: "splitSignatureData d n = Inr ss \<Longrightarrow> length ss = n"
  by (auto simp: splitSignatureData_def Let_def split: if_splits)

lemma splitSignatureData_sound:
  assumes "splitSignatureData d n = Inr ss"
  shows "concat ss = d \<and> length ss = n \<and> (\<exists>k. \<forall>s \<in> set ss. length s = k)"
proof (cases "n = 0")
  case True
  then show ?thesis
    using assms by (simp add: splitSignatureData_def split: if_splits)
next
  case False
  define k where "k = length d div n"
  have d: "length d = n * k"
    using assms False by (auto simp: splitSignatureData_def k_def split: if_splits)
  have ss: "ss = map (\<lambda>i. slice d (i * k) ((i + 1) * k)) [0..<n]"
    using assms False by (auto simp: splitSignatureData_def k_def Let_def split: if_splits)
  have join: "concat (map (\<lambda>i. slice d (i * k) ((i + 1) * k)) [0..<m]) = take (m * k) d" if "m \<le> n" for m
    using that
  proof (induction m)
    case (Suc m)
    have "take (m * k) d @ slice d (m * k) ((m + 1) * k) = take ((m + 1) * k) d"
      using slice_join [of 0 "m * k" "(m + 1) * k" d] by (simp add: slice_def)
    with Suc show ?case
      by simp
  qed simp
  have len: "length (slice d (i * k) ((i + 1) * k)) = k" if "i < n" for i
    using mult_le_mono1 [of "i + 1" n k] that by (simp add: d)
  have "\<forall>s \<in> set ss. length s = k"
    unfolding ss using len by simp
  then show ?thesis
    using join [of n] by (auto simp: ss d)
qed

lemma callOnChainDecoder_parallel:
  "callOnChainDecoder client addr b = Inr (ms, ss) \<Longrightarrow> length ss = length ms"
  by (auto simp: callOnChainDecoder_def dest: splitSignatureData_length split: call_outcome.split_asm prod.split_asm)

lemma decodeBatch_parallel: "decodeBatch fz b = Inr (ms, ss) \<Longrightarrow> length ss = length ms"
  by (auto simp: decodeBatch_def Let_def split: if_split_asm prod.split_asm)

lemma decode_parallel: "decode fz client bound addr b = Inr (ms, ss) \<Longrightarrow> length ss = length ms"
  by (auto simp: decode_def dest: callOnChainDecoder_parallel decodeBatch_parallel
      split: if_split_asm option.split_asm sum.split_asm)


text \<open>
  The canonical decode never asks the decompressor for more than twice the segment: its result does not depend on what the decompressor does with a payload that lacks the frame magic, hides its size or declares more than 2 * length usableBytes bytes.
\<close>

theorem decode_decompression_bounded:
  assumes "\<And>payload declared. hasZstdMagic payload \<Longrightarrow> readFrameContentSize payload = Some declared \<Longrightarrow>
      declared \<le> 2 * length usableBytes \<Longrightarrow> length payload \<le> length usableBytes \<Longrightarrow> fz payload None = fz' payload None"
  shows "decode fz client None addr usableBytes = decode fz' client None addr usableBytes"
proof -
  have "decodeBatch fz usableBytes = decodeBatch fz' usableBytes"
    if ok: "assertZstdWithinBound DEFAULT_DECOMPRESS_MULTIPLIER usableBytes = Inr ()"
  proof (cases "length usableBytes < HEADER_SIZE \<or> usableBytes ! 1 \<noteq> CODEC_ZSTD
      \<or> HEADER_SIZE + readU32BE usableBytes 6 > length usableBytes")
    case True
    then show ?thesis
      by (auto simp: decodeBatch_def Let_def)
  next
    case False
    let ?p = "slice usableBytes HEADER_SIZE (HEADER_SIZE + readU32BE usableBytes 6)"
    obtain declared where "hasZstdMagic ?p" "readFrameContentSize ?p = Some declared" "declared \<le> 2 * length usableBytes"
      using ok False
      by (auto simp: assertZstdWithinBound_def Let_def DEFAULT_DECOMPRESS_MULTIPLIER_def mult.commute
          split: if_split_asm option.split_asm)
    then have "fz ?p None = fz' ?p None"
      by (intro assms) auto
    then show ?thesis
      by (simp add: decodeBatch_def Let_def decompress_def)
  qed
  then show ?thesis
    by (cases "assertZstdWithinBound DEFAULT_DECOMPRESS_MULTIPLIER usableBytes") (simp_all add: decode_def)
qed

text \<open>
  A sample frame: a segment whose payload is a Zstd frame declaring 4 bytes; a decompressor
  that differs only on frames without a declared size cannot be told apart.
\<close>

definition sample_frame_segment :: bytes where
  "sample_frame_segment = [0x02, 0x01, 0, 0, 0, 0, 0, 0, 0, 6, 0x28, 0xb5, 0x2f, 0xfd, 0x20, 4]"

theorem decode_decompression_bounded_witness:
  "decode (\<lambda>p d. Inr []) None None ZERO_ADDRESS sample_frame_segment
    = decode (\<lambda>p d. if length p > 1000 then Inl ''huge'' else Inr []) None None ZERO_ADDRESS sample_frame_segment"
  by (rule decode_decompression_bounded) (simp add: sample_frame_segment_def)

text \<open>
  The two readers of a Zstd frame's declared size disagree: on a frame with a two-byte size field the SDK's getDecompressedSize reads one byte and adds nothing, while the Reader's bound check reads two bytes and adds 256, as the frame format prescribes.
\<close>

theorem frame_size_readers_disagree:
  "getDecompressedSize [0x28, 0xb5, 0x2f, 0xfd, 0x60, 0x2c, 0x01] = 44
    \<and> readFrameContentSize [0x28, 0xb5, 0x2f, 0xfd, 0x60, 0x2c, 0x01] = Some 556"
proof -
  have "isCompressed [0x28, 0xb5, 0x2f, 0xfd, 0x60, 0x2c, 0x01]"
    by (simp add: isCompressed_iff)
  then have "getDecompressedSize [0x28, 0xb5, 0x2f, 0xfd, 0x60, 0x2c, 0x01] = 44"
    unfolding getDecompressedSize_def by code_simp
  moreover have "readFrameContentSize [0x28, 0xb5, 0x2f, 0xfd, 0x60, 0x2c, 0x01] = Some 556"
    by code_simp
  ultimately show ?thesis ..
qed

end
