(* ===== verification/LogScan.thy ===== *)
theory LogScan
  imports TextMatch BlobLayout "HOL-Library.Product_Lexorder"
begin

text \<open>
  The Reader's log scanner (packages/bam-reader/src/discovery/log-scan.ts) and the range
  check every scanned event passes (discovery/validate-range.ts): the pairing of the two
  events a transaction emits, one fetch, the adaptive halving of a range the provider
  refuses, and the paged, sorted scan. The provider is the argument getLogs: from a range
  of blocks to the logs or to the message of the error it throws.
\<close>

datatype log_args =
    BatchArgs string string string string string
  | SegmentArgs string string int int string

text \<open>
  BatchArgs: versionedHash, submitter, contentTag, decoder, signatureRegistry;
  SegmentArgs: versionedHash, declarer, startFE, endFE, contentTag.
\<close>

record scanner_log =
  sl_blockNumber :: nat
  sl_transactionIndex :: nat
  sl_logIndex :: nat
  sl_transactionHash :: string
  sl_args :: log_args

record batch_event =
  ev_blockNumber :: nat
  ev_txIndex :: nat
  ev_logIndex :: nat
  ev_txHash :: string
  ev_versionedHash :: string
  ev_submitter :: string
  ev_contentTag :: string
  ev_decoder :: string
  ev_signatureRegistry :: string
  ev_startFE :: int
  ev_endFE :: int

definition is_batch_log :: "scanner_log \<Rightarrow> bool" where
  "is_batch_log l = (case sl_args l of BatchArgs _ _ _ _ _ \<Rightarrow> True | SegmentArgs _ _ _ _ _ \<Rightarrow> False)"

definition log_key :: "scanner_log \<Rightarrow> string \<times> string" where
  "log_key l = (case sl_args l of
      BatchArgs vh _ tag _ _ \<Rightarrow> (toLowerCase vh, toLowerCase tag)
    | SegmentArgs vh _ _ _ tag \<Rightarrow> (toLowerCase vh, toLowerCase tag))"

definition log_range :: "scanner_log \<Rightarrow> int \<times> int" where
  "log_range l = (case sl_args l of BatchArgs _ _ _ _ _ \<Rightarrow> (0, int FIELD_ELEMENTS_PER_BLOB) | SegmentArgs _ _ s e _ \<Rightarrow> (s, e))"

section \<open>Pairing the events of a transaction\<close>

text \<open>An item of a transaction: a batch log with its index in the batch logs, or a segment log.\<close>

datatype tx_item =
    BBR nat scanner_log
  | BSD scanner_log

fun item_logIndex :: "tx_item \<Rightarrow> nat" where
  "item_logIndex (BBR _ l) = sl_logIndex l"
| "item_logIndex (BSD l) = sl_logIndex l"

definition tx_key :: "scanner_log \<Rightarrow> string" where
  "tx_key l = toLowerCase (sl_transactionHash l)"

text \<open>The pending stack, its top first: the most recent unclaimed segment log of a key, and the rest.\<close>

fun claim :: "string \<times> string \<Rightarrow> scanner_log list \<Rightarrow> (scanner_log \<times> scanner_log list) option" where
  "claim k [] = None"
| "claim k (b # bs) =
     (if log_key b = k then Some (b, bs)
      else case claim k bs of None \<Rightarrow> None | Some (hit, rest) \<Rightarrow> Some (hit, b # rest))"

fun pairItems :: "tx_item list \<Rightarrow> scanner_log list \<Rightarrow> (nat \<times> (int \<times> int)) list" where
  "pairItems [] pending = []"
| "pairItems (BSD b # items) pending = pairItems items (b # pending)"
| "pairItems (BBR idx l # items) pending =
     (case claim (log_key l) pending of
        None \<Rightarrow> pairItems items pending
      | Some (b, rest) \<Rightarrow> (idx, log_range b) # pairItems items rest)"

definition tx_items :: "string \<Rightarrow> scanner_log list \<Rightarrow> scanner_log list \<Rightarrow> tx_item list" where
  "tx_items key batchLogs segmentLogs =
     map (\<lambda>(i, l). BBR i l) (filter (\<lambda>(i, l). tx_key l = key) (enumerate 0 batchLogs))
       @ map BSD (filter (\<lambda>l. tx_key l = key) segmentLogs)"

definition tx_keys :: "scanner_log list \<Rightarrow> scanner_log list \<Rightarrow> string list" where
  "tx_keys batchLogs segmentLogs = rev (remdups (rev (map tx_key (batchLogs @ segmentLogs))))"

definition pairSegmentRanges :: "scanner_log list \<Rightarrow> scanner_log list \<Rightarrow> nat \<Rightarrow> (int \<times> int) option" where
  "pairSegmentRanges batchLogs segmentLogs =
     (if length segmentLogs = 0 then (\<lambda>_. None)
      else map_of (concat (map (\<lambda>key. pairItems (sort_key item_logIndex (tx_items key batchLogs segmentLogs)) [])
             (tx_keys batchLogs segmentLogs))))"

section \<open>Fetching\<close>

definition event_of :: "scanner_log \<Rightarrow> (int \<times> int) option \<Rightarrow> batch_event" where
  "event_of l paired =
     (let rng = (case paired of None \<Rightarrow> (0, int FIELD_ELEMENTS_PER_BLOB) | Some r \<Rightarrow> r);
          (vh, submitter, tag, decoder, reg) =
            (case sl_args l of BatchArgs a b c d e \<Rightarrow> (a, b, c, d, e) | SegmentArgs a b _ _ e \<Rightarrow> (a, b, e, [], []))
      in \<lparr>ev_blockNumber = sl_blockNumber l, ev_txIndex = sl_transactionIndex l, ev_logIndex = sl_logIndex l,
          ev_txHash = sl_transactionHash l, ev_versionedHash = vh, ev_submitter = submitter, ev_contentTag = tag,
          ev_decoder = decoder, ev_signatureRegistry = reg, ev_startFE = fst rng, ev_endFE = snd rng\<rparr>)"

definition join_logs :: "scanner_log list \<Rightarrow> batch_event list" where
  "join_logs logs =
     (let batchLogs = filter is_batch_log logs;
          segmentLogs = filter (\<lambda>l. \<not> is_batch_log l) logs;
          ranges = pairSegmentRanges batchLogs segmentLogs
      in map (\<lambda>(i, l). event_of l (ranges i)) (enumerate 0 batchLogs))"

type_synonym get_logs = "nat \<Rightarrow> nat \<Rightarrow> string + scanner_log list"

definition fetchRange :: "get_logs \<Rightarrow> nat \<Rightarrow> nat \<Rightarrow> string + batch_event list" where
  "fetchRange getLogs fromBlock toBlock = ebind (getLogs fromBlock toBlock) (\<lambda>logs. Inr (join_logs logs))"

definition MIN_CHUNK_BLOCKS :: nat where "MIN_CHUNK_BLOCKS = 64"

definition isRangeTooLargeError :: "string \<Rightarrow> bool" where
  "isRangeTooLargeError msg =
     (list_ex (\<lambda>pat. pattern_test pat False msg)
        [''block range is too large'', ''block range too large'', ''log response size exceeded'',
         ''response size exceeded'', ''query returned more than'']
      \<or> more_than_results msg \<or> exceeds_limit msg)"

function fetchWithHalving :: "get_logs \<Rightarrow> nat \<Rightarrow> nat \<Rightarrow> string + batch_event list" where
  "fetchWithHalving getLogs fromBlock toBlock =
     (case fetchRange getLogs fromBlock toBlock of
        Inr events \<Rightarrow> Inr events
      | Inl err \<Rightarrow>
          if \<not> isRangeTooLargeError err then Inl err
          else let spn = toBlock + 1 - fromBlock in
            if spn \<le> MIN_CHUNK_BLOCKS then Inl err
            else let mid = fromBlock + spn div 2 - 1 in
              ebind (fetchWithHalving getLogs fromBlock mid) (\<lambda>left.
              ebind (fetchWithHalving getLogs (mid + 1) toBlock) (\<lambda>right. Inr (left @ right))))"
  by pat_completeness auto

termination fetchWithHalving
  by (relation "measure (\<lambda>(_, f, t). t + 1 - f)") (auto simp: MIN_CHUNK_BLOCKS_def)

declare fetchWithHalving.simps [simp del]

datatype scan_error =
    ChunkSizeNotPositive
  | ScanProvider string

text \<open>The paging loop: back-to-back chunks of chunkSize blocks up to toBlock.\<close>

function scanChunks :: "get_logs \<Rightarrow> nat \<Rightarrow> nat \<Rightarrow> nat \<Rightarrow> string + batch_event list" where
  "scanChunks getLogs chunkSize from toBlock =
     (if from > toBlock \<or> chunkSize = 0 then Inr []
      else ebind (fetchWithHalving getLogs from (min (from + chunkSize - 1) toBlock)) (\<lambda>chunk.
           ebind (scanChunks getLogs chunkSize (from + chunkSize) toBlock) (\<lambda>rest. Inr (chunk @ rest))))"
  by pat_completeness auto

termination scanChunks
  by (relation "measure (\<lambda>(_, c, f, t). t + 1 - f)") auto

declare scanChunks.simps [simp del]

definition event_order :: "batch_event \<Rightarrow> nat \<times> nat" where
  "event_order e = (ev_blockNumber e, ev_logIndex e)"

definition scanLogs :: "get_logs \<Rightarrow> nat \<Rightarrow> nat \<Rightarrow> nat option \<Rightarrow> scan_error + batch_event list" where
  "scanLogs getLogs fromBlock toBlock chunkSize =
     (if chunkSize = Some 0 then Inl ChunkSizeNotPositive
      else if fromBlock > toBlock then Inr []
      else let fetched =
             (case chunkSize of
                None \<Rightarrow> fetchWithHalving getLogs fromBlock toBlock
              | Some c \<Rightarrow> if toBlock + 1 - fromBlock \<le> c then fetchWithHalving getLogs fromBlock toBlock
                          else scanChunks getLogs c fromBlock toBlock)
           in case fetched of Inl e \<Rightarrow> Inl (ScanProvider e) | Inr events \<Rightarrow> Inr (sort_key event_order events))"

section \<open>Range check\<close>

datatype range_reason = NegativeRange | EndExceedsBlob | InvertedRange

definition validateSegmentRange :: "int \<Rightarrow> int \<Rightarrow> range_reason + unit" where
  "validateSegmentRange startFE endFE =
     (if startFE < 0 \<or> endFE < 0 then Inl NegativeRange
      else if endFE > int FIELD_ELEMENTS_PER_BLOB then Inl EndExceedsBlob
      else if startFE \<ge> endFE then Inl InvertedRange
      else Inr ())"


section \<open>Each transaction is paired on its own\<close>

lemma pairItems_idx: "(i, r) \<in> set (pairItems items p) \<Longrightarrow> \<exists>l. BBR i l \<in> set items"
proof (induction items arbitrary: p)
  case (Cons x items)
  then show ?case
    by (cases x) (fastforce split: option.splits)+
qed simp

lemma map_of_concat_only:
  assumes "\<And>k'. k' \<in> set ks \<Longrightarrow> k' \<noteq> k \<Longrightarrow> map_of (f k') i = None"
  shows "map_of (concat (map f ks)) i = (if k \<in> set ks then map_of (f k) i else None)"
  using assms
proof (induction ks)
  case (Cons a ks)
  show ?case
  proof (cases "a = k")
    case True
    with Cons show ?thesis
      by (cases "k \<in> set ks") (auto simp: map_add_def split: option.splits)
  next
    case False
    then have "map_of (f a) i = None"
      using Cons.prems [of a] by simp
    with Cons False show ?thesis
      by (simp add: map_add_def)
  qed
qed simp

lemma tx_items_BBR: "BBR i l \<in> set (tx_items key b s) \<longleftrightarrow> i < length b \<and> l = b ! i \<and> tx_key l = key"
  by (auto simp: tx_items_def in_set_enumerate_eq image_iff)

lemma tx_items_BSD: "BSD l \<in> set (tx_items key b s) \<longleftrightarrow> l \<in> set s \<and> tx_key l = key"
  by (auto simp: tx_items_def)

lemma pairItems_no_segments: "(\<And>l. BSD l \<notin> set items) \<Longrightarrow> pairItems items [] = []"
proof (induction items)
  case (Cons x items)
  then show ?case
    by (cases x) auto
qed simp

lemma pairSegmentRanges_own:
  assumes "i < length b"
  shows "pairSegmentRanges b s i
    = map_of (pairItems (sort_key item_logIndex (tx_items (tx_key (b ! i)) b s)) []) i"
proof (cases "s = []")
  case True
  then show ?thesis
    by (simp add: pairSegmentRanges_def pairItems_no_segments tx_items_BSD)
next
  case False
  have none: "map_of (pairItems (sort_key item_logIndex (tx_items k b s)) []) i = None" if "k \<noteq> tx_key (b ! i)" for k
  proof -
    have "(i, r) \<notin> set (pairItems (sort_key item_logIndex (tx_items k b s)) [])" for r
      using pairItems_idx [of i r "sort_key item_logIndex (tx_items k b s)" "[]"] that by (auto simp: tx_items_BBR)
    then show ?thesis
      by (auto simp: map_of_eq_None_iff)
  qed
  have "tx_key (b ! i) \<in> set (tx_keys b s)"
    using assms by (auto simp: tx_keys_def)
  then show ?thesis
    using False by (simp add: pairSegmentRanges_def map_of_concat_only [OF none])
qed

section \<open>Pairing splits along transactions\<close>

fun shift_item :: "nat \<Rightarrow> tx_item \<Rightarrow> tx_item" where
  "shift_item n (BBR i l) = BBR (n + i) l"
| "shift_item n (BSD l) = BSD l"

lemma pairItems_shift:
  "pairItems (map (shift_item n) items) p = map (\<lambda>(i, r). (n + i, r)) (pairItems items p)"
proof (induction items arbitrary: p)
  case (Cons x items)
  then show ?case
    by (cases x) (auto split: option.splits)
qed simp

lemma shift_item_logIndex [simp]: "item_logIndex (shift_item n x) = item_logIndex x"
  by (cases x) simp_all

lemma insort_shift:
  "insort_key item_logIndex (shift_item n x) (map (shift_item n) xs)
    = map (shift_item n) (insort_key item_logIndex x xs)"
  by (induction xs) auto

lemma sort_shift:
  "sort_key item_logIndex (map (shift_item n) xs) = map (shift_item n) (sort_key item_logIndex xs)"
  by (induction xs) (simp_all add: insort_shift)

lemma map_of_shift: "map_of (map (\<lambda>(i, r). (n + i, r)) xs) (n + (i :: nat)) = map_of xs i"
  by (induction xs) auto

lemma enumerate_shift: "enumerate n xs = map (\<lambda>(i, x). (n + i, x)) (enumerate 0 xs)"
proof (induction xs arbitrary: n rule: rev_induct)
  case (snoc x xs)
  show ?case
    using snoc [of n] by (simp add: enumerate_append_eq)
qed simp

lemma filter_keys_Nil: "key \<notin> tx_key ` set b \<Longrightarrow> filter (\<lambda>(i, l). tx_key l = key) (enumerate n b) = []"
  by (auto simp: filter_empty_conv in_set_enumerate_eq)

lemma tx_items_left:
  assumes "key \<notin> tx_key ` set bB" "key \<notin> tx_key ` set sB"
  shows "tx_items key (bA @ bB) (sA @ sB) = tx_items key bA sA"
  using assms filter_keys_Nil [OF assms(1)]
  by (auto simp: tx_items_def enumerate_append_eq filter_empty_conv)

lemma tx_items_right:
  assumes "key \<notin> tx_key ` set bA" "key \<notin> tx_key ` set sA"
  shows "tx_items key (bA @ bB) (sA @ sB) = map (shift_item (length bA)) (tx_items key bB sB)"
proof -
  have "filter (\<lambda>l. tx_key l = key) sA = []"
    using assms(2) by (auto simp: filter_empty_conv)
  then show ?thesis
    using filter_keys_Nil [OF assms(1), of 0]
    by (simp add: tx_items_def enumerate_append_eq enumerate_shift [of "length bA"] filter_map o_def split_def)
qed

lemma pairSegmentRanges_left:
  assumes "i < length bA" "tx_key ` set (bA @ sA) \<inter> tx_key ` set (bB @ sB) = {}"
  shows "pairSegmentRanges (bA @ bB) (sA @ sB) i = pairSegmentRanges bA sA i"
proof -
  have "bA ! i \<in> set bA"
    using assms(1) by simp
  then have "tx_key (bA ! i) \<notin> tx_key ` set bB" "tx_key (bA ! i) \<notin> tx_key ` set sB"
    using assms(2) by fastforce+
  then show ?thesis
    using assms(1) by (simp add: pairSegmentRanges_own nth_append tx_items_left)
qed

lemma pairSegmentRanges_right:
  assumes "i < length bB" "tx_key ` set (bA @ sA) \<inter> tx_key ` set (bB @ sB) = {}"
  shows "pairSegmentRanges (bA @ bB) (sA @ sB) (length bA + i) = pairSegmentRanges bB sB i"
proof -
  have "bB ! i \<in> set bB"
    using assms(1) by simp
  then have "tx_key (bB ! i) \<notin> tx_key ` set bA" "tx_key (bB ! i) \<notin> tx_key ` set sA"
    using assms(2) by fastforce+
  then show ?thesis
    using assms(1)
    by (simp add: pairSegmentRanges_own nth_append tx_items_right sort_shift pairItems_shift map_of_shift)
qed

lemma join_logs_append:
  assumes "tx_key ` set A \<inter> tx_key ` set B = {}"
  shows "join_logs (A @ B) = join_logs A @ join_logs B"
proof -
  define bA where "bA = filter is_batch_log A"
  define bB where "bB = filter is_batch_log B"
  define sA where "sA = filter (\<lambda>l. \<not> is_batch_log l) A"
  define sB where "sB = filter (\<lambda>l. \<not> is_batch_log l) B"
  have disj: "tx_key ` set (bA @ sA) \<inter> tx_key ` set (bB @ sB) = {}"
    using assms by (auto simp: bA_def bB_def sA_def sB_def)
  have left: "map (\<lambda>(i, l). event_of l (pairSegmentRanges (bA @ bB) (sA @ sB) i)) (enumerate 0 bA)
    = map (\<lambda>(i, l). event_of l (pairSegmentRanges bA sA i)) (enumerate 0 bA)"
    using pairSegmentRanges_left [OF _ disj] by (auto simp: in_set_enumerate_eq)
  have right: "map (\<lambda>(i, l). event_of l (pairSegmentRanges (bA @ bB) (sA @ sB) i)) (enumerate (length bA) bB)
    = map (\<lambda>(i, l). event_of l (pairSegmentRanges bB sB i)) (enumerate 0 bB)"
    unfolding enumerate_shift [of "length bA"]
    using pairSegmentRanges_right [OF _ disj] by (auto simp: in_set_enumerate_eq)
  show ?thesis
    using left right
    by (simp add: join_logs_def Let_def enumerate_append_eq flip: bA_def bB_def sA_def sB_def)
qed


section \<open>The scan returns what the chain holds, however it is cut\<close>

definition within :: "nat \<Rightarrow> nat \<Rightarrow> scanner_log list \<Rightarrow> scanner_log list" where
  "within a b chain = filter (\<lambda>l. a \<le> sl_blockNumber l \<and> sl_blockNumber l \<le> b) chain"

text \<open>The documented behaviour of eth_getLogs: an answer holds exactly the logs of the blocks asked for, in chain order.\<close>

definition serves :: "get_logs \<Rightarrow> scanner_log list \<Rightarrow> bool" where
  "serves getLogs chain \<longleftrightarrow> (\<forall>a b ls. getLogs a b = Inr ls \<longrightarrow> ls = within a b chain)"

text \<open>A chain: blocks in order, and a transaction in one block.\<close>

definition chain_ok :: "scanner_log list \<Rightarrow> bool" where
  "chain_ok chain \<longleftrightarrow> sorted (map sl_blockNumber chain)
     \<and> (\<forall>l \<in> set chain. \<forall>m \<in> set chain. tx_key l = tx_key m \<longrightarrow> sl_blockNumber l = sl_blockNumber m)"

lemma within_simps [simp]:
  "within a b [] = []"
  "within a b (x # chain) =
    (if a \<le> sl_blockNumber x \<and> sl_blockNumber x \<le> b then x # within a b chain else within a b chain)"
  by (simp_all add: within_def)

lemma within_beyond: "\<forall>y \<in> set chain. b < sl_blockNumber y \<Longrightarrow> within a b chain = []"
  by (auto simp: within_def filter_empty_conv)

lemma within_split:
  assumes "sorted (map sl_blockNumber chain)" "a \<le> b + 1" "b \<le> c"
  shows "within a c chain = within a b chain @ within (b + 1) c chain"
  using assms(1)
proof (induction chain)
  case (Cons x chain)
  then have ih: "within a c chain = within a b chain @ within (b + 1) c chain"
    by simp
  show ?case
  proof (cases "b < sl_blockNumber x")
    case True
    have "within a b chain = []"
      using Cons.prems True by (intro within_beyond) auto
    then show ?thesis
      using ih True assms(2) by auto
  next
    case False
    then show ?thesis
      using ih assms(3) by auto
  qed
qed simp

lemma within_disjoint_txs:
  assumes "chain_ok chain"
  shows "tx_key ` set (within a b chain) \<inter> tx_key ` set (within (b + 1) c chain) = {}"
proof -
  have False if "l \<in> set (within a b chain)" "m \<in> set (within (b + 1) c chain)" "tx_key l = tx_key m" for l m
  proof -
    have "l \<in> set chain" "m \<in> set chain"
      using that by (simp_all add: within_def)
    then have "sl_blockNumber l = sl_blockNumber m"
      using assms that(3) unfolding chain_ok_def by blast
    then show False
      using that by (simp add: within_def)
  qed
  then show ?thesis
    by blast
qed

lemma join_within_split:
  assumes "chain_ok chain" "a \<le> b + 1" "b \<le> c"
  shows "join_logs (within a c chain) = join_logs (within a b chain) @ join_logs (within (b + 1) c chain)"
proof -
  have "within a c chain = within a b chain @ within (b + 1) c chain"
    using assms by (intro within_split) (simp_all add: chain_ok_def)
  then show ?thesis
    using join_logs_append [OF within_disjoint_txs [OF assms(1)]] by simp
qed

lemma fetchRange_serves: "serves getLogs chain \<Longrightarrow> fetchRange getLogs a b = Inr evs \<Longrightarrow> evs = join_logs (within a b chain)"
  by (auto simp: fetchRange_def serves_def)

lemma halving_mid:
  assumes "\<not> toBlock + 1 - fromBlock \<le> MIN_CHUNK_BLOCKS"
  shows "fromBlock \<le> (fromBlock + (toBlock + 1 - fromBlock) div 2 - 1) + 1"
    and "fromBlock + (toBlock + 1 - fromBlock) div 2 - 1 \<le> toBlock"
  using assms by (simp_all add: MIN_CHUNK_BLOCKS_def)

text \<open>The cases of one fetch: it answers, fails, or both halves are fetched.\<close>

lemma fetchWithHalving_cases:
  assumes "fetchWithHalving getLogs a b = Inr evs"
  obtains "fetchRange getLogs a b = Inr evs"
  | left right where "\<not> b + 1 - a \<le> MIN_CHUNK_BLOCKS"
      "fetchWithHalving getLogs a (a + (b + 1 - a) div 2 - 1) = Inr left"
      "fetchWithHalving getLogs (a + (b + 1 - a) div 2 - 1 + 1) b = Inr right" "evs = left @ right"
  using assms
  by (subst (asm) fetchWithHalving.simps) (auto simp: Let_def split: sum.splits if_splits)

lemma fetchWithHalving_serves:
  assumes "serves getLogs chain" "chain_ok chain"
  shows "fetchWithHalving getLogs a b = Inr evs \<Longrightarrow> evs = join_logs (within a b chain)"
proof (induction "b + 1 - a" arbitrary: a b evs rule: less_induct)
  case less
  from less.prems show ?case
  proof (cases rule: fetchWithHalving_cases)
    case 1
    then show ?thesis
      using assms(1) by (simp add: fetchRange_serves)
  next
    case (2 left right)
    let ?mid = "a + (b + 1 - a) div 2 - 1"
    have sizes: "?mid + 1 - a < b + 1 - a" "b + 1 - (?mid + 1) < b + 1 - a"
      using 2(1) by (simp_all add: MIN_CHUNK_BLOCKS_def)
    have "left = join_logs (within a ?mid chain)" "right = join_logs (within (?mid + 1) b chain)"
      using less.hyps [OF sizes(1) 2(2)] less.hyps [OF sizes(2) 2(3)] by simp_all
    then show ?thesis
      using join_within_split [OF assms(2) halving_mid [OF 2(1)]] 2(4) by simp
  qed
qed

lemma scanChunks_serves:
  assumes "serves getLogs chain" "chain_ok chain" "0 < c"
  shows "scanChunks getLogs c a b = Inr evs \<Longrightarrow> evs = join_logs (within a b chain)"
proof (induction "b + 1 - a" arbitrary: a evs rule: less_induct)
  case less
  show ?case
  proof (cases "b < a")
    case True
    then have "within a b chain = []"
      by (auto simp: within_def filter_empty_conv)
    then show ?thesis
      using less.prems True by (simp add: scanChunks.simps join_logs_def pairSegmentRanges_def)
  next
    case False
    let ?to = "min (a + c - 1) b"
    obtain chunk rest where parts: "fetchWithHalving getLogs a ?to = Inr chunk"
        "scanChunks getLogs c (a + c) b = Inr rest" "evs = chunk @ rest"
      using less.prems False assms(3) by (subst (asm) scanChunks.simps) auto
    have chunk: "chunk = join_logs (within a ?to chain)"
      using fetchWithHalving_serves [OF assms(1,2) parts(1)] .
    have rest: "rest = join_logs (within (a + c) b chain)"
      using less.hyps [OF _ parts(2)] False assms(3) by simp
    have "within (a + c) b chain = within (?to + 1) b chain"
      using assms(3) by (auto simp: within_def intro!: filter_cong)
    then show ?thesis
      using join_within_split [OF assms(2), of a ?to b] chunk rest parts(3) False assms(3) by simp
  qed
qed

lemma scanLogs_serves:
  assumes "serves getLogs chain" "chain_ok chain"
    and "scanLogs getLogs fromBlock toBlock chunkSize = Inr events"
  shows "events = sort_key event_order (join_logs (within fromBlock toBlock chain))"
proof (cases "fromBlock > toBlock")
  case True
  then have "within fromBlock toBlock chain = []"
    by (auto simp: within_def filter_empty_conv)
  then show ?thesis
    using assms(3) True by (simp add: scanLogs_def join_logs_def pairSegmentRanges_def split: if_splits)
next
  case False
  then obtain fetched where fetched: "events = sort_key event_order fetched"
      "fetchWithHalving getLogs fromBlock toBlock = Inr fetched
        \<or> (\<exists>c. 0 < c \<and> scanChunks getLogs c fromBlock toBlock = Inr fetched)"
    using assms(3) by (auto simp: scanLogs_def Let_def split: if_splits option.splits sum.splits)
  then have "fetched = join_logs (within fromBlock toBlock chain)"
    using fetchWithHalving_serves [OF assms(1,2)] scanChunks_serves [OF assms(1,2)] by blast
  with fetched(1) show ?thesis
    by simp
qed

text \<open>C8. Whatever the chunk size and however the provider's refusals cut the range, a scan that succeeds against a provider serving a chain returns the events of the whole range, each paired within its transaction, in canonical order: chunking and halving lose, duplicate and mispair nothing.\<close>

theorem scanLogs_complete:
  assumes "serves getLogs chain" "chain_ok chain"
    and "scanLogs getLogs fromBlock toBlock chunkSize = Inr events"
  shows "events = sort_key event_order (join_logs (within fromBlock toBlock chain))"
  using scanLogs_serves [OF assms] .

section \<open>The scan recovers from a provider's limits\<close>

lemma fetchWithHalving_recovers:
  assumes small: "\<And>a b. b + 1 - a \<le> MIN_CHUNK_BLOCKS \<Longrightarrow> is_ok (getLogs a b)"
    and errs: "\<And>a b e. getLogs a b = Inl e \<Longrightarrow> isRangeTooLargeError e"
  shows "is_ok (fetchWithHalving getLogs a b)"
proof (induction "b + 1 - a" arbitrary: a b rule: less_induct)
  case less
  show ?case
  proof (cases "getLogs a b")
    case (Inr logs)
    then show ?thesis
      by (simp add: fetchWithHalving.simps [of getLogs a b] fetchRange_def)
  next
    case (Inl e)
    then have big: "\<not> b + 1 - a \<le> MIN_CHUNK_BLOCKS"
      using small [of b a] by auto
    let ?mid = "a + (b + 1 - a) div 2 - 1"
    have sizes: "?mid + 1 - a < b + 1 - a" "b + 1 - (?mid + 1) < b + 1 - a"
      using big by (simp_all add: MIN_CHUNK_BLOCKS_def)
    obtain left right where "fetchWithHalving getLogs a ?mid = Inr left"
        "fetchWithHalving getLogs (?mid + 1) b = Inr right"
      using less [OF sizes(1)] less [OF sizes(2)] by (auto simp: is_ok_iff)
    then show ?thesis
      using Inl errs [OF Inl] big
      by (simp add: fetchWithHalving.simps [of getLogs a b] fetchRange_def Let_def)
  qed
qed

lemma scanChunks_recovers:
  assumes fetch: "\<And>a b. is_ok (fetchWithHalving getLogs a b)"
  shows "is_ok (scanChunks getLogs c a b)"
proof (induction "b + 1 - a" arbitrary: a rule: less_induct)
  case less
  obtain chunk where chunk: "fetchWithHalving getLogs a (min (a + c - 1) b) = Inr chunk"
    using fetch by (auto simp: is_ok_iff)
  show ?case
  proof (cases "a > b \<or> c = 0")
    case True
    then show ?thesis
      by (simp add: scanChunks.simps)
  next
    case False
    then have "is_ok (scanChunks getLogs c (a + c) b)"
      by (intro less) auto
    then show ?thesis
      using chunk False by (auto simp: scanChunks.simps [of getLogs c a b] is_ok_iff)
  qed
qed

text \<open>A scan recovers from a provider that refuses ranges it finds too large: when every range of at most MIN_CHUNK_BLOCKS blocks is answered and every refusal is of that family, the scan of any range, with any positive chunk size, returns. The halving terminates.\<close>

theorem scanLogs_recovers:
  assumes "\<And>a b. b + 1 - a \<le> MIN_CHUNK_BLOCKS \<Longrightarrow> is_ok (getLogs a b)"
    and "\<And>a b e. getLogs a b = Inl e \<Longrightarrow> isRangeTooLargeError e"
    and "chunkSize \<noteq> Some 0"
  shows "is_ok (scanLogs getLogs fromBlock toBlock chunkSize)"
proof -
  have fetch: "is_ok (fetchWithHalving getLogs a b)" for a b
    using assms(1,2) by (rule fetchWithHalving_recovers)
  then have "is_ok (scanChunks getLogs c fromBlock toBlock)" for c
    by (rule scanChunks_recovers)
  with fetch [of fromBlock toBlock] show ?thesis
    using assms(3) by (fastforce simp: scanLogs_def is_ok_def Let_def split: option.splits sum.splits)
qed

section \<open>Pairing withstands injected segments\<close>

lemma event_of_simps [simp]:
  "ev_blockNumber (event_of l r) = sl_blockNumber l" "ev_logIndex (event_of l r) = sl_logIndex l"
  "ev_txIndex (event_of l r) = sl_transactionIndex l" "ev_txHash (event_of l r) = sl_transactionHash l"
  "ev_startFE (event_of l (Some rng)) = fst rng" "ev_endFE (event_of l (Some rng)) = snd rng"
  by (simp_all add: event_of_def Let_def split: log_args.split)

lemma pairItems_adjacent:
  assumes "log_key b = log_key l" "\<And>m. BBR idx m \<notin> set pre"
  shows "map_of (pairItems (pre @ BSD b # BBR idx l # post) p) idx = Some (log_range b)"
  using assms(2)
proof (induction pre arbitrary: p)
  case Nil
  then show ?case
    using assms(1) by simp
next
  case (Cons x pre)
  show ?case
  proof (cases x)
    case (BBR i m)
    then have "i \<noteq> idx" "\<And>m. BBR idx m \<notin> set pre"
      using Cons.prems by auto
    then show ?thesis
      using BBR Cons.IH by (auto split: option.splits)
  next
    case (BSD m)
    then show ?thesis
      using Cons by simp
  qed
qed

lemma sorted_adjacent:
  fixes f :: "'a \<Rightarrow> nat"
  assumes "sorted (map f xs)" "inj_on f (set xs)" "x \<in> set xs" "y \<in> set xs" "f y = Suc (f x)"
  shows "\<exists>pre post. xs = pre @ x # y # post \<and> y \<notin> set pre"
proof -
  obtain pre rest where xs: "xs = pre @ x # rest" "x \<notin> set rest"
    using assms(3) by (meson split_list_last)
  have "f z \<le> f x" if "z \<in> set pre" for z
    using assms(1) that by (auto simp: xs sorted_append)
  then have y: "y \<notin> set pre"
    using assms(5) by force
  then have "y \<in> set rest"
    using assms(4,5) by (auto simp: xs)
  then obtain z post where rest: "rest = z # post"
    by (cases rest) auto
  have "f x \<noteq> f z"
    using assms(2) xs(2) by (auto simp: xs(1) rest inj_on_def)
  moreover have "f x \<le> f z" "f z \<le> f y"
    using assms(1) \<open>y \<in> set rest\<close> by (auto simp: xs(1) rest sorted_append)
  ultimately have "f z = f y"
    using assms(5) by simp
  moreover have "z \<in> set xs" "y \<in> set xs"
    using assms(4) by (simp_all add: xs(1) rest)
  ultimately have "z = y"
    using assms(2) by (meson inj_onD)
  with xs(1) rest y show ?thesis
    by blast
qed

abbreviation log_position :: "scanner_log \<Rightarrow> string \<times> nat" where
  "log_position l \<equiv> (tx_key l, sl_logIndex l)"

lemma tx_items_inj:
  assumes "distinct (map log_position logs)"
  shows "inj_on item_logIndex (set (tx_items key (filter is_batch_log logs) (filter (\<lambda>l. \<not> is_batch_log l) logs)))"
proof (rule inj_onI)
  let ?b = "filter is_batch_log logs" and ?s = "filter (\<lambda>l. \<not> is_batch_log l) logs"
  have inj: "l = m" if "l \<in> set logs" "m \<in> set logs" "log_position l = log_position m" for l m
    using assms that by (meson distinct_map inj_onD)
  have idx: "i = j" if "i < length ?b" "j < length ?b" "?b ! i = ?b ! j" for i j
  proof -
    have "distinct ?b"
      using assms by (simp add: distinct_map)
    then show ?thesis
      using that by (simp add: nth_eq_iff_index_eq)
  qed
  fix x y
  assume x: "x \<in> set (tx_items key ?b ?s)" and y: "y \<in> set (tx_items key ?b ?s)"
    and eq: "item_logIndex x = item_logIndex y"
  have mem: "?b ! i \<in> set logs \<and> is_batch_log (?b ! i)" if "i < length ?b" for i
    using nth_mem [OF that] by simp
  show "x = y"
  proof (cases x)
    case (BBR i l)
    then have l: "i < length ?b" "l = ?b ! i" "tx_key l = key"
      using x by (auto simp: tx_items_BBR)
    show ?thesis
    proof (cases y)
      case (BBR j m)
      then have m: "j < length ?b" "m = ?b ! j" "tx_key m = key"
        using y by (auto simp: tx_items_BBR)
      then have "l = m"
        using inj [of l m] mem l eq BBR \<open>x = BBR i l\<close> by simp
      then show ?thesis
        using idx [of i j] l m BBR \<open>x = BBR i l\<close> by simp
    next
      case (BSD m)
      then have "l = m"
        using inj [of l m] mem l eq y \<open>x = BBR i l\<close> by (simp add: tx_items_BSD)
      then show ?thesis
        using BSD y mem [OF l(1)] l(2) by (simp add: tx_items_BSD)
    qed
  next
    case (BSD l)
    then have l: "l \<in> set logs" "\<not> is_batch_log l" "tx_key l = key"
      using x by (simp_all add: tx_items_BSD)
    show ?thesis
    proof (cases y)
      case (BBR j m)
      then have m: "j < length ?b" "m = ?b ! j" "tx_key m = key"
        using y by (auto simp: tx_items_BBR)
      then have "l = m"
        using inj [of l m] mem l eq BBR \<open>x = BSD l\<close> by simp
      then show ?thesis
        using l mem m by simp
    next
      case (BSD m)
      then show ?thesis
        using inj [of l m] l eq y \<open>x = BSD l\<close> by (simp add: tx_items_BSD)
    qed
  qed
qed

lemma range_of_adjacent:
  fixes logs :: "scanner_log list"
  defines "batchLogs \<equiv> filter is_batch_log logs"
    and "segmentLogs \<equiv> filter (\<lambda>l. \<not> is_batch_log l) logs"
  assumes "distinct (map log_position logs)"
    and "b \<in> set segmentLogs" "i < length batchLogs" "batchLogs ! i = l"
    and "tx_key b = tx_key l" "sl_logIndex l = Suc (sl_logIndex b)" "log_key b = log_key l"
  shows "pairSegmentRanges batchLogs segmentLogs i = Some (log_range b)"
proof -
  define items where "items = sort_key item_logIndex (tx_items (tx_key l) batchLogs segmentLogs)"
  have set_items: "set items = set (tx_items (tx_key l) batchLogs segmentLogs)"
    by (simp add: items_def)
  have "sorted (map item_logIndex items)" "inj_on item_logIndex (set items)"
    using tx_items_inj [OF assms(3)] by (simp_all add: items_def batchLogs_def segmentLogs_def)
  moreover have "BSD b \<in> set items" "BBR i l \<in> set items"
    using assms by (simp_all add: set_items tx_items_BSD tx_items_BBR)
  ultimately obtain pre post where split: "items = pre @ BSD b # BBR i l # post" "BBR i l \<notin> set pre"
    using sorted_adjacent [of item_logIndex items "BSD b" "BBR i l"] assms(8) by auto
  have "BBR i m \<notin> set pre" for m
  proof
    assume "BBR i m \<in> set pre"
    moreover from this have "m = l"
      using assms(6) set_items by (simp add: split(1)) (metis Un_iff insertCI tx_items_BBR)
    ultimately show False
      using split(2) by simp
  qed
  then have "map_of (pairItems items []) i = Some (log_range b)"
    unfolding split(1) using assms(9) by (intro pairItems_adjacent)
  then show ?thesis
    using assms(5,6) by (simp add: pairSegmentRanges_own items_def)
qed

text \<open>C9. A registered batch directly preceded, in its transaction, by its own segment declaration takes that declaration's range, whatever other declarations (for the same blob and tag, earlier or later) anyone injects into the transaction.\<close>

theorem pairing_resists_injection:
  assumes "distinct (map (\<lambda>l. (tx_key l, sl_logIndex l)) logs)"
    and "b \<in> set logs" "\<not> is_batch_log b" "l \<in> set logs" "is_batch_log l"
    and "tx_key b = tx_key l" "sl_logIndex l = Suc (sl_logIndex b)" "log_key b = log_key l"
  shows "event_of l (Some (log_range b)) \<in> set (join_logs logs)
    \<and> (\<forall>e \<in> set (join_logs logs). toLowerCase (ev_txHash e) = tx_key l \<and> ev_logIndex e = sl_logIndex l
         \<longrightarrow> (ev_startFE e, ev_endFE e) = log_range b)"
proof -
  let ?batch = "filter is_batch_log logs" and ?segments = "filter (\<lambda>l. \<not> is_batch_log l) logs"
  have b: "b \<in> set ?segments"
    using assms(2,3) by simp
  have paired: "pairSegmentRanges ?batch ?segments i = Some (log_range b)" if "i < length ?batch" "?batch ! i = l" for i
    using range_of_adjacent [OF assms(1) b that assms(6-8)] .
  obtain i where i: "i < length ?batch" "?batch ! i = l"
  proof -
    have "l \<in> set ?batch"
      using assms(4,5) by simp
    then show ?thesis
      unfolding in_set_conv_nth using that by blast
  qed
  have here: "event_of l (Some (log_range b)) \<in> set (join_logs logs)"
    using i paired [OF i] by (auto simp: join_logs_def Let_def image_iff in_set_enumerate_eq intro!: bexI [of _ "(i, l)"])
  have "(ev_startFE e, ev_endFE e) = log_range b"
    if e: "e \<in> set (join_logs logs)" "toLowerCase (ev_txHash e) = tx_key l" "ev_logIndex e = sl_logIndex l" for e
  proof -
    obtain j where j: "j < length ?batch" "e = event_of (?batch ! j) (pairSegmentRanges ?batch ?segments j)"
      using e(1) by (auto simp: join_logs_def Let_def in_set_enumerate_eq)
    have "log_position (?batch ! j) = log_position l" "?batch ! j \<in> set logs"
      using e(2,3) j nth_mem [OF j(1)] by (simp_all add: tx_key_def)
    then have "?batch ! j = l"
      using assms(1,4) by (meson distinct_map inj_onD)
    then have "e = event_of l (Some (log_range b))"
      using j paired by simp
    then show ?thesis
      by simp
  qed
  with here show ?thesis
    by blast
qed


section \<open>A sample chain\<close>

definition sample_rogue :: scanner_log where
  "sample_rogue = \<lparr>sl_blockNumber = 10, sl_transactionIndex = 0, sl_logIndex = 3, sl_transactionHash = ''0xAB'',
     sl_args = SegmentArgs ''0x01Ff'' ''0x0E'' 0 4096 ''0xaa''\<rparr>"

definition sample_segment :: scanner_log where
  "sample_segment = \<lparr>sl_blockNumber = 10, sl_transactionIndex = 0, sl_logIndex = 4, sl_transactionHash = ''0xAB'',
     sl_args = SegmentArgs ''0x01Ff'' ''0x0E'' 7 9 ''0xaa''\<rparr>"

definition sample_batch :: scanner_log where
  "sample_batch = \<lparr>sl_blockNumber = 10, sl_transactionIndex = 0, sl_logIndex = 5, sl_transactionHash = ''0xab'',
     sl_args = BatchArgs ''0x01ff'' ''0x0E'' ''0xAA'' ''0x00'' ''0x00''\<rparr>"

definition sample_late_batch :: scanner_log where
  "sample_late_batch = \<lparr>sl_blockNumber = 90, sl_transactionIndex = 1, sl_logIndex = 2, sl_transactionHash = ''0xcd'',
     sl_args = BatchArgs ''0x01ee'' ''0x0E'' ''0xAA'' ''0x00'' ''0x00''\<rparr>"

definition sample_chain :: "scanner_log list" where
  "sample_chain = [sample_rogue, sample_segment, sample_batch, sample_late_batch]"

text \<open>A provider that answers at most 64 blocks.\<close>

definition sample_provider :: get_logs where
  "sample_provider a b = (if b + 1 - a \<le> 64 then Inr (within a b sample_chain) else Inl ''block range is too large'')"

lemmas sample_chain_defs =
  sample_chain_def sample_rogue_def sample_segment_def sample_batch_def sample_late_batch_def

lemma sample_provider_serves: "serves sample_provider sample_chain"
  by (auto simp: serves_def sample_provider_def split: if_splits)

lemma sample_chain_ok: "chain_ok sample_chain"
  by (simp add: chain_ok_def sample_chain_defs tx_key_def) code_simp

lemma sample_refusal: "isRangeTooLargeError ''block range is too large''"
  by code_simp

theorem scanLogs_recovers_witness: "is_ok (scanLogs sample_provider 0 100 (Some 80))"
  by (rule scanLogs_recovers)
    (auto simp: sample_provider_def MIN_CHUNK_BLOCKS_def sample_refusal split: if_splits)

theorem scanLogs_complete_witness:
  "\<exists>events. scanLogs sample_provider 0 100 (Some 80) = Inr events
     \<and> events = sort_key event_order (join_logs (within 0 100 sample_chain)) \<and> length events = 2"
proof -
  have "is_ok (scanLogs sample_provider 0 100 (Some 80))"
    by code_simp
  then obtain events where ev: "scanLogs sample_provider 0 100 (Some 80) = Inr events"
    by (auto simp: is_ok_iff)
  have "length (sort_key event_order (join_logs (within 0 100 sample_chain))) = 2"
    by code_simp
  then show ?thesis
    using ev scanLogs_complete [OF sample_provider_serves sample_chain_ok ev] by simp
qed

theorem pairing_resists_injection_witness:
  "event_of sample_batch (Some (7, 9)) \<in> set (join_logs sample_chain)"
proof -
  have "log_range sample_segment = (7, 9)"
    by code_simp
  moreover have "event_of sample_batch (Some (log_range sample_segment)) \<in> set (join_logs sample_chain)"
    by (rule pairing_resists_injection [THEN conjunct1]) (code_simp+)
  ultimately show ?thesis
    by simp
qed

end
