(* ===== verification/Store.thy ===== *)
theory Store
  imports NonceCodec Message "HOL-Library.Product_Lexorder"
begin

text \<open>
  packages/bam-store: the durable store shared by the Poster, the Reader and the
  indexer.  The state holds the five tables of schema/ddl.ts; a table is the list
  of its rows (messages and batches, whose queries order them) or a map (tag
  sequence, nonce tracker, reader cursor).  Each operation of the transaction
  handle built by makeTxn in postgres.ts is one definition, translated from its
  SQL: WHERE is a filter, ORDER BY a stable sort, ON CONFLICT a branch on the
  primary key.  A result is an error (the exception thrown) or a value and the new
  state; withTxn discards the state of a failed transaction.
\<close>

datatype message_status = Pending | Submitted | Confirmed | Reorged
datatype batch_status = PendingTx | BatchConfirmed | BatchReorged

record raw_message =
  rm_sender :: string
  rm_nonce :: string
  rm_contentTag :: string
  rm_contents :: bytes
  rm_signature :: bytes
  rm_messageHash :: string
  rm_messageId :: "string option"
  rm_status :: message_status
  rm_batchRef :: "string option"
  rm_chainId :: "nat option"
  rm_ingestedAt :: "nat option"
  rm_ingestSeq :: "nat option"
  rm_blockNumber :: "nat option"
  rm_txIndex :: "nat option"
  rm_messageIndex :: "nat option"

record message_row =
  mr_messageId :: "string option"
  mr_sender :: string
  mr_nonce :: int
  mr_contentTag :: string
  mr_contents :: bytes
  mr_signature :: bytes
  mr_messageHash :: string
  mr_status :: message_status
  mr_batchRef :: "string option"
  mr_chainId :: "nat option"
  mr_ingestedAt :: "nat option"
  mr_ingestSeq :: "nat option"
  mr_blockNumber :: "nat option"
  mr_txIndex :: "nat option"
  mr_messageIndex :: "nat option"

record pending_row =
  pr_contentTag :: string
  pr_sender :: string
  pr_nonce :: int
  pr_contents :: bytes
  pr_signature :: bytes
  pr_messageHash :: string
  pr_chainId :: nat
  pr_ingestedAt :: nat
  pr_ingestSeq :: nat

record nonce_row =
  nr_sender :: string
  nr_lastNonce :: int
  nr_lastMessageHash :: string

record snapshot_entry =
  se_sender :: string
  se_nonce :: int
  se_messageId :: string
  se_messageIndex :: nat
  se_messageHash :: string

record raw_snapshot_entry =
  rs_sender :: string
  rs_nonce :: string
  rs_messageId :: string
  rs_messageHash :: string
  rs_messageIndex :: nat

record batch_row =
  br_txHash :: string
  br_chainId :: nat
  br_contentTag :: string
  br_blobVersionedHash :: string
  br_batchContentHash :: string
  br_blockNumber :: "nat option"
  br_txIndex :: "nat option"
  br_status :: batch_status
  br_replacedByTxHash :: "string option"
  br_submittedAt :: "nat option"
  br_invalidatedAt :: "nat option"
  br_submitter :: "string option"
  br_l1IncludedAt :: "nat option"
  br_messageSnapshot :: "snapshot_entry list"

record raw_batch =
  rb_txHash :: string
  rb_chainId :: nat
  rb_contentTag :: string
  rb_blobVersionedHash :: string
  rb_batchContentHash :: string
  rb_blockNumber :: "nat option"
  rb_txIndex :: "nat option"
  rb_status :: batch_status
  rb_replacedByTxHash :: "string option"
  rb_submittedAt :: "nat option"
  rb_invalidatedAt :: "nat option"
  rb_submitter :: "string option"
  rb_l1IncludedAt :: "nat option"
  rb_messageSnapshot :: "raw_snapshot_entry list"

record reader_cursor =
  rc_chainId :: nat
  rc_lastBlockNumber :: nat
  rc_lastTxIndex :: nat
  rc_updatedAt :: nat

record store =
  st_messages :: "raw_message list"
  st_batches :: "raw_batch list"
  st_tagSeq :: "string \<Rightarrow> nat option"
  st_nonces :: "string \<Rightarrow> (string \<times> string) option"
  st_cursor :: "nat \<Rightarrow> reader_cursor option"

definition empty_store :: store where
  "empty_store = \<lparr>st_messages = [], st_batches = [], st_tagSeq = (\<lambda>_. None),
     st_nonces = (\<lambda>_. None), st_cursor = (\<lambda>_. None)\<rparr>"

datatype store_error =
    DuplicateMessage string int
  | NonceCodecErr nonce_error
  | NullIngestMetadata
  | MarkSubmittedCount nat nat
  | ObservedHashConflict
  | NoBatchToReorg nat string
  | NoBatchToUpdate nat string string
  | SerializationFailure
  | CallbackThrow message_error

type_synonym 'a txn = "store \<Rightarrow> store_error + ('a \<times> store)"
type_synonym 'a qry = "store \<Rightarrow> store_error + 'a"

definition encNonce :: "int \<Rightarrow> store_error + string" where
  "encNonce n = (case encodeNonce n of Inl e \<Rightarrow> Inl (NonceCodecErr e) | Inr t \<Rightarrow> Inr t)"

definition decNonce :: "string \<Rightarrow> store_error + int" where
  "decNonce t = (case decodeNonce t of Inl e \<Rightarrow> Inl (NonceCodecErr e) | Inr n \<Rightarrow> Inr n)"

definition mapMessage :: "raw_message \<Rightarrow> store_error + message_row" where
  "mapMessage r = ebind (decNonce (rm_nonce r)) (\<lambda>n.
     Inr \<lparr>mr_messageId = rm_messageId r, mr_sender = rm_sender r, mr_nonce = n,
       mr_contentTag = rm_contentTag r, mr_contents = rm_contents r, mr_signature = rm_signature r,
       mr_messageHash = rm_messageHash r, mr_status = rm_status r, mr_batchRef = rm_batchRef r,
       mr_chainId = rm_chainId r, mr_ingestedAt = rm_ingestedAt r, mr_ingestSeq = rm_ingestSeq r,
       mr_blockNumber = rm_blockNumber r, mr_txIndex = rm_txIndex r, mr_messageIndex = rm_messageIndex r\<rparr>)"

definition mapPending :: "raw_message \<Rightarrow> store_error + pending_row" where
  "mapPending r =
     (case (rm_ingestedAt r, rm_ingestSeq r, rm_chainId r) of
        (Some at, Some sq, Some ch) \<Rightarrow> ebind (decNonce (rm_nonce r)) (\<lambda>n.
          Inr \<lparr>pr_contentTag = rm_contentTag r, pr_sender = rm_sender r, pr_nonce = n,
            pr_contents = rm_contents r, pr_signature = rm_signature r,
            pr_messageHash = rm_messageHash r, pr_chainId = ch, pr_ingestedAt = at, pr_ingestSeq = sq\<rparr>)
      | _ \<Rightarrow> Inl NullIngestMetadata)"

definition encodeMessageSnapshot :: "snapshot_entry list \<Rightarrow> store_error + raw_snapshot_entry list" where
  "encodeMessageSnapshot = mapE (\<lambda>e. ebind (encNonce (se_nonce e)) (\<lambda>t.
     Inr \<lparr>rs_sender = toLowerCase (se_sender e), rs_nonce = t, rs_messageId = se_messageId e,
       rs_messageHash = se_messageHash e, rs_messageIndex = se_messageIndex e\<rparr>))"

definition decodeMessageSnapshot :: "raw_snapshot_entry list \<Rightarrow> store_error + snapshot_entry list" where
  "decodeMessageSnapshot = mapE (\<lambda>e. ebind (decNonce (rs_nonce e)) (\<lambda>n.
     Inr \<lparr>se_sender = rs_sender e, se_nonce = n, se_messageId = rs_messageId e,
       se_messageIndex = rs_messageIndex e, se_messageHash = rs_messageHash e\<rparr>))"

definition mapBatch :: "raw_batch \<Rightarrow> store_error + batch_row" where
  "mapBatch r = ebind (decodeMessageSnapshot (rb_messageSnapshot r)) (\<lambda>snap.
     Inr \<lparr>br_txHash = rb_txHash r, br_chainId = rb_chainId r, br_contentTag = rb_contentTag r,
       br_blobVersionedHash = rb_blobVersionedHash r, br_batchContentHash = rb_batchContentHash r,
       br_blockNumber = rb_blockNumber r, br_txIndex = rb_txIndex r, br_status = rb_status r,
       br_replacedByTxHash = rb_replacedByTxHash r, br_submittedAt = rb_submittedAt r,
       br_invalidatedAt = rb_invalidatedAt r, br_submitter = rb_submitter r,
       br_l1IncludedAt = rb_l1IncludedAt r, br_messageSnapshot = snap\<rparr>)"

section \<open>SQL idioms\<close>

abbreviation msg_key :: "raw_message \<Rightarrow> string \<times> string" where
  "msg_key r \<equiv> (rm_sender r, rm_nonce r)"

abbreviation batch_key :: "raw_batch \<Rightarrow> nat \<times> string \<times> string" where
  "batch_key r \<equiv> (rb_chainId r, rb_txHash r, rb_contentTag r)"

definition msgs_at :: "string \<Rightarrow> string \<Rightarrow> store \<Rightarrow> raw_message list" where
  "msgs_at sender nonce st = filter (\<lambda>r. rm_sender r = sender \<and> rm_nonce r = nonce) (st_messages st)"

text \<open>Columns in ORDER BY: ascending with nulls last, and descending with nulls last.\<close>

definition asc_nl :: "nat option \<Rightarrow> nat \<times> nat" where
  "asc_nl c = (case c of None \<Rightarrow> (1, 0) | Some n \<Rightarrow> (0, n))"

definition desc_nl :: "nat option \<Rightarrow> nat \<times> int" where
  "desc_nl c = (case c of None \<Rightarrow> (1, 0) | Some n \<Rightarrow> (0, - int n))"

definition limited :: "nat option \<Rightarrow> 'a list \<Rightarrow> 'a list" where
  "limited lim xs = (case lim of None \<Rightarrow> xs | Some n \<Rightarrow> take n xs)"

text \<open>The row comparison (a, b, c) > (x, y, z): null as soon as a null column decides.\<close>

fun row_gt :: "nat option list \<Rightarrow> nat list \<Rightarrow> bool" where
  "row_gt (Some a # as) (x # xs) = (if a = x then row_gt as xs else a > x)"
| "row_gt _ _ = False"

section \<open>Pending messages\<close>

definition insertPending :: "pending_row \<Rightarrow> unit txn" where
  "insertPending row st =
     (let sender = toLowerCase (pr_sender row) in
      ebind (encNonce (pr_nonce row)) (\<lambda>nonce.
        let new = \<lparr>rm_sender = sender, rm_nonce = nonce, rm_contentTag = pr_contentTag row,
              rm_contents = pr_contents row, rm_signature = pr_signature row,
              rm_messageHash = pr_messageHash row, rm_messageId = None, rm_status = Pending,
              rm_batchRef = None, rm_chainId = Some (pr_chainId row),
              rm_ingestedAt = Some (pr_ingestedAt row), rm_ingestSeq = Some (pr_ingestSeq row),
              rm_blockNumber = None, rm_txIndex = None, rm_messageIndex = None\<rparr>
        in case msgs_at sender nonce st of
             r # _ \<Rightarrow>
               if rm_status r \<noteq> Reorged then Inl (DuplicateMessage (pr_sender row) (pr_nonce row))
               else Inr ((), st\<lparr>st_messages :=
                 filter (\<lambda>r. \<not> (rm_sender r = sender \<and> rm_nonce r = nonce)) (st_messages st) @ [new]\<rparr>)
           | [] \<Rightarrow> Inr ((), st\<lparr>st_messages := st_messages st @ [new]\<rparr>)))"

definition getPendingByKey :: "string \<Rightarrow> int \<Rightarrow> pending_row option qry" where
  "getPendingByKey sender nonce st =
     ebind (encNonce nonce) (\<lambda>t.
       case filter (\<lambda>r. rm_status r = Pending) (msgs_at (toLowerCase sender) t st) of
         [] \<Rightarrow> Inr None
       | r # _ \<Rightarrow> ebind (mapPending r) (\<lambda>p. Inr (Some p)))"

definition seq_after :: "nat option \<Rightarrow> nat option \<Rightarrow> bool" where
  "seq_after sinceSeq col =
     (case sinceSeq of None \<Rightarrow> True
      | Some s \<Rightarrow> (case col of None \<Rightarrow> False | Some c \<Rightarrow> c > s))"

definition listPendingByTag :: "string \<Rightarrow> nat option \<Rightarrow> nat option \<Rightarrow> pending_row list qry" where
  "listPendingByTag tag lim sinceSeq st =
     mapE mapPending (limited lim
       (sort_key (\<lambda>r. asc_nl (rm_ingestSeq r))
         (filter (\<lambda>r. rm_contentTag r = tag \<and> rm_status r = Pending \<and> seq_after sinceSeq (rm_ingestSeq r))
           (st_messages st))))"

definition listPendingAll :: "nat option \<Rightarrow> nat option \<Rightarrow> pending_row list qry" where
  "listPendingAll lim sinceSeq st =
     mapE mapPending (limited lim
       (sort_key (\<lambda>r. (asc_nl (rm_ingestedAt r), asc_nl (rm_ingestSeq r)))
         (filter (\<lambda>r. rm_status r = Pending \<and> seq_after sinceSeq (rm_ingestSeq r)) (st_messages st))))"

definition countPendingByTag :: "string \<Rightarrow> store \<Rightarrow> nat" where
  "countPendingByTag tag st =
     length (filter (\<lambda>r. rm_contentTag r = tag \<and> rm_status r = Pending) (st_messages st))"

definition nextIngestSeq :: "string \<Rightarrow> nat txn" where
  "nextIngestSeq tag st =
     (let v = (case st_tagSeq st tag of None \<Rightarrow> 1 | Some s \<Rightarrow> s + 1)
      in Inr (v, st\<lparr>st_tagSeq := (st_tagSeq st)(tag \<mapsto> v)\<rparr>))"

section \<open>Nonce tracker\<close>

definition getNonce :: "string \<Rightarrow> nonce_row option qry" where
  "getNonce sender st =
     (case st_nonces st (toLowerCase sender) of
        None \<Rightarrow> Inr None
      | Some (t, h) \<Rightarrow> ebind (decNonce t) (\<lambda>n.
          Inr (Some \<lparr>nr_sender = toLowerCase sender, nr_lastNonce = n, nr_lastMessageHash = h\<rparr>)))"

definition setNonce :: "nonce_row \<Rightarrow> unit txn" where
  "setNonce row st =
     ebind (encNonce (nr_lastNonce row)) (\<lambda>t.
       Inr ((), st\<lparr>st_nonces := (st_nonces st)(toLowerCase (nr_sender row) \<mapsto> (t, nr_lastMessageHash row))\<rparr>))"

text \<open>ORDER BY nonce DESC LIMIT 1 over the text column: the first of the largest.\<close>

fun max_nonce_row :: "raw_message list \<Rightarrow> raw_message option" where
  "max_nonce_row [] = None"
| "max_nonce_row (r # rs) =
     (case max_nonce_row rs of
        None \<Rightarrow> Some r
      | Some r' \<Rightarrow> if rm_nonce r < rm_nonce r' then Some r' else Some r)"

definition getMaxNonReorgedNonce :: "string \<Rightarrow> nonce_row option qry" where
  "getMaxNonReorgedNonce sender st =
     (let senderKey = toLowerCase sender in
      case max_nonce_row (filter (\<lambda>r. rm_sender r = senderKey \<and> rm_status r \<noteq> Reorged) (st_messages st)) of
        None \<Rightarrow> Inr None
      | Some r \<Rightarrow> ebind (decNonce (rm_nonce r)) (\<lambda>n.
          Inr (Some \<lparr>nr_sender = senderKey, nr_lastNonce = n, nr_lastMessageHash = rm_messageHash r\<rparr>)))"

section \<open>Lifecycle transitions\<close>

definition submit_hit :: "(string \<times> string) list \<Rightarrow> raw_message \<Rightarrow> bool" where
  "submit_hit tuples r \<longleftrightarrow> rm_status r = Pending \<and> msg_key r \<in> set tuples"

definition markSubmittedChunk :: "(string \<times> int) list \<Rightarrow> string \<Rightarrow> store \<Rightarrow> store_error + store" where
  "markSubmittedChunk slc batchRef st =
     ebind (mapE (\<lambda>(s, n). ebind (encNonce n) (\<lambda>t. Inr (toLowerCase s, t))) slc) (\<lambda>tuples.
       let rowCount = length (filter (submit_hit tuples) (st_messages st))
       in if rowCount \<noteq> length slc then Inl (MarkSubmittedCount (length slc) rowCount)
          else Inr (st\<lparr>st_messages := map (\<lambda>r. if submit_hit tuples r
                then r\<lparr>rm_status := Submitted, rm_batchRef := Some batchRef\<rparr> else r) (st_messages st)\<rparr>))"

definition MARK_CHUNK :: nat where "MARK_CHUNK = 500"

function chunks_of :: "nat \<Rightarrow> 'a list \<Rightarrow> 'a list list" where
  "chunks_of n xs = (if n = 0 \<or> xs = [] then [] else take n xs # chunks_of n (drop n xs))"
  by pat_completeness auto

termination
  by (relation "measure (\<lambda>(n, xs). length xs)") auto

declare chunks_of.simps [simp del]

definition markSubmitted :: "(string \<times> int) list \<Rightarrow> string \<Rightarrow> unit txn" where
  "markSubmitted keys batchRef st =
     (if keys = [] then Inr ((), st)
      else ebind (foldE (\<lambda>slc. markSubmittedChunk slc batchRef) (chunks_of MARK_CHUNK keys) st)
        (\<lambda>st'. Inr ((), st')))"

definition raw_of_row :: "message_row \<Rightarrow> string \<Rightarrow> string \<Rightarrow> raw_message" where
  "raw_of_row row sender nonce =
     \<lparr>rm_sender = sender, rm_nonce = nonce, rm_contentTag = mr_contentTag row,
      rm_contents = mr_contents row, rm_signature = mr_signature row,
      rm_messageHash = mr_messageHash row, rm_messageId = mr_messageId row, rm_status = mr_status row,
      rm_batchRef = mr_batchRef row, rm_chainId = mr_chainId row, rm_ingestedAt = mr_ingestedAt row,
      rm_ingestSeq = mr_ingestSeq row, rm_blockNumber = mr_blockNumber row, rm_txIndex = mr_txIndex row,
      rm_messageIndex = mr_messageIndex row\<rparr>"

definition upsertObserved :: "message_row \<Rightarrow> unit txn" where
  "upsertObserved row st =
     (let sender = toLowerCase (mr_sender row) in
      ebind (encNonce (mr_nonce row)) (\<lambda>nonce.
        let new = raw_of_row row sender nonce in
        case msgs_at sender nonce st of
          r # _ \<Rightarrow>
            if rm_messageHash r \<noteq> mr_messageHash row then Inl ObservedHashConflict
            else if rm_status r = Confirmed then Inr ((), st)
            else Inr ((), st\<lparr>st_messages := map (\<lambda>q. if rm_sender q = sender \<and> rm_nonce q = nonce
                   then new else q) (st_messages st)\<rparr>)
        | [] \<Rightarrow> Inr ((), st\<lparr>st_messages := st_messages st @ [new]\<rparr>)))"

definition markReorged :: "nat \<Rightarrow> string \<Rightarrow> nat \<Rightarrow> unit txn" where
  "markReorged chainId txHash invalidatedAt st =
     (let hit = (\<lambda>b. rb_chainId b = chainId \<and> rb_txHash b = txHash) in
      if length (filter hit (st_batches st)) = 0 then Inl (NoBatchToReorg chainId txHash)
      else Inr ((), st\<lparr>
        st_batches := map (\<lambda>b. if hit b then b\<lparr>rb_status := BatchReorged, rb_invalidatedAt := Some invalidatedAt\<rparr> else b)
          (st_batches st),
        st_messages := map (\<lambda>r. if rm_batchRef r = Some txHash \<and> rm_chainId r = Some chainId \<and> rm_status r = Confirmed
          then r\<lparr>rm_status := Reorged\<rparr> else r) (st_messages st)\<rparr>))"

section \<open>Message reads\<close>

record messages_query =
  mq_contentTag :: "string option"
  mq_sender :: "string option"
  mq_status :: "message_status option"
  mq_batchRef :: "string option"
  mq_sinceBlock :: "nat option"
  mq_cursor :: "(nat \<times> nat \<times> nat) option"
  mq_limit :: "nat option"

definition no_messages_query :: messages_query where
  "no_messages_query = \<lparr>mq_contentTag = None, mq_sender = None, mq_status = None, mq_batchRef = None,
     mq_sinceBlock = None, mq_cursor = None, mq_limit = None\<rparr>"

definition opt_eq :: "'a option \<Rightarrow> 'a \<Rightarrow> bool" where
  "opt_eq c v = (case c of None \<Rightarrow> True | Some x \<Rightarrow> v = x)"

definition opt_ge :: "nat option \<Rightarrow> nat option \<Rightarrow> bool" where
  "opt_ge c col = (case c of None \<Rightarrow> True | Some x \<Rightarrow> (case col of None \<Rightarrow> False | Some v \<Rightarrow> v \<ge> x))"

definition message_matches :: "messages_query \<Rightarrow> raw_message \<Rightarrow> bool" where
  "message_matches q r \<longleftrightarrow>
     opt_eq (mq_contentTag q) (rm_contentTag r) \<and>
     opt_eq (map_option toLowerCase (mq_sender q)) (rm_sender r) \<and>
     opt_eq (mq_status q) (rm_status r) \<and>
     (case mq_batchRef q of None \<Rightarrow> True | Some b \<Rightarrow> rm_batchRef r = Some b) \<and>
     opt_ge (mq_sinceBlock q) (rm_blockNumber r) \<and>
     (case mq_cursor q of None \<Rightarrow> True
      | Some (b, t, m) \<Rightarrow> row_gt [rm_blockNumber r, rm_txIndex r, rm_messageIndex r] [b, t, m])"

definition message_order :: "raw_message \<Rightarrow> (nat \<times> nat) \<times> (nat \<times> nat) \<times> (nat \<times> nat) \<times> (nat \<times> nat)" where
  "message_order r = (asc_nl (rm_blockNumber r), asc_nl (rm_txIndex r), asc_nl (rm_messageIndex r), asc_nl (rm_ingestSeq r))"

definition listMessages :: "messages_query \<Rightarrow> message_row list qry" where
  "listMessages q st =
     mapE mapMessage (limited (mq_limit q) (sort_key message_order (filter (message_matches q) (st_messages st))))"

definition first_message :: "raw_message list \<Rightarrow> store_error + message_row option" where
  "first_message rows = (case rows of [] \<Rightarrow> Inr None | r # _ \<Rightarrow> ebind (mapMessage r) (\<lambda>m. Inr (Some m)))"

definition getByMessageId :: "string \<Rightarrow> message_row option qry" where
  "getByMessageId messageId st =
     first_message (filter (\<lambda>r. rm_messageId r = Some messageId) (st_messages st))"

definition getBySenderNonce :: "string \<Rightarrow> int \<Rightarrow> message_row option qry" where
  "getBySenderNonce sender nonce st =
     ebind (encNonce nonce) (\<lambda>t. first_message (msgs_at (toLowerCase sender) t st))"

section \<open>Batches\<close>

definition coalesce :: "'a option \<Rightarrow> 'a option \<Rightarrow> 'a option" where
  "coalesce a b = (case a of None \<Rightarrow> b | Some _ \<Rightarrow> a)"

definition raw_of_batch :: "batch_row \<Rightarrow> raw_snapshot_entry list \<Rightarrow> raw_batch" where
  "raw_of_batch row snap =
     \<lparr>rb_txHash = br_txHash row, rb_chainId = br_chainId row, rb_contentTag = br_contentTag row,
      rb_blobVersionedHash = br_blobVersionedHash row, rb_batchContentHash = br_batchContentHash row,
      rb_blockNumber = br_blockNumber row, rb_txIndex = br_txIndex row, rb_status = br_status row,
      rb_replacedByTxHash = br_replacedByTxHash row, rb_submittedAt = br_submittedAt row,
      rb_invalidatedAt = br_invalidatedAt row,
      rb_submitter = (case br_submitter row of Some s \<Rightarrow> if s = [] then None else Some (toLowerCase s) | None \<Rightarrow> None),
      rb_l1IncludedAt = br_l1IncludedAt row, rb_messageSnapshot = snap\<rparr>"

definition merge_batch :: "raw_batch \<Rightarrow> raw_batch \<Rightarrow> raw_batch" where
  "merge_batch old new = new\<lparr>
     rb_replacedByTxHash := coalesce (rb_replacedByTxHash new) (rb_replacedByTxHash old),
     rb_submittedAt := coalesce (rb_submittedAt new) (rb_submittedAt old),
     rb_submitter := coalesce (rb_submitter new) (rb_submitter old),
     rb_l1IncludedAt := coalesce (rb_l1IncludedAt new) (rb_l1IncludedAt old),
     rb_messageSnapshot := (if rb_messageSnapshot new = [] then rb_messageSnapshot old else rb_messageSnapshot new)\<rparr>"

definition upsertBatch :: "batch_row \<Rightarrow> unit txn" where
  "upsertBatch row st =
     ebind (encodeMessageSnapshot (br_messageSnapshot row)) (\<lambda>snap.
       let new = raw_of_batch row snap in
       if \<exists>b \<in> set (st_batches st). batch_key b = batch_key new
       then Inr ((), st\<lparr>st_batches := map (\<lambda>b. if batch_key b = batch_key new then merge_batch b new else b) (st_batches st)\<rparr>)
       else Inr ((), st\<lparr>st_batches := st_batches st @ [new]\<rparr>))"

text \<open>The optional fields of updateBatchStatus: outer None is an absent option, Some the
  value written, which may be null.\<close>

record batch_update =
  bu_blockNumber :: "nat option option"
  bu_txIndex :: "nat option option"
  bu_replacedByTxHash :: "string option option"
  bu_invalidatedAt :: "nat option option"

definition set_opt :: "'a option \<Rightarrow> 'a \<Rightarrow> 'a" where
  "set_opt o' v = (case o' of None \<Rightarrow> v | Some x \<Rightarrow> x)"

definition updateBatchStatus :: "nat \<Rightarrow> string \<Rightarrow> string \<Rightarrow> batch_status \<Rightarrow> batch_update \<Rightarrow> unit txn" where
  "updateBatchStatus chainId txHash contentTag status opts st =
     (let hit = (\<lambda>b. batch_key b = (chainId, txHash, contentTag)) in
      if length (filter hit (st_batches st)) = 0 then Inl (NoBatchToUpdate chainId txHash contentTag)
      else Inr ((), st\<lparr>st_batches := map (\<lambda>b. if hit b then b\<lparr>rb_status := status,
          rb_blockNumber := set_opt (bu_blockNumber opts) (rb_blockNumber b),
          rb_txIndex := set_opt (bu_txIndex opts) (rb_txIndex b),
          rb_replacedByTxHash := set_opt (bu_replacedByTxHash opts) (rb_replacedByTxHash b),
          rb_invalidatedAt := set_opt (bu_invalidatedAt opts) (rb_invalidatedAt b)\<rparr> else b) (st_batches st)\<rparr>))"

definition getBatch :: "nat \<Rightarrow> string \<Rightarrow> string \<Rightarrow> batch_row option qry" where
  "getBatch chainId txHash contentTag st =
     (case filter (\<lambda>b. batch_key b = (chainId, txHash, contentTag)) (st_batches st) of
        [] \<Rightarrow> Inr None
      | b # _ \<Rightarrow> ebind (mapBatch b) (\<lambda>r. Inr (Some r)))"

definition getBatchesByTxHash :: "nat \<Rightarrow> string \<Rightarrow> batch_row list qry" where
  "getBatchesByTxHash chainId txHash st =
     mapE mapBatch (sort_key rb_contentTag
       (filter (\<lambda>b. rb_chainId b = chainId \<and> rb_txHash b = txHash) (st_batches st)))"

record batches_query =
  bq_contentTag :: "string option"
  bq_chainId :: "nat option"
  bq_status :: "batch_status option"
  bq_sinceBlock :: "nat option"
  bq_sinceIncludedAt :: "nat option"
  bq_limit :: "nat option"

definition batch_matches :: "batches_query \<Rightarrow> raw_batch \<Rightarrow> bool" where
  "batch_matches q b \<longleftrightarrow>
     opt_eq (bq_contentTag q) (rb_contentTag b) \<and> opt_eq (bq_chainId q) (rb_chainId b) \<and>
     opt_eq (bq_status q) (rb_status b) \<and> opt_ge (bq_sinceBlock q) (rb_blockNumber b) \<and>
     opt_ge (bq_sinceIncludedAt q) (rb_l1IncludedAt b)"

definition batch_order :: "raw_batch \<Rightarrow> (nat \<times> int) \<times> (nat \<times> int) \<times> (nat \<times> int)" where
  "batch_order b = (desc_nl (rb_blockNumber b), desc_nl (rb_txIndex b), desc_nl (rb_submittedAt b))"

definition listBatches :: "batches_query \<Rightarrow> batch_row list qry" where
  "listBatches q st =
     mapE mapBatch (limited (bq_limit q) (sort_key batch_order (filter (batch_matches q) (st_batches st))))"

section \<open>Reader cursor and resets\<close>

definition getCursor :: "nat \<Rightarrow> store \<Rightarrow> reader_cursor option" where
  "getCursor chainId st = st_cursor st chainId"

definition setCursor :: "reader_cursor \<Rightarrow> store \<Rightarrow> store" where
  "setCursor row st = st\<lparr>st_cursor := (st_cursor st)(rc_chainId row \<mapsto> row)\<rparr>"

definition deleteCursor :: "nat \<Rightarrow> store \<Rightarrow> store" where
  "deleteCursor chainId st = st\<lparr>st_cursor := (st_cursor st)(chainId := None)\<rparr>"

definition deleteBatches :: "nat \<Rightarrow> store \<Rightarrow> store" where
  "deleteBatches chainId st = st\<lparr>st_batches := filter (\<lambda>b. rb_chainId b \<noteq> chainId) (st_batches st)\<rparr>"

definition deleteMessages :: "nat \<Rightarrow> store \<Rightarrow> store" where
  "deleteMessages chainId st = st\<lparr>st_messages := filter (\<lambda>r. rm_chainId r \<noteq> Some chainId) (st_messages st)\<rparr>"

section \<open>Transactions\<close>

text \<open>
  One attempt either fails with a serialization failure (conflict, decided by the
  database) or runs the body; only the former is retried, at most five times, and
  a failed transaction leaves the store as it was.
\<close>

definition MAX_RETRIES :: nat where "MAX_RETRIES = 5"

primrec withTxn_from :: "nat \<Rightarrow> (nat \<Rightarrow> bool) \<Rightarrow> 'a txn \<Rightarrow> store \<Rightarrow> (store_error + 'a) \<times> store" where
  "withTxn_from 0 conflict fn st = (Inl SerializationFailure, st)"
| "withTxn_from (Suc left) conflict fn st =
     (if conflict (MAX_RETRIES - left) then
        if left = 0 then (Inl SerializationFailure, st) else withTxn_from left conflict fn st
      else case fn st of Inl e \<Rightarrow> (Inl e, st) | Inr (x, st') \<Rightarrow> (Inr x, st'))"

definition withTxn :: "(nat \<Rightarrow> bool) \<Rightarrow> 'a txn \<Rightarrow> store \<Rightarrow> (store_error + 'a) \<times> store" where
  "withTxn conflict fn st = withTxn_from (Suc MAX_RETRIES) conflict fn st"

section \<open>Invariant\<close>

definition nonce_text :: "string \<Rightarrow> bool" where
  "nonce_text t = (case decodeNonce t of Inl _ \<Rightarrow> False | Inr n \<Rightarrow> encodeNonce n = Inr t)"

definition msg_ok :: "raw_message \<Rightarrow> bool" where
  "msg_ok r \<longleftrightarrow> toLowerCase (rm_sender r) = rm_sender r \<and> nonce_text (rm_nonce r) \<and>
     (rm_status r = Pending \<longrightarrow> rm_ingestedAt r \<noteq> None \<and> rm_ingestSeq r \<noteq> None \<and> rm_chainId r \<noteq> None)"

definition store_inv :: "store \<Rightarrow> bool" where
  "store_inv st \<longleftrightarrow> distinct (map msg_key (st_messages st)) \<and> distinct (map batch_key (st_batches st))
     \<and> list_all msg_ok (st_messages st)"

lemma encNonce_Inr [simp]: "encNonce n = Inr t \<longleftrightarrow> encodeNonce n = Inr t"
  by (simp add: encNonce_def split: sum.splits)

lemma nonce_text_encode: "encodeNonce n = Inr t \<Longrightarrow> nonce_text t"
  by (simp add: nonce_text_def)

lemma nonce_textE:
  assumes "nonce_text t"
  obtains n where "decodeNonce t = Inr n" "decNonce t = Inr n" "encodeNonce n = Inr t"
  using assms by (auto simp: nonce_text_def decNonce_def split: sum.splits)

lemma decNonce_encode [simp]: "encodeNonce n = Inr t \<Longrightarrow> decNonce t = Inr n"
  by (simp add: decNonce_def)

lemma store_inv_empty: "store_inv empty_store"
  by (simp add: store_inv_def empty_store_def)

lemma msgs_at_set: "r \<in> set (msgs_at s n st) \<longleftrightarrow> r \<in> set (st_messages st) \<and> msg_key r = (s, n)"
  by (auto simp: msgs_at_def)

lemma distinct_keys_unique:
  assumes "distinct (map f xs)" "x \<in> set xs" "y \<in> set xs" "f x = f y"
  shows "x = y"
  using assms by (auto simp: distinct_map dest: inj_onD)

lemma filter_key_unique:
  assumes "distinct (map f xs)" "x \<in> set xs"
  shows "filter (\<lambda>y. f y = f x) xs = [x]"
  using assms
proof (induction xs)
  case (Cons a xs)
  then show ?case
    by (cases "a = x") (auto simp: filter_empty_conv, metis image_eqI)
qed simp

lemma msgs_at_unique:
  assumes "store_inv st" "r \<in> set (st_messages st)"
  shows "msgs_at (rm_sender r) (rm_nonce r) st = [r]"
  using filter_key_unique [of msg_key "st_messages st" r] assms by (simp add: msgs_at_def store_inv_def)

lemma msgs_at_cases:
  assumes "store_inv st"
  obtains "msgs_at s n st = []" "(s, n) \<notin> msg_key ` set (st_messages st)"
  | r where "msgs_at s n st = [r]" "r \<in> set (st_messages st)" "msg_key r = (s, n)"
proof (cases "msgs_at s n st")
  case Nil
  then have "(s, n) \<notin> msg_key ` set (st_messages st)"
    by (auto simp: msgs_at_def filter_empty_conv)
  with Nil that(1) show ?thesis by blast
next
  case (Cons r rs)
  then have "r \<in> set (st_messages st)" "msg_key r = (s, n)"
    using msgs_at_set [of r s n st] by auto
  with assms that(2) [of r] msgs_at_unique [of st r] show ?thesis by simp
qed

section \<open>What each operation does to the messages\<close>

definition pending_raw :: "pending_row \<Rightarrow> string \<Rightarrow> raw_message" where
  "pending_raw row nonce = \<lparr>rm_sender = toLowerCase (pr_sender row), rm_nonce = nonce, rm_contentTag = pr_contentTag row,
     rm_contents = pr_contents row, rm_signature = pr_signature row,
     rm_messageHash = pr_messageHash row, rm_messageId = None, rm_status = Pending,
     rm_batchRef = None, rm_chainId = Some (pr_chainId row),
     rm_ingestedAt = Some (pr_ingestedAt row), rm_ingestSeq = Some (pr_ingestSeq row),
     rm_blockNumber = None, rm_txIndex = None, rm_messageIndex = None\<rparr>"

lemma insertPending_Inr:
  assumes "insertPending row st = Inr (u, st')" "store_inv st"
  obtains t where "encodeNonce (pr_nonce row) = Inr t"
    "st' = st\<lparr>st_messages := filter (\<lambda>r. msg_key r \<noteq> (toLowerCase (pr_sender row), t)) (st_messages st) @ [pending_raw row t]\<rparr>"
    "list_all (\<lambda>r. msg_key r = (toLowerCase (pr_sender row), t) \<longrightarrow> rm_status r = Reorged) (st_messages st)"
proof -
  let ?s = "toLowerCase (pr_sender row)"
  from assms(1) obtain t where t: "encodeNonce (pr_nonce row) = Inr t"
    by (auto simp: insertPending_def Let_def)
  show ?thesis
  proof (cases rule: msgs_at_cases [OF assms(2), of ?s t])
    case 1
    then have "filter (\<lambda>r. msg_key r \<noteq> (?s, t)) (st_messages st) = st_messages st"
      by (auto simp: filter_id_conv image_iff)
    moreover have "list_all (\<lambda>r. msg_key r = (?s, t) \<longrightarrow> rm_status r = Reorged) (st_messages st)"
      using 1 by (auto simp: list_all_iff image_iff)
    ultimately show ?thesis
      using assms(1) t 1 by (intro that [OF t]) (auto simp: insertPending_def Let_def pending_raw_def)
  next
    case (2 r)
    then have uniq: "q \<in> set (st_messages st) \<Longrightarrow> msg_key q = (?s, t) \<Longrightarrow> q = r" for q
      using assms(2) by (auto simp: store_inv_def intro: distinct_keys_unique)
    have "encNonce (pr_nonce row) = Inr t"
      using t by simp
    then have eq: "rm_status r = Reorged \<and> st' = st\<lparr>st_messages :=
        filter (\<lambda>q. \<not> (rm_sender q = ?s \<and> rm_nonce q = t)) (st_messages st) @ [pending_raw row t]\<rparr>"
      using assms(1) 2(1) by (simp add: insertPending_def Let_def pending_raw_def del: encNonce_Inr split: if_splits)
    moreover have "list_all (\<lambda>q. msg_key q = (?s, t) \<longrightarrow> rm_status q = Reorged) (st_messages st)"
      unfolding list_all_iff using eq uniq by blast
    ultimately show ?thesis
      using that [OF t] by simp
  qed
qed

lemma insertPending_live:
  assumes "store_inv st" "encodeNonce (pr_nonce row) = Inr t" "r \<in> set (st_messages st)"
    "msg_key r = (toLowerCase (pr_sender row), t)" "rm_status r \<noteq> Reorged"
  shows "insertPending row st = Inl (DuplicateMessage (pr_sender row) (pr_nonce row))"
proof -
  have "encNonce (pr_nonce row) = Inr t"
    using assms(2) by simp
  then show ?thesis
    using msgs_at_unique [OF assms(1,3)] assms(4,5) by (simp add: insertPending_def Let_def del: encNonce_Inr)
qed

lemma insertPending_free:
  assumes "store_inv st" "encodeNonce (pr_nonce row) = Inr t"
    "list_all (\<lambda>r. msg_key r = (toLowerCase (pr_sender row), t) \<longrightarrow> rm_status r = Reorged) (st_messages st)"
  shows "\<exists>st'. insertPending row st = Inr ((), st')"
proof -
  have e: "encNonce (pr_nonce row) = Inr t"
    using assms(2) by simp
  show ?thesis
    by (rule msgs_at_cases [OF assms(1), of "toLowerCase (pr_sender row)" t])
      (use assms(3) e in \<open>auto simp: insertPending_def Let_def list_all_iff simp del: encNonce_Inr\<close>)
qed

lemma insertPending_inv:
  assumes "insertPending row st = Inr (u, st')" "store_inv st"
  shows "store_inv st'"
  using assms(1,2)
proof (cases rule: insertPending_Inr)
  case (1 t)
  then show ?thesis
    using assms(2) nonce_text_encode
    by (auto simp: store_inv_def pending_raw_def msg_ok_def list_all_iff distinct_map_filter)
qed

lemma map_update_inv:
  assumes "store_inv st" "\<And>r. r \<in> set (st_messages st) \<Longrightarrow> msg_key (f r) = msg_key r \<and> msg_ok (f r)"
  shows "store_inv (st\<lparr>st_messages := map f (st_messages st)\<rparr>)"
proof -
  have "map msg_key (map f (st_messages st)) = map msg_key (st_messages st)"
    using assms(2) by simp
  then show ?thesis
    using assms by (auto simp: store_inv_def list_all_iff simp del: map_map)
qed

text \<open>One chunk of markSubmitted moves exactly the given keys, all of them pending.\<close>

lemma markSubmittedChunk_Inr:
  assumes "markSubmittedChunk slc ref st = Inr st'"
  obtains tuples where "mapE (\<lambda>(s, n). ebind (encNonce n) (\<lambda>t. Inr (toLowerCase s, t))) slc = Inr tuples"
    "length (filter (submit_hit tuples) (st_messages st)) = length slc"
    "st' = st\<lparr>st_messages := map (\<lambda>r. if submit_hit tuples r
        then r\<lparr>rm_status := Submitted, rm_batchRef := Some ref\<rparr> else r) (st_messages st)\<rparr>"
  using assms by (auto simp: markSubmittedChunk_def Let_def split: if_splits)

lemma markSubmittedChunk_inv:
  assumes "markSubmittedChunk slc ref st = Inr st'" "store_inv st"
  shows "store_inv st'"
  using assms(1)
proof (cases rule: markSubmittedChunk_Inr)
  case (1 tuples)
  show ?thesis
    unfolding 1(3) using assms(2)
    by (intro map_update_inv) (auto simp: store_inv_def list_all_iff msg_ok_def)
qed

lemma markSubmitted_inv:
  assumes "markSubmitted keys ref st = Inr (u, st')" "store_inv st"
  shows "store_inv st'"
  using assms foldE_invariant [of "\<lambda>slc. markSubmittedChunk slc ref" _ st st' store_inv] markSubmittedChunk_inv
  by (auto simp: markSubmitted_def split: if_splits)

lemma upsertObserved_Inr:
  assumes "upsertObserved row st = Inr (u, st')" "store_inv st"
  obtains (fresh) t where "encodeNonce (mr_nonce row) = Inr t"
    "(toLowerCase (mr_sender row), t) \<notin> msg_key ` set (st_messages st)"
    "st' = st\<lparr>st_messages := st_messages st @ [raw_of_row row (toLowerCase (mr_sender row)) t]\<rparr>"
  | (kept) r t where "encodeNonce (mr_nonce row) = Inr t" "r \<in> set (st_messages st)"
    "msg_key r = (toLowerCase (mr_sender row), t)" "rm_messageHash r = mr_messageHash row"
    "rm_status r = Confirmed" "st' = st"
  | (replaced) r t where "encodeNonce (mr_nonce row) = Inr t" "r \<in> set (st_messages st)"
    "msg_key r = (toLowerCase (mr_sender row), t)" "rm_messageHash r = mr_messageHash row"
    "rm_status r \<noteq> Confirmed"
    "st' = st\<lparr>st_messages := map (\<lambda>q. if msg_key q = (toLowerCase (mr_sender row), t)
       then raw_of_row row (toLowerCase (mr_sender row)) t else q) (st_messages st)\<rparr>"
proof -
  let ?s = "toLowerCase (mr_sender row)"
  from assms(1) obtain t where t: "encodeNonce (mr_nonce row) = Inr t"
    by (auto simp: upsertObserved_def Let_def)
  show ?thesis
  proof (cases rule: msgs_at_cases [OF assms(2), of ?s t])
    case 1
    then show ?thesis
      using assms(1) t by (intro fresh [OF t]) (auto simp: upsertObserved_def Let_def)
  next
    case (2 r)
    then show ?thesis
      using assms(1) t by (auto simp: upsertObserved_def Let_def split: if_splits intro: kept replaced)
  qed
qed

lemma upsertObserved_inv:
  assumes "upsertObserved row st = Inr (u, st')" "store_inv st"
    and "mr_status row = Pending \<Longrightarrow> mr_ingestedAt row \<noteq> None \<and> mr_ingestSeq row \<noteq> None \<and> mr_chainId row \<noteq> None"
  shows "store_inv st'"
  using assms(1,2)
proof (cases rule: upsertObserved_Inr)
  case (fresh t)
  then show ?thesis
    using assms(2,3) nonce_text_encode by (auto simp: store_inv_def raw_of_row_def msg_ok_def)
next
  case (replaced r t)
  show ?thesis
    unfolding replaced(6) using assms(2,3) replaced(1) nonce_text_encode
    by (intro map_update_inv) (auto simp: store_inv_def list_all_iff raw_of_row_def msg_ok_def)
qed (use assms(2) in simp)

lemma markReorged_Inr:
  assumes "markReorged chainId txHash at' st = Inr (u, st')"
  shows "st_messages st' = map (\<lambda>r. if rm_batchRef r = Some txHash \<and> rm_chainId r = Some chainId \<and> rm_status r = Confirmed
      then r\<lparr>rm_status := Reorged\<rparr> else r) (st_messages st)"
    and "st_batches st' = map (\<lambda>b. if rb_chainId b = chainId \<and> rb_txHash b = txHash
      then b\<lparr>rb_status := BatchReorged, rb_invalidatedAt := Some at'\<rparr> else b) (st_batches st)"
    and "\<exists>b \<in> set (st_batches st). rb_chainId b = chainId \<and> rb_txHash b = txHash"
  using assms by (auto simp: markReorged_def Let_def filter_empty_conv split: if_splits)

lemma map_keys_same: "(\<And>x. x \<in> set xs \<Longrightarrow> k (f x) = k x) \<Longrightarrow> map k (map f xs) = map k xs"
  by simp

lemma markReorged_inv:
  assumes "markReorged chainId txHash at' st = Inr (u, st')" "store_inv st"
  shows "store_inv st'"
proof -
  have "map msg_key (st_messages st') = map msg_key (st_messages st)"
    "map batch_key (st_batches st') = map batch_key (st_batches st)"
    unfolding markReorged_Inr(1,2) [OF assms(1)] by (rule map_keys_same; simp)+
  moreover have "list_all msg_ok (st_messages st')"
    unfolding markReorged_Inr(1) [OF assms(1)] using assms(2)
    by (auto simp: store_inv_def list_all_iff msg_ok_def)
  ultimately show ?thesis
    using assms(2) by (simp add: store_inv_def)
qed

lemma merge_batch_key: "batch_key (merge_batch b new) = batch_key new"
  by (simp add: merge_batch_def)

lemma upsertBatch_inv:
  assumes "upsertBatch row st = Inr (u, st')" "store_inv st"
  shows "store_inv st' \<and> st_messages st' = st_messages st"
proof -
  obtain snap where snap: "encodeMessageSnapshot (br_messageSnapshot row) = Inr snap"
    using assms(1) by (auto simp: upsertBatch_def)
  define new where "new = raw_of_batch row snap"
  have upd: "upsertBatch row st =
     (if \<exists>b \<in> set (st_batches st). batch_key b = batch_key new
      then Inr ((), st\<lparr>st_batches := map (\<lambda>b. if batch_key b = batch_key new then merge_batch b new else b) (st_batches st)\<rparr>)
      else Inr ((), st\<lparr>st_batches := st_batches st @ [new]\<rparr>))"
    by (simp only: upsertBatch_def snap ebind.simps Let_def new_def)
  show ?thesis
  proof (cases "\<exists>b \<in> set (st_batches st). batch_key b = batch_key new")
    case True
    have "map batch_key (map (\<lambda>b. if batch_key b = batch_key new then merge_batch b new else b) (st_batches st))
        = map batch_key (st_batches st)"
      by (rule map_keys_same) (simp add: merge_batch_def)
    moreover have "st' = st\<lparr>st_batches := map (\<lambda>b. if batch_key b = batch_key new then merge_batch b new else b) (st_batches st)\<rparr>"
      using assms(1) unfolding upd if_P [OF True] by simp
    ultimately show ?thesis
      using assms(2) by (simp add: store_inv_def del: map_map)
  next
    case False
    have "batch_key new \<notin> set (map batch_key (st_batches st))"
    proof
      assume "batch_key new \<in> set (map batch_key (st_batches st))"
      then obtain b where "b \<in> set (st_batches st)" "batch_key b = batch_key new"
        unfolding set_map by (elim imageE) simp
      with False show False by blast
    qed
    moreover have "st' = st\<lparr>st_batches := st_batches st @ [new]\<rparr>"
      using assms(1) unfolding upd if_not_P [OF False] by simp
    ultimately show ?thesis
      using assms(2) by (simp add: store_inv_def)
  qed
qed

lemma updateBatchStatus_inv:
  assumes "updateBatchStatus c h tg s opts st = Inr (u, st')" "store_inv st"
  shows "store_inv st' \<and> st_messages st' = st_messages st"
proof -
  have "map batch_key (st_batches st') = map batch_key (st_batches st) \<and> st_messages st' = st_messages st"
    using assms(1) by (auto simp: updateBatchStatus_def Let_def split: if_splits intro!: map_keys_same)
  then show ?thesis
    using assms(2) by (simp add: store_inv_def)
qed

end
