(* ===== verification/StoreLife.thy ===== *)
theory StoreLife
  imports Store Message
begin

text \<open>
  The life of a message slot and of a batch row in the store of theory Store: the
  step relation of all state-changing operations other than the operator resets,
  its invariant, the status edges a slot can take, what a writer can and cannot
  erase, and the exact effect of markSubmitted, insertPending and the nonce
  queries.  upsertObserved is called with a confirmed row (process-batch.ts,
  aggregator-loop.ts) or, by the Poster's reorg watcher, with a pending row that
  carries its ingest metadata; these are the steps observe and requeue.
\<close>

inductive store_step :: "store \<Rightarrow> store \<Rightarrow> bool" where
  insert: "insertPending row st = Inr (u, st') \<Longrightarrow> store_step st st'"
| seq: "nextIngestSeq tag st = Inr (n, st') \<Longrightarrow> store_step st st'"
| nonce: "setNonce nrow st = Inr (u, st') \<Longrightarrow> store_step st st'"
| submit: "markSubmitted keys ref st = Inr (u, st') \<Longrightarrow> store_step st st'"
| observe: "upsertObserved mrow st = Inr (u, st') \<Longrightarrow> mr_status mrow = Confirmed \<Longrightarrow> store_step st st'"
| requeue: "upsertObserved mrow st = Inr (u, st') \<Longrightarrow> mr_status mrow = Pending
    \<Longrightarrow> mr_ingestedAt mrow \<noteq> None \<Longrightarrow> mr_ingestSeq mrow \<noteq> None \<Longrightarrow> mr_chainId mrow \<noteq> None \<Longrightarrow> store_step st st'"
| reorg: "markReorged chainId txHash invalidatedAt st = Inr (u, st') \<Longrightarrow> store_step st st'"
| batch: "upsertBatch brow st = Inr (u, st') \<Longrightarrow> store_step st st'"
| status: "updateBatchStatus chainId txHash contentTag bstatus opts st = Inr (u, st') \<Longrightarrow> store_step st st'"
| cursor: "store_step st (setCursor crow st)"
| uncursor: "store_step st (deleteCursor chainId st)"

inductive_cases store_stepE: "store_step st st'"

lemma tables_only_inv:
  "store_inv st \<Longrightarrow> st_messages st' = st_messages st \<Longrightarrow> st_batches st' = st_batches st \<Longrightarrow> store_inv st'"
  by (simp add: store_inv_def)

lemma nextIngestSeq_tables:
  "nextIngestSeq tag st = Inr (n, st') \<Longrightarrow> st_messages st' = st_messages st \<and> st_batches st' = st_batches st"
  by (auto simp: nextIngestSeq_def Let_def)

lemma setNonce_tables:
  "setNonce row st = Inr (u, st') \<Longrightarrow> st_messages st' = st_messages st \<and> st_batches st' = st_batches st"
  by (auto simp: setNonce_def)

lemma cursor_tables [simp]:
  "st_messages (setCursor row st) = st_messages st" "st_batches (setCursor row st) = st_batches st"
  "st_messages (deleteCursor c st) = st_messages st" "st_batches (deleteCursor c st) = st_batches st"
  by (simp_all add: setCursor_def deleteCursor_def)

lemma store_step_inv: "store_step st st' \<Longrightarrow> store_inv st \<Longrightarrow> store_inv st'"
proof (induction rule: store_step.induct)
  case (seq tag st n st')
  then show ?case using nextIngestSeq_tables tables_only_inv by blast
next
  case (nonce nrow st u st')
  then show ?case using setNonce_tables tables_only_inv by blast
next
  case (observe mrow st u st')
  then show ?case using upsertObserved_inv [OF observe(1)] by simp
next
  case (requeue mrow st u st')
  then show ?case using upsertObserved_inv [OF requeue(1)] by simp
qed (auto intro: insertPending_inv markSubmitted_inv markReorged_inv tables_only_inv
      dest: upsertBatch_inv updateBatchStatus_inv)

section \<open>markSubmitted over all chunks\<close>

lemma concat_chunks_of: "0 < n \<Longrightarrow> concat (chunks_of n xs) = xs"
  by (induction n xs rule: chunks_of.induct) (subst chunks_of.simps, auto)

definition key_text :: "string \<times> int \<Rightarrow> store_error + (string \<times> string)" where
  "key_text = (\<lambda>(s, n). ebind (encNonce n) (\<lambda>t. Inr (toLowerCase s, t)))"

definition submit_row :: "(string \<times> string) list \<Rightarrow> string \<Rightarrow> raw_message \<Rightarrow> raw_message" where
  "submit_row tuples ref r =
     (if submit_hit tuples r then r\<lparr>rm_status := Submitted, rm_batchRef := Some ref\<rparr> else r)"

lemma submit_row_compose: "submit_row ts2 ref (submit_row ts1 ref r) = submit_row (ts1 @ ts2) ref r"
  by (auto simp: submit_row_def submit_hit_def)

lemma submit_hits_split:
  "length (filter (submit_hit (ts1 @ ts2)) rs)
    = length (filter (submit_hit ts1) rs) + length (filter (submit_hit ts2) (map (submit_row ts1 ref) rs))"
  by (induction rs) (auto simp: submit_row_def submit_hit_def)

lemma mapE_append_Inr:
  "mapE f xs = Inr us \<Longrightarrow> mapE f ys = Inr vs \<Longrightarrow> mapE f (xs @ ys) = Inr (us @ vs)"
  by (induction xs arbitrary: us) auto

lemma foldE_markSubmitted:
  "foldE (\<lambda>slc. markSubmittedChunk slc ref) css st = Inr st' \<Longrightarrow>
   \<exists>tuples. mapE key_text (concat css) = Inr tuples
     \<and> length (filter (submit_hit tuples) (st_messages st)) = length (concat css)
     \<and> st' = st\<lparr>st_messages := map (submit_row tuples ref) (st_messages st)\<rparr>"
proof (induction css arbitrary: st)
  case Nil
  have "submit_row [] ref r = r" "submit_hit [] = (\<lambda>_. False)" for r
    by (auto simp: submit_row_def submit_hit_def)
  then have "map (submit_row [] ref) rs = rs" for rs
    by (simp add: map_idI)
  with Nil show ?case
    by (simp add: submit_hit_def)
next
  case (Cons slc css)
  then obtain st1 where st1: "markSubmittedChunk slc ref st = Inr st1"
    and rest: "foldE (\<lambda>slc. markSubmittedChunk slc ref) css st1 = Inr st'"
    by auto
  from st1 obtain ts1 where ts1: "mapE key_text slc = Inr ts1"
    and len1: "length (filter (submit_hit ts1) (st_messages st)) = length slc"
    and eq1: "st1 = st\<lparr>st_messages := map (submit_row ts1 ref) (st_messages st)\<rparr>"
    by (cases rule: markSubmittedChunk_Inr) (auto simp: key_text_def submit_row_def)
  from Cons.IH [OF rest] obtain ts2 where ts2: "mapE key_text (concat css) = Inr ts2"
    and len2: "length (filter (submit_hit ts2) (st_messages st1)) = length (concat css)"
    and eq2: "st' = st1\<lparr>st_messages := map (submit_row ts2 ref) (st_messages st1)\<rparr>"
    by blast
  have "mapE key_text (concat (slc # css)) = Inr (ts1 @ ts2)"
    using mapE_append_Inr [OF ts1 ts2] by simp
  moreover have "length (filter (submit_hit (ts1 @ ts2)) (st_messages st)) = length (concat (slc # css))"
    using submit_hits_split [of ts1 ts2 "st_messages st" ref] len1 len2 by (simp add: eq1)
  moreover have "st' = st\<lparr>st_messages := map (submit_row (ts1 @ ts2) ref) (st_messages st)\<rparr>"
    by (simp add: eq1 eq2 submit_row_compose comp_def)
  ultimately show ?case by blast
qed

lemma markSubmitted_Inr:
  assumes "markSubmitted keys ref st = Inr (u, st')"
  obtains tuples where "mapE key_text keys = Inr tuples"
    "length (filter (submit_hit tuples) (st_messages st)) = length keys"
    "st' = st\<lparr>st_messages := map (submit_row tuples ref) (st_messages st)\<rparr>"
proof (cases "keys = []")
  case True
  have "submit_row [] ref r = r" for r
    by (simp add: submit_row_def submit_hit_def)
  then have "map (submit_row [] ref) (st_messages st) = st_messages st"
    by (simp add: map_idI)
  then show ?thesis
    using True assms by (intro that [of "[]"]) (simp_all add: markSubmitted_def submit_hit_def)
next
  case False
  then have "foldE (\<lambda>slc. markSubmittedChunk slc ref) (chunks_of MARK_CHUNK keys) st = Inr st'"
    using assms by (auto simp: markSubmitted_def)
  moreover have "concat (chunks_of MARK_CHUNK keys) = keys"
    by (rule concat_chunks_of) (simp add: MARK_CHUNK_def)
  ultimately show ?thesis
    using foldE_markSubmitted [of ref "chunks_of MARK_CHUNK keys" st st'] that by auto
qed

text \<open>The row count check forces the keys to be distinct and each to have its pending row.\<close>

lemma markSubmitted_counts:
  assumes "store_inv st" "length (filter (submit_hit tuples) (st_messages st)) = length tuples"
  shows "distinct tuples" "set tuples \<subseteq> msg_key ` set (filter (submit_hit tuples) (st_messages st))"
proof -
  let ?h = "filter (submit_hit tuples) (st_messages st)"
  have dist: "distinct (map msg_key ?h)"
    using assms(1) by (simp add: store_inv_def distinct_map_filter)
  have sub: "set (map msg_key ?h) \<subseteq> set tuples"
    by (auto simp: submit_hit_def)
  have card: "card (set (map msg_key ?h)) = length tuples"
    using distinct_card [OF dist] assms(2) by simp
  have le: "card (set tuples) \<le> length tuples"
    by (rule card_length)
  then have eq: "set (map msg_key ?h) = set tuples"
    using card_subset_eq [OF _ sub] card card_mono [OF _ sub] by fastforce
  show "distinct tuples"
    using card eq by (intro card_distinct) simp
  show "set tuples \<subseteq> msg_key ` set ?h"
    using eq by (metis list.set_map order_refl)
qed

section \<open>Status edges\<close>

definition status_edge :: "message_status \<Rightarrow> message_status \<Rightarrow> bool" where
  "status_edge a b \<longleftrightarrow> a = b \<or>
     (a, b) \<in> {(Pending, Submitted), (Pending, Confirmed), (Submitted, Confirmed), (Submitted, Pending),
               (Confirmed, Reorged), (Reorged, Pending), (Reorged, Confirmed)}"

definition slot_next :: "raw_message \<Rightarrow> raw_message \<Rightarrow> bool" where
  "slot_next r r' \<longleftrightarrow> msg_key r' = msg_key r \<and> status_edge (rm_status r) (rm_status r')
     \<and> (rm_messageHash r' = rm_messageHash r \<or> rm_status r = Reorged \<and> rm_status r' = Pending)"

lemma slot_next_refl [simp]: "slot_next r r"
  by (simp add: slot_next_def status_edge_def)

lemma slot_next_map:
  "(\<And>r. r \<in> set xs \<Longrightarrow> slot_next r (f r)) \<Longrightarrow> r \<in> set xs \<Longrightarrow> \<exists>r' \<in> set (map f xs). slot_next r r'"
  by auto

lemma upsertObserved_slot:
  assumes "upsertObserved mrow st = Inr (u, st')" "store_inv st" "r \<in> set (st_messages st)"
    and "mr_status mrow = Confirmed \<or> mr_status mrow = Pending"
  shows "\<exists>r' \<in> set (st_messages st'). slot_next r r'"
  using assms(1,2)
proof (cases rule: upsertObserved_Inr)
    case (fresh t)
    then show ?thesis using assms(3) by (intro bexI [of _ r]) auto
  next
    case (kept q t)
    then show ?thesis using assms(3) by (intro bexI [of _ r]) auto
  next
    case (replaced q t)
    have "slot_next p (if msg_key p = (toLowerCase (mr_sender mrow), t)
        then raw_of_row mrow (toLowerCase (mr_sender mrow)) t else p)" if "p \<in> set (st_messages st)" for p
    proof (cases "p = q")
      case True
      then show ?thesis
        using replaced(3,4,5) assms(4) by (cases "rm_status q") (auto simp: slot_next_def status_edge_def raw_of_row_def)
    next
      case False
      then have "msg_key p \<noteq> (toLowerCase (mr_sender mrow), t)"
        using that replaced(2,3) assms(2) by (auto simp: store_inv_def dest: distinct_keys_unique)
      then show ?thesis by auto
    qed
    from slot_next_map [OF this assms(3)] show ?thesis
      by (simp add: replaced(6))
  qed

lemma store_step_slot:
  assumes "store_step st st'" "store_inv st" "r \<in> set (st_messages st)"
  shows "\<exists>r' \<in> set (st_messages st'). slot_next r r'"
  using assms
proof (induction rule: store_step.induct)
  case (insert row st u st')
  from insert(1,2) show ?case
  proof (cases rule: insertPending_Inr)
    case (1 t)
    show ?thesis
    proof (cases "msg_key r = (toLowerCase (pr_sender row), t)")
      case True
      then have "slot_next r (pending_raw row t)"
        using 1(3) insert(3) by (auto simp: slot_next_def status_edge_def pending_raw_def list_all_iff)
      then show ?thesis by (simp add: 1(2))
    next
      case False
      then show ?thesis using insert(3) by (intro bexI [of _ r]) (auto simp: 1(2))
    qed
  qed
next
  case (seq tag st n st')
  then show ?case using nextIngestSeq_tables by (metis slot_next_refl)
next
  case (nonce nrow st u st')
  then show ?case using setNonce_tables by (metis slot_next_refl)
next
  case (submit keys ref st u st')
  from submit(1) show ?case
  proof (cases rule: markSubmitted_Inr)
    case (1 tuples)
    have "slot_next q (submit_row tuples ref q)" for q
      by (simp add: slot_next_def submit_row_def submit_hit_def status_edge_def)
    from slot_next_map [OF this submit(3)] show ?thesis
      by (simp add: 1(3))
  qed
next
  case (observe mrow st u st')
  then show ?case using upsertObserved_slot by simp
next
  case (requeue mrow st u st')
  then show ?case using upsertObserved_slot by simp
next
  case (reorg chainId txHash invalidatedAt st u st')
  show ?case
    unfolding markReorged_Inr(1) [OF reorg(1)]
    by (rule slot_next_map [OF _ reorg(3)]) (simp add: slot_next_def status_edge_def)
next
  case (batch brow st u st')
  then show ?case using upsertBatch_inv by (metis slot_next_refl)
next
  case (status chainId txHash contentTag bstatus opts st u st')
  then show ?case using updateBatchStatus_inv by (metis slot_next_refl)
qed (auto intro: bexI [of _ r])

section \<open>Batch facts are not lost\<close>

definition batch_keeps :: "raw_batch \<Rightarrow> raw_batch \<Rightarrow> bool" where
  "batch_keeps b b' \<longleftrightarrow> batch_key b' = batch_key b
     \<and> (rb_submittedAt b' = None \<longrightarrow> rb_submittedAt b = None)
     \<and> (rb_submitter b' = None \<longrightarrow> rb_submitter b = None)
     \<and> (rb_l1IncludedAt b' = None \<longrightarrow> rb_l1IncludedAt b = None)
     \<and> (rb_messageSnapshot b' = [] \<longrightarrow> rb_messageSnapshot b = [])"

lemma batch_keeps_refl [simp]: "batch_keeps b b"
  by (simp add: batch_keeps_def)

lemma batch_keeps_trans: "batch_keeps a b \<Longrightarrow> batch_keeps b c \<Longrightarrow> batch_keeps a c"
  by (auto simp: batch_keeps_def)

lemma batch_keeps_map:
  "(\<And>b. b \<in> set xs \<Longrightarrow> batch_keeps b (f b)) \<Longrightarrow> b \<in> set xs \<Longrightarrow> \<exists>b' \<in> set (map f xs). batch_keeps b b'"
  by auto

lemma merge_batch_keeps: "batch_key b = batch_key new \<Longrightarrow> batch_keeps b (merge_batch b new)"
  by (auto simp: batch_keeps_def merge_batch_def coalesce_def split: option.splits)

lemma upsertBatch_keeps:
  assumes "upsertBatch row st = Inr (u, st')" "b \<in> set (st_batches st)"
  shows "\<exists>b' \<in> set (st_batches st'). batch_keeps b b'"
proof -
  obtain snap where snap: "encodeMessageSnapshot (br_messageSnapshot row) = Inr snap"
    using assms(1) by (auto simp: upsertBatch_def)
  define new where "new = raw_of_batch row snap"
  have upd: "upsertBatch row st =
     (if \<exists>b \<in> set (st_batches st). batch_key b = batch_key new
      then Inr ((), st\<lparr>st_batches := map (\<lambda>b. if batch_key b = batch_key new then merge_batch b new else b) (st_batches st)\<rparr>)
      else Inr ((), st\<lparr>st_batches := st_batches st @ [new]\<rparr>))"
    by (simp only: upsertBatch_def snap ebind.simps Let_def new_def)
  show ?thesis
  proof (cases "\<exists>b \<in> set (st_batches st). batch_key b = batch_key new")
    case True
    then have st': "st_batches st' = map (\<lambda>b. if batch_key b = batch_key new then merge_batch b new else b) (st_batches st)"
      using assms(1) unfolding upd if_P [OF True] by auto
    show ?thesis
      unfolding st' by (rule batch_keeps_map [OF _ assms(2)]) (simp add: merge_batch_keeps)
  next
    case False
    then have "st_batches st' = st_batches st @ [new]"
      using assms(1) unfolding upd if_not_P [OF False] by auto
    then show ?thesis
      using assms(2) by (intro bexI [of _ b]) auto
  qed
qed

lemma upsertBatch_key:
  assumes "upsertBatch row st = Inr (u, st')"
  shows "(br_chainId row, br_txHash row, br_contentTag row) \<in> batch_key ` set (st_batches st')"
proof -
  obtain snap where snap: "encodeMessageSnapshot (br_messageSnapshot row) = Inr snap"
    using assms by (auto simp: upsertBatch_def)
  define new where "new = raw_of_batch row snap"
  have key: "batch_key new = (br_chainId row, br_txHash row, br_contentTag row)"
    by (simp add: new_def raw_of_batch_def)
  show ?thesis
  proof (cases "\<exists>b \<in> set (st_batches st). batch_key b = batch_key new")
    case True
    then obtain b where b: "b \<in> set (st_batches st)" "batch_key b = batch_key new"
      by blast
    have "st' = st\<lparr>st_batches := map (\<lambda>q. if batch_key q = batch_key new then merge_batch q new else q) (st_batches st)\<rparr>"
      using assms snap True unfolding new_def by (simp add: upsertBatch_def Let_def)
    then have "merge_batch b new \<in> set (st_batches st')"
      using b by (auto intro!: image_eqI [where x = b])
    moreover have "batch_key (merge_batch b new) = batch_key new"
      using merge_batch_keeps [OF b(2)] b(2) by (simp add: batch_keeps_def)
    ultimately show ?thesis
      using key by (intro image_eqI [of _ _ "merge_batch b new"]) simp_all
  next
    case False
    then have "st' = st\<lparr>st_batches := st_batches st @ [new]\<rparr>"
      using assms snap False unfolding new_def by (auto simp: upsertBatch_def Let_def split: if_split_asm)
    then have "new \<in> set (st_batches st')"
      by simp
    then show ?thesis
      using key by (intro image_eqI [of _ _ new]) simp_all
  qed
qed

lemma insertPending_batches:
  assumes "insertPending row st = Inr (u, st')"
  shows "st_batches st' = st_batches st"
proof -
  obtain t where "encNonce (pr_nonce row) = Inr t"
    using assms by (auto simp: insertPending_def Let_def)
  with assms show ?thesis
    by (cases "msgs_at (toLowerCase (pr_sender row)) t st")
      (auto simp: insertPending_def Let_def split: if_splits)
qed

lemma upsertObserved_batches:
  assumes "upsertObserved row st = Inr (u, st')"
  shows "st_batches st' = st_batches st"
proof -
  obtain t where "encNonce (mr_nonce row) = Inr t"
    using assms by (auto simp: upsertObserved_def Let_def)
  with assms show ?thesis
    by (cases "msgs_at (toLowerCase (mr_sender row)) t st")
      (auto simp: upsertObserved_def Let_def split: if_splits)
qed

lemma store_step_batches:
  assumes "store_step st st'" "b \<in> set (st_batches st)"
  shows "\<exists>b' \<in> set (st_batches st'). batch_keeps b b'"
  using assms
proof (induction rule: store_step.induct)
  case (insert row st u st')
  then have "st_batches st' = st_batches st"
    using insertPending_batches by blast
  with insert show ?case by (metis batch_keeps_refl)
next
  case (seq tag st n st')
  then show ?case using nextIngestSeq_tables by (metis batch_keeps_refl)
next
  case (nonce nrow st u st')
  then show ?case using setNonce_tables by (metis batch_keeps_refl)
next
  case (submit keys ref st u st')
  then have "st_batches st' = st_batches st"
    by (auto elim: markSubmitted_Inr)
  with submit show ?case by (metis batch_keeps_refl)
next
  case (observe mrow st u st')
  then have "st_batches st' = st_batches st"
    using upsertObserved_batches by blast
  with observe show ?case by (metis batch_keeps_refl)
next
  case (requeue mrow st u st')
  then have "st_batches st' = st_batches st"
    using upsertObserved_batches by blast
  with requeue show ?case by (metis batch_keeps_refl)
next
  case (reorg chainId txHash invalidatedAt st u st')
  show ?case
    unfolding markReorged_Inr(2) [OF reorg(1)]
    by (rule batch_keeps_map [OF _ reorg(2)]) (simp add: batch_keeps_def)
next
  case (batch brow st u st')
  then show ?case by (rule upsertBatch_keeps)
next
  case (status chainId txHash contentTag bstatus opts st u st')
  let ?f = "\<lambda>b. if batch_key b = (chainId, txHash, contentTag) then b\<lparr>rb_status := bstatus,
          rb_blockNumber := set_opt (bu_blockNumber opts) (rb_blockNumber b),
          rb_txIndex := set_opt (bu_txIndex opts) (rb_txIndex b),
          rb_replacedByTxHash := set_opt (bu_replacedByTxHash opts) (rb_replacedByTxHash b),
          rb_invalidatedAt := set_opt (bu_invalidatedAt opts) (rb_invalidatedAt b)\<rparr> else b"
  have st': "st_batches st' = map ?f (st_batches st)"
    using status(1) by (auto simp: updateBatchStatus_def Let_def split: if_splits)
  show ?case
    unfolding st' by (rule batch_keeps_map [OF _ status(2)]) (simp add: batch_keeps_def)
qed (auto intro: bexI [of _ b])

section \<open>Nonce queries\<close>

lemma max_nonce_row_None: "max_nonce_row rs = None \<longleftrightarrow> rs = []"
  by (cases rs) (auto split: option.splits)

lemma max_nonce_row_max:
  "max_nonce_row rs = Some r \<Longrightarrow> r \<in> set rs \<and> (\<forall>q \<in> set rs. rm_nonce q \<le> rm_nonce r)"
proof (induction rs arbitrary: r)
  case (Cons a rs)
  show ?case
  proof (cases "max_nonce_row rs")
    case None
    then show ?thesis using Cons.prems by (simp add: max_nonce_row_None)
  next
    case (Some r')
    then show ?thesis
      using Cons.prems Cons.IH [OF Some] by (auto split: if_splits)
  qed
qed simp

definition live_nonce :: "store \<Rightarrow> string \<Rightarrow> int \<Rightarrow> bool" where
  "live_nonce st sender n \<longleftrightarrow> (\<exists>r \<in> set (st_messages st). rm_sender r = toLowerCase sender
     \<and> rm_status r \<noteq> Reorged \<and> encodeNonce n = Inr (rm_nonce r))"

lemma getMaxNonReorgedNonce_spec:
  assumes "store_inv st"
  shows "(getMaxNonReorgedNonce sender st = Inr None \<and> (\<forall>n. \<not> live_nonce st sender n))
    \<or> (\<exists>row. getMaxNonReorgedNonce sender st = Inr (Some row) \<and> live_nonce st sender (nr_lastNonce row)
          \<and> (\<forall>n. live_nonce st sender n \<longrightarrow> n \<le> nr_lastNonce row))"
proof -
  let ?rows = "filter (\<lambda>r. rm_sender r = toLowerCase sender \<and> rm_status r \<noteq> Reorged) (st_messages st)"
  show ?thesis
  proof (cases "max_nonce_row ?rows")
    case None
    then have "?rows = []" by (simp add: max_nonce_row_None)
    then have "\<not> live_nonce st sender n" for n
      by (auto simp: live_nonce_def filter_empty_conv)
    then show ?thesis using None by (simp add: getMaxNonReorgedNonce_def Let_def)
  next
    case (Some r)
    then have r: "r \<in> set ?rows" and le: "\<And>q. q \<in> set ?rows \<Longrightarrow> rm_nonce q \<le> rm_nonce r"
      using max_nonce_row_max [OF Some] by auto
    then have "nonce_text (rm_nonce r)"
      using assms by (auto simp: store_inv_def list_all_iff msg_ok_def)
    then obtain k where k: "decNonce (rm_nonce r) = Inr k" "encodeNonce k = Inr (rm_nonce r)"
      by (rule nonce_textE)
    have live: "live_nonce st sender k"
      using r k by (auto simp: live_nonce_def)
    have "n \<le> k" if lv: "live_nonce st sender n" for n
    proof -
      obtain q where "q \<in> set (st_messages st)" "rm_sender q = toLowerCase sender" "rm_status q \<noteq> Reorged"
        and e: "encodeNonce n = Inr (rm_nonce q)"
        using lv unfolding live_nonce_def by blast
      then have q: "q \<in> set ?rows" "encodeNonce n = Inr (rm_nonce q)"
        by simp_all
      then show ?thesis
        using le [OF q(1)] encodeNonce_le [OF q(2) k(2)] by simp
    qed
    then show ?thesis
      using Some k live by (simp add: getMaxNonReorgedNonce_def Let_def)
  qed
qed

section \<open>Transactions\<close>

lemma withTxn_from_eq:
  "left \<le> MAX_RETRIES \<Longrightarrow> withTxn_from (Suc left) conflict fn st =
     (if list_all conflict [MAX_RETRIES - left..<Suc MAX_RETRIES] then (Inl SerializationFailure, st)
      else case fn st of Inl e \<Rightarrow> (Inl e, st) | Inr (x, st') \<Rightarrow> (Inr x, st'))"
proof (induction left)
  case (Suc left)
  have "[MAX_RETRIES - Suc left..<Suc MAX_RETRIES] = (MAX_RETRIES - Suc left) # [MAX_RETRIES - left..<Suc MAX_RETRIES]"
    using Suc.prems by (simp add: upt_conv_Cons Suc_diff_Suc del: upt_Suc)
  then show ?case
    using Suc by (simp del: upt_Suc)
qed simp

section \<open>Properties\<close>

text \<open>
  A transaction is all or nothing and retries only serialization failures: it
  fails with one exactly when all six attempts conflict, otherwise its outcome is
  that of its body on the original store, and every failure leaves the store as it
  was.
\<close>

theorem withTxn_atomic:
  "withTxn conflict fn st =
     (if list_all conflict [0..<6] then (Inl SerializationFailure, st)
      else case fn st of Inl e \<Rightarrow> (Inl e, st) | Inr (x, st') \<Rightarrow> (Inr x, st'))"
  using withTxn_from_eq [of MAX_RETRIES conflict fn st] by (simp add: withTxn_def MAX_RETRIES_def del: upt_Suc)

definition sample_pending :: pending_row where
  "sample_pending = \<lparr>pr_contentTag = ''0xt'', pr_sender = ''0xA'', pr_nonce = 4, pr_contents = [1],
     pr_signature = [2], pr_messageHash = ''0xh'', pr_chainId = 1, pr_ingestedAt = 10, pr_ingestSeq = 1\<rparr>"

definition sample_text :: string where
  "sample_text = fixed_digits 20 4"

definition sample_store :: store where
  "sample_store = empty_store\<lparr>st_messages := [pending_raw sample_pending sample_text]\<rparr>"

lemma encode_4: "encodeNonce 4 = Inr sample_text"
  by (simp add: encodeNonce_Inr MAX_NONCE_def sample_text_def)

lemma sample_insert: "insertPending sample_pending empty_store = Inr ((), sample_store)"
proof -
  have "encNonce (pr_nonce sample_pending) = Inr sample_text"
    using encode_4 by (simp add: sample_pending_def)
  then show ?thesis
    by (simp add: insertPending_def Let_def msgs_at_def empty_store_def sample_store_def pending_raw_def del: encNonce_Inr)
qed

lemma sample_reachable: "store_step\<^sup>*\<^sup>* empty_store sample_store"
  by (rule r_into_rtranclp) (rule store_step.insert [OF sample_insert])

lemma sample_store_inv: "store_inv sample_store"
  using store_step_inv [OF store_step.insert [OF sample_insert] store_inv_empty] .

text \<open>
  C1. Every state the store can reach keeps its invariant: one row per (sender,
  nonce) and per (chain, transaction, tag), senders in lower case, nonces in their
  20-digit text form, and full ingest metadata on every pending row.
\<close>

theorem store_reachable_inv:
  assumes "store_step\<^sup>*\<^sup>* empty_store st"
  shows "store_inv st"
  using assms by (induction rule: rtranclp_induct) (auto intro: store_inv_empty store_step_inv)

theorem store_reachable_inv_witness: "store_inv sample_store"
  by (rule store_reachable_inv [OF sample_reachable])



text \<open>
  insertPending accepts a message exactly when no live row holds its (sender,
  nonce): a pending, submitted or confirmed row gives the duplicate error, a
  reorged row is reclaimed, and after success the pending query returns the row
  that was written.
\<close>

theorem insertPending_reclaims_only_reorged:
  assumes "store_inv st" "uint64 (pr_nonce row)"
  shows "(insertPending row st = Inl (DuplicateMessage (pr_sender row) (pr_nonce row))
        \<and> live_nonce st (pr_sender row) (pr_nonce row))
    \<or> (\<exists>st'. insertPending row st = Inr ((), st') \<and> \<not> live_nonce st (pr_sender row) (pr_nonce row)
        \<and> getPendingByKey (pr_sender row) (pr_nonce row) st'
            = Inr (Some (row\<lparr>pr_sender := toLowerCase (pr_sender row)\<rparr>)))"
proof -
  let ?s = "toLowerCase (pr_sender row)"
  obtain t where t: "encodeNonce (pr_nonce row) = Inr t"
    using assms(2) by (auto simp: encodeNonce_Inr uint64_def uint64_max_def MAX_NONCE_def)
  show ?thesis
  proof (cases "live_nonce st (pr_sender row) (pr_nonce row)")
    case True
    then show ?thesis
      using insertPending_live [OF assms(1) t] t by (auto simp: live_nonce_def)
  next
    case False
    then have "list_all (\<lambda>r. msg_key r = (?s, t) \<longrightarrow> rm_status r = Reorged) (st_messages st)"
      using t by (auto simp: live_nonce_def list_all_iff)
    then obtain st' where ins: "insertPending row st = Inr ((), st')"
      using insertPending_free [OF assms(1) t] by blast
    from ins assms(1) have "getPendingByKey (pr_sender row) (pr_nonce row) st'
        = Inr (Some (row\<lparr>pr_sender := ?s\<rparr>))"
    proof (cases rule: insertPending_Inr)
      case (1 t')
      then have [simp]: "t' = t" using t by simp
      have e: "encNonce (pr_nonce row) = Inr t" using t by simp
      have at: "msgs_at ?s t st' = [pending_raw row t]"
        by (simp add: 1(2) msgs_at_def pending_raw_def filter_empty_conv)
      have d: "decNonce t = Inr (pr_nonce row)" using t by simp
      show ?thesis
        unfolding getPendingByKey_def e ebind.simps at
        by (simp add: mapPending_def d pending_raw_def)
    qed
    with ins False show ?thesis by blast
  qed
qed

theorem insertPending_reclaims_only_reorged_witness:
  "insertPending sample_pending sample_store = Inl (DuplicateMessage ''0xA'' 4)"
proof -
  note inv = sample_store_inv
  have u: "uint64 (pr_nonce sample_pending)"
    by (simp add: sample_pending_def uint64_def uint64_max_def)
  have live: "live_nonce sample_store (pr_sender sample_pending) (pr_nonce sample_pending)"
    using encode_4 by (simp add: live_nonce_def sample_store_def pending_raw_def sample_pending_def)
  show ?thesis
    using insertPending_reclaims_only_reorged [OF inv u] live by (simp add: sample_pending_def)
qed

text \<open>
  markSubmitted is exact: when it succeeds the keys are distinct, each of them
  had a pending row, those rows and no others become submitted with the given
  batch reference, and nothing else in the store changes.
\<close>

theorem markSubmitted_exact:
  assumes "store_inv st" "markSubmitted keys ref st = Inr (u, st')"
  shows "\<exists>tuples. mapE key_text keys = Inr tuples \<and> distinct tuples
    \<and> set tuples \<subseteq> msg_key ` {r \<in> set (st_messages st). rm_status r = Pending}
    \<and> st' = st\<lparr>st_messages := map (\<lambda>r. if rm_status r = Pending \<and> msg_key r \<in> set tuples
          then r\<lparr>rm_status := Submitted, rm_batchRef := Some ref\<rparr> else r) (st_messages st)\<rparr>"
  using assms(2)
proof (cases rule: markSubmitted_Inr)
  case (1 tuples)
  have "length tuples = length keys"
    using mapE_length [OF 1(1)] .
  then have "distinct tuples" "set tuples \<subseteq> msg_key ` set (filter (submit_hit tuples) (st_messages st))"
    using markSubmitted_counts [OF assms(1)] 1(2) by simp_all
  moreover have "set (filter (submit_hit tuples) (st_messages st)) \<subseteq> {r \<in> set (st_messages st). rm_status r = Pending}"
    by (auto simp: submit_hit_def)
  moreover have "submit_row tuples ref = (\<lambda>r. if rm_status r = Pending \<and> msg_key r \<in> set tuples
          then r\<lparr>rm_status := Submitted, rm_batchRef := Some ref\<rparr> else r)"
    by (auto simp: submit_row_def submit_hit_def)
  ultimately show ?thesis
    using 1(1,3) by (intro exI [of _ tuples]) (auto intro!: image_mono dest!: subsetD)
qed

theorem markSubmitted_exact_witness:
  "\<exists>st'. markSubmitted [(''0xA'', 4)] ''0xtx'' sample_store = Inr ((), st')
     \<and> map rm_status (st_messages st') = [Submitted]"
proof -
  note inv = sample_store_inv
  have e: "encNonce 4 = Inr sample_text" using encode_4 by simp
  have "chunks_of MARK_CHUNK [(''0xA'', 4 :: int)] = [[(''0xA'', 4)]]"
    by (simp add: chunks_of.simps MARK_CHUNK_def)
  then obtain st' where st': "markSubmitted [(''0xA'', 4)] ''0xtx'' sample_store = Inr ((), st')"
    by (simp add: markSubmitted_def markSubmittedChunk_def e sample_store_def pending_raw_def submit_hit_def
        sample_pending_def Let_def del: encNonce_Inr)
  have k: "mapE key_text [(''0xA'', 4)] = Inr [(toLowerCase ''0xA'', sample_text)]"
    by (simp add: key_text_def e del: encNonce_Inr)
  from markSubmitted_exact [OF inv st'] obtain ts where ts: "mapE key_text [(''0xA'', 4)] = Inr ts"
    and eq: "st' = sample_store\<lparr>st_messages :=
      map (\<lambda>r. if rm_status r = Pending \<and> msg_key r \<in> set ts
          then r\<lparr>rm_status := Submitted, rm_batchRef := Some ''0xtx''\<rparr> else r) (st_messages sample_store)\<rparr>"
    by (elim exE conjE)
  have "ts = [(toLowerCase ''0xA'', sample_text)]"
    using ts k by simp
  then have "map rm_status (st_messages st') = [Submitted]"
    by (simp add: eq sample_store_def pending_raw_def sample_pending_def)
  with st' show ?thesis by (intro exI conjI)
qed

text \<open>
  The nonce fallback query answers with numbers although it orders text: it
  returns nothing exactly when the sender has no live row, and otherwise the
  largest nonce among the sender's live rows.
\<close>

theorem getMaxNonReorgedNonce_is_maximum:
  assumes "store_inv st"
  shows "(getMaxNonReorgedNonce sender st = Inr None \<and> (\<forall>n. \<not> live_nonce st sender n))
    \<or> (\<exists>row. getMaxNonReorgedNonce sender st = Inr (Some row) \<and> live_nonce st sender (nr_lastNonce row)
          \<and> (\<forall>n. live_nonce st sender n \<longrightarrow> n \<le> nr_lastNonce row))"
  using getMaxNonReorgedNonce_spec [OF assms] .

theorem getMaxNonReorgedNonce_is_maximum_witness:
  "\<exists>row. getMaxNonReorgedNonce ''0xA'' sample_store = Inr (Some row)"
proof -
  note inv = sample_store_inv
  have "live_nonce sample_store ''0xA'' 4"
    using encode_4 by (simp add: live_nonce_def sample_store_def pending_raw_def sample_pending_def)
  then show ?thesis
    using getMaxNonReorgedNonce_is_maximum [OF inv, of "''0xA''"] by blast
qed

text \<open>
  No operation forgets what a batch row knows: a submission time, a submitter,
  an inclusion time or a message snapshot that is present stays present, so the
  Reader and the Poster can write the same row in any order.
\<close>

theorem batch_facts_kept:
  assumes "store_step\<^sup>*\<^sup>* st st'" "b \<in> set (st_batches st)"
  shows "\<exists>b' \<in> set (st_batches st'). batch_keeps b b'"
  using assms
proof (induction arbitrary: b rule: rtranclp_induct)
  case base
  then show ?case using batch_keeps_refl by blast
next
  case (step st1 st2)
  then show ?case using store_step_batches batch_keeps_trans by meson
qed

definition sample_batch :: batch_row where
  "sample_batch = \<lparr>br_txHash = ''0xtx'', br_chainId = 1, br_contentTag = ''0xt'', br_blobVersionedHash = ''0x01'',
     br_batchContentHash = ''0x01'', br_blockNumber = Some 5, br_txIndex = Some 0, br_status = BatchConfirmed,
     br_replacedByTxHash = None, br_submittedAt = Some 7, br_invalidatedAt = None, br_submitter = Some ''0xAB'',
     br_l1IncludedAt = None, br_messageSnapshot = []\<rparr>"

theorem batch_facts_kept_witness:
  "\<exists>st'. upsertBatch (sample_batch\<lparr>br_submittedAt := None\<rparr>) (empty_store\<lparr>st_batches := [raw_of_batch sample_batch []]\<rparr>) = Inr ((), st')
     \<and> (\<exists>b' \<in> set (st_batches st'). batch_keeps (raw_of_batch sample_batch []) b')"
proof -
  let ?st = "empty_store\<lparr>st_batches := [raw_of_batch sample_batch []]\<rparr>"
  obtain st' where st': "upsertBatch (sample_batch\<lparr>br_submittedAt := None\<rparr>) ?st = Inr ((), st')"
    by (simp add: upsertBatch_def Let_def encodeMessageSnapshot_def sample_batch_def raw_of_batch_def)
  then have "store_step\<^sup>*\<^sup>* ?st st'"
    by (auto intro: store_step.batch)
  then have "\<exists>b' \<in> set (st_batches st'). batch_keeps (raw_of_batch sample_batch []) b'"
    by (rule batch_facts_kept) simp
  with st' show ?thesis by blast
qed

end
