(* ===== verification/Workers.thy ===== *)
theory Workers
  imports StoreLife
begin

text \<open>
  What the programs that share the store have in common: a worker runs transactions and
  so moves the store along its lifecycle steps. The locale store_worker states that
  contract once; each component interprets it on its own tick. The lemmas here follow a
  confirmed slot, and a filled one, through any such run.
\<close>

text \<open>A hash function's error, thrown from inside a transaction callback.\<close>

definition lift_message :: "message_error + 'a \<Rightarrow> store_error + 'a" where
  "lift_message r = (case r of Inl e \<Rightarrow> Inl (CallbackThrow e) | Inr x \<Rightarrow> Inr x)"

section \<open>Runs of the store\<close>

abbreviation steps :: "store \<Rightarrow> store \<Rightarrow> bool" where
  "steps \<equiv> store_step\<^sup>*\<^sup>*"

lemma foldE_steps:
  assumes "foldE f xs st = Inr st'" and "\<And>x s s'. x \<in> set xs \<Longrightarrow> f x s = Inr s' \<Longrightarrow> steps s s'"
  shows "steps st st'"
proof (rule foldE_invariant [OF assms(1), of "steps st"])
  show "steps st s'" if "x \<in> set xs" "steps st s" "f x s = Inr s'" for x s s'
    using assms(2) [OF that(1,3)] that(2) by simp
qed simp

lemma withTxn_steps:
  assumes "withTxn conflict fn st = (r, st')" and "\<And>x s'. fn st = Inr (x, s') \<Longrightarrow> steps st s'"
  shows "steps st st'"
  using assms withTxn_from_eq [of MAX_RETRIES conflict fn st]
  by (auto simp: withTxn_def split: if_splits sum.splits)

lemma withTxn_same:
  assumes "withTxn conflict fn st = (r, st')" and "\<And>x s'. fn st = Inr (x, s') \<Longrightarrow> s' = st"
  shows "st' = st"
  using assms withTxn_from_eq [of MAX_RETRIES conflict fn st]
  by (auto simp: withTxn_def split: if_splits sum.splits)

lemma withTxn_Inr: "withTxn conflict fn st = (Inr x, st') \<Longrightarrow> fn st = Inr (x, st')"
  using withTxn_from_eq [of MAX_RETRIES conflict fn st]
  by (auto simp: withTxn_def split: if_splits sum.splits)

lemma withTxn_ok:
  assumes "k \<le> MAX_RETRIES" "\<not> conflict k" "fn st = Inr (x, s)"
  shows "withTxn conflict fn st = (Inr x, s)"
proof -
  have "\<not> list_all conflict [0..<Suc MAX_RETRIES]"
    using assms(1,2) unfolding list_all_iff by (metis atLeastLessThan_upt atLeastLessThan_iff le0 le_imp_less_Suc)
  then show ?thesis
    using assms(3) withTxn_from_eq [of MAX_RETRIES conflict fn st] by (simp add: withTxn_def)
qed

lemma withTxn_Inl: "withTxn conflict fn st = (Inl e, st') \<Longrightarrow> st' = st"
  using withTxn_from_eq [of MAX_RETRIES conflict fn st]
  by (auto simp: withTxn_def split: if_splits sum.splits)

lemma steps_inv: "steps st st' \<Longrightarrow> store_inv st \<Longrightarrow> store_inv st'"
  by (induction rule: rtranclp_induct) (auto intro: store_step_inv)

lemma steps_key: "steps st st' \<Longrightarrow> store_inv st \<Longrightarrow> k \<in> msg_key ` set (st_messages st) \<Longrightarrow> k \<in> msg_key ` set (st_messages st')"
proof (induction rule: rtranclp_induct)
  case (step y z)
  then obtain r where "r \<in> set (st_messages y)" "msg_key r = k"
    by blast
  moreover have "store_inv y"
    using step.prems(1) step.hyps(1) steps_inv by blast
  ultimately obtain r' where "r' \<in> set (st_messages z)" "slot_next r r'"
    using store_step_slot [OF step.hyps(2)] by blast
  then show ?case
    using \<open>msg_key r = k\<close> by (intro image_eqI [of _ _ r']) (simp_all add: slot_next_def)
qed simp

lemma steps_reachable: "steps empty_store st \<Longrightarrow> store_inv st"
  using steps_inv [OF _ store_inv_empty] by blast

section \<open>Confirmed slots\<close>

lemma foldE_reaches:
  assumes "foldE f xs s = Inr s'" "x \<in> set xs" "I s"
    and "\<And>y s s'. y \<in> set xs \<Longrightarrow> I s \<Longrightarrow> f y s = Inr s' \<Longrightarrow> I s'"
    and "\<And>s s'. I s \<Longrightarrow> f x s = Inr s' \<Longrightarrow> Q s'"
    and "\<And>y s s'. y \<in> set xs \<Longrightarrow> I s \<Longrightarrow> Q s \<Longrightarrow> f y s = Inr s' \<Longrightarrow> Q s'"
  shows "Q s'"
proof -
  obtain us vs where xs: "xs = us @ x # vs"
    using assms(2) by (meson split_list)
  then obtain s1 s2 where s: "foldE f us s = Inr s1" "f x s1 = Inr s2" "foldE f vs s2 = Inr s'"
    using assms(1) by (auto simp: foldE_append)
  have "I s1"
    by (rule foldE_invariant [where I = I, OF s(1) assms(3)]) (rule assms(4), simp_all add: xs)
  then have "I s2 \<and> Q s2"
    using assms(4) [of x s1 s2] assms(5) s(2) xs by simp
  then have "I s' \<and> Q s'"
    by (rule foldE_invariant [where I = "\<lambda>s. I s \<and> Q s", OF s(3)]) (use assms(4,6) xs in \<open>simp, blast\<close>)
  then show ?thesis ..
qed

definition confirmed_at :: "string \<times> string \<Rightarrow> string \<Rightarrow> store \<Rightarrow> bool" where
  "confirmed_at k h st \<longleftrightarrow> (\<exists>r \<in> set (st_messages st). msg_key r = k \<and> rm_status r = Confirmed \<and> rm_messageHash r = h)"

lemma upsertObserved_confirmed_at:
  assumes "upsertObserved row st = Inr (u, st')" "store_inv st" "confirmed_at k h st"
  shows "confirmed_at k h st'"
  using assms(1,2)
proof (cases rule: upsertObserved_Inr)
  case (fresh t)
  then show ?thesis using assms(3) by (auto simp: confirmed_at_def)
next
  case (kept r t)
  then show ?thesis using assms(3) by simp
next
  case (replaced r t)
  obtain q where q: "q \<in> set (st_messages st)" "msg_key q = k" "rm_status q = Confirmed" "rm_messageHash q = h"
    using assms(3) by (auto simp: confirmed_at_def)
  have "msg_key q \<noteq> (toLowerCase (mr_sender row), t)"
    using q(1,3) replaced(2,3,5) assms(2) distinct_keys_unique by (metis store_inv_def)
  then show ?thesis
    using q unfolding confirmed_at_def replaced(6) by (intro bexI [of _ q]) (auto intro!: image_eqI [where x = q])
qed

lemma getBySenderNonce_None:
  "getBySenderNonce sender nonce st = Inr None \<Longrightarrow> encodeNonce nonce = Inr t \<Longrightarrow>
   (toLowerCase sender, t) \<notin> msg_key ` set (st_messages st)"
  by (auto simp: getBySenderNonce_def first_message_def msgs_at_def filter_empty_conv split: list.splits)

lemma upsertObserved_makes_confirmed:
  assumes "upsertObserved row st = Inr (u, st')" "store_inv st" "mr_status row = Confirmed" "encodeNonce (mr_nonce row) = Inr t"
  shows "confirmed_at (toLowerCase (mr_sender row), t) (mr_messageHash row) st'"
  using assms(1,2)
proof (cases rule: upsertObserved_Inr)
  case (fresh t')
  then show ?thesis using assms(3,4) by (auto simp: confirmed_at_def raw_of_row_def)
next
  case (kept r t')
  then show ?thesis using assms(3,4) by (auto simp: confirmed_at_def)
next
  case (replaced r t')
  then have "raw_of_row row (toLowerCase (mr_sender row)) t \<in> set (st_messages st')"
    using assms(4) by (auto intro!: image_eqI [where x = r])
  then show ?thesis
    unfolding confirmed_at_def by (rule bexI [rotated]) (simp add: raw_of_row_def assms(3))
qed

text \<open>What holds while a pack is recorded: the invariant, and that the slot is filled.\<close>

definition slot_filled :: "string \<times> string \<Rightarrow> store \<Rightarrow> bool" where
  "slot_filled k st \<longleftrightarrow> store_inv st \<and> k \<in> msg_key ` set (st_messages st)"

lemma slot_filled_steps: "steps st st' \<Longrightarrow> slot_filled k st \<Longrightarrow> slot_filled k st'"
  unfolding slot_filled_def using steps_inv steps_key by blast


lemma steps_batches: "steps st st' \<Longrightarrow> b \<in> set (st_batches st) \<Longrightarrow> \<exists>b' \<in> set (st_batches st'). batch_keeps b b'"
proof (induction arbitrary: b rule: rtranclp_induct)
  case base
  then show ?case using batch_keeps_refl by blast
next
  case (step st1 st2)
  then show ?case using store_step_batches batch_keeps_trans by meson
qed

section \<open>Workers\<close>

text \<open>
  A worker: run a st st' says that, with the inputs a (its configuration and what the
  chain, the network and the database answer), it can take the store from st to st'.
\<close>

locale store_worker =
  fixes run :: "'a \<Rightarrow> store \<Rightarrow> store \<Rightarrow> bool"
  assumes run_steps: "run a st st' \<Longrightarrow> steps st st'"
begin

lemma keeps_inv: "run a st st' \<Longrightarrow> store_inv st \<Longrightarrow> store_inv st'"
  using run_steps steps_inv by blast

lemma keeps_reachable: "run a st st' \<Longrightarrow> steps empty_store st \<Longrightarrow> steps empty_store st'"
  using run_steps by (blast intro: rtranclp_trans)

lemma keeps_slots: "run a st st' \<Longrightarrow> slot_filled k st \<Longrightarrow> slot_filled k st'"
  using run_steps slot_filled_steps by blast

lemma keeps_batches:
  assumes "run a st st'" "b \<in> set (st_batches st)"
  shows "\<exists>b' \<in> set (st_batches st'). batch_keeps b b'"
  using steps_batches [OF run_steps [OF assms(1)] assms(2)] .

end

end
