(* ===== verification/ProcessBatch.thy ===== *)
theory ProcessBatch
  imports Decode LogScan Workers
begin

text \<open>
  The Reader's processing of one registered batch
  (packages/bam-reader/src/loop/process-batch.ts): range check, fetch, slice, decode,
  per-message verification, and the transaction that writes the batch row and its verified
  messages. The structured log lines are not modelled; the counters are. conflict says
  which attempts of the write transaction the database aborts, recounted how many
  conflicts those attempts had counted before they failed.
\<close>

record reader_counters =
  ct_decoded :: nat
  ct_skippedDecode :: nat
  ct_skippedVerify :: nat
  ct_skippedConflict :: nat
  ct_undecodable :: nat
  ct_skippedRange :: nat

definition emptyCounters :: reader_counters where
  "emptyCounters = \<lparr>ct_decoded = 0, ct_skippedDecode = 0, ct_skippedVerify = 0, ct_skippedConflict = 0,
     ct_undecodable = 0, ct_skippedRange = 0\<rparr>"

datatype batch_outcome = Decoded | Unreachable | DecodeFailed | RangeRejected

record process_result =
  ps_txIndex :: nat
  ps_blockNumber :: nat
  ps_outcome :: batch_outcome
  ps_messagesWritten :: nat

datatype process_error =
    ProcessStore store_error
  | ProcessHash message_error
  | ProcessExtract extract_error

record process_env =
  pe_keccak :: "bytes \<Rightarrow> bytes"
  pe_chainId :: nat
  pe_fetch :: fetch_env
  pe_fz :: fzstd
  pe_decoder :: "decoder_client option"
  pe_registry :: "registry_client option"
  pe_ecdsa :: ecdsa

record verified_entry =
  ve_message :: bam_message
  ve_signature :: bytes
  ve_index :: nat
  ve_hash :: string

definition process_result_of :: "batch_event \<Rightarrow> batch_outcome \<Rightarrow> nat \<Rightarrow> process_result" where
  "process_result_of ev outcome written =
     \<lparr>ps_txIndex = ev_txIndex ev, ps_blockNumber = ev_blockNumber ev, ps_outcome = outcome, ps_messagesWritten = written\<rparr>"

definition baseBatch :: "process_env \<Rightarrow> batch_event \<Rightarrow> nat option \<Rightarrow> batch_row" where
  "baseBatch env ev l1IncludedAt =
     \<lparr>br_txHash = ev_txHash ev, br_chainId = pe_chainId env, br_contentTag = ev_contentTag ev,
      br_blobVersionedHash = ev_versionedHash ev, br_batchContentHash = ev_versionedHash ev,
      br_blockNumber = Some (ev_blockNumber ev), br_txIndex = Some (ev_txIndex ev), br_status = BatchConfirmed,
      br_replacedByTxHash = None, br_submittedAt = None, br_invalidatedAt = None, br_submitter = Some (ev_submitter ev),
      br_l1IncludedAt = l1IncludedAt, br_messageSnapshot = []\<rparr>"

definition verifyEntry :: "process_env \<Rightarrow> batch_event \<Rightarrow> bam_message \<Rightarrow> bytes \<Rightarrow> bool" where
  "verifyEntry env ev m sig =
     fst (verifyMessage (pe_ecdsa env) (if isZeroAddress (ev_signatureRegistry ev) then None else pe_registry env)
       (ev_signatureRegistry ev) m (ev_contentTag ev) sig (pe_chainId env))"

primrec verifyLoop ::
  "process_env \<Rightarrow> batch_event \<Rightarrow> (nat \<times> bam_message \<times> bytes) list \<Rightarrow> reader_counters
     \<Rightarrow> (message_error + verified_entry list) \<times> reader_counters" where
  "verifyLoop env ev [] c = (Inr [], c)"
| "verifyLoop env ev (x # xs) c =
     (let (i, m, sig) = x in
      case computeMessageHashForMessage (pe_keccak env) m (ev_contentTag ev) of
        Inl e \<Rightarrow> (Inl e, c)
      | Inr messageHash \<Rightarrow>
          if \<not> verifyEntry env ev m sig then verifyLoop env ev xs (c\<lparr>ct_skippedVerify := ct_skippedVerify c + 1\<rparr>)
          else case verifyLoop env ev xs c of
            (Inl e, c') \<Rightarrow> (Inl e, c')
          | (Inr vs, c') \<Rightarrow>
              (Inr (\<lparr>ve_message = m, ve_signature = sig, ve_index = i, ve_hash = messageHash\<rparr> # vs), c'))"

definition entry_id :: "process_env \<Rightarrow> batch_event \<Rightarrow> verified_entry \<Rightarrow> message_error + string" where
  "entry_id env ev v =
     computeMessageId (pe_keccak env) (m_sender (ve_message v)) (ev_contentTag ev) (m_nonce (ve_message v)) (ev_versionedHash ev)"

definition entrySnapshot :: "process_env \<Rightarrow> batch_event \<Rightarrow> verified_entry \<Rightarrow> message_error + snapshot_entry" where
  "entrySnapshot env ev v =
     ebind (entry_id env ev v) (\<lambda>mid.
       Inr \<lparr>se_sender = m_sender (ve_message v), se_nonce = m_nonce (ve_message v), se_messageId = mid,
            se_messageIndex = ve_index v, se_messageHash = ve_hash v\<rparr>)"

definition observedRow :: "process_env \<Rightarrow> batch_event \<Rightarrow> verified_entry \<Rightarrow> string \<Rightarrow> message_row" where
  "observedRow env ev v messageId =
     \<lparr>mr_messageId = Some messageId, mr_sender = m_sender (ve_message v), mr_nonce = m_nonce (ve_message v),
      mr_contentTag = ev_contentTag ev, mr_contents = m_contents (ve_message v), mr_signature = ve_signature v,
      mr_messageHash = ve_hash v, mr_status = Confirmed, mr_batchRef = Some (ev_txHash ev),
      mr_chainId = Some (pe_chainId env), mr_ingestedAt = None, mr_ingestSeq = None,
      mr_blockNumber = Some (ev_blockNumber ev), mr_txIndex = Some (ev_txIndex ev), mr_messageIndex = Some (ve_index v)\<rparr>"

text \<open>The loop of upserts, with the numbers written and in conflict so far.\<close>

primrec observeAll ::
  "process_env \<Rightarrow> batch_event \<Rightarrow> verified_entry list \<Rightarrow> nat \<times> nat \<Rightarrow> store \<Rightarrow> store_error + ((nat \<times> nat) \<times> store)" where
  "observeAll env ev [] counts st = Inr (counts, st)"
| "observeAll env ev (v # vs) counts st =
     ebind (lift_message (entry_id env ev v)) (\<lambda>mid.
       case upsertObserved (observedRow env ev v mid) st of
         Inr (_, st') \<Rightarrow> observeAll env ev vs (fst counts + 1, snd counts) st'
       | Inl e \<Rightarrow> if e = ObservedHashConflict then observeAll env ev vs (fst counts, snd counts + 1) st else Inl e)"

definition writeBatch ::
  "process_env \<Rightarrow> batch_event \<Rightarrow> nat option \<Rightarrow> snapshot_entry list \<Rightarrow> verified_entry list \<Rightarrow> (nat \<times> nat) txn" where
  "writeBatch env ev l1IncludedAt snapshot vs st =
     ebind (upsertBatch ((baseBatch env ev l1IncludedAt)\<lparr>br_messageSnapshot := snapshot\<rparr>) st) (\<lambda>(_, st1).
       observeAll env ev vs (0, 0) st1)"

definition writeEmptyBatch ::
  "process_env \<Rightarrow> batch_event \<Rightarrow> nat option \<Rightarrow> (nat \<Rightarrow> bool) \<Rightarrow> batch_outcome \<Rightarrow> store
     \<Rightarrow> (process_error + process_result) \<times> store" where
  "writeEmptyBatch env ev l1IncludedAt conflict outcome st =
     (case withTxn conflict (upsertBatch (baseBatch env ev l1IncludedAt)) st of
        (Inl e, st') \<Rightarrow> (Inl (ProcessStore e), st')
      | (Inr _, st') \<Rightarrow> (Inr (process_result_of ev outcome 0), st'))"

text \<open>Verification and the write, once the segment is decoded.\<close>

definition recordDecoded ::
  "process_env \<Rightarrow> batch_event \<Rightarrow> nat option \<Rightarrow> (nat \<Rightarrow> bool) \<Rightarrow> nat \<Rightarrow> bam_message list \<Rightarrow> bytes list \<Rightarrow> store \<Rightarrow> reader_counters
     \<Rightarrow> (process_error + process_result) \<times> store \<times> reader_counters" where
  "recordDecoded env ev l1IncludedAt conflict recounted ms ss st c =
     (case verifyLoop env ev (enumerate 0 (zip ms ss)) c of
        (Inl e, c1) \<Rightarrow> (Inl (ProcessHash e), st, c1)
      | (Inr vs, c1) \<Rightarrow>
          (case mapE (entrySnapshot env ev) vs of
             Inl e \<Rightarrow> (Inl (ProcessHash e), st, c1)
           | Inr snapshot \<Rightarrow>
               (case withTxn conflict (writeBatch env ev l1IncludedAt snapshot vs) st of
                  (Inl e, st1) \<Rightarrow> (Inl (ProcessStore e), st1, c1\<lparr>ct_skippedConflict := ct_skippedConflict c1 + recounted\<rparr>)
                | (Inr (written, conflicts), st1) \<Rightarrow>
                    (Inr (process_result_of ev Decoded written), st1,
                     c1\<lparr>ct_skippedConflict := ct_skippedConflict c1 + recounted + conflicts,
                        ct_decoded := ct_decoded c1 + written\<rparr>))))"

definition processBatch ::
  "process_env \<Rightarrow> 's blob_sources \<Rightarrow> batch_event \<Rightarrow> string option \<Rightarrow> nat option \<Rightarrow> (nat \<Rightarrow> bool) \<Rightarrow> nat
     \<Rightarrow> 's \<Rightarrow> store \<Rightarrow> reader_counters \<Rightarrow> (process_error + process_result) \<times> 's \<times> store \<times> reader_counters" where
  "processBatch env sources ev parentRoot l1IncludedAt conflict recounted arch st c =
     (case validateSegmentRange (ev_startFE ev) (ev_endFE ev) of
        Inl _ \<Rightarrow> (Inr (process_result_of ev RangeRejected 0), arch, st, c\<lparr>ct_skippedRange := ct_skippedRange c + 1\<rparr>)
      | Inr _ \<Rightarrow>
          (let (fetched, arch', _) = fetchBlob (pe_fetch env) sources (ev_versionedHash ev) parentRoot arch;
               blobBytes = (case fetched of Inl _ \<Rightarrow> None | Inr b \<Rightarrow> b)
           in case blobBytes of
             None \<Rightarrow>
               (let (r, st') = writeEmptyBatch env ev l1IncludedAt conflict Unreachable st
                in (r, arch', st', c\<lparr>ct_undecodable := ct_undecodable c + 1\<rparr>))
           | Some blob \<Rightarrow>
               (case extractSegmentBytes blob (ev_startFE ev) (ev_endFE ev) of
                  Inl e \<Rightarrow> (Inl (ProcessExtract e), arch', st, c)
                | Inr usableBytes \<Rightarrow>
                    (case decode (pe_fz env) (if isZeroAddress (ev_decoder ev) then None else pe_decoder env) None
                            (ev_decoder ev) usableBytes of
                       Inl _ \<Rightarrow>
                         (let (r, st') = writeEmptyBatch env ev l1IncludedAt conflict DecodeFailed st
                          in (r, arch', st', c\<lparr>ct_skippedDecode := ct_skippedDecode c + 1\<rparr>))
                     | Inr (ms, ss) \<Rightarrow>
                         (let (r, st', c') = recordDecoded env ev l1IncludedAt conflict recounted ms ss st c
                          in (r, arch', st', c'))))))"

section \<open>What is written\<close>

lemma verifyLoop_Cons:
  assumes "verifyLoop env ev ((i, m, sig) # xs) c = (Inr vs, c')"
  obtains (dropped) "\<not> verifyEntry env ev m sig"
      "verifyLoop env ev xs (c\<lparr>ct_skippedVerify := ct_skippedVerify c + 1\<rparr>) = (Inr vs, c')"
  | (kept) h ws where "verifyEntry env ev m sig"
      "computeMessageHashForMessage (pe_keccak env) m (ev_contentTag ev) = Inr h"
      "verifyLoop env ev xs c = (Inr ws, c')"
      "vs = \<lparr>ve_message = m, ve_signature = sig, ve_index = i, ve_hash = h\<rparr> # ws"
proof (cases "verifyEntry env ev m sig")
  case True
  then show thesis
    using assms kept by (auto split: sum.split_asm prod.split_asm)
next
  case False
  then show thesis
    using assms dropped by (auto split: sum.split_asm)
qed

lemma verifyLoop_sound:
  "verifyLoop env ev xs c = (Inr vs, c') \<Longrightarrow> v \<in> set vs \<Longrightarrow>
     (ve_index v, ve_message v, ve_signature v) \<in> set xs \<and> verifyEntry env ev (ve_message v) (ve_signature v)
       \<and> computeMessageHashForMessage (pe_keccak env) (ve_message v) (ev_contentTag ev) = Inr (ve_hash v)"
proof (induction xs arbitrary: c vs)
  case (Cons x xs)
  obtain i m sig where x: "x = (i, m, sig)"
    by (cases x) auto
  from Cons.prems(1) [unfolded x] show ?case
  proof (cases rule: verifyLoop_Cons)
    case dropped
    then show ?thesis
      using Cons.IH [OF dropped(2) Cons.prems(2)] by simp
  next
    case (kept h ws)
    then show ?thesis
      using Cons.IH [OF kept(3)] Cons.prems(2) by (cases "v \<in> set ws") (simp_all add: x)
  qed
qed simp

lemma verifyLoop_counts:
  "verifyLoop env ev xs c = (Inr vs, c') \<Longrightarrow>
     length vs \<le> length xs \<and> c' = c\<lparr>ct_skippedVerify := ct_skippedVerify c + (length xs - length vs)\<rparr>"
proof (induction xs arbitrary: c vs)
  case (Cons x xs)
  obtain i m sig where x: "x = (i, m, sig)"
    by (cases x) auto
  from Cons.prems(1) [unfolded x] show ?case
  proof (cases rule: verifyLoop_Cons)
    case dropped
    then show ?thesis
      using Cons.IH [OF dropped(2)] by (simp add: Suc_diff_le)
  next
    case (kept h ws)
    then show ?thesis
      using Cons.IH [OF kept(3)] by simp
  qed
qed simp

text \<open>A row the loop of upserts leaves is an old one or the row of a verified entry.\<close>

lemma upsertObserved_rows:
  assumes "upsertObserved row st = Inr (u, st')" "store_inv st" "r \<in> set (st_messages st')"
  shows "r \<in> set (st_messages st) \<or> (\<exists>t. encNonce (mr_nonce row) = Inr t \<and> r = raw_of_row row (toLowerCase (mr_sender row)) t)"
  using assms(1,2)
proof (cases rule: upsertObserved_Inr)
  case (fresh t)
  then show ?thesis using assms(3) by (auto simp: encNonce_def)
next
  case (kept q t)
  then show ?thesis using assms(3) by simp
next
  case (replaced q t)
  then show ?thesis using assms(3) by (auto simp: encNonce_def)
qed



lemma observe_first:
  assumes "observeAll env ev (v # vs) counts st = Inr (counts', st')"
  obtains (conflict) mid where "entry_id env ev v = Inr mid" "upsertObserved (observedRow env ev v mid) st = Inl ObservedHashConflict"
      "observeAll env ev vs (fst counts, snd counts + 1) st = Inr (counts', st')"
  | (written) mid st1 where "entry_id env ev v = Inr mid" "upsertObserved (observedRow env ev v mid) st = Inr ((), st1)"
      "store_step st st1" "observeAll env ev vs (fst counts + 1, snd counts) st1 = Inr (counts', st')"
proof -
  obtain mid where mid: "entry_id env ev v = Inr mid"
    using assms by (auto simp: lift_message_def split: sum.split_asm)
  show thesis
  proof (cases "upsertObserved (observedRow env ev v mid) st")
    case (Inl e)
    then show thesis
      using assms mid by (intro conflict) (auto simp: lift_message_def split: if_split_asm)
  next
    case (Inr p)
    then obtain st1 where st1: "upsertObserved (observedRow env ev v mid) st = Inr ((), st1)"
      by (cases p) auto
    then have "store_step st st1"
      by (rule store_step.observe) (simp add: observedRow_def)
    then show thesis
      using assms mid st1 by (intro written) (simp_all add: lift_message_def)
  qed
qed

lemma observeAll_rows:
  "observeAll env ev vs counts st = Inr (counts', st') \<Longrightarrow> store_inv st \<Longrightarrow> r \<in> set (st_messages st') \<Longrightarrow>
     r \<in> set (st_messages st) \<or> (\<exists>v \<in> set vs. \<exists>mid t. entry_id env ev v = Inr mid \<and> encNonce (m_nonce (ve_message v)) = Inr t
        \<and> r = raw_of_row (observedRow env ev v mid) (toLowerCase (m_sender (ve_message v))) t)"
proof (induction vs arbitrary: counts st)
  case (Cons v vs)
  from Cons.prems(1) show ?case
  proof (cases rule: observe_first)
    case (conflict mid)
    then show ?thesis
      using Cons.IH [OF conflict(3) Cons.prems(2,3)] by auto
  next
    case (written mid st1)
    have "store_inv st1"
      using written(3) Cons.prems(2) by (rule store_step_inv)
    from Cons.IH [OF written(4) this Cons.prems(3)] show ?thesis
      using upsertObserved_rows [OF written(2) Cons.prems(2)] written(1) by (auto simp: observedRow_def)
  qed
qed simp

section \<open>The ways processing ends\<close>

lemma observeAll_steps: "observeAll env ev vs counts st = Inr (counts', st') \<Longrightarrow> steps st st'"
proof (induction vs arbitrary: counts st)
  case (Cons v vs)
  from Cons.prems show ?case
    by (cases rule: observe_first) (auto dest: Cons.IH intro: converse_rtranclp_into_rtranclp)
qed simp

lemma writeBatch_parts:
  assumes "writeBatch env ev l1 snapshot vs st = Inr (counts, st')"
  obtains st1 where "upsertBatch ((baseBatch env ev l1)\<lparr>br_messageSnapshot := snapshot\<rparr>) st = Inr ((), st1)"
    "observeAll env ev vs (0, 0) st1 = Inr (counts, st')"
  using assms by (auto simp: writeBatch_def)

lemma writeBatch_steps: "writeBatch env ev l1 snapshot vs st = Inr (counts, st') \<Longrightarrow> steps st st'"
  by (erule writeBatch_parts) (blast intro: store_step.batch observeAll_steps converse_rtranclp_into_rtranclp)

lemma writeEmptyBatch_steps: "writeEmptyBatch env ev l1 conflict outcome st = (r, st') \<Longrightarrow> steps st st'"
  using withTxn_steps [of conflict "upsertBatch (baseBatch env ev l1)" st] store_step.batch
  by (auto simp: writeEmptyBatch_def split: prod.split_asm sum.split_asm)

lemma recordDecoded_Inr:
  assumes "recordDecoded env ev l1 conflict recounted ms ss st c = (Inr res, st', c')"
  obtains vs c1 snapshot written conflicts where
    "verifyLoop env ev (enumerate 0 (zip ms ss)) c = (Inr vs, c1)" "mapE (entrySnapshot env ev) vs = Inr snapshot"
    "writeBatch env ev l1 snapshot vs st = Inr ((written, conflicts), st')" "res = process_result_of ev Decoded written"
    "c' = c1\<lparr>ct_skippedConflict := ct_skippedConflict c1 + recounted + conflicts, ct_decoded := ct_decoded c1 + written\<rparr>"
proof -
  obtain v c1 where v: "verifyLoop env ev (enumerate 0 (zip ms ss)) c = (v, c1)"
    by fastforce
  then obtain vs where vs: "v = Inr vs"
    using assms by (cases v) (simp_all add: recordDecoded_def)
  obtain snapshot where snap: "mapE (entrySnapshot env ev) vs = Inr snapshot"
    using assms v vs by (cases "mapE (entrySnapshot env ev) vs") (simp_all add: recordDecoded_def)
  obtain w st1 where w: "withTxn conflict (writeBatch env ev l1 snapshot vs) st = (w, st1)"
    by fastforce
  then obtain written conflicts where "w = Inr (written, conflicts)"
    using assms v vs snap by (cases w) (auto simp: recordDecoded_def)
  then show thesis
    using assms v vs snap w withTxn_Inr [of conflict "writeBatch env ev l1 snapshot vs" st]
    by (intro that [of vs c1 snapshot written conflicts]) (simp_all add: recordDecoded_def)
qed

lemma recordDecoded_Inl:
  "recordDecoded env ev l1 conflict recounted ms ss st c = (Inl e, st', c') \<Longrightarrow> st' = st"
  using withTxn_Inl by (auto simp: recordDecoded_def split: prod.split_asm sum.split_asm)

lemma recordDecoded_steps:
  assumes "recordDecoded env ev l1 conflict recounted ms ss st c = (r, st', c')"
  shows "steps st st'"
proof (cases r)
  case (Inl e)
  then show ?thesis
    using assms recordDecoded_Inl by blast
next
  case (Inr res)
  show ?thesis
    by (rule recordDecoded_Inr [OF assms [unfolded Inr]]) (rule writeBatch_steps)
qed

text \<open>The two ways processBatch writes: an empty batch row, or a decoded segment of an authentic blob.\<close>

lemma processBatch_cases:
  assumes "processBatch env sources ev parentRoot l1 conflict recounted arch st c = (r, arch', st', c')"
  obtains (unwritten) "st' = st" "\<And>res. r = Inr res \<Longrightarrow> res = process_result_of ev RangeRejected 0"
  | (empty) outcome where "writeEmptyBatch env ev l1 conflict outcome st = (r, st')" "outcome \<noteq> Decoded" "outcome \<noteq> RangeRejected"
  | (decoded) blob usable ms ss events where
      "fetchBlob (pe_fetch env) sources (ev_versionedHash ev) parentRoot arch = (Inr (Some blob), arch', events)"
      "extractSegmentBytes blob (ev_startFE ev) (ev_endFE ev) = Inr usable"
      "decode (pe_fz env) (if isZeroAddress (ev_decoder ev) then None else pe_decoder env) None (ev_decoder ev) usable = Inr (ms, ss)"
      "recordDecoded env ev l1 conflict recounted ms ss st c = (r, st', c')"
proof (cases "validateSegmentRange (ev_startFE ev) (ev_endFE ev)")
  case (Inl e)
  then show thesis
    using assms by (intro unwritten) (auto simp: processBatch_def)
next
  case (Inr u)
  obtain fetched a events where f: "fetchBlob (pe_fetch env) sources (ev_versionedHash ev) parentRoot arch = (fetched, a, events)"
    by (cases "fetchBlob (pe_fetch env) sources (ev_versionedHash ev) parentRoot arch") auto
  show thesis
  proof (cases "case fetched of Inl _ \<Rightarrow> None | Inr b \<Rightarrow> b")
    case None
    then show thesis
      using assms Inr f by (intro empty [of Unreachable]) (auto simp: processBatch_def split: prod.split_asm)
  next
    case (Some blob)
    then have fetched: "fetched = Inr (Some blob)"
      by (auto split: sum.split_asm)
    show thesis
    proof (cases "extractSegmentBytes blob (ev_startFE ev) (ev_endFE ev)")
      case (Inl e)
      then show thesis
        using assms Inr f fetched by (intro unwritten) (auto simp: processBatch_def)
    next
      case ext: (Inr usable)
      show thesis
      proof (cases "decode (pe_fz env) (if isZeroAddress (ev_decoder ev) then None else pe_decoder env) None (ev_decoder ev) usable")
        case (Inl e)
        then show thesis
          using assms Inr f fetched ext
          by (intro empty [of DecodeFailed]) (auto simp: processBatch_def split: prod.split_asm)
      next
        case dec: (Inr p)
        then obtain ms ss where p: "p = (ms, ss)"
          by (cases p)
        then show thesis
          using assms Inr f fetched ext dec
          by (intro decoded [of blob events usable ms ss]) (auto simp: processBatch_def split: prod.split_asm)
      qed
    qed
  qed
qed

lemma processBatch_steps:
  assumes "processBatch env sources ev parentRoot l1 conflict recounted arch st c = (r, arch', st', c')"
  shows "steps st st'"
  using assms
proof (cases rule: processBatch_cases)
  case (empty outcome)
  show ?thesis using empty(1) by (rule writeEmptyBatch_steps)
next
  case (decoded blob usable ms ss events)
  then show ?thesis by (intro recordDecoded_steps)
qed simp

interpretation reader_batch: store_worker
  "\<lambda>(env, sources, ev, parentRoot, l1, conflict, recounted, arch, c) st st'.
     \<exists>r arch' c'. processBatch env sources ev parentRoot l1 conflict recounted arch st c = (r, arch', st', c')"
  by unfold_locales (auto dest: processBatch_steps)


section \<open>Only verified messages of authentic blobs are written\<close>

text \<open>
  A stored row is endorsed by an event when the bytes of its message come from the event's
  blob: a blob with the event's versioned hash, sliced to the event's segment and decoded,
  holds at the row's index a message with the row's facts whose signature verifies.
\<close>

definition endorsed :: "process_env \<Rightarrow> batch_event \<Rightarrow> raw_message \<Rightarrow> bool" where
  "endorsed env ev row \<longleftrightarrow>
     (\<exists>blob usable ms ss i.
        recomputeVersionedHash (fe_hash (pe_fetch env)) blob = Inr (normaliseHash (ev_versionedHash ev))
      \<and> extractSegmentBytes blob (ev_startFE ev) (ev_endFE ev) = Inr usable
      \<and> decode (pe_fz env) (if isZeroAddress (ev_decoder ev) then None else pe_decoder env) None (ev_decoder ev) usable
          = Inr (ms, ss)
      \<and> i < length ms \<and> i < length ss \<and> verifyEntry env ev (ms ! i) (ss ! i)
      \<and> computeMessageHashForMessage (pe_keccak env) (ms ! i) (ev_contentTag ev) = Inr (rm_messageHash row)
      \<and> rm_sender row = toLowerCase (m_sender (ms ! i)) \<and> encodeNonce (m_nonce (ms ! i)) = Inr (rm_nonce row)
      \<and> rm_contents row = m_contents (ms ! i) \<and> rm_signature row = ss ! i \<and> rm_contentTag row = ev_contentTag ev
      \<and> rm_status row = Confirmed \<and> rm_batchRef row = Some (ev_txHash ev) \<and> rm_messageIndex row = Some i)"

lemma recordDecoded_rows:
  assumes "recordDecoded env ev l1 conflict recounted ms ss st c = (r, st', c')" "store_inv st"
    and "row \<in> set (st_messages st')" "row \<notin> set (st_messages st)"
  obtains i mid h t where "i < length ms" "i < length ss" "verifyEntry env ev (ms ! i) (ss ! i)"
    "computeMessageHashForMessage (pe_keccak env) (ms ! i) (ev_contentTag ev) = Inr h"
    "encodeNonce (m_nonce (ms ! i)) = Inr t"
    "row = raw_of_row (observedRow env ev \<lparr>ve_message = ms ! i, ve_signature = ss ! i, ve_index = i, ve_hash = h\<rparr> mid)
       (toLowerCase (m_sender (ms ! i))) t"
proof (cases r)
  case (Inl e)
  then show thesis
    using assms recordDecoded_Inl by blast
next
  case (Inr res)
  obtain vs c1 snapshot written conflicts where
      v: "verifyLoop env ev (enumerate 0 (zip ms ss)) c = (Inr vs, c1)"
    and w: "writeBatch env ev l1 snapshot vs st = Inr ((written, conflicts), st')"
    using recordDecoded_Inr [OF assms(1) [unfolded Inr]] .
  obtain st1 where b: "upsertBatch ((baseBatch env ev l1)\<lparr>br_messageSnapshot := snapshot\<rparr>) st = Inr ((), st1)"
    and o: "observeAll env ev vs (0, 0) st1 = Inr ((written, conflicts), st')"
    using writeBatch_parts [OF w] .
  have same: "st_messages st1 = st_messages st"
    using b by (auto simp: upsertBatch_def Let_def split: if_splits)
  have "store_inv st1"
    using store_step.batch [OF b] assms(2) by (rule store_step_inv)
  from observeAll_rows [OF o this assms(3)] obtain v mid t where v': "v \<in> set vs"
    "encNonce (m_nonce (ve_message v)) = Inr t"
    "row = raw_of_row (observedRow env ev v mid) (toLowerCase (m_sender (ve_message v))) t"
    using assms(4) same by auto
  have sound: "(ve_index v, ve_message v, ve_signature v) \<in> set (enumerate 0 (zip ms ss))"
    "verifyEntry env ev (ve_message v) (ve_signature v)"
    "computeMessageHashForMessage (pe_keccak env) (ve_message v) (ev_contentTag ev) = Inr (ve_hash v)"
    using verifyLoop_sound [OF v v'(1)] by simp_all
  then have i: "ve_index v < length ms" "ve_index v < length ss" "ve_message v = ms ! ve_index v" "ve_signature v = ss ! ve_index v"
    by (auto simp: in_set_enumerate_eq)
  have "row = raw_of_row (observedRow env ev \<lparr>ve_message = ms ! ve_index v, ve_signature = ss ! ve_index v,
      ve_index = ve_index v, ve_hash = ve_hash v\<rparr> mid) (toLowerCase (m_sender (ms ! ve_index v))) t"
    using v'(3) i(3,4) by (simp add: observedRow_def raw_of_row_def)
  then show thesis
    using that [of "ve_index v" "ve_hash v" t mid] i sound(2,3) v'(2) by (simp add: encNonce_def split: sum.split_asm)
qed

lemma writeEmptyBatch_messages:
  "writeEmptyBatch env ev l1 conflict outcome st = (r, st') \<Longrightarrow> st_messages st' = st_messages st"
  using withTxn_from_eq [of MAX_RETRIES conflict "upsertBatch (baseBatch env ev l1)" st]
  by (auto simp: writeEmptyBatch_def withTxn_def upsertBatch_def Let_def split: if_split_asm sum.split_asm prod.split_asm)

text \<open>
  C6. The Reader writes only what the chain endorses: every message row that processing an event adds or changes holds a message of the event's own segment, cut from a blob with the event's versioned hash, with a signature that verified and the hash of exactly those contents, whatever the sources, the decoder contract and the database do.
\<close>

theorem processBatch_writes_only_endorsed:
  assumes "store_inv st"
    and "processBatch env (sources\<lparr>bs_archive := map_option (verifyingArchive (fe_hash (pe_fetch env))) inner\<rparr>) ev parentRoot
      l1 conflict recounted arch st c = (r, arch', st', c')"
    and "row \<in> set (st_messages st')" "row \<notin> set (st_messages st)"
  shows "endorsed env ev row"
  using assms(2)
proof (cases rule: processBatch_cases)
  case unwritten
  then show ?thesis
    using assms(3,4) by simp
next
  case (empty outcome)
  then show ?thesis
    using assms(3,4) writeEmptyBatch_messages by metis
next
  case (decoded blob usable ms ss events)
  have "recomputeVersionedHash (fe_hash (pe_fetch env)) blob = Inr (normaliseHash (ev_versionedHash ev))"
    using fetchBlob_facts [OF decoded(1)] by simp
  moreover obtain i mid h t where "i < length ms" "i < length ss" "verifyEntry env ev (ms ! i) (ss ! i)"
    "computeMessageHashForMessage (pe_keccak env) (ms ! i) (ev_contentTag ev) = Inr h"
    "encodeNonce (m_nonce (ms ! i)) = Inr t"
    "row = raw_of_row (observedRow env ev \<lparr>ve_message = ms ! i, ve_signature = ss ! i, ve_index = i, ve_hash = h\<rparr> mid)
       (toLowerCase (m_sender (ms ! i))) t"
    using recordDecoded_rows [OF decoded(4) assms(1,3,4)] .
  ultimately show ?thesis
    unfolding endorsed_def using decoded(2,3)
    by (intro exI [of _ blob] exI [of _ usable] exI [of _ ms] exI [of _ ss] exI [of _ i])
      (simp add: raw_of_row_def observedRow_def)
qed


section \<open>The counters account for every message\<close>

lemma observeAll_counts:
  "observeAll env ev vs counts st = Inr (counts', st') \<Longrightarrow> fst counts' + snd counts' = fst counts + snd counts + length vs"
proof (induction vs arbitrary: counts st)
  case (Cons v vs)
  from Cons.prems show ?case
    by (cases rule: observe_first) (auto dest: Cons.IH)
qed simp

lemma processBatch_counts:
  assumes "processBatch env sources ev parentRoot l1 conflict recounted arch st c = (Inr res, arch', st', c')"
  shows "case ps_outcome res of
      RangeRejected \<Rightarrow> c' = c\<lparr>ct_skippedRange := ct_skippedRange c + 1\<rparr> \<and> st' = st \<and> arch' = arch
    | Unreachable \<Rightarrow> c' = c\<lparr>ct_undecodable := ct_undecodable c + 1\<rparr> \<and> st_messages st' = st_messages st
    | DecodeFailed \<Rightarrow> c' = c\<lparr>ct_skippedDecode := ct_skippedDecode c + 1\<rparr> \<and> st_messages st' = st_messages st
    | Decoded \<Rightarrow> (\<exists>usable ms ss failed conflicts.
        decode (pe_fz env) (if isZeroAddress (ev_decoder ev) then None else pe_decoder env) None (ev_decoder ev) usable = Inr (ms, ss)
        \<and> ps_messagesWritten res + failed + conflicts = length ms
        \<and> c' = c\<lparr>ct_decoded := ct_decoded c + ps_messagesWritten res, ct_skippedVerify := ct_skippedVerify c + failed,
                ct_skippedConflict := ct_skippedConflict c + recounted + conflicts\<rparr>)"
proof (cases "validateSegmentRange (ev_startFE ev) (ev_endFE ev)")
  case (Inl e)
  then show ?thesis
    using assms by (auto simp: processBatch_def process_result_of_def)
next
  case (Inr u)
  obtain fetched a events where f: "fetchBlob (pe_fetch env) sources (ev_versionedHash ev) parentRoot arch = (fetched, a, events)"
    by (cases "fetchBlob (pe_fetch env) sources (ev_versionedHash ev) parentRoot arch") auto
  have empty_result: "\<exists>w. res = process_result_of ev outcome w" if "writeEmptyBatch env ev l1 conflict outcome st = (Inr res, s)" for outcome s
    using that by (auto simp: writeEmptyBatch_def split: prod.split_asm sum.split_asm)
  show ?thesis
  proof (cases "case fetched of Inl _ \<Rightarrow> None | Inr b \<Rightarrow> b")
    case None
    then have "writeEmptyBatch env ev l1 conflict Unreachable st = (Inr res, st')" "c' = c\<lparr>ct_undecodable := ct_undecodable c + 1\<rparr>"
      using assms Inr f by (auto simp: processBatch_def split: prod.split_asm)
    then show ?thesis
      using empty_result writeEmptyBatch_messages by (fastforce simp: process_result_of_def)
  next
    case (Some blob)
    then have fetched: "fetched = Inr (Some blob)"
      by (auto split: sum.split_asm)
    obtain usable where ext: "extractSegmentBytes blob (ev_startFE ev) (ev_endFE ev) = Inr usable"
      using assms Inr f fetched
      by (cases "extractSegmentBytes blob (ev_startFE ev) (ev_endFE ev)") (auto simp: processBatch_def)
    show ?thesis
    proof (cases "decode (pe_fz env) (if isZeroAddress (ev_decoder ev) then None else pe_decoder env) None (ev_decoder ev) usable")
      case (Inl e)
      then have "writeEmptyBatch env ev l1 conflict DecodeFailed st = (Inr res, st')" "c' = c\<lparr>ct_skippedDecode := ct_skippedDecode c + 1\<rparr>"
        using assms Inr f fetched ext by (auto simp: processBatch_def split: prod.split_asm)
      then show ?thesis
        using empty_result writeEmptyBatch_messages by (fastforce simp: process_result_of_def)
    next
      case dec: (Inr p)
      then obtain ms ss where p: "p = (ms, ss)"
        by (cases p)
      then have "recordDecoded env ev l1 conflict recounted ms ss st c = (Inr res, st', c')"
        using assms Inr f fetched ext dec by (auto simp: processBatch_def split: prod.split_asm)
      then obtain vs c1 snapshot written conflicts where
          v: "verifyLoop env ev (enumerate 0 (zip ms ss)) c = (Inr vs, c1)"
        and w: "writeBatch env ev l1 snapshot vs st = Inr ((written, conflicts), st')"
        and res: "res = process_result_of ev Decoded written"
        and c': "c' = c1\<lparr>ct_skippedConflict := ct_skippedConflict c1 + recounted + conflicts, ct_decoded := ct_decoded c1 + written\<rparr>"
        by (rule recordDecoded_Inr)
      have counted: "written + conflicts = length vs"
      proof -
        obtain st1 where "observeAll env ev vs (0, 0) st1 = Inr ((written, conflicts), st')"
          using writeBatch_parts [OF w] .
        then show ?thesis
          using observeAll_counts [of env ev vs "(0, 0)" st1 "(written, conflicts)" st'] by simp
      qed
      have len: "length ss = length ms"
        using dec p by (simp add: decode_parallel)
      have out: "ps_outcome res = Decoded" "ps_messagesWritten res = written"
        by (simp_all add: res process_result_of_def)
      have "length vs \<le> length ms" and c1: "c1 = c\<lparr>ct_skippedVerify := ct_skippedVerify c + (length ms - length vs)\<rparr>"
        using verifyLoop_counts [OF v] len by simp_all
      then have total: "ps_messagesWritten res + (length ms - length vs) + conflicts = length ms"
        using counted out(2) by simp
      have state: "c' = c\<lparr>ct_decoded := ct_decoded c + ps_messagesWritten res,
          ct_skippedVerify := ct_skippedVerify c + (length ms - length vs),
          ct_skippedConflict := ct_skippedConflict c + recounted + conflicts\<rparr>"
        by (simp add: c' c1 out(2))
      show ?thesis
        unfolding out(1) batch_outcome.case using dec [unfolded p] total state by blast
    qed
  qed
qed

text \<open>
  Each processed event moves the counters by exactly what happened to it: a rejected range, an unreachable blob and a failed decode count once and write no message, and a decoded segment counts each of its messages once, as written, failed verification or conflicting, with the number written reported to the caller (the conflicts that aborted attempts of the transaction had already counted come on top).
\<close>

theorem processBatch_accounts:
  assumes "processBatch env sources ev parentRoot l1 conflict recounted arch st c = (Inr res, arch', st', c')"
  shows "case ps_outcome res of
      RangeRejected \<Rightarrow> c' = c\<lparr>ct_skippedRange := ct_skippedRange c + 1\<rparr> \<and> st' = st \<and> arch' = arch
    | Unreachable \<Rightarrow> c' = c\<lparr>ct_undecodable := ct_undecodable c + 1\<rparr> \<and> st_messages st' = st_messages st
    | DecodeFailed \<Rightarrow> c' = c\<lparr>ct_skippedDecode := ct_skippedDecode c + 1\<rparr> \<and> st_messages st' = st_messages st
    | Decoded \<Rightarrow> (\<exists>usable ms ss failed conflicts.
        decode (pe_fz env) (if isZeroAddress (ev_decoder ev) then None else pe_decoder env) None (ev_decoder ev) usable = Inr (ms, ss)
        \<and> ps_messagesWritten res + failed + conflicts = length ms
        \<and> c' = c\<lparr>ct_decoded := ct_decoded c + ps_messagesWritten res, ct_skippedVerify := ct_skippedVerify c + failed,
                ct_skippedConflict := ct_skippedConflict c + recounted + conflicts\<rparr>)"
  using processBatch_counts [OF assms] .

lemma processBatch_outcome:
  assumes "processBatch env sources ev parentRoot l1 conflict recounted arch st c = (Inr res, arch', st', c')"
    and "ps_outcome res = RangeRejected"
  shows "validateSegmentRange (ev_startFE ev) (ev_endFE ev) \<noteq> Inr ()"
  using processBatch_counts [OF assms(1)] assms
  by (auto simp: processBatch_def recordDecoded_def writeEmptyBatch_def process_result_of_def Let_def
      split: prod.split_asm sum.split_asm option.split_asm)

section \<open>Processing always returns\<close>

definition well_formed_message :: "bam_message \<Rightarrow> bool" where
  "well_formed_message m \<longleftrightarrow> (\<exists>b. hexToBytes (m_sender m) = Inr b \<and> length b = 20) \<and> uint64 (m_nonce m)"

definition bytes32 :: "string \<Rightarrow> bool" where
  "bytes32 h \<longleftrightarrow> (\<exists>b. hexToBytes h = Inr b \<and> length b = 32)"

lemma decodeRecords_well_formed:
  "decodeRecords n i plain o0 = Inr (recs, o1) \<Longrightarrow> (m, s) \<in> set recs \<Longrightarrow> well_formed_message m"
proof (induction n arbitrary: i o0 recs)
  case (Suc n)
  have rd: "uint64 (readU64BE plain (o0 + 20))" if "o0 + 32 \<le> length plain"
    using that unbe_lt_of_length [of "slice plain (o0 + 20) (o0 + 20 + 8)" 8]
    by (simp add: readU64BE_eq uint64_iff)
  from Suc.prems obtain rest m1 s1 where "decodeRecords n (Suc i) plain (o0 + 32 + readU32BE plain (o0 + 28) + SIGNATURE_BYTES) = Inr (rest, o1)"
    "recs = (m1, s1) # rest" "m_sender m1 = bytesToHex (slice plain o0 (o0 + 20))" "m_nonce m1 = readU64BE plain (o0 + 20)"
    "o0 + 32 \<le> length plain"
    by (auto simp: Let_def split: if_split_asm)
  then show ?case
    using Suc.IH Suc.prems(2) rd by (auto simp: well_formed_message_def)
qed simp

lemma decodeBatch_well_formed: "decodeBatch fz b = Inr (ms, ss) \<Longrightarrow> m \<in> set ms \<Longrightarrow> well_formed_message m"
  by (auto simp: decodeBatch_def Let_def split: if_split_asm prod.split_asm)
    (blast dest: decodeRecords_well_formed)+

lemma well_formed_hash: "well_formed_message m \<Longrightarrow> bytes32 tag \<Longrightarrow> \<exists>h. computeMessageHashForMessage keccak m tag = Inr h"
  by (auto simp: computeMessageHashForMessage_def computeMessageHash_def messagePreimage_Inr well_formed_message_def bytes32_def)

lemma well_formed_id:
  "well_formed_message (ve_message v) \<Longrightarrow> bytes32 (ev_contentTag ev) \<Longrightarrow> bytes32 (ev_versionedHash ev) \<Longrightarrow> \<exists>mid. entry_id env ev v = Inr mid"
  by (auto simp: entry_id_def computeMessageId_def messageIdPreimage_Inr well_formed_message_def bytes32_def)

lemma well_formed_nonce: "well_formed_message m \<Longrightarrow> \<exists>t. encodeNonce (m_nonce m) = Inr t"
  by (auto simp: well_formed_message_def encodeNonce_Inr uint64_def uint64_max_def MAX_NONCE_def)

lemma verifyLoop_total:
  "(\<And>i m s. (i, m, s) \<in> set xs \<Longrightarrow> \<exists>h. computeMessageHashForMessage (pe_keccak env) m (ev_contentTag ev) = Inr h) \<Longrightarrow>
     \<exists>vs c'. verifyLoop env ev xs c = (Inr vs, c')"
proof (induction xs arbitrary: c)
  case (Cons x xs)
  obtain i m sig where x: "x = (i, m, sig)"
    by (cases x) auto
  obtain h where "computeMessageHashForMessage (pe_keccak env) m (ev_contentTag ev) = Inr h"
    using Cons.prems [of i m sig] x by auto
  moreover have "\<exists>vs c'. verifyLoop env ev xs d = (Inr vs, c')" for d
    using Cons.IH [of d] Cons.prems by (metis list.set_intros(2))
  ultimately show ?case
    by (auto simp: x) (metis (no_types, lifting) old.prod.case sum.simps(6))
qed simp

lemma observeAll_total:
  "(\<And>v. v \<in> set vs \<Longrightarrow> well_formed_message (ve_message v)) \<Longrightarrow> bytes32 (ev_contentTag ev) \<Longrightarrow> bytes32 (ev_versionedHash ev) \<Longrightarrow>
     is_ok (observeAll env ev vs counts st)"
proof (induction vs arbitrary: counts st)
  case (Cons v vs)
  obtain mid where mid: "entry_id env ev v = Inr mid"
    using well_formed_id [of v ev] Cons.prems by auto
  obtain t where t: "encodeNonce (m_nonce (ve_message v)) = Inr t"
    using well_formed_nonce [of "ve_message v"] Cons.prems(1) by auto
  have "e = ObservedHashConflict" if "upsertObserved (observedRow env ev v mid) st = Inl e" for e
    using that t by (auto simp: upsertObserved_def encNonce_def observedRow_def Let_def split: list.split_asm if_split_asm)
  then show ?case
    using Cons mid
    by (cases "upsertObserved (observedRow env ev v mid) st") (auto simp: lift_message_def split: prod.split)
qed simp


lemma upsertBatch_total: "\<exists>snap. encodeMessageSnapshot (br_messageSnapshot row) = Inr snap \<Longrightarrow> \<exists>st'. upsertBatch row st = Inr ((), st')"
  unfolding upsertBatch_def Let_def by (elim exE) (simp add: if_distrib [of "\<lambda>x. \<exists>s. x = _ s"])

lemma entrySnapshot_total:
  assumes "\<And>v. v \<in> set vs \<Longrightarrow> well_formed_message (ve_message v)" "bytes32 (ev_contentTag ev)" "bytes32 (ev_versionedHash ev)"
  shows "\<exists>snapshot raw. mapE (entrySnapshot env ev) vs = Inr snapshot \<and> encodeMessageSnapshot snapshot = Inr raw"
  using assms(1)
proof (induction vs)
  case Nil
  then show ?case by (simp add: encodeMessageSnapshot_def)
next
  case (Cons v vs)
  obtain mid where "entry_id env ev v = Inr mid"
    using well_formed_id [of v ev env] Cons.prems assms by auto
  then obtain e where e: "entrySnapshot env ev v = Inr e" "se_nonce e = m_nonce (ve_message v)"
    by (simp add: entrySnapshot_def)
  obtain t where t: "encodeNonce (m_nonce (ve_message v)) = Inr t"
    using well_formed_nonce [of "ve_message v"] Cons.prems by auto
  obtain snapshot raw where rest: "mapE (entrySnapshot env ev) vs = Inr snapshot" "encodeMessageSnapshot snapshot = Inr raw"
    using Cons by auto
  then have "\<exists>raw'. encodeMessageSnapshot (e # snapshot) = Inr raw'"
    using e(2) t by (simp add: encodeMessageSnapshot_def encNonce_def)
  then show ?case
    using e(1) rest(1) by auto
qed

lemma writeEmptyBatch_total:
  assumes "k \<le> MAX_RETRIES" "\<not> conflict k"
  shows "is_ok (fst (writeEmptyBatch env ev l1 conflict outcome st))"
proof -
  obtain s where "upsertBatch (baseBatch env ev l1) st = Inr ((), s)"
    using upsertBatch_total [of "baseBatch env ev l1" st] by (auto simp: baseBatch_def encodeMessageSnapshot_def)
  then have "withTxn conflict (upsertBatch (baseBatch env ev l1)) st = (Inr (), s)"
    by (rule withTxn_ok [of k conflict, OF assms])
  then show ?thesis
    by (simp add: writeEmptyBatch_def)
qed

lemma recordDecoded_total:
  assumes wf: "\<And>m. m \<in> set ms \<Longrightarrow> well_formed_message m"
    and tag: "bytes32 (ev_contentTag ev)" and hash: "bytes32 (ev_versionedHash ev)"
    and db: "k \<le> MAX_RETRIES" "\<not> conflict k"
  shows "is_ok (fst (recordDecoded env ev l1 conflict recounted ms ss st c))"
proof -
  have entries: "m \<in> set ms" if "(i, m, s) \<in> set (enumerate 0 (zip ms ss))" for i m s
    using that by (auto simp: in_set_enumerate_eq)
  obtain vs c1 where v: "verifyLoop env ev (enumerate 0 (zip ms ss)) c = (Inr vs, c1)"
    using verifyLoop_total [of "enumerate 0 (zip ms ss)" env ev c] well_formed_hash [OF wf tag] entries by metis
  have vs: "well_formed_message (ve_message v)" if "v \<in> set vs" for v
    using verifyLoop_sound [OF v that] entries wf by blast
  obtain snapshot raw where snap: "mapE (entrySnapshot env ev) vs = Inr snapshot" "encodeMessageSnapshot snapshot = Inr raw"
    using entrySnapshot_total [OF vs tag hash] by blast
  then obtain st1 where "upsertBatch ((baseBatch env ev l1)\<lparr>br_messageSnapshot := snapshot\<rparr>) st = Inr ((), st1)"
    using upsertBatch_total [of "(baseBatch env ev l1)\<lparr>br_messageSnapshot := snapshot\<rparr>" st] by auto
  moreover obtain counts st2 where "observeAll env ev vs (0, 0) st1 = Inr (counts, st2)"
    using observeAll_total [OF vs tag hash, of vs env "(0, 0)" st1] by (auto simp: is_ok_iff)
  ultimately have "withTxn conflict (writeBatch env ev l1 snapshot vs) st = (Inr counts, st2)"
    by (intro withTxn_ok [of k conflict, OF db]) (simp add: writeBatch_def)
  then show ?thesis
    using v snap by (cases counts) (simp add: recordDecoded_def)
qed

text \<open>
  Processing never throws but for the store: for an event with the canonical decoder and 32-byte tag and hash, whatever bytes the submitter put in the blob, whatever the sources answer and whatever the signature check says, processBatch returns a result as soon as one attempt of its transaction is not aborted.
\<close>

theorem processBatch_total:
  assumes "isZeroAddress (ev_decoder ev)" "bytes32 (ev_contentTag ev)" "bytes32 (ev_versionedHash ev)"
    and "k \<le> MAX_RETRIES" "\<not> conflict k"
  shows "is_ok (fst (processBatch env (sources\<lparr>bs_archive := map_option (verifyingArchive (fe_hash (pe_fetch env))) inner\<rparr>) ev
    parentRoot l1 conflict recounted arch st c))"
proof (cases "validateSegmentRange (ev_startFE ev) (ev_endFE ev)")
  case (Inl e)
  then show ?thesis
    by (simp add: processBatch_def)
next
  case (Inr u)
  let ?s = "sources\<lparr>bs_archive := map_option (verifyingArchive (fe_hash (pe_fetch env))) inner\<rparr>"
  obtain fetched a events where f: "fetchBlob (pe_fetch env) ?s (ev_versionedHash ev) parentRoot arch = (fetched, a, events)"
    by (cases "fetchBlob (pe_fetch env) ?s (ev_versionedHash ev) parentRoot arch") auto
  note empty = writeEmptyBatch_total [of k conflict, OF assms(4,5)]
  show ?thesis
  proof (cases "case fetched of Inl _ \<Rightarrow> None | Inr b \<Rightarrow> b")
    case None
    then show ?thesis
      using Inr f empty [of env ev l1 Unreachable st] by (simp add: processBatch_def split_def Let_def)
  next
    case (Some blob)
    then have fetched: "fetched = Inr (Some blob)"
      by (auto split: sum.split_asm)
    have "length blob = FULL_BLOB_BYTE_LENGTH"
      using fetchBlob_facts [OF f [unfolded fetched]] by simp
    then obtain usable where ext: "extractSegmentBytes blob (ev_startFE ev) (ev_endFE ev) = Inr usable"
      using Inr
      by (auto simp: extractSegmentBytes_Inr validateSegmentRange_def FULL_BLOB_BYTE_LENGTH_def blob_consts
          split: if_split_asm)
    show ?thesis
    proof (cases "decode (pe_fz env) None None (ev_decoder ev) usable")
      case (Inl e)
      then show ?thesis
        using \<open>validateSegmentRange (ev_startFE ev) (ev_endFE ev) = Inr u\<close> f fetched ext assms(1) empty [of env ev l1 DecodeFailed st]
        by (simp add: processBatch_def split_def Let_def)
    next
      case dec: (Inr p)
      then obtain ms ss where p: "p = (ms, ss)"
        by (cases p)
      have "well_formed_message m" if "m \<in> set ms" for m
        using dec p assms(1) that
        by (auto simp: decode_def split: sum.split_asm intro: decodeBatch_well_formed)
      then have "is_ok (fst (recordDecoded env ev l1 conflict recounted ms ss st c))"
        using assms by (intro recordDecoded_total [of ms ev k conflict])
      then show ?thesis
        using Inr f fetched ext dec p assms(1) by (simp add: processBatch_def split_def Let_def)
    qed
  qed
qed

end
