(* ===== verification/EndToEnd.thy ===== *)
theory EndToEnd
  imports ProcessBatch
begin

text \<open>
  From the Poster's blob to the Reader's rows: a segment the Poster assembled, once the
  Reader has the blob and the event, ends in the store as confirmed rows of exactly the
  messages that were encoded. This joins the batch codec, the blob layout, the fetch and
  the processing of an event.
\<close>

section \<open>Settled slots\<close>

text \<open>A slot is settled for a hash: confirmed with it, or held by a message with another hash.\<close>

definition settled :: "string \<times> string \<Rightarrow> string \<Rightarrow> store \<Rightarrow> bool" where
  "settled k h st \<longleftrightarrow> confirmed_at k h st \<or> (\<exists>r \<in> set (st_messages st). msg_key r = k \<and> rm_messageHash r \<noteq> h)"

lemma upsertObserved_keeps_hash:
  assumes "upsertObserved row st = Inr (u, st')" "store_inv st" "r \<in> set (st_messages st)"
  shows "\<exists>r' \<in> set (st_messages st'). msg_key r' = msg_key r \<and> rm_messageHash r' = rm_messageHash r"
  using assms(1,2)
proof (cases rule: upsertObserved_Inr)
  case (fresh t)
  then show ?thesis using assms(3) by (intro bexI [of _ r]) auto
next
  case (kept q t)
  then show ?thesis using assms(3) by (intro bexI [of _ r]) auto
next
  case (replaced q t)
  let ?new = "raw_of_row row (toLowerCase (mr_sender row)) t"
  show ?thesis
  proof (cases "msg_key r = (toLowerCase (mr_sender row), t)")
    case True
    then have "r = q"
      using replaced(2,3) assms(2,3) distinct_keys_unique by (metis store_inv_def)
    moreover have "?new \<in> set (st_messages st')"
      using replaced(2,3) by (auto simp: replaced(6) intro!: image_eqI [where x = q])
    ultimately show ?thesis
      using True replaced(4) by (intro bexI [of _ ?new]) (simp_all add: raw_of_row_def)
  next
    case False
    then have "r \<in> set (st_messages st')"
      using assms(3) by (auto simp: replaced(6) intro!: image_eqI [where x = r])
    then show ?thesis by blast
  qed
qed

lemma upsertObserved_settled:
  assumes "upsertObserved row st = Inr (u, st')" "store_inv st" "settled k h st"
  shows "settled k h st'"
  using assms(3) upsertObserved_confirmed_at [OF assms(1,2)] upsertObserved_keeps_hash [OF assms(1,2)]
  unfolding settled_def by metis

lemma observeAll_keeps_settled:
  "observeAll env ev vs counts st = Inr (counts', st') \<Longrightarrow> store_inv st \<Longrightarrow> settled k h st \<Longrightarrow> settled k h st'"
proof (induction vs arbitrary: counts st)
  case (Cons v vs)
  from Cons.prems(1) show ?case
  proof (cases rule: observe_first)
    case (conflict mid)
    then show ?thesis using Cons by blast
  next
    case (written mid st1)
    then show ?thesis
      using Cons.IH [OF written(4)] store_step_inv [OF written(3)] upsertObserved_settled [OF written(2)] Cons.prems(2,3) by blast
  qed
qed simp

lemma upsertObserved_conflict:
  assumes "upsertObserved row st = Inl ObservedHashConflict" "encodeNonce (mr_nonce row) = Inr t"
  shows "\<exists>r \<in> set (st_messages st). msg_key r = (toLowerCase (mr_sender row), t) \<and> rm_messageHash r \<noteq> mr_messageHash row"
proof -
  obtain r rs where r: "msgs_at (toLowerCase (mr_sender row)) t st = r # rs" "rm_messageHash r \<noteq> mr_messageHash row"
    using assms by (auto simp: upsertObserved_def encNonce_def Let_def split: list.split_asm if_split_asm)
  then have "r \<in> set (filter (\<lambda>q. rm_sender q = toLowerCase (mr_sender row) \<and> rm_nonce q = t) (st_messages st))"
    by (simp add: msgs_at_def)
  then show ?thesis
    using r(2) by auto
qed

lemma observeAll_settles:
  assumes "observeAll env ev vs counts st = Inr (counts', st')" "store_inv st" "v \<in> set vs" "encodeNonce (m_nonce (ve_message v)) = Inr t"
  shows "settled (toLowerCase (m_sender (ve_message v)), t) (ve_hash v) st'"
  using assms
proof (induction vs arbitrary: counts st)
  case (Cons w vs)
  let ?k = "(toLowerCase (m_sender (ve_message v)), t)"
  from Cons.prems(1) show ?case
  proof (cases rule: observe_first)
    case (conflict mid)
    show ?thesis
    proof (cases "v = w")
      case True
      then have "settled ?k (ve_hash v) st"
        using upsertObserved_conflict [OF conflict(2), of t] Cons.prems(4) by (auto simp: settled_def observedRow_def)
      then show ?thesis
        using observeAll_keeps_settled [OF conflict(3) Cons.prems(2)] by blast
    next
      case False
      then show ?thesis
        using Cons.IH [OF conflict(3) Cons.prems(2)] Cons.prems(3,4) by simp
    qed
  next
    case (written mid st1)
    have inv: "store_inv st1"
      using written(3) Cons.prems(2) by (rule store_step_inv)
    show ?thesis
    proof (cases "v = w")
      case True
      then have "confirmed_at ?k (ve_hash v) st1"
        using upsertObserved_makes_confirmed [OF written(2) Cons.prems(2), of t] Cons.prems(4) by (simp add: observedRow_def)
      then show ?thesis
        using observeAll_keeps_settled [OF written(4) inv] by (auto simp: settled_def)
    next
      case False
      then show ?thesis
        using Cons.IH [OF written(4) inv] Cons.prems(3,4) by simp
    qed
  qed
qed simp

section \<open>A segment decodes to what was encoded\<close>

lemma segment_decodes:
  assumes "assembleMultiSegmentBlob (before @ seg # after) = Inr (blob, segs)"
    and "encodeBatch ms sigs CodecNone = Inr eb" "si_payload seg = eb_data eb"
    and "isZeroAddress addr"
  shows "\<exists>usable. extractSegmentBytes blob (int (as_startFE (segs ! length before))) (int (as_endFE (segs ! length before))) = Inr usable
    \<and> decode fz client None addr usable = Inr (map canonical_message ms, sigs)"
proof -
  obtain rest where data: "eb_data eb = [BATCH_VERSION, CODEC_NONE] @ rest"
    using assms(2) by (auto simp: encodeBatch_plain_Inr Let_def)
  have range: "segs ! length before = \<lparr>as_contentTag = si_contentTag seg, as_startFE = segments_fes before,
      as_endFE = segments_fes before + segment_fes seg\<rparr>" and "segment_fes seg \<le> 4096"
    using assms(1) by (auto simp: assemble_Inr_iff segment_ranges_append nth_append)
  then have size: "length (eb_data eb) \<le> 2 ^ 32"
    using ceil_div_bounds(1) [of 31 "length (si_payload seg)"] assms(3) by simp
  define pad where "pad = zeros (31 * segment_fes seg - length (si_payload seg))"
  have ext: "extractSegmentBytes blob (int (as_startFE (segs ! length before))) (int (as_endFE (segs ! length before)))
      = Inr (eb_data eb @ pad)"
    using extract_assembled [OF assms(1)] assms(3) data by (simp add: range pad_def)
  have "assertZstdWithinBound b (eb_data eb @ pad) = Inr ()" for b
    by (simp add: assertZstdWithinBound_def data CODEC_NONE_def CODEC_ZSTD_def)
  then have "decode fz client None addr (eb_data eb @ pad) = Inr (map canonical_message ms, sigs)"
    using assms(4) decode_encode_batch [OF assms(2) size, of fz pad] by (simp add: decode_def)
  with ext show ?thesis
    by blast
qed

lemma verifyLoop_all:
  assumes "verifyLoop env ev xs c = (Inr vs, c')" "\<And>i m s. (i, m, s) \<in> set xs \<Longrightarrow> verifyEntry env ev m s"
  shows "map ve_message vs = map (fst \<circ> snd) xs"
  using assms
proof (induction xs arbitrary: c vs)
  case (Cons x xs)
  obtain i m sig where x: "x = (i, m, sig)"
    by (cases x) auto
  from Cons.prems(1) [unfolded x] show ?case
  proof (cases rule: verifyLoop_Cons)
    case dropped
    then show ?thesis using Cons.prems(2) [of i m sig] x by simp
  next
    case (kept h ws)
    have "map ve_message ws = map (fst \<circ> snd) xs"
    proof (rule Cons.IH [OF kept(3)])
      show "verifyEntry env ev m s" if "(i, m, s) \<in> set xs" for i m s
        using Cons.prems(2) [of i m s] that by simp
    qed
    then show ?thesis
      by (simp add: kept(4) x)
  qed
qed simp


lemma segment_reaches:
  assumes blob: "assembleMultiSegmentBlob (before @ seg # after) = Inr (blob, segs)"
    and enc: "encodeBatch ms sigs CodecNone = Inr eb" "si_payload seg = eb_data eb"
    and fetched: "fetchBlob (pe_fetch env) sources (ev_versionedHash ev) parentRoot arch = (Inr (Some blob), arch', events)"
    and ev: "ev_startFE ev = int (as_startFE (segs ! length before))" "ev_endFE ev = int (as_endFE (segs ! length before))"
      "isZeroAddress (ev_decoder ev)" "bytes32 (ev_contentTag ev)" "bytes32 (ev_versionedHash ev)"
    and sigs: "\<And>i. i < length ms \<Longrightarrow> verifyEntry env ev (canonical_message (ms ! i)) (sigs ! i)"
    and db: "k \<le> MAX_RETRIES" "\<not> conflict k" "store_inv st"
  shows "\<exists>written st' c' conflicts. processBatch env sources ev parentRoot inclAt conflict recounted arch st c
      = (Inr (process_result_of ev Decoded written), arch', st', c')
    \<and> written + conflicts = length ms
    \<and> c' = c\<lparr>ct_decoded := ct_decoded c + written, ct_skippedConflict := ct_skippedConflict c + recounted + conflicts\<rparr>
    \<and> (\<forall>m \<in> set ms. \<exists>h t. computeMessageHashForMessage (pe_keccak env) (canonical_message m) (ev_contentTag ev) = Inr h
        \<and> encodeNonce (m_nonce m) = Inr t \<and> settled (toLowerCase (m_sender (canonical_message m)), t) h st')"
proof -
  obtain usable where ext: "extractSegmentBytes blob (ev_startFE ev) (ev_endFE ev) = Inr usable"
    and dec: "decode (pe_fz env) None None (ev_decoder ev) usable = Inr (map canonical_message ms, sigs)"
    using segment_decodes [OF blob enc ev(3)] by (auto simp: ev(1,2))
  let ?ms = "map canonical_message ms"
  have len: "length sigs = length ms"
    using enc(1) by (simp add: encodeBatch_plain_Inr)
  have wf: "well_formed_message m" if "m \<in> set ?ms" for m
    using dec ev(3) that by (auto simp: decode_def split: sum.split_asm intro: decodeBatch_well_formed)
  have "is_ok (fst (recordDecoded env ev inclAt conflict recounted ?ms sigs st c))"
    using recordDecoded_total [of ?ms ev k conflict, OF wf ev(4,5) db(1,2)] by simp
  then obtain res st' c' where rec: "recordDecoded env ev inclAt conflict recounted ?ms sigs st c = (Inr res, st', c')"
    by (cases "recordDecoded env ev inclAt conflict recounted ?ms sigs st c") (auto simp: is_ok_iff)
  then obtain vs c1 snapshot written conflicts where
      v: "verifyLoop env ev (enumerate 0 (zip ?ms sigs)) c = (Inr vs, c1)"
    and w: "writeBatch env ev inclAt snapshot vs st = Inr ((written, conflicts), st')"
    and res: "res = process_result_of ev Decoded written"
    and c': "c' = c1\<lparr>ct_skippedConflict := ct_skippedConflict c1 + recounted + conflicts, ct_decoded := ct_decoded c1 + written\<rparr>"
    by (rule recordDecoded_Inr)
  obtain st1 where b: "upsertBatch ((baseBatch env ev inclAt)\<lparr>br_messageSnapshot := snapshot\<rparr>) st = Inr ((), st1)"
    and o: "observeAll env ev vs (0, 0) st1 = Inr ((written, conflicts), st')"
    using writeBatch_parts [OF w] .
  have inv: "store_inv st1"
    using store_step.batch [OF b] db(3) by (rule store_step_inv)
  have "map ve_message vs = map (fst \<circ> snd) (enumerate 0 (zip ?ms sigs))"
    by (rule verifyLoop_all [OF v]) (use sigs len in \<open>auto simp: in_set_enumerate_eq\<close>)
  also have "\<dots> = ?ms"
    using len by (metis (no_types, lifting) length_map map_fst_zip map_map map_snd_enumerate)
  finally have all: "map ve_message vs = ?ms" .
  then have n: "length vs = length ms"
    by (metis length_map)
  then have "c1 = c"
    using verifyLoop_counts [OF v] len by simp
  moreover have "written + conflicts = length ms"
    using observeAll_counts [OF o] n by simp
  moreover have "\<exists>h t. computeMessageHashForMessage (pe_keccak env) (canonical_message m) (ev_contentTag ev) = Inr h
        \<and> encodeNonce (m_nonce m) = Inr t \<and> settled (toLowerCase (m_sender (canonical_message m)), t) h st'"
    if m: "m \<in> set ms" for m
  proof -
    have "canonical_message m \<in> set (map ve_message vs)"
      using m all by simp
    then obtain v where v': "v \<in> set vs" "ve_message v = canonical_message m"
      by auto
    obtain t where t: "encodeNonce (m_nonce m) = Inr t"
      using well_formed_nonce [OF wf, of "canonical_message m"] m by (auto simp: canonical_message_def)
    then have "settled (toLowerCase (m_sender (canonical_message m)), t) (ve_hash v) st'"
      using observeAll_settles [OF o inv v'(1), of t] v'(2) by (simp add: canonical_message_def)
    moreover have "computeMessageHashForMessage (pe_keccak env) (canonical_message m) (ev_contentTag ev) = Inr (ve_hash v)"
      using verifyLoop_sound [OF v v'(1)] v'(2) by simp
    ultimately show ?thesis
      using t by blast
  qed
  moreover have "validateSegmentRange (ev_startFE ev) (ev_endFE ev) = Inr ()"
    using ext by (auto simp: extractSegmentBytes_Inr validateSegmentRange_def FIELD_ELEMENTS_PER_BLOB_def)
  then have "processBatch env sources ev parentRoot inclAt conflict recounted arch st c = (Inr res, arch', st', c')"
    using fetched ext dec ev(3) rec by (simp add: processBatch_def)
  ultimately show ?thesis
    using res c' by (intro exI [of _ written] exI [of _ st'] exI [of _ c'] exI [of _ conflicts] conjI) auto
qed

section \<open>Properties\<close>



section \<open>A sample run\<close>

definition e2e_payload :: bytes where
  "e2e_payload = [BATCH_VERSION, CODEC_NONE] @ be 4 1 @ be 4 100 @ sample_record"

definition e2e_segment :: segment_input where
  "e2e_segment = \<lparr>si_contentTag = bytesToHex (zeros 32), si_payload = e2e_payload\<rparr>"

definition e2e_env :: process_env where
  "e2e_env = \<lparr>pe_keccak = (\<lambda>_. zeros 32), pe_chainId = 1, pe_fetch = sample_fetch_env, pe_fz = (\<lambda>_ _. Inl []),
     pe_decoder = None, pe_registry = None, pe_ecdsa = \<lparr>ec_verify = (\<lambda>_ _ _ _ _. True), ec_digest = (\<lambda>_ _ _. [])\<rparr>\<rparr>"

definition e2e_event :: batch_event where
  "e2e_event = \<lparr>ev_blockNumber = 10, ev_txIndex = 2, ev_logIndex = 5, ev_txHash = ''0xab'', ev_versionedHash = sample_hash,
     ev_submitter = ''0x0E'', ev_contentTag = bytesToHex (zeros 32), ev_decoder = ZERO_ADDRESS,
     ev_signatureRegistry = ZERO_ADDRESS, ev_startFE = 0, ev_endFE = 4\<rparr>"

text \<open>An archive backend that serves one blob.\<close>

definition e2e_backend :: "bytes \<Rightarrow> unit blob_archive" where
  "e2e_backend b = \<lparr>ba_get = (\<lambda>_ _. Inr (Some b)), ba_put = (\<lambda>s _ _. (Inr (), s))\<rparr>"

definition e2e_sources :: "unit blob_sources" where
  "e2e_sources = \<lparr>bs_beaconUrl = None, bs_blobscanUrl = None, bs_archive = None\<rparr>"

lemma e2e_assembled:
  obtains blob segs where "assembleMultiSegmentBlob ([] @ e2e_segment # []) = Inr (blob, segs)"
    "segs ! 0 = \<lparr>as_contentTag = bytesToHex (zeros 32), as_startFE = 0, as_endFE = 4\<rparr>" "length blob = FULL_BLOB_BYTE_LENGTH"
proof -
  have "segment_fes e2e_segment = 4"
    by (simp add: e2e_segment_def e2e_payload_def sample_record_def ceil_div_def)
  then have "segments_fes ([] @ e2e_segment # []) \<le> 4096" and "segment_fes e2e_segment = 4"
    by simp_all
  then show thesis
    using that by (auto simp: assemble_eq FULL_BLOB_BYTE_LENGTH_def blob_consts e2e_segment_def)
qed

lemma e2e_fetch:
  assumes "length blob = FULL_BLOB_BYTE_LENGTH"
  shows "fetchBlob (pe_fetch e2e_env) (e2e_sources\<lparr>bs_archive :=
      map_option (verifyingArchive (fe_hash (pe_fetch e2e_env))) (Some (e2e_backend blob))\<rparr>)
    (ev_versionedHash e2e_event) None () = (Inr (Some blob), (), [ArchiveHit sample_hash])"
proof -
  have "ba_get (verifyingArchive sample_hash_env (e2e_backend blob)) () sample_hash = Inr (Some blob)"
    by (simp add: verifyingArchive_def e2e_backend_def assertVersionedHashMatches_def sample_recompute [OF assms] sample_hash_facts)
  then show ?thesis
    using fetchBlob_hit [of "e2e_sources\<lparr>bs_archive := Some (verifyingArchive sample_hash_env (e2e_backend blob))\<rparr>"]
    by (simp add: e2e_env_def e2e_event_def sample_fetch_env_def)
qed

lemma e2e_facts:
  "isZeroAddress (ev_decoder e2e_event)" "bytes32 (ev_contentTag e2e_event)" "bytes32 (ev_versionedHash e2e_event)"
  "verifyEntry e2e_env e2e_event m s"
proof -
  show "isZeroAddress (ev_decoder e2e_event)"
    by (simp add: e2e_event_def) code_simp
  moreover show "bytes32 (ev_contentTag e2e_event)"
    by (simp add: bytes32_def e2e_event_def)
  moreover show "bytes32 (ev_versionedHash e2e_event)"
    by (simp add: bytes32_def e2e_event_def sample_hash_def computeVersionedHash_def)
  ultimately show "verifyEntry e2e_env e2e_event m s"
    by (simp add: verifyEntry_def verifyMessage_def e2e_event_def e2e_env_def)
qed

lemma e2e_run:
  obtains blob written st' c' conflicts where
    "processBatch e2e_env (e2e_sources\<lparr>bs_archive := map_option (verifyingArchive (fe_hash (pe_fetch e2e_env))) (Some (e2e_backend blob))\<rparr>)
      e2e_event None None (\<lambda>_. False) 0 () empty_store emptyCounters
      = (Inr (process_result_of e2e_event Decoded written), (), st', c')"
    "st_messages st' \<noteq> []"
proof -
  obtain blob segs where b: "assembleMultiSegmentBlob ([] @ e2e_segment # []) = Inr (blob, segs)"
    and s: "segs ! 0 = \<lparr>as_contentTag = bytesToHex (zeros 32), as_startFE = 0, as_endFE = 4\<rparr>" "length blob = FULL_BLOB_BYTE_LENGTH"
    by (rule e2e_assembled)
  let ?src = "e2e_sources\<lparr>bs_archive := map_option (verifyingArchive (fe_hash (pe_fetch e2e_env))) (Some (e2e_backend blob))\<rparr>"
  have pay: "si_payload e2e_segment = eb_data \<lparr>eb_data = [BATCH_VERSION, CODEC_NONE] @ be 4 1 @ be 4 100 @ sample_record,
      eb_messageCount = 1, eb_codec = CodecNone, eb_size = 110\<rparr>"
    by (simp add: e2e_segment_def e2e_payload_def)
  have fes: "ev_startFE e2e_event = int (as_startFE (segs ! length []))" "ev_endFE e2e_event = int (as_endFE (segs ! length []))"
    by (simp_all add: s e2e_event_def)
  from segment_reaches [where conflict = "\<lambda>_. False" and k = 0 and inclAt = None and recounted = 0 and c = emptyCounters,
        OF b sample_encodeBatch pay e2e_fetch [OF s(2)] fes e2e_facts(1-3) e2e_facts(4) le0 _ store_inv_empty]
  obtain written st' c' where run: "processBatch e2e_env ?src e2e_event None None (\<lambda>_. False) 0 () empty_store emptyCounters
      = (Inr (process_result_of e2e_event Decoded written), (), st', c')"
    and m: "\<forall>m \<in> set [sample_message]. \<exists>h t. computeMessageHashForMessage (pe_keccak e2e_env) (canonical_message m) (ev_contentTag e2e_event) = Inr h
        \<and> encodeNonce (m_nonce m) = Inr t \<and> settled (toLowerCase (m_sender (canonical_message m)), t) h st'"
    by blast
  have "st_messages st' \<noteq> []"
    using m by (auto simp: settled_def confirmed_at_def)
  with run show thesis
    by (rule that)
qed


theorem processBatch_writes_only_endorsed_witness:
  "\<exists>row. endorsed e2e_env e2e_event row"
proof -
  obtain blob written st' c' where run: "processBatch e2e_env
      (e2e_sources\<lparr>bs_archive := map_option (verifyingArchive (fe_hash (pe_fetch e2e_env))) (Some (e2e_backend blob))\<rparr>)
      e2e_event None None (\<lambda>_. False) 0 () empty_store emptyCounters
      = (Inr (process_result_of e2e_event Decoded written), (), st', c')" and ne: "st_messages st' \<noteq> []"
    by (rule e2e_run)
  have "endorsed e2e_env e2e_event (hd (st_messages st'))"
    by (rule processBatch_writes_only_endorsed [OF store_inv_empty run]) (use ne in \<open>simp_all add: empty_store_def\<close>)
  then show ?thesis ..
qed

theorem processBatch_accounts_witness:
  "\<exists>blob res st' c'. processBatch e2e_env
      (e2e_sources\<lparr>bs_archive := map_option (verifyingArchive (fe_hash (pe_fetch e2e_env))) (Some (e2e_backend blob))\<rparr>)
      e2e_event None None (\<lambda>_. False) 0 () empty_store emptyCounters = (Inr res, (), st', c')
    \<and> ps_outcome res = Decoded \<and> ct_decoded c' = ps_messagesWritten res \<and> ct_undecodable c' = 0"
proof -
  obtain blob written st' c' where run: "processBatch e2e_env
      (e2e_sources\<lparr>bs_archive := map_option (verifyingArchive (fe_hash (pe_fetch e2e_env))) (Some (e2e_backend blob))\<rparr>)
      e2e_event None None (\<lambda>_. False) 0 () empty_store emptyCounters
      = (Inr (process_result_of e2e_event Decoded written), (), st', c')" and ne: "st_messages st' \<noteq> []"
    by (rule e2e_run)
  from processBatch_accounts [OF run] have "ct_decoded c' = written" "ct_undecodable c' = 0"
    by (auto simp: process_result_of_def emptyCounters_def)
  then have "ct_decoded c' = ps_messagesWritten (process_result_of e2e_event Decoded written)"
      "ps_outcome (process_result_of e2e_event Decoded written) = Decoded" "ct_undecodable c' = 0"
    by (simp_all add: process_result_of_def)
  with run show ?thesis
    by blast
qed

theorem processBatch_total_witness:
  "is_ok (fst (processBatch e2e_env (e2e_sources\<lparr>bs_archive := map_option (verifyingArchive (fe_hash (pe_fetch e2e_env)))
      (Some (e2e_backend [1]))\<rparr>) e2e_event None None (\<lambda>n. n < 3) 0 () empty_store emptyCounters))"
  by (rule processBatch_total [where k = 3, OF e2e_facts(1-3)]) (simp_all add: MAX_RETRIES_def)

end
