(* ===== verification/Scheduler.thy ===== *)
theory Scheduler
  imports Prelude
begin

text \<open>
  The Poster's self-rescheduling timer (packages/bam-poster/src/submission/scheduler.ts) as a
  state machine over the events the JavaScript event loop can interleave: calls of start and
  stop, an armed timeout firing, and a running tick finishing or throwing. Each armed timeout
  has its own id; the field timer holds the handle of the last one armed, which is all that
  stop can clear. The number of ticks in flight is the number of runTick calls suspended in
  their callback.
\<close>

record worker =
  wk_running :: bool
  wk_timer :: "nat option"
  wk_armed :: "(nat \<times> nat) list"
  wk_nextId :: nat
  wk_inFlight :: nat

definition newWorker :: worker where
  "newWorker = \<lparr>wk_running = False, wk_timer = None, wk_armed = [], wk_nextId = 0, wk_inFlight = 0\<rparr>"

definition wk_schedule :: "nat \<Rightarrow> worker \<Rightarrow> worker" where
  "wk_schedule delayMs w =
     (if \<not> wk_running w then w
      else w\<lparr>wk_timer := Some (wk_nextId w), wk_armed := wk_armed w @ [(wk_nextId w, delayMs)], wk_nextId := wk_nextId w + 1\<rparr>)"

definition wk_start :: "nat \<Rightarrow> worker \<Rightarrow> worker" where
  "wk_start initialDelayMs w =
     (if wk_running w then w else wk_schedule initialDelayMs (w\<lparr>wk_running := True\<rparr>))"

text \<open>stop up to its await of the tick in flight.\<close>

definition wk_stop :: "worker \<Rightarrow> worker" where
  "wk_stop w =
     (let w1 = w\<lparr>wk_running := False\<rparr> in
      case wk_timer w1 of
        None \<Rightarrow> w1
      | Some tid \<Rightarrow> w1\<lparr>wk_armed := filter (\<lambda>(i, _). i \<noteq> tid) (wk_armed w1), wk_timer := None\<rparr>)"

text \<open>The timeout's callback, with the guard at the head of runTick.\<close>

definition wk_fire :: "nat \<Rightarrow> worker \<Rightarrow> worker" where
  "wk_fire tid w =
     (let w1 = w\<lparr>wk_armed := filter (\<lambda>(i, _). i \<noteq> tid) (wk_armed w), wk_timer := None\<rparr>
      in if \<not> wk_running w1 then w1 else w1\<lparr>wk_inFlight := wk_inFlight w1 + 1\<rparr>)"

text \<open>A tick returns the next delay, or null to end the chain; or it throws.\<close>

definition wk_finish :: "nat option \<Rightarrow> worker \<Rightarrow> worker" where
  "wk_finish next w =
     (let w1 = w\<lparr>wk_inFlight := wk_inFlight w - 1\<rparr>
      in case next of None \<Rightarrow> w1 | Some d \<Rightarrow> wk_schedule d w1)"

definition wk_throw :: "worker \<Rightarrow> worker" where
  "wk_throw w =
     (let w1 = w\<lparr>wk_inFlight := wk_inFlight w - 1\<rparr>
      in if wk_running w1 then wk_schedule 1000 w1 else w1)"

section \<open>Start and stop of the Poster\<close>

text \<open>
  The Poster starts its workers at most once: start does nothing when started and throws when
  stopped, and stop is final (factory.ts). Its two flags gate both workers alike.
\<close>

record runtime =
  rn_started :: bool
  rn_stopped :: bool
  rn_worker :: worker

definition newRuntime :: runtime where
  "newRuntime = \<lparr>rn_started = False, rn_stopped = False, rn_worker = newWorker\<rparr>"

definition poster_start :: "nat \<Rightarrow> runtime \<Rightarrow> string + runtime" where
  "poster_start initialDelayMs r =
     (if rn_stopped r then Inl ''Poster: cannot start a stopped instance''
      else if rn_started r then Inr r
      else Inr (r\<lparr>rn_started := True, rn_worker := wk_start initialDelayMs (rn_worker r)\<rparr>))"

definition poster_stop :: "runtime \<Rightarrow> runtime" where
  "poster_stop r =
     (if rn_stopped r then r
      else r\<lparr>rn_started := False, rn_stopped := True, rn_worker := wk_stop (rn_worker r)\<rparr>)"

inductive runtime_step :: "runtime \<Rightarrow> runtime \<Rightarrow> bool" where
  start: "poster_start d r = Inr r' \<Longrightarrow> runtime_step r r'"
| stop: "runtime_step r (poster_stop r)"
| fire: "(tid, d) \<in> set (wk_armed (rn_worker r)) \<Longrightarrow> runtime_step r (r\<lparr>rn_worker := wk_fire tid (rn_worker r)\<rparr>)"
| finish: "0 < wk_inFlight (rn_worker r) \<Longrightarrow> runtime_step r (r\<lparr>rn_worker := wk_finish next (rn_worker r)\<rparr>)"
| throw: "0 < wk_inFlight (rn_worker r) \<Longrightarrow> runtime_step r (r\<lparr>rn_worker := wk_throw (rn_worker r)\<rparr>)"

inductive_cases runtime_stepE: "runtime_step r r'"

section \<open>Invariant\<close>

text \<open>
  One chain: a timeout armed, whose handle is held, or a tick in flight, never both; none of
  either once stopped but a last tick draining; and none at all before the start.
\<close>

definition single_chain :: "worker \<Rightarrow> bool" where
  "single_chain w \<longleftrightarrow>
     (wk_armed w = [] \<and> wk_timer w = None \<and> wk_inFlight w \<le> 1
      \<or> (\<exists>tid d. wk_armed w = [(tid, d)] \<and> wk_timer w = Some tid) \<and> wk_inFlight w = 0)
     \<and> (\<not> wk_running w \<longrightarrow> wk_armed w = [])"

definition runtime_inv :: "runtime \<Rightarrow> bool" where
  "runtime_inv r \<longleftrightarrow> single_chain (rn_worker r) \<and> \<not> (rn_started r \<and> rn_stopped r)
     \<and> (wk_running (rn_worker r) \<longleftrightarrow> rn_started r)
     \<and> (\<not> rn_started r \<and> \<not> rn_stopped r \<longrightarrow> wk_inFlight (rn_worker r) = 0)"

lemma single_chain_schedule:
  "single_chain w \<Longrightarrow> wk_armed w = [] \<Longrightarrow> wk_inFlight w = 0 \<Longrightarrow> single_chain (wk_schedule d w)"
  by (auto simp: single_chain_def wk_schedule_def)

lemma schedule_keeps [simp]:
  "wk_running (wk_schedule d w) = wk_running w" "wk_inFlight (wk_schedule d w) = wk_inFlight w"
  by (simp_all add: wk_schedule_def)

lemma single_chain_tick:
  assumes "single_chain w" "0 < wk_inFlight w"
  shows "single_chain (w\<lparr>wk_inFlight := wk_inFlight w - 1\<rparr>)" "wk_armed w = []" "wk_inFlight w = 1"
  using assms by (auto simp: single_chain_def)

lemma single_chain_stop: "single_chain w \<Longrightarrow> single_chain (wk_stop w)"
  by (auto simp: single_chain_def wk_stop_def)

lemma single_chain_fire: "single_chain w \<Longrightarrow> (tid, d) \<in> set (wk_armed w) \<Longrightarrow> single_chain (wk_fire tid w)"
  by (auto simp: single_chain_def wk_fire_def)

lemma wk_finish_chain: "single_chain w \<Longrightarrow> 0 < wk_inFlight w \<Longrightarrow> single_chain (wk_finish next w)"
  using single_chain_tick [of w] single_chain_schedule [of "w\<lparr>wk_inFlight := wk_inFlight w - 1\<rparr>"]
  by (auto simp: wk_finish_def Let_def split: option.splits)

lemma wk_throw_chain: "single_chain w \<Longrightarrow> 0 < wk_inFlight w \<Longrightarrow> single_chain (wk_throw w)"
  using single_chain_tick [of w] single_chain_schedule [of "w\<lparr>wk_inFlight := wk_inFlight w - 1\<rparr>"]
  by (auto simp: wk_throw_def Let_def)

lemma runtime_step_inv: "runtime_step r r' \<Longrightarrow> runtime_inv r \<Longrightarrow> runtime_inv r'"
proof (induction rule: runtime_step.induct)
  case (start d r r')
  show ?case
  proof (cases "rn_started r")
    case False
    then have "single_chain ((rn_worker r)\<lparr>wk_running := True\<rparr>)" "wk_armed (rn_worker r) = []" "wk_inFlight (rn_worker r) = 0"
        "\<not> wk_running (rn_worker r)" "\<not> rn_stopped r"
      using start by (auto simp: runtime_inv_def poster_start_def single_chain_def split: if_splits)
    then show ?thesis
      using start False single_chain_schedule [of "(rn_worker r)\<lparr>wk_running := True\<rparr>" d]
      by (auto simp: runtime_inv_def poster_start_def wk_start_def)
  qed (use start in \<open>auto simp: poster_start_def split: if_splits\<close>)
next
  case (stop r)
  then show ?case
    using single_chain_stop [of "rn_worker r"] by (auto simp: runtime_inv_def poster_stop_def wk_stop_def Let_def split: option.splits)
next
  case (fire tid d r)
  then have "wk_running (rn_worker r)"
    by (auto simp: runtime_inv_def single_chain_def)
  then show ?case
    using fire single_chain_fire [of "rn_worker r" tid d] by (auto simp: runtime_inv_def wk_fire_def)
next
  case (finish r "next")
  then have "rn_started r \<or> rn_stopped r"
    by (auto simp: runtime_inv_def)
  then show ?case
    using finish wk_finish_chain [of "rn_worker r" "next"] by (cases "next") (auto simp: runtime_inv_def wk_finish_def Let_def)
next
  case (throw r)
  then have "rn_started r \<or> rn_stopped r"
    by (auto simp: runtime_inv_def)
  then show ?case
    using throw wk_throw_chain [of "rn_worker r"] by (auto simp: runtime_inv_def wk_throw_def Let_def)
qed

lemma runtime_reachable_inv: "runtime_step\<^sup>*\<^sup>* newRuntime r \<Longrightarrow> runtime_inv r"
proof (induction rule: rtranclp_induct)
  case base
  show ?case
    by (simp add: newRuntime_def newWorker_def runtime_inv_def single_chain_def)
qed (rule runtime_step_inv)

lemma drained_stays: "runtime_step r r' \<Longrightarrow> runtime_inv r \<Longrightarrow> rn_stopped r \<Longrightarrow> wk_inFlight (rn_worker r) = 0
    \<Longrightarrow> r' = r"
  by (induction rule: runtime_step.induct) (auto simp: poster_start_def poster_stop_def runtime_inv_def single_chain_def)

text \<open>
  C23. A Poster's worker never runs two ticks at once and never outlives stop: in every state reachable from a new instance by any interleaving of start, stop, timers firing and ticks finishing or throwing, at most one tick is in flight and none while a timeout is armed; and once stopped and drained, nothing can ever run again.
\<close>

theorem poster_ticks_never_overlap:
  assumes "runtime_step\<^sup>*\<^sup>* newRuntime r"
  shows "wk_inFlight (rn_worker r) + length (wk_armed (rn_worker r)) \<le> 1
    \<and> (rn_stopped r \<and> wk_inFlight (rn_worker r) = 0 \<longrightarrow> (\<forall>r'. runtime_step\<^sup>*\<^sup>* r r' \<longrightarrow> r' = r))"
proof -
  have inv: "runtime_inv r"
    using assms by (rule runtime_reachable_inv)
  have "r' = r" if "runtime_step\<^sup>*\<^sup>* r r'" "rn_stopped r" "wk_inFlight (rn_worker r) = 0" for r'
    using that by (induction rule: rtranclp_induct) (auto dest: drained_stays [OF _ inv])
  then show ?thesis
    using inv by (auto simp: runtime_inv_def single_chain_def)
qed

definition stopped_mid_tick :: runtime where
  "stopped_mid_tick = poster_stop (newRuntime\<lparr>rn_started := True, rn_worker := wk_fire 0 (wk_start 0 newWorker)\<rparr>)"

theorem poster_ticks_never_overlap_witness:
  "wk_inFlight (rn_worker stopped_mid_tick) = 1 \<and> wk_inFlight (rn_worker stopped_mid_tick) + length (wk_armed (rn_worker stopped_mid_tick)) \<le> 1"
proof -
  let ?r1 = "newRuntime\<lparr>rn_started := True, rn_worker := wk_start 0 newWorker\<rparr>"
  have "runtime_step newRuntime ?r1"
    by (rule runtime_step.start [of 0]) (simp add: poster_start_def newRuntime_def)
  moreover have "runtime_step ?r1 (?r1\<lparr>rn_worker := wk_fire 0 (rn_worker ?r1)\<rparr>)"
    by (rule runtime_step.fire [of 0 0]) (simp add: wk_start_def wk_schedule_def newWorker_def)
  moreover have "runtime_step (?r1\<lparr>rn_worker := wk_fire 0 (rn_worker ?r1)\<rparr>) stopped_mid_tick"
    unfolding stopped_mid_tick_def by (simp add: runtime_step.stop)
  ultimately have "runtime_step\<^sup>*\<^sup>* newRuntime stopped_mid_tick"
    by (meson r_into_rtranclp rtranclp.rtrancl_into_rtrancl)
  from poster_ticks_never_overlap [OF this] show ?thesis
    by (auto simp: stopped_mid_tick_def poster_stop_def newRuntime_def wk_stop_def wk_fire_def wk_start_def wk_schedule_def newWorker_def)
qed

text \<open>
  The timer itself does not have this property: stopped and started again while a tick is in
  flight, the old tick's rescheduling joins the new chain, and two ticks run at once. The
  Poster's flags rule this out.
\<close>

theorem worker_restart_overlaps:
  "wk_inFlight (wk_fire 2 (wk_fire 1 (wk_finish (Some 5) (wk_start 0 (wk_stop (wk_fire 0 (wk_start 0 newWorker))))))) = 2"
  by code_simp
end
