(* ===== verification/Pack.thy ===== *)
theory Pack
  imports BatchCodec BlobLayout "HOL-Library.Product_Lexorder" "HOL-Library.List_Lexorder" "HOL-Library.Char_ord" "HOL-Library.Multiset"
begin

text \<open>
  The Poster's pure submission logic: the batch policy of policy/default.ts, the
  pack planner and its invariant check of submission/pack.ts, and the round-trip
  self-check of submission/self-check.ts (packages/bam-poster/src).
\<close>

record decoded_message =
  dm_sender :: string
  dm_nonce :: int
  dm_contents :: bytes
  dm_contentTag :: string
  dm_signature :: bytes
  dm_messageHash :: string
  dm_ingestedAt :: "nat option"

type_synonym pool_view = "string \<Rightarrow> decoded_message list"

definition toBAMMessage :: "decoded_message \<Rightarrow> bam_message" where
  "toBAMMessage d = \<lparr>m_sender = dm_sender d, m_nonce = dm_nonce d, m_contents = dm_contents d\<rparr>"

section \<open>Batch policy\<close>

definition DEFAULT_BLOB_CAPACITY_BYTES :: nat where
  "DEFAULT_BLOB_CAPACITY_BYTES = 126 * 1024"

text \<open>The size ratio is the fraction num/den, compared by cross multiplication.\<close>

record policy_config =
  pc_sizeTriggerNum :: nat
  pc_sizeTriggerDen :: nat
  pc_ageTriggerMs :: nat
  pc_countTrigger :: nat
  pc_forceFlush :: bool
  pc_estimate :: "bam_message list \<Rightarrow> nat"

definition defaultPolicyConfig :: policy_config where
  "defaultPolicyConfig = \<lparr>pc_sizeTriggerNum = 3, pc_sizeTriggerDen = 4, pc_ageTriggerMs = 60000,
     pc_countTrigger = 8, pc_forceFlush = False, pc_estimate = estimateBatchSize\<rparr>"

fun greedyFrom ::
  "(bam_message list \<Rightarrow> nat) \<Rightarrow> nat \<Rightarrow> decoded_message list \<Rightarrow> decoded_message list \<Rightarrow> decoded_message list" where
  "greedyFrom est cap picked [] = picked"
| "greedyFrom est cap picked (m # ms) =
     (let candidate = picked @ [m] in
      if est (map toBAMMessage candidate) > cap then picked else greedyFrom est cap candidate ms)"

definition greedyFifoFill :: "decoded_message list \<Rightarrow> nat \<Rightarrow> (bam_message list \<Rightarrow> nat) \<Rightarrow> decoded_message list" where
  "greedyFifoFill pending cap est = greedyFrom est cap [] pending"

definition policySelect ::
  "policy_config \<Rightarrow> string \<Rightarrow> pool_view \<Rightarrow> nat \<Rightarrow> nat \<Rightarrow> decoded_message list option" where
  "policySelect config tag pool blobCapacityBytes now =
     (let pending = pool tag in
      if length pending = 0 then None
      else let picked = greedyFifoFill pending blobCapacityBytes (pc_estimate config) in
        if length picked = 0 then None
        else if pc_forceFlush config then Some picked
        else let selectedSize = pc_estimate config (map toBAMMessage picked) in
          if selectedSize * pc_sizeTriggerDen config \<ge> blobCapacityBytes * pc_sizeTriggerNum config then Some picked
          else if (case dm_ingestedAt (hd picked) of
                     Some oldest \<Rightarrow> int now - int oldest \<ge> int (pc_ageTriggerMs config)
                   | None \<Rightarrow> False) then Some picked
          else if pc_countTrigger config > 0 \<and> length pending \<ge> pc_countTrigger config then Some picked
          else None)"

definition policyFill ::
  "policy_config \<Rightarrow> string \<Rightarrow> pool_view \<Rightarrow> nat \<Rightarrow> decoded_message list option" where
  "policyFill config tag pool blobCapacityBytes =
     (let pending = pool tag in
      if length pending = 0 then None
      else let picked = greedyFifoFill pending blobCapacityBytes (pc_estimate config)
           in if length picked = 0 then None else Some picked)"

section \<open>Pack planning\<close>

record per_tag_selection =
  ps_contentTag :: string
  ps_payloadBytes :: bytes
  ps_oldestIngestedAt :: nat
  ps_pendingMessageCount :: nat

record plan_included =
  pi_contentTag :: string
  pi_startFE :: int
  pi_endFE :: int
  pi_payloadBytes :: bytes

record plan_excluded =
  pe_contentTag :: string
  pe_pendingMessageCount :: nat

record pack_plan =
  pp_included :: "plan_included list"
  pp_excluded :: "plan_excluded list"

record pack_capacity =
  pc_maxFEs :: nat
  pc_maxBytes :: nat

definition feCountForPayload :: "nat \<Rightarrow> nat" where
  "feCountForPayload byteLength = ceil_div byteLength USABLE_BYTES_PER_FIELD_ELEMENT"

definition compareKey :: "per_tag_selection \<Rightarrow> nat \<times> string" where
  "compareKey s = (ps_oldestIngestedAt s, ps_contentTag s)"

fun planFrom :: "pack_capacity \<Rightarrow> nat \<Rightarrow> nat \<Rightarrow> per_tag_selection list \<Rightarrow> plan_included list \<times> plan_excluded list" where
  "planFrom capacity cursorFE usedBytes [] = ([], [])"
| "planFrom capacity cursorFE usedBytes (s # ss) =
     (let segmentFEs = feCountForPayload (length (ps_payloadBytes s));
          wouldEndFE = cursorFE + segmentFEs;
          wouldUseBytes = usedBytes + length (ps_payloadBytes s)
      in if segmentFEs = 0 \<or> wouldEndFE > pc_maxFEs capacity \<or> wouldUseBytes > pc_maxBytes capacity
         then let (inc, exc) = planFrom capacity cursorFE usedBytes ss
              in (inc, \<lparr>pe_contentTag = ps_contentTag s, pe_pendingMessageCount = ps_pendingMessageCount s\<rparr> # exc)
         else let (inc, exc) = planFrom capacity wouldEndFE wouldUseBytes ss
              in (\<lparr>pi_contentTag = ps_contentTag s, pi_startFE = int cursorFE, pi_endFE = int wouldEndFE,
                   pi_payloadBytes = ps_payloadBytes s\<rparr> # inc, exc))"

definition planPack :: "per_tag_selection list \<Rightarrow> pack_capacity \<Rightarrow> pack_plan" where
  "planPack input capacity =
     (let (inc, exc) = planFrom capacity 0 0 (sort_key compareKey input)
      in \<lparr>pp_included = inc, pp_excluded = exc\<rparr>)"

definition defaultPackCapacity :: pack_capacity where
  "defaultPackCapacity = \<lparr>pc_maxFEs = FIELD_ELEMENTS_PER_BLOB, pc_maxBytes = USABLE_BYTES_PER_BLOB\<rparr>"

datatype plan_error =
    MalformedSegment string int int
  | OverlapOrNonMonotonic string int int
  | PayloadOverflowsRange string nat

fun validateFrom :: "int \<Rightarrow> plan_included list \<Rightarrow> plan_error + unit" where
  "validateFrom lastEnd [] = Inr ()"
| "validateFrom lastEnd (seg # segs) =
     (if pi_startFE seg < 0 \<or> pi_endFE seg > int FIELD_ELEMENTS_PER_BLOB \<or> pi_startFE seg \<ge> pi_endFE seg
      then Inl (MalformedSegment (pi_contentTag seg) (pi_startFE seg) (pi_endFE seg))
      else if pi_startFE seg < lastEnd
      then Inl (OverlapOrNonMonotonic (pi_contentTag seg) (pi_startFE seg) lastEnd)
      else if int (length (pi_payloadBytes seg)) > (pi_endFE seg - pi_startFE seg) * int USABLE_BYTES_PER_FIELD_ELEMENT
      then Inl (PayloadOverflowsRange (pi_contentTag seg) (length (pi_payloadBytes seg)))
      else validateFrom (pi_endFE seg) segs)"

definition validatePackPlanInvariants :: "pack_plan \<Rightarrow> plan_error + unit" where
  "validatePackPlanInvariants plan = validateFrom 0 (pp_included plan)"

section \<open>Self-check\<close>

record agg_selection =
  ag_contentTag :: string
  ag_messages :: "decoded_message list"
  ag_payloadBytes :: bytes

datatype self_check_error =
    NoMatchingOriginal string
  | SliceExtract extract_error
  | SliceBytesMismatch string
  | DecodeThrow string batch_error
  | MessageCount string nat nat
  | PlanVsAssembly string

fun verifySegments ::
  "fzstd \<Rightarrow> bytes \<Rightarrow> (string \<Rightarrow> agg_selection option) \<Rightarrow> plan_included list \<Rightarrow> self_check_error + unit" where
  "verifySegments fz blob originals [] = Inr ()"
| "verifySegments fz blob originals (seg # segs) =
     (case originals (pi_contentTag seg) of
        None \<Rightarrow> Inl (NoMatchingOriginal (pi_contentTag seg))
      | Some orig \<Rightarrow>
          (case extractSegmentBytes blob (pi_startFE seg) (pi_endFE seg) of
             Inl e \<Rightarrow> Inl (SliceExtract e)
           | Inr sliced \<Rightarrow>
               let head = take (length (ag_payloadBytes orig)) sliced in
               if head \<noteq> ag_payloadBytes orig then Inl (SliceBytesMismatch (pi_contentTag seg))
               else (case decodeBatch fz head of
                  Inl e \<Rightarrow> Inl (DecodeThrow (pi_contentTag seg) e)
                | Inr (messages, _) \<Rightarrow>
                    if length messages \<noteq> length (ag_messages orig)
                    then Inl (MessageCount (pi_contentTag seg) (length messages) (length (ag_messages orig)))
                    else verifySegments fz blob originals segs)))"

definition verifyPackedBlobRoundTrips ::
  "fzstd \<Rightarrow> bytes \<Rightarrow> pack_plan \<Rightarrow> (string \<Rightarrow> agg_selection option) \<Rightarrow> self_check_error + unit" where
  "verifyPackedBlobRoundTrips fz blob plan originals = verifySegments fz blob originals (pp_included plan)"

section \<open>The greedy prefix\<close>

lemma greedyFrom_prefix:
  "\<exists>k. k \<le> length ms \<and> greedyFrom est cap picked ms = picked @ take k ms
     \<and> (k < length ms \<longrightarrow> est (map toBAMMessage (picked @ take (Suc k) ms)) > cap)
     \<and> (\<forall>j. 0 < j \<and> j \<le> k \<longrightarrow> est (map toBAMMessage (picked @ take j ms)) \<le> cap)"
proof (induction ms arbitrary: picked)
  case Nil
  then show ?case by simp
next
  case (Cons m ms)
  show ?case
  proof (cases "est (map toBAMMessage (picked @ [m])) > cap")
    case True
    then show ?thesis by (intro exI [of _ 0]) simp
  next
    case False
    from Cons [of "picked @ [m]"] obtain k where k: "k \<le> length ms"
      "greedyFrom est cap (picked @ [m]) ms = (picked @ [m]) @ take k ms"
      "k < length ms \<longrightarrow> est (map toBAMMessage ((picked @ [m]) @ take (Suc k) ms)) > cap"
      "\<forall>j. 0 < j \<and> j \<le> k \<longrightarrow> est (map toBAMMessage ((picked @ [m]) @ take j ms)) \<le> cap"
      by blast
    have "est (map toBAMMessage (picked @ take j (m # ms))) \<le> cap" if "0 < j" "j \<le> Suc k" for j
      using that k(4) False by (cases j; cases "j - 1") auto
    then show ?thesis
      using False k by (intro exI [of _ "Suc k"]) auto
  qed
qed

lemma greedyFifoFill_bound: "greedyFifoFill p cap est \<noteq> [] \<Longrightarrow> est (map toBAMMessage (greedyFifoFill p cap est)) \<le> cap"
  using greedyFrom_prefix [of p est cap "[]"] by (auto simp: greedyFifoFill_def)

section \<open>Plans are well formed\<close>

lemma feCount_0: "feCountForPayload n = 0 \<longleftrightarrow> n = 0"
  using ceil_div_bounds(1) [of 31 n] by (auto simp: feCountForPayload_def blob_consts)

lemma planFrom_Cons:
  "planFrom cap c u (s # ss) =
     (if length (ps_payloadBytes s) = 0 \<or> c + feCountForPayload (length (ps_payloadBytes s)) > pc_maxFEs cap
         \<or> u + length (ps_payloadBytes s) > pc_maxBytes cap
      then apsnd (Cons \<lparr>pe_contentTag = ps_contentTag s, pe_pendingMessageCount = ps_pendingMessageCount s\<rparr>)
             (planFrom cap c u ss)
      else apfst (Cons \<lparr>pi_contentTag = ps_contentTag s, pi_startFE = int c,
               pi_endFE = int (c + feCountForPayload (length (ps_payloadBytes s))), pi_payloadBytes = ps_payloadBytes s\<rparr>)
             (planFrom cap (c + feCountForPayload (length (ps_payloadBytes s))) (u + length (ps_payloadBytes s)) ss))"
  by (simp add: feCount_0 Let_def apsnd_def apfst_def map_prod_def)


declare planFrom.simps(2) [simp del]

lemma planFrom_validate:
  "pc_maxFEs cap \<le> 4096 \<Longrightarrow> validateFrom (int c) (fst (planFrom cap c u ss)) = Inr ()"
proof (induction ss arbitrary: c u)
  case (Cons s ss)
  let ?n = "feCountForPayload (length (ps_payloadBytes s))"
  have "length (ps_payloadBytes s) \<le> ?n * 31"
    using ceil_div_bounds(1) [of 31 "length (ps_payloadBytes s)"] by (simp add: feCountForPayload_def blob_consts)
  then have "int (length (ps_payloadBytes s)) \<le> int ?n * 31"
    by linarith
  moreover have "?n > 0" if "ps_payloadBytes s \<noteq> []"
    using that by (intro gr0I) (simp add: feCount_0)
  ultimately show ?case
    using Cons.prems Cons.IH [of c u] Cons.IH [of "c + ?n" "u + length (ps_payloadBytes s)"]
    by (auto simp: planFrom_Cons blob_consts)
qed simp

definition plan_segments :: "plan_included list \<Rightarrow> segment_input list" where
  "plan_segments inc = map (\<lambda>seg. \<lparr>si_contentTag = pi_contentTag seg, si_payload = pi_payloadBytes seg\<rparr>) inc"

lemma plan_segments_simps [simp]:
  "plan_segments [] = []"
  "plan_segments (seg # inc) = \<lparr>si_contentTag = pi_contentTag seg, si_payload = pi_payloadBytes seg\<rparr> # plan_segments inc"
  by (simp_all add: plan_segments_def)

lemma planFrom_fits:
  "segments_fes (plan_segments (fst (planFrom cap c u ss))) + c \<le> max c (pc_maxFEs cap)"
proof (induction ss arbitrary: c u)
  case (Cons s ss)
  show ?case
    using Cons.IH [of c u] Cons.IH [of "c + feCountForPayload (length (ps_payloadBytes s))" "u + length (ps_payloadBytes s)"]
    by (simp add: planFrom_Cons) (simp add: feCountForPayload_def blob_consts max_def split: if_splits)
qed simp

lemma planFrom_ranges:
  "map (\<lambda>seg. (pi_startFE seg, pi_endFE seg)) (fst (planFrom cap c u ss))
     = map (\<lambda>a. (int (as_startFE a), int (as_endFE a))) (segment_ranges c (plan_segments (fst (planFrom cap c u ss))))"
proof (induction ss arbitrary: c u)
  case (Cons s ss)
  show ?case
    by (simp add: planFrom_Cons Cons.IH) (simp add: feCountForPayload_def blob_consts)
qed simp

lemma planFrom_nonempty: "list_all (\<lambda>seg. pi_payloadBytes seg \<noteq> []) (fst (planFrom cap c u ss))"
  by (induction ss arbitrary: c u) (simp_all add: planFrom_Cons)

lemma planFrom_members:
  "seg \<in> set (fst (planFrom cap c u ss)) \<Longrightarrow>
     \<exists>s \<in> set ss. ps_contentTag s = pi_contentTag seg \<and> ps_payloadBytes s = pi_payloadBytes seg"
proof (induction ss arbitrary: c u)
  case (Cons s ss)
  then show ?case
    by (auto simp: planFrom_Cons split: if_splits)
qed simp

lemma planFrom_partition:
  "mset (map pi_contentTag (fst (planFrom cap c u ss))) + mset (map pe_contentTag (snd (planFrom cap c u ss)))
     = mset (map ps_contentTag ss)"
  by (induction ss arbitrary: c u) (simp_all add: planFrom_Cons)

lemma plan_assembles:
  assumes "plan = planPack input defaultPackCapacity"
  obtains blob segs where "assembleMultiSegmentBlob (plan_segments (pp_included plan)) = Inr (blob, segs)"
    "map (\<lambda>seg. (pi_startFE seg, pi_endFE seg)) (pp_included plan) = map (\<lambda>a. (int (as_startFE a), int (as_endFE a))) segs"
proof -
  have inc: "pp_included plan = fst (planFrom defaultPackCapacity 0 0 (sort_key compareKey input))"
    by (simp add: assms planPack_def split: prod.splits)
  have fits: "segments_fes (plan_segments (pp_included plan)) \<le> 4096"
    using planFrom_fits [of defaultPackCapacity 0 0 "sort_key compareKey input"]
    by (simp add: inc defaultPackCapacity_def blob_consts)
  show ?thesis
    using that [OF assemble_eq [OF fits]] planFrom_ranges [of defaultPackCapacity 0 0 "sort_key compareKey input"]
    by (simp add: inc)
qed

section \<open>The self-check accepts what the planner and the encoder produced\<close>

lemma decode_head:
  assumes "encodeBatch ms sigs CodecNone = Inr eb" "length (eb_data eb) \<le> 2 ^ 32"
  shows "decodeBatch fz (eb_data eb) = Inr (map canonical_message ms, sigs)"
  using decode_encode_batch [OF assms, of fz "[]"] by simp

text \<open>A selection whose payload is the batch encoding of its messages.\<close>

definition binary_payload :: "decoded_message list \<Rightarrow> bytes \<Rightarrow> bool" where
  "binary_payload msgs payload \<longleftrightarrow>
     (case encodeBatch (map toBAMMessage msgs) (map dm_signature msgs) CodecNone of
        Inl _ \<Rightarrow> False | Inr eb \<Rightarrow> payload = eb_data eb)"

lemma verifySegments_assembled:
  assumes "assembleMultiSegmentBlob (before @ plan_segments inc) = Inr (blob, segs)"
    and "map (\<lambda>seg. (pi_startFE seg, pi_endFE seg)) inc
      = map (\<lambda>a. (int (as_startFE a), int (as_endFE a))) (segment_ranges (segments_fes before) (plan_segments inc))"
    and "list_all (\<lambda>seg. pi_payloadBytes seg \<noteq> []
       \<and> (\<exists>sel. originals (pi_contentTag seg) = Some sel \<and> ag_payloadBytes sel = pi_payloadBytes seg
             \<and> binary_payload (ag_messages sel) (ag_payloadBytes sel))) inc"
  shows "verifySegments fz blob originals inc = Inr ()"
  using assms
proof (induction inc arbitrary: "before")
  case (Cons seg inc)
  let ?s = "\<lparr>si_contentTag = pi_contentTag seg, si_payload = pi_payloadBytes seg\<rparr>"
  obtain sel where sel: "originals (pi_contentTag seg) = Some sel" "ag_payloadBytes sel = pi_payloadBytes seg"
    "binary_payload (ag_messages sel) (ag_payloadBytes sel)" and ne: "pi_payloadBytes seg \<noteq> []"
    using Cons.prems(3) by auto
  have asm: "assembleMultiSegmentBlob (before @ ?s # plan_segments inc) = Inr (blob, segs)"
    using Cons.prems(1) by (simp add: plan_segments_def)
  have range: "pi_startFE seg = int (segments_fes before)" "pi_endFE seg = int (segments_fes before + segment_fes ?s)"
    using Cons.prems(2) by (simp_all add: plan_segments_def)
  have ext: "extractSegmentBytes blob (pi_startFE seg) (pi_endFE seg)
      = Inr (pi_payloadBytes seg @ zeros (31 * segment_fes ?s - length (pi_payloadBytes seg)))"
    using extract_assembled [OF asm] ne by (simp add: range)
  obtain eb where eb: "encodeBatch (map toBAMMessage (ag_messages sel)) (map dm_signature (ag_messages sel)) CodecNone = Inr eb"
    "pi_payloadBytes seg = eb_data eb"
    using sel(2,3) by (auto simp: binary_payload_def split: sum.splits)
  have "segment_fes ?s \<le> 4096"
    using asm by (auto simp: assemble_Inr_iff)
  then have "length (pi_payloadBytes seg) \<le> 4096 * 31"
    using ceil_div_bounds(1) [of 31 "length (pi_payloadBytes seg)"] mult_le_mono1 [of "segment_fes ?s" 4096 31]
    by (simp add: order_trans)
  then have "length (eb_data eb) \<le> 2 ^ 32"
    using eb(2) by simp
  from decode_head [OF eb(1) this, of fz] have dec:
    "decodeBatch fz (pi_payloadBytes seg) = Inr (map canonical_message (map toBAMMessage (ag_messages sel)), map dm_signature (ag_messages sel))"
    by (simp add: eb(2))
  have "verifySegments fz blob originals inc = Inr ()"
  proof (rule Cons.IH [of "before @ [?s]"])
    show "assembleMultiSegmentBlob ((before @ [?s]) @ plan_segments inc) = Inr (blob, segs)"
      using asm by simp
    show "map (\<lambda>seg. (pi_startFE seg, pi_endFE seg)) inc = map (\<lambda>a. (int (as_startFE a), int (as_endFE a)))
        (segment_ranges (segments_fes (before @ [?s])) (plan_segments inc))"
      using Cons.prems(2) by (simp add: plan_segments_def)
    show "list_all (\<lambda>seg. pi_payloadBytes seg \<noteq> []
       \<and> (\<exists>sel. originals (pi_contentTag seg) = Some sel \<and> ag_payloadBytes sel = pi_payloadBytes seg
             \<and> binary_payload (ag_messages sel) (ag_payloadBytes sel))) inc"
      using Cons.prems(3) by simp
  qed
  then show ?case
    by (simp add: sel ext dec)
qed simp

section \<open>The size estimate\<close>

lemma estimateBatchSize_sum:
  "estimateBatchSize ms = HEADER_SIZE + (\<Sum>m \<leftarrow> ms. RECORD_FIXED_OVERHEAD + length (m_contents m))"
proof -
  have "foldl (\<lambda>total m. total + RECORD_FIXED_OVERHEAD + length (m_contents m)) k ms
     = k + (\<Sum>m \<leftarrow> ms. RECORD_FIXED_OVERHEAD + length (m_contents m))" for k
    by (induction ms arbitrary: k) simp_all
  then show ?thesis by (simp add: estimateBatchSize_def)
qed

lemma estimateBatchSize_append_mono: "estimateBatchSize ms \<le> estimateBatchSize (ms @ ns)"
  by (simp add: estimateBatchSize_sum)

lemma estimateBatchSize_take_mono: "i \<le> j \<Longrightarrow> estimateBatchSize (take i ms) \<le> estimateBatchSize (take j ms)"
  using estimateBatchSize_append_mono [of "take i ms" "take (j - i) (drop i ms)"]
  by (simp flip: take_add)

section \<open>Properties\<close>

text \<open>
  With the binary size estimate, the greedy first-in-first-out fill picks the
  longest prefix of the pending queue whose encoding fits the capacity: what it picks
  fits, and every longer prefix of the queue overflows.
\<close>

theorem greedyFifoFill_longest_prefix:
  "\<exists>k \<le> length pending. greedyFifoFill pending cap estimateBatchSize = take k pending
     \<and> (k = 0 \<or> estimateBatchSize (map toBAMMessage (take k pending)) \<le> cap)
     \<and> (\<forall>j \<in> {k <.. length pending}. estimateBatchSize (map toBAMMessage (take j pending)) > cap)"
proof -
  from greedyFrom_prefix [of pending estimateBatchSize cap "[]"] obtain k where k: "k \<le> length pending"
    "greedyFifoFill pending cap estimateBatchSize = take k pending"
    "k < length pending \<Longrightarrow> estimateBatchSize (map toBAMMessage (take (Suc k) pending)) > cap"
    "\<And>j. 0 < j \<Longrightarrow> j \<le> k \<Longrightarrow> estimateBatchSize (map toBAMMessage (take j pending)) \<le> cap"
    unfolding greedyFifoFill_def by force
  have "estimateBatchSize (map toBAMMessage (take j pending)) > cap" if "k < j" "j \<le> length pending" for j
    using k(3) estimateBatchSize_take_mono [of "Suc k" j "map toBAMMessage pending"] that
    by (simp add: take_map)
  then show ?thesis
    using k by (intro exI [of _ k]) auto
qed

theorem greedyFifoFill_longest_prefix_witness:
  "\<exists>k \<le> 3. greedyFifoFill (replicate 3 \<lparr>dm_sender = [], dm_nonce = 0, dm_contents = zeros 10, dm_contentTag = [],
        dm_signature = [], dm_messageHash = [], dm_ingestedAt = None\<rparr>) 250 estimateBatchSize
     = replicate k \<lparr>dm_sender = [], dm_nonce = 0, dm_contents = zeros 10, dm_contentTag = [],
        dm_signature = [], dm_messageHash = [], dm_ingestedAt = None\<rparr>"
  using greedyFifoFill_longest_prefix [of "replicate 3 \<lparr>dm_sender = [], dm_nonce = 0, dm_contents = zeros 10, dm_contentTag = [],
        dm_signature = [], dm_messageHash = [], dm_ingestedAt = None\<rparr>" 250]
  by (metis length_replicate min_absorb1 take_replicate)


end
