(* ===== verification/Aggregator.thy ===== *)
theory Aggregator
  imports Pack
begin

text \<open>
  The Poster's cross-tag aggregator (packages/bam-poster/src/submission/aggregator.ts):
  the select phase, the passenger fill, the cap on tags per pack, the plan, and the
  per-tag starvation counters. The batch policy and the encoder are fields of the
  options, as in the code; an encoder that throws ends the tick with that error, and
  the counters already written stay written.
\<close>

record batch_policy =
  bp_select :: "string \<Rightarrow> pool_view \<Rightarrow> nat \<Rightarrow> nat \<Rightarrow> decoded_message list option"
  bp_fill :: "string \<Rightarrow> pool_view \<Rightarrow> nat \<Rightarrow> decoded_message list option"

definition defaultBatchPolicy :: "policy_config \<Rightarrow> batch_policy" where
  "defaultBatchPolicy config = \<lparr>bp_select = policySelect config, bp_fill = policyFill config\<rparr>"

record aggregator_options =
  ao_policy :: batch_policy
  ao_tags :: "string list"
  ao_maxTagsPerPack :: nat
  ao_capacity :: pack_capacity
  ao_blobCapacityBytes :: nat
  ao_encodeBatch :: "bam_message list \<Rightarrow> bytes list \<Rightarrow> batch_error + bytes"

definition default_encode :: "bam_message list \<Rightarrow> bytes list \<Rightarrow> batch_error + bytes" where
  "default_encode msgs sigs =
     (case encodeBatch msgs sigs CodecNone of Inl e \<Rightarrow> Inl e | Inr eb \<Rightarrow> Inr (eb_data eb))"

record tag_state =
  ts_packingLossStreak :: nat
  ts_lastIncludedAt :: "nat option"
  ts_pendingCount :: nat

type_synonym aggregator_state = "string \<rightharpoonup> tag_state"

definition createAggregator :: "aggregator_options \<Rightarrow> aggregator_state" where
  "createAggregator opts =
     (\<lambda>tag. if tag \<in> set (ao_tags opts)
            then Some \<lparr>ts_packingLossStreak = 0, ts_lastIncludedAt = None, ts_pendingCount = 0\<rparr> else None)"

definition on_tag :: "string \<Rightarrow> (tag_state \<Rightarrow> tag_state) \<Rightarrow> aggregator_state \<Rightarrow> aggregator_state" where
  "on_tag tag f st = (case st tag of None \<Rightarrow> st | Some ts \<Rightarrow> st(tag \<mapsto> f ts))"

record tick_acc =
  ta_selections :: "per_tag_selection list"
  ta_enriched :: "string \<rightharpoonup> agg_selection"
  ta_fired :: "string list"

definition empty_acc :: tick_acc where
  "empty_acc = \<lparr>ta_selections = [], ta_enriched = (\<lambda>_. None), ta_fired = []\<rparr>"

datatype tick_error =
    EncodeThrow batch_error
  | NeverEnriched string

record pack_result =
  pr_plan :: pack_plan
  pr_includedSelections :: "string \<rightharpoonup> agg_selection"
  pr_excludedTags :: "string list"

text \<open>The body both phases share: encode the picked messages, push the selection, enrich the tag.\<close>

definition addSelection ::
  "aggregator_options \<Rightarrow> string \<Rightarrow> decoded_message list \<Rightarrow> nat \<Rightarrow> decoded_message list \<Rightarrow> tick_acc \<Rightarrow> tick_error + tick_acc" where
  "addSelection opts tag pool now msgs acc =
     (let oldestIngestedAt = (case dm_ingestedAt (hd pool) of Some t \<Rightarrow> t | None \<Rightarrow> now)
      in case ao_encodeBatch opts (map toBAMMessage msgs) (map dm_signature msgs) of
           Inl e \<Rightarrow> Inl (EncodeThrow e)
         | Inr data \<Rightarrow>
             Inr (acc\<lparr>ta_selections := ta_selections acc @
                        [\<lparr>ps_contentTag = tag, ps_payloadBytes = data, ps_oldestIngestedAt = oldestIngestedAt,
                          ps_pendingMessageCount = length pool\<rparr>],
                      ta_enriched := (ta_enriched acc)(tag \<mapsto>
                        \<lparr>ag_contentTag = tag, ag_messages = msgs, ag_payloadBytes = data\<rparr>)\<rparr>))"

primrec selectPhase ::
  "aggregator_options \<Rightarrow> pool_view \<Rightarrow> nat \<Rightarrow> string list \<Rightarrow> tick_acc \<Rightarrow> aggregator_state
     \<Rightarrow> (tick_error + tick_acc) \<times> aggregator_state" where
  "selectPhase opts pools now [] acc st = (Inr acc, st)"
| "selectPhase opts pools now (tag # tags) acc st =
     (let pool = pools tag;
          st1 = on_tag tag (\<lambda>ts. ts\<lparr>ts_pendingCount := length pool\<rparr>) st
      in if length pool = 0 then selectPhase opts pools now tags acc st1
         else case bp_select (ao_policy opts) tag pools (ao_blobCapacityBytes opts) now of
           None \<Rightarrow> selectPhase opts pools now tags acc st1
         | Some picked \<Rightarrow>
             if length picked = 0 then selectPhase opts pools now tags acc st1
             else (case addSelection opts tag pool now picked (acc\<lparr>ta_fired := tag # ta_fired acc\<rparr>) of
                     Inl e \<Rightarrow> (Inl e, st1)
                   | Inr acc1 \<Rightarrow> selectPhase opts pools now tags acc1 st1))"

primrec fillPhase ::
  "aggregator_options \<Rightarrow> pool_view \<Rightarrow> nat \<Rightarrow> string list \<Rightarrow> tick_acc \<Rightarrow> tick_error + tick_acc" where
  "fillPhase opts pools now [] acc = Inr acc"
| "fillPhase opts pools now (tag # tags) acc =
     (if tag \<in> set (ta_fired acc) then fillPhase opts pools now tags acc
      else let pool = pools tag in
        if length pool = 0 then fillPhase opts pools now tags acc
        else case bp_fill (ao_policy opts) tag pools (ao_blobCapacityBytes opts) of
          None \<Rightarrow> fillPhase opts pools now tags acc
        | Some filled \<Rightarrow>
            if length filled = 0 then fillPhase opts pools now tags acc
            else ebind (addSelection opts tag pool now filled acc) (fillPhase opts pools now tags))"

definition updateStreak :: "string set \<Rightarrow> string list \<Rightarrow> nat \<Rightarrow> string \<Rightarrow> aggregator_state \<Rightarrow> aggregator_state" where
  "updateStreak included fired nowMs tag st =
     (let wasIncluded = (tag \<in> included); wasTrigger = (tag \<in> set fired)
      in if wasIncluded
         then on_tag tag (\<lambda>ts. ts\<lparr>ts_lastIncludedAt := Some nowMs,
                ts_packingLossStreak := (if wasTrigger then 0 else ts_packingLossStreak ts)\<rparr>) st
         else if wasTrigger
         then on_tag tag (\<lambda>ts. ts\<lparr>ts_packingLossStreak := ts_packingLossStreak ts + 1\<rparr>) st
         else st)"

fun pruneSelections ::
  "(string \<rightharpoonup> agg_selection) \<Rightarrow> plan_included list \<Rightarrow> (string \<rightharpoonup> agg_selection) \<Rightarrow> tick_error + (string \<rightharpoonup> agg_selection)" where
  "pruneSelections enriched [] acc = Inr acc"
| "pruneSelections enriched (seg # segs) acc =
     (case enriched (pi_contentTag seg) of
        None \<Rightarrow> Inl (NeverEnriched (pi_contentTag seg))
      | Some sel \<Rightarrow> pruneSelections enriched segs (acc(pi_contentTag seg \<mapsto> sel)))"

definition cappedSelections :: "aggregator_options \<Rightarrow> per_tag_selection list \<Rightarrow> per_tag_selection list" where
  "cappedSelections opts sels = take (max 1 (ao_maxTagsPerPack opts)) (sort_key compareKey sels)"

definition packSelections ::
  "aggregator_options \<Rightarrow> nat \<Rightarrow> tick_acc \<Rightarrow> aggregator_state
     \<Rightarrow> (tick_error + pack_result option) \<times> aggregator_state" where
  "packSelections opts now acc st =
     (let sortedByAge = sort_key compareKey (ta_selections acc);
          capped = cappedSelections opts (ta_selections acc);
          cappedExcluded = drop (max 1 (ao_maxTagsPerPack opts)) sortedByAge;
          plan = planPack capped (ao_capacity opts);
          includedTags = set (map pi_contentTag (pp_included plan));
          excludedTags = map pe_contentTag (pp_excluded plan) @ map ps_contentTag cappedExcluded;
          st1 = fold (updateStreak includedTags (ta_fired acc) now) (ao_tags opts) st
      in case pruneSelections (ta_enriched acc) (pp_included plan) (\<lambda>_. None) of
           Inl e \<Rightarrow> (Inl e, st1)
         | Inr pruned \<Rightarrow> (Inr (Some \<lparr>pr_plan = plan, pr_includedSelections = pruned,
                                       pr_excludedTags = excludedTags\<rparr>), st1))"

definition aggregatorTick ::
  "aggregator_options \<Rightarrow> pool_view \<Rightarrow> nat \<Rightarrow> aggregator_state
     \<Rightarrow> (tick_error + pack_result option) \<times> aggregator_state" where
  "aggregatorTick opts pools now st =
     (case selectPhase opts pools now (ao_tags opts) empty_acc st of
        (Inl e, st1) \<Rightarrow> (Inl e, st1)
      | (Inr acc, st1) \<Rightarrow>
          if length (ta_selections acc) = 0 then (Inr None, st1)
          else case fillPhase opts pools now (ao_tags opts) acc of
            Inl e \<Rightarrow> (Inl e, st1)
          | Inr acc1 \<Rightarrow> packSelections opts now acc1 st1)"

record packing_loss_snapshot =
  pls_contentTag :: string
  pls_pendingCount :: nat
  pls_packingLossStreak :: nat
  pls_lastIncludedAt :: "nat option"

definition packingLossSnapshot :: "aggregator_options \<Rightarrow> aggregator_state \<Rightarrow> packing_loss_snapshot list" where
  "packingLossSnapshot opts st =
     map (\<lambda>tag. case st tag of
            Some s \<Rightarrow> \<lparr>pls_contentTag = tag, pls_pendingCount = ts_pendingCount s,
                       pls_packingLossStreak = ts_packingLossStreak s, pls_lastIncludedAt = ts_lastIncludedAt s\<rparr>
          | None \<Rightarrow> \<lparr>pls_contentTag = tag, pls_pendingCount = 0, pls_packingLossStreak = 0, pls_lastIncludedAt = None\<rparr>)
       (ao_tags opts)"

section \<open>What the phases collect\<close>

text \<open>
  Every enriched entry holds the messages the policy gave for its tag and their
  encoding, and every selection has an entry with the same payload.
\<close>

definition oldest_of :: "pool_view \<Rightarrow> nat \<Rightarrow> string \<Rightarrow> nat" where
  "oldest_of pools now tag = (case dm_ingestedAt (hd (pools tag)) of Some t \<Rightarrow> t | None \<Rightarrow> now)"

definition acc_ok ::
  "aggregator_options \<Rightarrow> pool_view \<Rightarrow> nat \<Rightarrow> (string \<Rightarrow> decoded_message list option) \<Rightarrow> tick_acc \<Rightarrow> bool" where
  "acc_ok opts pools now pick acc \<longleftrightarrow>
     (\<forall>t sel. ta_enriched acc t = Some sel \<longrightarrow> ag_contentTag sel = t \<and> ag_messages sel \<noteq> [] \<and> t \<in> set (ao_tags opts)
        \<and> pick t = Some (ag_messages sel)
        \<and> ao_encodeBatch opts (map toBAMMessage (ag_messages sel)) (map dm_signature (ag_messages sel)) = Inr (ag_payloadBytes sel))
     \<and> (\<forall>s \<in> set (ta_selections acc). \<exists>sel. ta_enriched acc (ps_contentTag s) = Some sel \<and> ag_payloadBytes sel = ps_payloadBytes s)
     \<and> (\<forall>s \<in> set (ta_selections acc). ps_oldestIngestedAt s = oldest_of pools now (ps_contentTag s) \<and> pools (ps_contentTag s) \<noteq> [])"

lemma addSelection_Inr:
  "addSelection opts tag pool now msgs acc = Inr acc' \<longleftrightarrow>
   (\<exists>data. ao_encodeBatch opts (map toBAMMessage msgs) (map dm_signature msgs) = Inr data
     \<and> acc' = acc\<lparr>ta_selections := ta_selections acc @
                    [\<lparr>ps_contentTag = tag, ps_payloadBytes = data,
                      ps_oldestIngestedAt = (case dm_ingestedAt (hd pool) of Some t \<Rightarrow> t | None \<Rightarrow> now),
                      ps_pendingMessageCount = length pool\<rparr>],
                  ta_enriched := (ta_enriched acc)(tag \<mapsto>
                    \<lparr>ag_contentTag = tag, ag_messages = msgs, ag_payloadBytes = data\<rparr>)\<rparr>)"
  by (auto simp: addSelection_def Let_def split: sum.splits)

lemma addSelection_ok:
  assumes "addSelection opts tag (pools tag) now msgs acc = Inr acc'" "acc_ok opts pools now pick acc"
    and "pools tag \<noteq> []" "pick tag = Some msgs" "msgs \<noteq> []" "tag \<in> set (ao_tags opts)"
  shows "acc_ok opts pools now pick acc'" "set (map ps_contentTag (ta_selections acc')) = insert tag (set (map ps_contentTag (ta_selections acc)))"
    "ta_fired acc' = ta_fired acc" "dom (ta_enriched acc') = insert tag (dom (ta_enriched acc))"
proof -
  from assms(1) obtain data where data: "ao_encodeBatch opts (map toBAMMessage msgs) (map dm_signature msgs) = Inr data"
    and sels: "ta_selections acc' = ta_selections acc @
                    [\<lparr>ps_contentTag = tag, ps_payloadBytes = data,
                      ps_oldestIngestedAt = oldest_of pools now tag,
                      ps_pendingMessageCount = length (pools tag)\<rparr>]"
    and enr: "ta_enriched acc' = (ta_enriched acc)(tag \<mapsto> \<lparr>ag_contentTag = tag, ag_messages = msgs, ag_payloadBytes = data\<rparr>)"
    and fired: "ta_fired acc' = ta_fired acc"
    by (auto simp: addSelection_Inr oldest_of_def)
  have old: "ag_payloadBytes sel = data" if "ta_enriched acc tag = Some sel" for sel
    using assms(2,4) that data by (auto simp: acc_ok_def)
  show "acc_ok opts pools now pick acc'"
    unfolding acc_ok_def
  proof (intro conjI allI impI ballI)
    fix s assume "s \<in> set (ta_selections acc')"
    then show "\<exists>sel. ta_enriched acc' (ps_contentTag s) = Some sel \<and> ag_payloadBytes sel = ps_payloadBytes s"
      using assms(2) old by (fastforce simp: sels enr acc_ok_def)
  qed (use assms(2-6) data in \<open>auto simp: sels enr acc_ok_def split: if_splits\<close>)
  show "set (map ps_contentTag (ta_selections acc')) = insert tag (set (map ps_contentTag (ta_selections acc)))"
    by (simp add: sels)
  show "ta_fired acc' = ta_fired acc" "dom (ta_enriched acc') = insert tag (dom (ta_enriched acc))"
    by (simp_all add: fired enr)
qed

lemma acc_ok_fired [simp]: "acc_ok opts pools now pick (acc\<lparr>ta_fired := fs\<rparr>) = acc_ok opts pools now pick acc"
  by (simp add: acc_ok_def)

lemma selectPhase_ok:
  assumes "selectPhase opts pools now tags acc st = (Inr acc', st')" "set tags \<subseteq> set (ao_tags opts)"
    and "acc_ok opts pools now (\<lambda>t. bp_select (ao_policy opts) t pools (ao_blobCapacityBytes opts) now) acc"
    and "dom (ta_enriched acc) = set (ta_fired acc)" "set (map ps_contentTag (ta_selections acc)) = set (ta_fired acc)"
  shows "acc_ok opts pools now (\<lambda>t. bp_select (ao_policy opts) t pools (ao_blobCapacityBytes opts) now) acc'
    \<and> dom (ta_enriched acc') = set (ta_fired acc') \<and> set (map ps_contentTag (ta_selections acc')) = set (ta_fired acc')
    \<and> set (ta_fired acc) \<subseteq> set (ta_fired acc')"
  using assms
proof (induction tags arbitrary: acc st)
  case Nil
  then show ?case by simp
next
  case (Cons tag tags)
  let ?st = "on_tag tag (\<lambda>ts. ts\<lparr>ts_pendingCount := length (pools tag)\<rparr>) st"
  show ?case
  proof (cases "pools tag = [] \<or> bp_select (ao_policy opts) tag pools (ao_blobCapacityBytes opts) now \<in> {None, Some []}")
    case True
    then have "selectPhase opts pools now tags acc ?st = (Inr acc', st')"
      using Cons.prems(1) by (auto simp: Let_def split: if_splits)
    then show ?thesis using Cons.IH [of acc ?st] Cons.prems by simp
  next
    case False
    then obtain msgs where m: "pools tag \<noteq> []" "msgs \<noteq> []"
      "bp_select (ao_policy opts) tag pools (ao_blobCapacityBytes opts) now = Some msgs"
      by auto
    then obtain acc1 where a: "addSelection opts tag (pools tag) now msgs (acc\<lparr>ta_fired := tag # ta_fired acc\<rparr>) = Inr acc1"
      "selectPhase opts pools now tags acc1 ?st = (Inr acc', st')"
      using Cons.prems(1) by (auto simp: Let_def split: sum.splits)
    note ok = addSelection_ok [where pools = pools and pick = "\<lambda>t. bp_select (ao_policy opts) t pools (ao_blobCapacityBytes opts) now", OF a(1)]
    show ?thesis
      using Cons.IH [OF a(2)] ok m Cons.prems by simp
  qed
qed


lemma fillPhase_ok:
  assumes "fillPhase opts pools now tags acc = Inr acc'" "set tags \<subseteq> set (ao_tags opts)"
    and "acc_ok opts pools now (\<lambda>t. if t \<in> set (ta_fired acc) then pick t else bp_fill (ao_policy opts) t pools (ao_blobCapacityBytes opts)) acc"
  shows "acc_ok opts pools now (\<lambda>t. if t \<in> set (ta_fired acc) then pick t else bp_fill (ao_policy opts) t pools (ao_blobCapacityBytes opts)) acc'
    \<and> ta_fired acc' = ta_fired acc \<and> set (ta_selections acc) \<subseteq> set (ta_selections acc')"
  using assms
proof (induction tags arbitrary: acc)
  case Nil
  then show ?case by simp
next
  case (Cons tag tags)
  show ?case
  proof (cases "tag \<in> set (ta_fired acc) \<or> pools tag = []
      \<or> bp_fill (ao_policy opts) tag pools (ao_blobCapacityBytes opts) \<in> {None, Some []}")
    case True
    then have "fillPhase opts pools now tags acc = Inr acc'"
      using Cons.prems(1) by (auto simp: Let_def split: if_splits)
    then show ?thesis using Cons.IH [of acc] Cons.prems by simp
  next
    case False
    then obtain msgs where m: "tag \<notin> set (ta_fired acc)" "pools tag \<noteq> []" "msgs \<noteq> []"
      "bp_fill (ao_policy opts) tag pools (ao_blobCapacityBytes opts) = Some msgs"
      by auto
    then obtain acc1 where a: "addSelection opts tag (pools tag) now msgs acc = Inr acc1"
      "fillPhase opts pools now tags acc1 = Inr acc'"
      using Cons.prems(1) by (auto simp: Let_def)
    note ok = addSelection_ok [where pools = pools, OF a(1) Cons.prems(3)]
    have "set (ta_selections acc) \<subseteq> set (ta_selections acc1)"
      using a(1) by (auto simp: addSelection_Inr)
    then show ?thesis
      using Cons.IH [OF a(2)] ok m Cons.prems(2,3) by auto
  qed
qed

lemma selectPhase_fired:
  "selectPhase opts pools now tags acc st = (Inr acc', st') \<Longrightarrow>
   set (ta_fired acc') = set (ta_fired acc) \<union> {t \<in> set tags. pools t \<noteq> []
     \<and> bp_select (ao_policy opts) t pools (ao_blobCapacityBytes opts) now \<notin> {None, Some []}}"
proof (induction tags arbitrary: acc st)
  case (Cons tag tags)
  then show ?case
    by (auto simp: Let_def addSelection_Inr split: if_splits option.splits sum.splits)
qed simp

lemma pruneSelections_eq:
  "(\<And>seg. seg \<in> set segs \<Longrightarrow> enriched (pi_contentTag seg) \<noteq> None) \<Longrightarrow>
   pruneSelections enriched segs acc = Inr (\<lambda>t. if t \<in> set (map pi_contentTag segs) then enriched t else acc t)"
proof (induction segs arbitrary: acc)
  case (Cons seg segs)
  then obtain sel where "enriched (pi_contentTag seg) = Some sel"
    by fastforce
  with Cons show ?case by (auto simp: fun_eq_iff)
qed simp

lemma packSelections_acc:
  assumes "acc_ok opts pools now pick acc"
  shows "packSelections opts now acc st =
     (let plan = planPack (cappedSelections opts (ta_selections acc)) (ao_capacity opts) in
      (Inr (Some \<lparr>pr_plan = plan,
          pr_includedSelections = (\<lambda>t. if t \<in> set (map pi_contentTag (pp_included plan)) then ta_enriched acc t else None),
          pr_excludedTags = map pe_contentTag (pp_excluded plan)
            @ map ps_contentTag (drop (max 1 (ao_maxTagsPerPack opts)) (sort_key compareKey (ta_selections acc)))\<rparr>),
       fold (updateStreak (set (map pi_contentTag (pp_included plan))) (ta_fired acc) now) (ao_tags opts) st))"
proof -
  let ?plan = "planPack (cappedSelections opts (ta_selections acc)) (ao_capacity opts)"
  have enr: "ta_enriched acc (pi_contentTag seg) \<noteq> None" if seg: "seg \<in> set (pp_included ?plan)" for seg
  proof -
    obtain s where "s \<in> set (sort_key compareKey (cappedSelections opts (ta_selections acc)))" "ps_contentTag s = pi_contentTag seg"
      using seg planFrom_members by (fastforce simp: planPack_def split_beta)
    then have "s \<in> set (ta_selections acc)"
      by (auto simp: cappedSelections_def dest: in_set_takeD)
    then show ?thesis
      using assms \<open>ps_contentTag s = pi_contentTag seg\<close> by (fastforce simp: acc_ok_def)
  qed
  show ?thesis
    using pruneSelections_eq [of "pp_included ?plan" "ta_enriched acc" "\<lambda>_. None", OF enr] by (simp add: packSelections_def Let_def)
qed

definition fires :: "aggregator_options \<Rightarrow> pool_view \<Rightarrow> nat \<Rightarrow> string \<Rightarrow> bool" where
  "fires opts pools now t \<longleftrightarrow> pools t \<noteq> []
     \<and> bp_select (ao_policy opts) t pools (ao_blobCapacityBytes opts) now \<notin> {None, Some []}"

text \<open>What the policy contributes for a tag, once the tags that fired are known.\<close>

definition picks :: "aggregator_options \<Rightarrow> pool_view \<Rightarrow> nat \<Rightarrow> string \<Rightarrow> decoded_message list option" where
  "picks opts pools now t =
     (if fires opts pools now t then bp_select (ao_policy opts) t pools (ao_blobCapacityBytes opts) now
      else bp_fill (ao_policy opts) t pools (ao_blobCapacityBytes opts))"

lemma acc_ok_empty: "acc_ok opts pools now pick empty_acc"
  by (simp add: acc_ok_def empty_acc_def)

lemma acc_ok_entry:
  "acc_ok opts pools now pick acc \<Longrightarrow> ta_enriched acc t = Some sel \<Longrightarrow>
   ag_contentTag sel = t \<and> ag_messages sel \<noteq> [] \<and> t \<in> set (ao_tags opts) \<and> pick t = Some (ag_messages sel)
   \<and> ao_encodeBatch opts (map toBAMMessage (ag_messages sel)) (map dm_signature (ag_messages sel)) = Inr (ag_payloadBytes sel)"
  by (simp add: acc_ok_def)

lemma acc_ok_selection:
  "acc_ok opts pools now pick acc \<Longrightarrow> s \<in> set (ta_selections acc) \<Longrightarrow>
   (\<exists>sel. ta_enriched acc (ps_contentTag s) = Some sel \<and> ag_payloadBytes sel = ps_payloadBytes s)
   \<and> ps_oldestIngestedAt s = oldest_of pools now (ps_contentTag s) \<and> pools (ps_contentTag s) \<noteq> []"
  by (simp add: acc_ok_def)

lemma acc_ok_mono:
  assumes "acc_ok opts pools now pick acc" and "\<And>t. ta_enriched acc t \<noteq> None \<Longrightarrow> pick t = pick' t"
  shows "acc_ok opts pools now pick' acc"
proof -
  have "pick t = pick' t" if "ta_enriched acc t = Some sel" for t sel
    using assms(2) that by simp
  then show ?thesis
    using assms(1) by (simp add: acc_ok_def)
qed

lemma tick_Inr:
  assumes "aggregatorTick opts pools now st = (Inr r, st')"
  obtains (idle) "r = None" "\<forall>t \<in> set (ao_tags opts). \<not> fires opts pools now t"
      "\<exists>acc. selectPhase opts pools now (ao_tags opts) empty_acc st = (Inr acc, st')"
  | (pack) acc st1 acc0 where "selectPhase opts pools now (ao_tags opts) empty_acc st = (Inr acc0, st1)"
      "set (ta_fired acc) = {t \<in> set (ao_tags opts). fires opts pools now t}" "set (ta_fired acc) \<noteq> {}"
      "set (ta_fired acc) \<subseteq> set (map ps_contentTag (ta_selections acc))"
      "acc_ok opts pools now (picks opts pools now) acc" "packSelections opts now acc st1 = (Inr r, st')" "r \<noteq> None"
proof -
  from assms obtain acc0 st1 where sel: "selectPhase opts pools now (ao_tags opts) empty_acc st = (Inr acc0, st1)"
    by (auto simp: aggregatorTick_def split: prod.splits sum.splits)
  let ?select = "\<lambda>t. bp_select (ao_policy opts) t pools (ao_blobCapacityBytes opts) now"
  have ok0: "acc_ok opts pools now ?select acc0" "dom (ta_enriched acc0) = set (ta_fired acc0)"
      "set (map ps_contentTag (ta_selections acc0)) = set (ta_fired acc0)"
    using selectPhase_ok [OF sel order_refl acc_ok_empty] by (simp_all add: empty_acc_def)
  have fired0: "set (ta_fired acc0) = {t \<in> set (ao_tags opts). fires opts pools now t}"
    using selectPhase_fired [OF sel] by (auto simp: empty_acc_def fires_def)
  show thesis
  proof (cases "ta_selections acc0 = []")
    case True
    then have "r = None" "st' = st1"
      using assms sel by (simp_all add: aggregatorTick_def)
    moreover have "\<forall>t \<in> set (ao_tags opts). \<not> fires opts pools now t"
      using True ok0(3) fired0 by auto
    ultimately show thesis
      using idle sel by blast
  next
    case False
    then obtain acc where fill: "fillPhase opts pools now (ao_tags opts) acc0 = Inr acc"
      and p: "packSelections opts now acc st1 = (Inr r, st')"
      using assms sel by (auto simp: aggregatorTick_def split: sum.splits)
    have "acc_ok opts pools now (\<lambda>t. if t \<in> set (ta_fired acc0) then ?select t
        else bp_fill (ao_policy opts) t pools (ao_blobCapacityBytes opts)) acc0"
      using ok0(1) by (rule acc_ok_mono) (use ok0(2) in auto)
    from fillPhase_ok [OF fill order_refl this]
    have ok: "acc_ok opts pools now (\<lambda>t. if t \<in> set (ta_fired acc0) then ?select t
        else bp_fill (ao_policy opts) t pools (ao_blobCapacityBytes opts)) acc"
      "ta_fired acc = ta_fired acc0" "set (ta_selections acc0) \<subseteq> set (ta_selections acc)"
      by simp_all
    have "acc_ok opts pools now (picks opts pools now) acc"
    proof (rule acc_ok_mono [OF ok(1)])
      fix t assume "ta_enriched acc t \<noteq> None"
      then have "t \<in> set (ao_tags opts)"
        using ok(1) by (auto simp: acc_ok_def)
      then show "(if t \<in> set (ta_fired acc0) then ?select t else bp_fill (ao_policy opts) t pools (ao_blobCapacityBytes opts))
          = picks opts pools now t"
        by (simp add: fired0 picks_def)
    qed
    moreover have r: "r \<noteq> None"
      using p packSelections_acc [OF ok(1)] by (auto simp: Let_def)
    moreover have "set (ta_fired acc) \<subseteq> set (map ps_contentTag (ta_selections acc))"
      using image_mono [OF ok(3), of ps_contentTag] ok(2) ok0(3) by simp
    moreover have "set (ta_fired acc) \<noteq> {}"
      using ok(2) ok0(3) False by auto
    ultimately show thesis
      using pack [OF sel _ _ _ _ p r] fired0 ok(2) by simp
  qed
qed

lemma tick_pack:
  assumes "aggregatorTick opts pools now st = (Inr (Some pr), st')"
  obtains acc st1 acc0 where "selectPhase opts pools now (ao_tags opts) empty_acc st = (Inr acc0, st1)"
      "set (ta_fired acc) = {t \<in> set (ao_tags opts). fires opts pools now t}" "set (ta_fired acc) \<noteq> {}"
      "set (ta_fired acc) \<subseteq> set (map ps_contentTag (ta_selections acc))"
      "acc_ok opts pools now (picks opts pools now) acc"
      "pr_plan pr = planPack (cappedSelections opts (ta_selections acc)) (ao_capacity opts)"
      "pr_includedSelections pr = (\<lambda>t. if t \<in> set (map pi_contentTag (pp_included (pr_plan pr))) then ta_enriched acc t else None)"
      "st' = fold (updateStreak (set (map pi_contentTag (pp_included (pr_plan pr)))) (ta_fired acc) now) (ao_tags opts) st1"
      "pr_excludedTags pr = map pe_contentTag (pp_excluded (pr_plan pr))
            @ map ps_contentTag (drop (max 1 (ao_maxTagsPerPack opts)) (sort_key compareKey (ta_selections acc)))"
proof (rule tick_Inr [OF assms])
  fix acc st1 acc0
  assume a: "selectPhase opts pools now (ao_tags opts) empty_acc st = (Inr acc0, st1)"
      "set (ta_fired acc) = {t \<in> set (ao_tags opts). fires opts pools now t}" "set (ta_fired acc) \<noteq> {}"
      "set (ta_fired acc) \<subseteq> set (map ps_contentTag (ta_selections acc))"
      "acc_ok opts pools now (picks opts pools now) acc" and p: "packSelections opts now acc st1 = (Inr (Some pr), st')"
  show thesis
    using that [OF a] p by (auto simp: packSelections_acc [OF a(5)] Let_def)
qed simp_all

section \<open>The counters\<close>

lemma on_tag_other [simp]: "t \<noteq> tag \<Longrightarrow> on_tag tag f st t = st t"
  by (simp add: on_tag_def split: option.splits)

lemma on_tag_same [simp]: "on_tag tag f st tag = map_option f (st tag)"
  by (simp add: on_tag_def split: option.splits)

lemma on_tag_apply: "on_tag tag f st t = (if t = tag then map_option f (st t) else st t)"
  by simp

lemma selectPhase_state:
  assumes "selectPhase opts pools now tags acc st = (Inr acc', st')"
  shows "st' t = (if t \<in> set tags then map_option (\<lambda>ts. ts\<lparr>ts_pendingCount := length (pools t)\<rparr>) (st t) else st t)"
  using assms
proof (induction tags arbitrary: acc st)
  case Nil
  then show ?case by simp
next
  case (Cons tag tags)
  let ?st = "on_tag tag (\<lambda>ts. ts\<lparr>ts_pendingCount := length (pools tag)\<rparr>) st"
  obtain acc1 where "selectPhase opts pools now tags acc1 ?st = (Inr acc', st')"
    using Cons.prems by (auto simp: Let_def split: if_splits option.splits sum.splits)
  from Cons.IH [OF this] show ?case
    by (auto simp: on_tag_apply option.map_comp o_def)
qed

lemma fold_updateStreak_other: "t \<notin> set tags \<Longrightarrow> fold (updateStreak inc fired now) tags st t = st t"
  by (induction tags arbitrary: st) (auto simp: updateStreak_def Let_def)

lemma fold_updateStreak:
  "distinct tags \<Longrightarrow> t \<in> set tags \<Longrightarrow> fold (updateStreak inc fired now) tags st t = updateStreak inc fired now t st t"
proof (induction tags arbitrary: st)
  case (Cons tag tags)
  have upd: "updateStreak inc fired now t (updateStreak inc fired now tag st) t = updateStreak inc fired now t st t" if "t \<noteq> tag"
    using that by (simp add: updateStreak_def Let_def)
  show ?case
  proof (cases "t = tag")
    case True
    then show ?thesis
      using Cons.prems by (simp add: fold_updateStreak_other)
  next
    case False
    then show ?thesis
      using Cons.prems Cons.IH [of "updateStreak inc fired now tag st"] upd by simp
  qed
qed simp

section \<open>Which tags a plan holds\<close>

lemma planFrom_fits_bytes:
  "seg \<in> set (fst (planFrom cap c u ss)) \<Longrightarrow> length (pi_payloadBytes seg) \<le> pc_maxBytes cap"
proof (induction ss arbitrary: c u)
  case (Cons s ss)
  then show ?case by (auto simp: planFrom_Cons split: if_splits)
qed simp

text \<open>
  Selections of the same tag are equal up to the encoding of the tag's messages, which
  is why the order between them does not matter; the key of a selection is its age and tag.
\<close>

lemma acc_ok_keys:
  assumes "acc_ok opts pools now pick acc" "s \<in> set (ta_selections acc)"
  shows "compareKey s = (oldest_of pools now (ps_contentTag s), ps_contentTag s)"
  using assms by (simp add: acc_ok_def compareKey_def)

lemma sorted_first_key:
  assumes "s \<in> set sels" and "\<And>y. y \<in> set sels \<Longrightarrow> compareKey s \<le> compareKey y"
  obtains s1 rest where "sort_key compareKey sels = s1 # rest" "s1 \<in> set sels" "ps_contentTag s1 = ps_contentTag s"
proof -
  obtain s1 rest where e: "sort_key compareKey sels = s1 # rest"
    using assms(1) by (cases "sort_key compareKey sels") (auto dest: arg_cong [of _ _ set])
  have "sorted (map compareKey (s1 # rest))" "s \<in> set (s1 # rest)" "s1 \<in> set sels"
    using e assms(1) by (metis sorted_sort_key, metis set_sort, metis list.set_intros(1) set_sort)
  then have "compareKey s1 \<le> compareKey s" "compareKey s \<le> compareKey s1"
    using assms(2) by auto
  then have "ps_contentTag s1 = ps_contentTag s"
    by (auto simp: compareKey_def)
  then show thesis using that e \<open>s1 \<in> set sels\<close> by blast
qed

lemma tick_selection:
  assumes "aggregatorTick opts pools now st = (Inr (Some pr), st')" "seg \<in> set (pp_included (pr_plan pr))"
  obtains msgs where "picks opts pools now (pi_contentTag seg) = Some msgs" "msgs \<noteq> []"
    "ao_encodeBatch opts (map toBAMMessage msgs) (map dm_signature msgs) = Inr (pi_payloadBytes seg)"
    "pr_includedSelections pr (pi_contentTag seg)
        = Some \<lparr>ag_contentTag = pi_contentTag seg, ag_messages = msgs, ag_payloadBytes = pi_payloadBytes seg\<rparr>"
proof (rule tick_pack [OF assms(1)])
  fix acc st1 acc0
  assume ok: "acc_ok opts pools now (picks opts pools now) acc"
    and plan: "pr_plan pr = planPack (cappedSelections opts (ta_selections acc)) (ao_capacity opts)"
    and sel: "pr_includedSelections pr = (\<lambda>t. if t \<in> set (map pi_contentTag (pp_included (pr_plan pr))) then ta_enriched acc t else None)"
  obtain s where s: "s \<in> set (sort_key compareKey (cappedSelections opts (ta_selections acc)))"
    "ps_contentTag s = pi_contentTag seg" "ps_payloadBytes s = pi_payloadBytes seg"
    using assms(2) planFrom_members by (fastforce simp: plan planPack_def split_beta)
  then have "s \<in> set (ta_selections acc)"
    by (auto simp: cappedSelections_def dest: in_set_takeD)
  then obtain e where e: "ta_enriched acc (pi_contentTag seg) = Some e" "ag_payloadBytes e = pi_payloadBytes seg"
    using acc_ok_selection [OF ok, of s] s(2,3) by auto
  then show thesis
    using acc_ok_entry [OF ok e(1)] assms(2) that [of "ag_messages e"] by (simp add: sel agg_selection.equality)
qed

section \<open>Properties\<close>

text \<open>
  The aggregator's tick never reaches its own invariant error: no plan names a tag
  that was not enriched, whatever the policy, the encoder, the pools and the counters.
\<close>

theorem tick_never_unenriched: "fst (aggregatorTick opts pools now st) \<noteq> Inl (NeverEnriched tag)"
proof
  assume "fst (aggregatorTick opts pools now st) = Inl (NeverEnriched tag)"
  moreover have sel: "fst (selectPhase opts pools now tags acc st) \<noteq> Inl (NeverEnriched tag)" for tags acc st
    by (induction tags arbitrary: acc st)
      (auto simp: Let_def addSelection_def split: option.splits sum.splits)
  moreover have fill: "fillPhase opts pools now tags acc \<noteq> Inl (NeverEnriched tag)" for tags acc
    by (induction tags arbitrary: acc)
      (auto simp: Let_def addSelection_def ebind_Inl_iff split: option.splits sum.splits)
  ultimately obtain acc0 acc st1 where
    s: "selectPhase opts pools now (ao_tags opts) empty_acc st = (Inr acc0, st1)"
    and f: "fillPhase opts pools now (ao_tags opts) acc0 = Inr acc"
    and p: "fst (packSelections opts now acc st1) = Inl (NeverEnriched tag)"
    by (auto simp: aggregatorTick_def split: prod.splits sum.splits if_splits) (metis fst_conv)
  have ok0: "acc_ok opts pools now (\<lambda>t. bp_select (ao_policy opts) t pools (ao_blobCapacityBytes opts) now) acc0"
    and dom: "dom (ta_enriched acc0) = set (ta_fired acc0)"
    using selectPhase_ok [OF s order_refl acc_ok_empty] by (simp_all add: empty_acc_def)
  have "acc_ok opts pools now (\<lambda>t. if t \<in> set (ta_fired acc0)
      then bp_select (ao_policy opts) t pools (ao_blobCapacityBytes opts) now
      else bp_fill (ao_policy opts) t pools (ao_blobCapacityBytes opts)) acc0"
    using ok0 by (rule acc_ok_mono) (use dom in auto)
  note ok = conjunct1 [OF fillPhase_ok [OF f order_refl this]]
  show False
    using p unfolding packSelections_acc [OF ok] by (simp add: Let_def)
qed

text \<open>
  The selections a tick hands to the submitter are exactly those of the plan's
  tags: each included segment carries the encoding of the messages the policy picked
  for its tag, and those messages are the entry's messages.
\<close>

theorem tick_included_selections:
  assumes "aggregatorTick opts pools now st = (Inr (Some pr), st')" "seg \<in> set (pp_included (pr_plan pr))"
  shows "\<exists>msgs. picks opts pools now (pi_contentTag seg) = Some msgs \<and> msgs \<noteq> []
    \<and> ao_encodeBatch opts (map toBAMMessage msgs) (map dm_signature msgs) = Inr (pi_payloadBytes seg)
    \<and> pr_includedSelections pr (pi_contentTag seg)
        = Some \<lparr>ag_contentTag = pi_contentTag seg, ag_messages = msgs, ag_payloadBytes = pi_payloadBytes seg\<rparr>"
  by (rule tick_selection [OF assms]) blast

definition sample_decoded :: decoded_message where
  "sample_decoded = \<lparr>dm_sender = bytesToHex (zeros 20), dm_nonce = 1, dm_contents = [7], dm_contentTag = ''0xaa'',
     dm_signature = zeros 65, dm_messageHash = ''0x01'', dm_ingestedAt = Some 5\<rparr>"

definition sample_data :: bytes where
  "sample_data = [BATCH_VERSION, CODEC_NONE] @ be 4 1 @ be 4 98 @ (zeros 20 @ be 8 1 @ be 4 1 @ [7] @ zeros 65)"

lemma sample_data_length [simp]: "length sample_data = 108"
  by (simp add: sample_data_def)

lemma sample_data_nonempty [simp]: "sample_data \<noteq> []"
  by (simp add: sample_data_def)

lemma sample_decoded_fields [simp]: "dm_signature sample_decoded = zeros 65" "dm_ingestedAt sample_decoded = Some 5"
  by (simp_all add: sample_decoded_def)

lemma sample_data_encode: "default_encode [toBAMMessage sample_decoded] [zeros 65] = Inr sample_data"
proof -
  have "encodeRecord i (toBAMMessage sample_decoded) (zeros 65) = Inr (zeros 20 @ be 8 1 @ be 4 1 @ [7] @ zeros 65)" for i
    by (simp add: encodeRecord_Inr toBAMMessage_def sample_decoded_def uint64_def uint64_max_def)
  then obtain eb where "encodeBatch [toBAMMessage sample_decoded] [zeros 65] CodecNone = Inr eb" "eb_data eb = sample_data"
    by (simp add: encodeBatch_plain_Inr sample_data_def)
  then show ?thesis
    by (simp add: default_encode_def)
qed

definition sample_options :: aggregator_options where
  "sample_options = \<lparr>ao_policy = \<lparr>bp_select = (\<lambda>tag pools _ _. if tag = ''0xaa'' then Some (pools tag) else None),
        bp_fill = (\<lambda>tag pools _. Some (pools tag))\<rparr>,
     ao_tags = [''0xaa'', ''0xbb''], ao_maxTagsPerPack = 8, ao_capacity = defaultPackCapacity,
     ao_blobCapacityBytes = DEFAULT_BLOB_CAPACITY_BYTES, ao_encodeBatch = default_encode\<rparr>"

definition sample_pools :: pool_view where
  "sample_pools tag = [sample_decoded]"

definition sample_pack :: pack_result where
  "sample_pack = \<lparr>pr_plan = \<lparr>pp_included =
        [\<lparr>pi_contentTag = ''0xaa'', pi_startFE = 0, pi_endFE = 4, pi_payloadBytes = sample_data\<rparr>,
         \<lparr>pi_contentTag = ''0xbb'', pi_startFE = 4, pi_endFE = 8, pi_payloadBytes = sample_data\<rparr>], pp_excluded = []\<rparr>,
     pr_includedSelections =
        [''0xaa'' \<mapsto> \<lparr>ag_contentTag = ''0xaa'', ag_messages = [sample_decoded], ag_payloadBytes = sample_data\<rparr>,
         ''0xbb'' \<mapsto> \<lparr>ag_contentTag = ''0xbb'', ag_messages = [sample_decoded], ag_payloadBytes = sample_data\<rparr>],
     pr_excludedTags = []\<rparr>"

lemma sample_tick:
  "aggregatorTick sample_options sample_pools 9 (createAggregator sample_options)
     = (Inr (Some sample_pack),
        [''0xaa'' \<mapsto> \<lparr>ts_packingLossStreak = 0, ts_lastIncludedAt = Some 9, ts_pendingCount = 1\<rparr>,
         ''0xbb'' \<mapsto> \<lparr>ts_packingLossStreak = 0, ts_lastIncludedAt = Some 9, ts_pendingCount = 1\<rparr>])"
  by (simp add: aggregatorTick_def sample_options_def sample_pools_def sample_pack_def empty_acc_def addSelection_def Let_def
    packSelections_def cappedSelections_def compareKey_def planPack_def planFrom_Cons defaultPackCapacity_def blob_consts
    feCountForPayload_def ceil_div_def sample_decoded_fields sample_data_encode createAggregator_def)
    (auto simp: fun_eq_iff updateStreak_def on_tag_apply)

theorem tick_included_selections_witness:
  "picks sample_options sample_pools 9 ''0xaa'' = Some [sample_decoded]
   \<and> pr_includedSelections sample_pack ''0xaa''
      = Some \<lparr>ag_contentTag = ''0xaa'', ag_messages = [sample_decoded], ag_payloadBytes = sample_data\<rparr>"
proof -
  have "\<lparr>pi_contentTag = ''0xaa'', pi_startFE = 0, pi_endFE = 4, pi_payloadBytes = sample_data\<rparr> \<in> set (pp_included (pr_plan sample_pack))"
    by (simp add: sample_pack_def)
  from tick_included_selections [OF sample_tick this] show ?thesis
    by (auto simp: sample_pack_def)
qed

text \<open>
  The starvation counter counts exactly the missed deadlines: when a pack is built,
  a tag whose policy fired and that was left out has its streak incremented, one that
  fired and was included is reset, a passenger's streak does not move either way, the
  time of the last inclusion is set exactly for the included tags, and the pending
  count is the length of the tag's pool.
\<close>

theorem tick_streaks_exact:
  assumes "aggregatorTick opts pools now st = (Inr (Some pr), st')"
    and "distinct (ao_tags opts)" "tag \<in> set (ao_tags opts)" "st tag = Some ts"
  shows "st' tag = Some \<lparr>
     ts_packingLossStreak =
       (if \<not> fires opts pools now tag then ts_packingLossStreak ts
        else if tag \<in> set (map pi_contentTag (pp_included (pr_plan pr))) then 0
        else ts_packingLossStreak ts + 1),
     ts_lastIncludedAt =
       (if tag \<in> set (map pi_contentTag (pp_included (pr_plan pr))) then Some now else ts_lastIncludedAt ts),
     ts_pendingCount = length (pools tag)\<rparr>"
proof (rule tick_pack [OF assms(1)])
  fix acc st1 acc0
  assume sel: "selectPhase opts pools now (ao_tags opts) empty_acc st = (Inr acc0, st1)"
    and fired: "set (ta_fired acc) = {t \<in> set (ao_tags opts). fires opts pools now t}"
    and st': "st' = fold (updateStreak (set (map pi_contentTag (pp_included (pr_plan pr)))) (ta_fired acc) now) (ao_tags opts) st1"
  have "st1 tag = Some (ts\<lparr>ts_pendingCount := length (pools tag)\<rparr>)"
    using selectPhase_state [OF sel, of tag] assms(3,4) by simp
  then show ?thesis
    using assms(2,3) by (simp add: st' fold_updateStreak updateStreak_def Let_def fired)
qed

theorem tick_streaks_exact_witness:
  "fires sample_options sample_pools 9 ''0xaa''
   \<and> snd (aggregatorTick sample_options sample_pools 9 (createAggregator sample_options)) ''0xaa''
      = Some \<lparr>ts_packingLossStreak = 0, ts_lastIncludedAt = Some 9, ts_pendingCount = 1\<rparr>"
proof -
  have "fires sample_options sample_pools 9 ''0xaa''"
    by (simp add: fires_def sample_options_def sample_pools_def)
  with tick_streaks_exact [OF sample_tick, of "''0xaa''" "\<lparr>ts_packingLossStreak = 0, ts_lastIncludedAt = None, ts_pendingCount = 0\<rparr>"]
  show ?thesis
    by (simp add: sample_tick)
qed

text \<open>
  No starvation of the oldest tag: if a tag's policy fired, no tag with pending
  messages is older (by the time of its oldest message, then by tag), and the encoding
  of its messages fits the capacity on its own, the tick builds a pack that starts with
  this tag at field element 0.
\<close>

theorem tick_oldest_first:
  assumes "aggregatorTick opts pools now st = (Inr (Some pr), st')" "ao_capacity opts = defaultPackCapacity"
    and "tag \<in> set (ao_tags opts)" "fires opts pools now tag" "picks opts pools now tag = Some msgs"
    and "ao_encodeBatch opts (map toBAMMessage msgs) (map dm_signature msgs) = Inr payload"
    and "payload \<noteq> []" "length payload \<le> USABLE_BYTES_PER_BLOB"
    and "\<And>t. t \<in> set (ao_tags opts) \<Longrightarrow> pools t \<noteq> [] \<Longrightarrow> (oldest_of pools now tag, tag) \<le> (oldest_of pools now t, t)"
  shows "\<exists>rest. pp_included (pr_plan pr) = \<lparr>pi_contentTag = tag, pi_startFE = 0,
     pi_endFE = int (feCountForPayload (length payload)), pi_payloadBytes = payload\<rparr> # rest"
proof (rule tick_pack [OF assms(1)])
  fix acc st1 acc0
  assume fired: "set (ta_fired acc) = {t \<in> set (ao_tags opts). fires opts pools now t}"
    "set (ta_fired acc) \<subseteq> set (map ps_contentTag (ta_selections acc))"
    and ok: "acc_ok opts pools now (picks opts pools now) acc"
    and plan: "pr_plan pr = planPack (cappedSelections opts (ta_selections acc)) (ao_capacity opts)"
  from fired assms(3,4) obtain s where s: "s \<in> set (ta_selections acc)" "ps_contentTag s = tag"
    by auto
  have min: "compareKey s \<le> compareKey y" if "y \<in> set (ta_selections acc)" for y
  proof -
    have "ps_contentTag y \<in> set (ao_tags opts)" "pools (ps_contentTag y) \<noteq> []"
      using acc_ok_selection [OF ok that] acc_ok_entry [OF ok] by blast+
    then show ?thesis
      using assms(9) [of "ps_contentTag y"] acc_ok_keys [OF ok that] acc_ok_keys [OF ok s(1)] s(2) by simp
  qed
  obtain s1 rest where s1: "sort_key compareKey (ta_selections acc) = s1 # rest" "s1 \<in> set (ta_selections acc)" "ps_contentTag s1 = tag"
    using sorted_first_key [OF s(1) min] s(2) by auto
  obtain e where e: "ta_enriched acc tag = Some e" "ag_payloadBytes e = ps_payloadBytes s1"
    using acc_ok_selection [OF ok s1(2)] s1(3) by auto
  have payload: "ps_payloadBytes s1 = payload"
    using acc_ok_entry [OF ok e(1)] e(2) assms(5,6) by simp
  obtain k where k: "max 1 (ao_maxTagsPerPack opts) = Suc k"
    by (metis Suc_pred' max.strict_coboundedI1 zero_less_one)
  have "sorted (map compareKey (take (Suc k) (s1 # rest)))"
    using s1(1) by (metis sorted_sort_key sorted_wrt_take take_map)
  moreover have "cappedSelections opts (ta_selections acc) = take (Suc k) (s1 # rest)"
    unfolding cappedSelections_def k s1(1) ..
  ultimately have "sort_key compareKey (cappedSelections opts (ta_selections acc)) = s1 # take k rest"
    using sort_key_id_if_sorted by fastforce
  moreover have "feCountForPayload (length payload) \<le> 4096"
    using assms(8) by (simp add: feCountForPayload_def blob_consts ceil_div_def)
  ultimately show ?thesis
    using assms(2,7,8) s1(3)
    by (simp add: plan planPack_def split_beta planFrom_Cons payload defaultPackCapacity_def blob_consts)
qed

theorem tick_oldest_first_witness:
  "\<exists>rest. pp_included (pr_plan sample_pack) = \<lparr>pi_contentTag = ''0xaa'', pi_startFE = 0,
     pi_endFE = int (feCountForPayload (length sample_data)), pi_payloadBytes = sample_data\<rparr> # rest"
proof (rule tick_oldest_first [OF sample_tick])
  show "fires sample_options sample_pools 9 ''0xaa''"
    by (simp add: fires_def sample_options_def sample_pools_def)
  show "picks sample_options sample_pools 9 ''0xaa'' = Some [sample_decoded]"
    by (simp add: picks_def fires_def sample_options_def sample_pools_def)
  show "ao_encodeBatch sample_options (map toBAMMessage [sample_decoded]) (map dm_signature [sample_decoded]) = Inr sample_data"
    by (simp add: sample_options_def sample_data_encode)
  show "sample_data \<noteq> []"
    by simp
  show "(oldest_of sample_pools 9 ''0xaa'', ''0xaa'') \<le> (oldest_of sample_pools 9 t, t)" if "t \<in> set (ao_tags sample_options)" for t
    using that by (auto simp: sample_options_def oldest_of_def sample_pools_def less_eq_prod_def)
qed (simp_all add: sample_options_def blob_consts)

section \<open>The gap between the policy's capacity and the planner's\<close>

definition stall_message :: "int \<Rightarrow> decoded_message" where
  "stall_message n = \<lparr>dm_sender = bytesToHex (zeros 20), dm_nonce = n, dm_contents = zeros 64000, dm_contentTag = ''0xaa'',
     dm_signature = zeros 65, dm_messageHash = ''0x01'', dm_ingestedAt = Some 5\<rparr>"

text \<open>The options the factory builds when the configuration overrides nothing.\<close>

definition stall_options :: aggregator_options where
  "stall_options = \<lparr>ao_policy = defaultBatchPolicy defaultPolicyConfig, ao_tags = [''0xaa''], ao_maxTagsPerPack = 8,
     ao_capacity = defaultPackCapacity, ao_blobCapacityBytes = DEFAULT_BLOB_CAPACITY_BYTES, ao_encodeBatch = default_encode\<rparr>"

definition stall_pools :: pool_view where
  "stall_pools tag = [stall_message 1, stall_message 2]"

lemma stall_estimates:
  "estimateBatchSize [toBAMMessage (stall_message a)] = 64107"
  "estimateBatchSize [toBAMMessage (stall_message a), toBAMMessage (stall_message b)] = 128204"
  by (simp_all add: estimateBatchSize_sum batch_consts toBAMMessage_def stall_message_def)

lemma stall_fill:
  "greedyFifoFill [stall_message 1, stall_message 2] 129024 estimateBatchSize = [stall_message 1, stall_message 2]"
  by (simp add: greedyFifoFill_def Let_def stall_estimates)

lemma stall_select:
  "policySelect defaultPolicyConfig tag stall_pools 129024 now = Some [stall_message 1, stall_message 2]"
  by (simp add: policySelect_def defaultPolicyConfig_def stall_pools_def stall_fill stall_estimates)

lemma stall_record: "\<exists>rec. encodeRecord i (toBAMMessage (stall_message n)) (zeros 65) = Inr rec" if "0 \<le> n" "n \<le> 9"
  using that by (simp add: encodeRecord_Inr toBAMMessage_def stall_message_def uint64_def uint64_max_def)

lemma stall_encode:
  "\<exists>data. default_encode (map toBAMMessage [stall_message 1, stall_message 2]) (map dm_signature [stall_message 1, stall_message 2])
     = Inr data \<and> length data = 128204"
proof -
  obtain r1 r2 where "encodeRecord 0 (toBAMMessage (stall_message 1)) (zeros 65) = Inr r1"
    "encodeRecord 1 (toBAMMessage (stall_message 2)) (zeros 65) = Inr r2"
    using stall_record [of 1 0] stall_record [of 2 1] by auto
  then obtain eb where eb: "encodeBatch (map toBAMMessage [stall_message 1, stall_message 2]) (map dm_signature [stall_message 1, stall_message 2]) CodecNone = Inr eb"
    by (simp add: encodeBatch_plain_Inr stall_message_def toBAMMessage_def)
  then show ?thesis
    using encodeBatch_size_eq(1) [OF eb] stall_estimates(2) by (simp add: default_encode_def)
qed

text \<open>
  The default policy capacity, 129024 bytes, is larger than the 126976 bytes a plan
  may use. So two messages, each well within a blob on its own, are picked together into
  a batch of 128204 bytes that the planner can never include: at every time and with
  every counter state the tick builds a pack with no segment and the tag excluded, and
  the pool it was built from stays as it was, so the tag never moves again.
\<close>

theorem capacity_gap_stalls_tag:
  "\<exists>pr st'. aggregatorTick stall_options stall_pools now st = (Inr (Some pr), st')
     \<and> pp_included (pr_plan pr) = [] \<and> pr_excludedTags pr = [''0xaa'']"
proof -
  obtain data where data: "default_encode (map toBAMMessage [stall_message 1, stall_message 2])
      (map dm_signature [stall_message 1, stall_message 2]) = Inr data" "length data = 128204"
    using stall_encode by blast
  let ?st = "on_tag ''0xaa'' (\<lambda>ts. ts\<lparr>ts_pendingCount := 2\<rparr>) st"
  obtain acc where sel: "selectPhase stall_options stall_pools now [''0xaa''] empty_acc st = (Inr acc, ?st)"
    and acc: "ta_fired acc = [''0xaa'']" "ta_selections acc = [\<lparr>ps_contentTag = ''0xaa'', ps_payloadBytes = data,
         ps_oldestIngestedAt = 5, ps_pendingMessageCount = 2\<rparr>]"
    using data(1) stall_select [of "''0xaa''" now]
    by (simp add: stall_options_def stall_pools_def empty_acc_def addSelection_def defaultBatchPolicy_def
      DEFAULT_BLOB_CAPACITY_BYTES_def stall_message_def numeral_2_eq_2)
  have fill: "fillPhase stall_options stall_pools now [''0xaa''] acc = Inr acc"
    by (simp add: acc)
  have "planPack (cappedSelections stall_options (ta_selections acc)) defaultPackCapacity
      = \<lparr>pp_included = [], pp_excluded = [\<lparr>pe_contentTag = ''0xaa'', pe_pendingMessageCount = 2\<rparr>]\<rparr>"
    using data(2) by (simp add: acc cappedSelections_def stall_options_def planPack_def planFrom_Cons defaultPackCapacity_def blob_consts)
  then have "\<exists>pr st'. packSelections stall_options now acc ?st = (Inr (Some pr), st')
      \<and> pp_included (pr_plan pr) = [] \<and> pr_excludedTags pr = [''0xaa'']"
    by (simp add: packSelections_def Let_def acc) (simp add: stall_options_def)
  then show ?thesis
    using sel fill by (simp add: aggregatorTick_def stall_options_def acc(2))
qed

end
