(* ===== verification/Submit.thy ===== *)
theory Submit
  imports Aggregator KzgBlob TextMatch
begin

text \<open>
  Packed submission (packages/bam-poster/src/submission/build-and-submit.ts and
  backoff.ts): the error classifier, the pre-broadcast checks, the broadcast, and the
  back-off state. c-kzg, SHA-256, the ABI encoder of the call and the RPC
  transport are fields of the environment; a field that can throw returns the message of
  the error it throws as Inl.
\<close>

section \<open>Classifying errors\<close>

definition PERMANENT_ERROR_PATTERNS :: "(string \<times> bool) list" where
  "PERMANENT_ERROR_PATTERNS =
     [(''execution reverted'', False), (''invalid opcode'', False), (''invalid signature'', False),
      (''abi'', True), (''contract does not exist'', False), (''out of gas'', False)]"

definition isPermanentError :: "string \<Rightarrow> bool" where
  "isPermanentError msg = list_ex (\<lambda>(pat, boundary). pattern_test pat boundary msg) PERMANENT_ERROR_PATTERNS"

section \<open>Outcomes\<close>

record submit_entry =
  en_contentTag :: string
  en_startFE :: int
  en_endFE :: int
  en_messages :: "decoded_message list"

record included_outcome =
  io_txHash :: string
  io_blockNumber :: nat
  io_txIndex :: nat
  io_blobVersionedHash :: string
  io_submitter :: string
  io_entries :: "submit_entry list"

datatype pre_broadcast_error =
    KzgLoad string
  | PlanInvalid plan_error
  | AssembleFailed assemble_error
  | SliceFailed extract_error
  | CommitFailed kzg_error
  | CallEncodeFailed string

datatype submit_detail =
    EmptyPack
  | SelfCheck self_check_error
  | PreBroadcast pre_broadcast_error
  | SubmissionFailed

datatype submit_outcome =
    Included included_outcome
  | Retryable submit_detail
  | Permanent submit_detail

definition classifySubmissionError :: "string \<Rightarrow> submit_outcome" where
  "classifySubmissionError msg =
     (if isPermanentError msg then Permanent SubmissionFailed else Retryable SubmissionFailed)"

section \<open>Build and submit\<close>

record core_call =
  cc_blobIndex :: nat
  cc_startFE :: int
  cc_endFE :: int
  cc_contentTag :: string
  cc_decoder :: string
  cc_signatureRegistry :: string

record submit_env =
  sv_kzgLoad :: "string option"
  sv_setupLoaded :: bool
  sv_kzg :: ckzg
  sv_sha256 :: "bytes \<Rightarrow> bytes"
  sv_fzstd :: fzstd
  sv_decoder :: string
  sv_sigRegistry :: string
  sv_signer :: string
  sv_encodeCall :: "core_call list \<Rightarrow> string + string"
  sv_send :: "string \<Rightarrow> bytes \<Rightarrow> string + string"
  sv_waitForReceipt :: "string \<Rightarrow> string + (nat \<times> nat)"

fun checkPlanVsAssembly :: "plan_included list \<Rightarrow> assembled_segment list \<Rightarrow> self_check_error + unit" where
  "checkPlanVsAssembly (p # ps) (a # as) =
     (if pi_startFE p \<noteq> int (as_startFE a) \<or> pi_endFE p \<noteq> int (as_endFE a)
      then Inl (PlanVsAssembly (pi_contentTag p)) else checkPlanVsAssembly ps as)"
| "checkPlanVsAssembly _ _ = Inr ()"

definition call_of :: "submit_env \<Rightarrow> plan_included \<Rightarrow> core_call" where
  "call_of env seg = \<lparr>cc_blobIndex = 0, cc_startFE = pi_startFE seg, cc_endFE = pi_endFE seg,
     cc_contentTag = pi_contentTag seg, cc_decoder = sv_decoder env, cc_signatureRegistry = sv_sigRegistry env\<rparr>"

text \<open>
  The try block before the broadcast: the blob, its versioned hash and the call data, or
  the detail of the permanent failure.
\<close>

definition preBroadcast :: "submit_env \<Rightarrow> pack_result \<Rightarrow> submit_detail + (bytes \<times> string \<times> string)" where
  "preBroadcast env pk =
     (case sv_kzgLoad env of Some e \<Rightarrow> Inl (PreBroadcast (KzgLoad e)) | None \<Rightarrow>
      (case validatePackPlanInvariants (pr_plan pk) of Inl e \<Rightarrow> Inl (PreBroadcast (PlanInvalid e)) | Inr _ \<Rightarrow>
       (case assembleMultiSegmentBlob (map (\<lambda>seg. \<lparr>si_contentTag = pi_contentTag seg, si_payload = pi_payloadBytes seg\<rparr>)
               (pp_included (pr_plan pk))) of
          Inl e \<Rightarrow> Inl (PreBroadcast (AssembleFailed e)) | Inr (blob, assembled) \<Rightarrow>
        (case checkPlanVsAssembly (pp_included (pr_plan pk)) assembled of Inl e \<Rightarrow> Inl (SelfCheck e) | Inr _ \<Rightarrow>
         (case verifyPackedBlobRoundTrips (sv_fzstd env) blob (pr_plan pk) (pr_includedSelections pk) of
            Inl (SliceExtract e) \<Rightarrow> Inl (PreBroadcast (SliceFailed e))
          | Inl e \<Rightarrow> Inl (SelfCheck e)
          | Inr _ \<Rightarrow>
            (case commitToBlob (sv_kzg env) (sv_sha256 env) (sv_setupLoaded env) blob of
               Inl e \<Rightarrow> Inl (PreBroadcast (CommitFailed e)) | Inr (_, _, versionedHash) \<Rightarrow>
             (case sv_encodeCall env (map (call_of env) (pp_included (pr_plan pk))) of
                Inl e \<Rightarrow> Inl (PreBroadcast (CallEncodeFailed e))
              | Inr data \<Rightarrow> Inr (blob, versionedHash, data))))))))"

definition entry_of :: "(string \<rightharpoonup> agg_selection) \<Rightarrow> plan_included \<Rightarrow> string + submit_entry" where
  "entry_of selections seg =
     (case selections (pi_contentTag seg) of
        None \<Rightarrow> Inl ''Cannot read properties of undefined''
      | Some sel \<Rightarrow> Inr \<lparr>en_contentTag = pi_contentTag seg, en_startFE = pi_startFE seg,
                       en_endFE = pi_endFE seg, en_messages = ag_messages sel\<rparr>)"

definition broadcast :: "submit_env \<Rightarrow> pack_result \<Rightarrow> bytes \<Rightarrow> string \<Rightarrow> string \<Rightarrow> string + included_outcome" where
  "broadcast env pk blob versionedHash data =
     ebind (sv_send env data blob) (\<lambda>txHash.
     ebind (sv_waitForReceipt env txHash) (\<lambda>(blockNumber, txIndex).
     ebind (mapE (entry_of (pr_includedSelections pk)) (pp_included (pr_plan pk))) (\<lambda>entries.
       Inr \<lparr>io_txHash = txHash, io_blockNumber = blockNumber, io_txIndex = txIndex,
            io_blobVersionedHash = versionedHash, io_submitter = sv_signer env, io_entries = entries\<rparr>)))"

definition buildAndSubmitMulti :: "submit_env \<Rightarrow> pack_result \<Rightarrow> submit_outcome" where
  "buildAndSubmitMulti env pk =
     (if length (pp_included (pr_plan pk)) = 0 then Permanent EmptyPack
      else case preBroadcast env pk of
        Inl detail \<Rightarrow> Permanent detail
      | Inr (blob, versionedHash, data) \<Rightarrow>
          (case broadcast env pk blob versionedHash data of
             Inl msg \<Rightarrow> classifySubmissionError msg
           | Inr included \<Rightarrow> Included included))"

section \<open>Back-off\<close>

record backoff_config =
  bc_baseMs :: nat
  bc_capMs :: nat
  bc_degradedAfterAttempts :: nat
  bc_unhealthyAfterAttempts :: nat

definition DEFAULT_BACKOFF :: backoff_config where
  "DEFAULT_BACKOFF = \<lparr>bc_baseMs = 500, bc_capMs = 60000, bc_degradedAfterAttempts = 5, bc_unhealthyAfterAttempts = 50\<rparr>"

datatype health_state = Ok | Degraded | Unhealthy

definition nextDelayMs :: "backoff_config \<Rightarrow> nat \<Rightarrow> nat" where
  "nextDelayMs config attempts =
     (if attempts = 0 then 0 else min (bc_baseMs config * 2 ^ (attempts - 1)) (bc_capMs config))"

definition recordSuccess :: "nat \<Rightarrow> nat" where "recordSuccess consecutiveFailures = 0"

definition recordFailure :: "nat \<Rightarrow> nat" where "recordFailure consecutiveFailures = consecutiveFailures + 1"

definition healthFromAttempts :: "backoff_config \<Rightarrow> nat \<Rightarrow> health_state" where
  "healthFromAttempts config consecutiveFailures =
     (if consecutiveFailures \<ge> bc_unhealthyAfterAttempts config then Unhealthy
      else if consecutiveFailures \<ge> bc_degradedAfterAttempts config then Degraded else Ok)"

section \<open>A tick's pack always passes the pre-broadcast checks\<close>

lemma checkPlanVsAssembly_ok:
  "map (\<lambda>seg. (pi_startFE seg, pi_endFE seg)) ps = map (\<lambda>a. (int (as_startFE a), int (as_endFE a))) as
     \<Longrightarrow> checkPlanVsAssembly ps as = Inr ()"
  by (induction ps as rule: checkPlanVsAssembly.induct) auto

lemma default_encode_binary:
  "default_encode (map toBAMMessage msgs) (map dm_signature msgs) = Inr payload \<Longrightarrow> binary_payload msgs payload"
  by (auto simp: default_encode_def binary_payload_def split: sum.splits)

lemma tick_plan:
  assumes "aggregatorTick opts pools now st = (Inr (Some pr), st')" "ao_capacity opts = defaultPackCapacity"
  obtains input where "pr_plan pr = planPack input defaultPackCapacity"
  by (rule tick_pack [OF assms(1)]) (use assms(2) that in simp)

lemma planPack_valid: "validatePackPlanInvariants (planPack input defaultPackCapacity) = Inr ()"
  using planFrom_validate [of defaultPackCapacity 0 0 "sort_key compareKey input"]
  by (simp add: validatePackPlanInvariants_def planPack_def split_beta defaultPackCapacity_def blob_consts)

lemma planPack_nonempty: "seg \<in> set (pp_included (planPack input cap)) \<Longrightarrow> pi_payloadBytes seg \<noteq> []"
  using planFrom_nonempty [of cap 0 0 "sort_key compareKey input"]
  by (simp add: planPack_def split_beta list_all_iff)

lemma preBroadcast_default:
  assumes "aggregatorTick opts pools now st = (Inr (Some pr), st')"
    and "ao_capacity opts = defaultPackCapacity" "ao_encodeBatch opts = default_encode"
    and "sv_kzgLoad env = None" "sv_setupLoaded env"
    and "sv_encodeCall env (map (call_of env) (pp_included (pr_plan pr))) = Inr data"
  shows "\<exists>blob versionedHash. preBroadcast env pr = Inr (blob, versionedHash, data)"
proof -
  obtain input where plan: "pr_plan pr = planPack input defaultPackCapacity"
    using tick_plan [OF assms(1,2)] .
  obtain blob segs where asm: "assembleMultiSegmentBlob (plan_segments (pp_included (pr_plan pr))) = Inr (blob, segs)"
    and ranges: "map (\<lambda>seg. (pi_startFE seg, pi_endFE seg)) (pp_included (pr_plan pr))
      = map (\<lambda>a. (int (as_startFE a), int (as_endFE a))) segs"
    using plan_assembles [OF plan] .
  have "verifySegments (sv_fzstd env) blob (pr_includedSelections pr) (pp_included (pr_plan pr)) = Inr ()"
  proof (rule verifySegments_assembled)
    show "assembleMultiSegmentBlob ([] @ plan_segments (pp_included (pr_plan pr))) = Inr (blob, segs)"
      using asm by simp
    show "map (\<lambda>seg. (pi_startFE seg, pi_endFE seg)) (pp_included (pr_plan pr))
      = map (\<lambda>a. (int (as_startFE a), int (as_endFE a))) (segment_ranges (segments_fes []) (plan_segments (pp_included (pr_plan pr))))"
      using ranges asm by (simp add: assemble_Inr_iff)
    show "list_all (\<lambda>seg. pi_payloadBytes seg \<noteq> []
       \<and> (\<exists>sel. pr_includedSelections pr (pi_contentTag seg) = Some sel \<and> ag_payloadBytes sel = pi_payloadBytes seg
             \<and> binary_payload (ag_messages sel) (ag_payloadBytes sel))) (pp_included (pr_plan pr))"
      unfolding list_all_iff
    proof
      fix seg assume seg: "seg \<in> set (pp_included (pr_plan pr))"
      show "pi_payloadBytes seg \<noteq> []
       \<and> (\<exists>sel. pr_includedSelections pr (pi_contentTag seg) = Some sel \<and> ag_payloadBytes sel = pi_payloadBytes seg
             \<and> binary_payload (ag_messages sel) (ag_payloadBytes sel))"
        using planPack_nonempty seg plan
        by (intro conjI, metis) (rule tick_selection [OF assms(1) seg], simp add: assms(3) default_encode_binary)
    qed
  qed
  moreover have "length blob = BYTES_PER_BLOB"
    using asm by (auto simp: assemble_Inr_iff blob_consts)
  ultimately show ?thesis
    using asm assms(4-6) planPack_valid [of input] checkPlanVsAssembly_ok [OF ranges]
    by (simp add: preBroadcast_def plan verifyPackedBlobRoundTrips_def commitToBlob_def ensureSetupLoaded_def Let_def
      flip: plan_segments_def)
qed

section \<open>Properties\<close>


definition sample_env :: submit_env where
  "sample_env = \<lparr>sv_kzgLoad = None, sv_setupLoaded = True, sv_kzg = \<lparr>blobToKzgCommitment = (\<lambda>_. zeros 48), computeBlobKzgProof = (\<lambda>_ _. zeros 48),
       verifyKzgProof = (\<lambda>_ _ _ _. None)\<rparr>, sv_sha256 = (\<lambda>_. zeros 32),
     sv_fzstd = (\<lambda>_ _. Inl []), sv_decoder = ''0x00'', sv_sigRegistry = ''0x00'', sv_signer = ''0x99'',
     sv_encodeCall = (\<lambda>_. Inr ''0xda''), sv_send = (\<lambda>_ _. Inr ''0xtx''), sv_waitForReceipt = (\<lambda>_. Inr (12, 3))\<rparr>"


text \<open>
  A payload that does not start with the binary batch version halts the poster: the
  self-check decodes every segment with the binary decoder, so with an encoder whose
  output starts with another byte (the ABI encoding starts with the byte 0) every pack
  ends as a permanent self-check failure, before anything is sent.
\<close>

theorem foreign_encoding_halts:
  assumes "aggregatorTick opts pools now st = (Inr (Some pr), st')" "pp_included (pr_plan pr) = seg # segs"
    and "ao_capacity opts = defaultPackCapacity" "sv_kzgLoad env = None"
    and "length (pi_payloadBytes seg) \<ge> HEADER_SIZE" "pi_payloadBytes seg ! 0 \<noteq> BATCH_VERSION"
  shows "buildAndSubmitMulti env pr
    = Permanent (SelfCheck (DecodeThrow (pi_contentTag seg) (UnsupportedVersion (pi_payloadBytes seg ! 0))))"
proof -
  obtain input where plan: "pr_plan pr = planPack input defaultPackCapacity"
    using tick_plan [OF assms(1,3)] .
  obtain blob as where asm: "assembleMultiSegmentBlob (plan_segments (pp_included (pr_plan pr))) = Inr (blob, as)"
    and ranges: "map (\<lambda>seg. (pi_startFE seg, pi_endFE seg)) (pp_included (pr_plan pr))
      = map (\<lambda>a. (int (as_startFE a), int (as_endFE a))) as"
    using plan_assembles [OF plan] .
  let ?s = "\<lparr>si_contentTag = pi_contentTag seg, si_payload = pi_payloadBytes seg\<rparr>"
  have asm1: "assembleMultiSegmentBlob ([] @ ?s # plan_segments segs) = Inr (blob, as)"
    using asm by (simp add: assms(2))
  have ne: "pi_payloadBytes seg \<noteq> []"
    using assms(5) by (auto simp: HEADER_SIZE_def)
  have range: "pi_startFE seg = 0" "pi_endFE seg = int (segment_fes ?s)"
    using ranges asm1 assms(2) by (auto simp: assemble_Inr_iff)
  have ext: "extractSegmentBytes blob (pi_startFE seg) (pi_endFE seg)
      = Inr (pi_payloadBytes seg @ zeros (31 * segment_fes ?s - length (pi_payloadBytes seg)))"
    using extract_assembled [OF asm1] ne by (simp add: range)
  have dec: "decodeBatch fz (pi_payloadBytes seg) = Inl (UnsupportedVersion (pi_payloadBytes seg ! 0))" for fz
    using assms(5,6) by (simp add: decodeBatch_def)
  have "seg \<in> set (pp_included (pr_plan pr))"
    by (simp add: assms(2))
  from tick_selection [OF assms(1) this] obtain msgs where
      "pr_includedSelections pr (pi_contentTag seg)
        = Some \<lparr>ag_contentTag = pi_contentTag seg, ag_messages = msgs, ag_payloadBytes = pi_payloadBytes seg\<rparr>" .
  then have "verifyPackedBlobRoundTrips fz blob (pr_plan pr) (pr_includedSelections pr)
      = Inl (DecodeThrow (pi_contentTag seg) (UnsupportedVersion (pi_payloadBytes seg ! 0)))" for fz
    by (simp add: verifyPackedBlobRoundTrips_def assms(2) ext dec)
  then show ?thesis
    using asm assms(2,4) planPack_valid [of input] checkPlanVsAssembly_ok [OF ranges]
    by (simp add: buildAndSubmitMulti_def preBroadcast_def plan flip: plan_segments_def)
qed

definition foreign_options :: aggregator_options where
  "foreign_options = sample_options\<lparr>ao_tags := [''0xaa''], ao_encodeBatch := (\<lambda>_ _. Inr (zeros 40))\<rparr>"

definition foreign_pack :: pack_result where
  "foreign_pack = \<lparr>pr_plan = \<lparr>pp_included =
        [\<lparr>pi_contentTag = ''0xaa'', pi_startFE = 0, pi_endFE = 2, pi_payloadBytes = zeros 40\<rparr>], pp_excluded = []\<rparr>,
     pr_includedSelections =
        [''0xaa'' \<mapsto> \<lparr>ag_contentTag = ''0xaa'', ag_messages = [sample_decoded], ag_payloadBytes = zeros 40\<rparr>],
     pr_excludedTags = []\<rparr>"

lemma foreign_tick: "\<exists>st'. aggregatorTick foreign_options sample_pools 9 st = (Inr (Some foreign_pack), st')"
  by (simp add: aggregatorTick_def foreign_options_def sample_options_def sample_pools_def foreign_pack_def empty_acc_def
    addSelection_def Let_def packSelections_def cappedSelections_def compareKey_def planPack_def planFrom_Cons
    defaultPackCapacity_def blob_consts feCountForPayload_def ceil_div_def fun_eq_iff zeros_def)
    (intro exI allI, rule refl)

theorem foreign_encoding_halts_witness:
  "buildAndSubmitMulti sample_env foreign_pack = Permanent (SelfCheck (DecodeThrow ''0xaa'' (UnsupportedVersion 0)))"
proof -
  obtain st' where t: "aggregatorTick foreign_options sample_pools 9 (\<lambda>_. None) = (Inr (Some foreign_pack), st')"
    using foreign_tick by blast
  have "pp_included (pr_plan foreign_pack) = \<lparr>pi_contentTag = ''0xaa'', pi_startFE = 0, pi_endFE = 2, pi_payloadBytes = zeros 40\<rparr> # []"
    by (simp add: foreign_pack_def)
  from foreign_encoding_halts [OF t this, of sample_env] show ?thesis
    by (simp add: foreign_options_def sample_options_def sample_env_def HEADER_SIZE_def BATCH_VERSION_def)
qed

text \<open>
  The back-off doubles from its base up to the cap and never shrinks while failures
  continue: after n failures in a row the delay is the base times two to the n minus
  one, cut off at the cap; one success resets it, and the health only worsens as
  failures accumulate.
\<close>

theorem backoff_monotone:
  "nextDelayMs config (recordSuccess n) = 0
   \<and> nextDelayMs config n \<le> nextDelayMs config (recordFailure n) \<and> nextDelayMs config n \<le> bc_capMs config
   \<and> (healthFromAttempts config (recordFailure n) = Ok \<longrightarrow> healthFromAttempts config n = Ok)
   \<and> (healthFromAttempts config n = Unhealthy \<longrightarrow> healthFromAttempts config (recordFailure n) = Unhealthy)"
proof -
  have "min (bc_baseMs config * 2 ^ (n - 1)) (bc_capMs config) \<le> min (bc_baseMs config * 2 ^ n) (bc_capMs config)"
    by (intro min.mono mult_le_mono2 power_increasing) simp_all
  then show ?thesis
    by (simp add: nextDelayMs_def recordSuccess_def recordFailure_def healthFromAttempts_def)
qed

theorem backoff_monotone_witness:
  "nextDelayMs DEFAULT_BACKOFF 8 = 60000 \<and> healthFromAttempts DEFAULT_BACKOFF 51 = Unhealthy
   \<and> nextDelayMs DEFAULT_BACKOFF 7 \<le> nextDelayMs DEFAULT_BACKOFF (recordFailure 7)"
proof -
  have "healthFromAttempts DEFAULT_BACKOFF 50 = Unhealthy"
    by (simp add: healthFromAttempts_def DEFAULT_BACKOFF_def)
  with backoff_monotone [of DEFAULT_BACKOFF 50] backoff_monotone [of DEFAULT_BACKOFF 7] show ?thesis
    by (simp add: recordFailure_def) (simp add: nextDelayMs_def DEFAULT_BACKOFF_def)
qed

end
