(* ===== verification/PosterLoop.thy ===== *)
theory PosterLoop
  imports Submit Workers
begin

text \<open>
  The Poster's submission loop and reorg watcher over the store
  (packages/bam-poster/src/submission/aggregator-loop.ts and reorg-watcher.ts): the pool
  snapshot, the tick and its outcomes, the transaction that records a confirmed pack, and
  the watcher's re-enqueue of reorged batches. keccak is the parameter of theory Message;
  the submission and the block source are arguments, as in the code; conflict tells for
  each transaction which attempts the database aborts.
\<close>

section \<open>Submission loop\<close>

record loop_options =
  lo_aggregator :: aggregator_options
  lo_chainId :: nat
  lo_backoff :: backoff_config
  lo_reorgWindowBlocks :: nat

record loop_state =
  lp_aggregator :: aggregator_state
  lp_failures :: nat
  lp_permanentlyStopped :: bool
  lp_lastPackedTxHash :: "string option"
  lp_lastPackedTagCount :: nat

definition newLoop :: "loop_options \<Rightarrow> loop_state" where
  "newLoop opts = \<lparr>lp_aggregator = createAggregator (lo_aggregator opts), lp_failures = 0,
     lp_permanentlyStopped = False, lp_lastPackedTxHash = None, lp_lastPackedTagCount = 0\<rparr>"

definition healthState :: "loop_options \<Rightarrow> loop_state \<Rightarrow> health_state" where
  "healthState opts ls =
     (if lp_permanentlyStopped ls then Unhealthy else healthFromAttempts (lo_backoff opts) (lp_failures ls))"

datatype tick_outcome = Idle | Success | Retry | TickPermanent

datatype loop_error =
    LoopStore store_error
  | LoopTick tick_error

definition pendingRowToDecoded :: "pending_row \<Rightarrow> decoded_message" where
  "pendingRowToDecoded row = \<lparr>dm_sender = pr_sender row, dm_nonce = pr_nonce row, dm_contents = pr_contents row,
     dm_contentTag = pr_contentTag row, dm_signature = pr_signature row, dm_messageHash = pr_messageHash row,
     dm_ingestedAt = Some (pr_ingestedAt row)\<rparr>"

definition snapshotPools :: "string list \<Rightarrow> (string \<rightharpoonup> decoded_message list) txn" where
  "snapshotPools tags st =
     ebind (mapE (\<lambda>tag. listPendingByTag tag None None st) tags) (\<lambda>rows.
       Inr (map_of (zip tags (map (map pendingRowToDecoded) rows)), st))"

definition snapshotEntry ::
  "(bytes \<Rightarrow> bytes) \<Rightarrow> string \<Rightarrow> string \<Rightarrow> nat \<times> decoded_message \<Rightarrow> store_error + snapshot_entry" where
  "snapshotEntry keccak contentTag batchContentHash im =
     (case im of (i, m) \<Rightarrow>
        ebind (lift_message (computeMessageId keccak (dm_sender m) contentTag (dm_nonce m) batchContentHash)) (\<lambda>mid.
          Inr \<lparr>se_sender = dm_sender m, se_nonce = dm_nonce m, se_messageId = mid, se_messageIndex = i,
               se_messageHash = dm_messageHash m\<rparr>))"

definition confirmedRow ::
  "nat \<Rightarrow> included_outcome \<Rightarrow> string \<Rightarrow> nat \<Rightarrow> decoded_message \<Rightarrow> message_row \<Rightarrow> string \<Rightarrow> message_row" where
  "confirmedRow chainId outcome contentTag i m row messageId =
     \<lparr>mr_messageId = Some messageId, mr_sender = dm_sender m, mr_nonce = dm_nonce m, mr_contentTag = contentTag,
      mr_contents = dm_contents m, mr_signature = dm_signature m, mr_messageHash = dm_messageHash m,
      mr_status = Confirmed, mr_batchRef = Some (io_txHash outcome), mr_chainId = Some chainId,
      mr_ingestedAt = mr_ingestedAt row, mr_ingestSeq = mr_ingestSeq row,
      mr_blockNumber = Some (io_blockNumber outcome), mr_txIndex = Some (io_txIndex outcome),
      mr_messageIndex = Some i\<rparr>"

definition confirmMessage ::
  "(bytes \<Rightarrow> bytes) \<Rightarrow> nat \<Rightarrow> included_outcome \<Rightarrow> string \<Rightarrow> nat \<times> decoded_message \<Rightarrow> store \<Rightarrow> store_error + store" where
  "confirmMessage keccak chainId outcome contentTag im st =
     (case im of (i, m) \<Rightarrow>
      ebind (getBySenderNonce (dm_sender m) (dm_nonce m) st) (\<lambda>found.
        case found of
          None \<Rightarrow> Inr st
        | Some row \<Rightarrow>
            ebind (lift_message (computeMessageId keccak (dm_sender m) contentTag (dm_nonce m) (io_blobVersionedHash outcome)))
              (\<lambda>messageId.
                ebind (upsertObserved (confirmedRow chainId outcome contentTag i m row messageId) st) (\<lambda>(_, st'). Inr st'))))"

definition chainReorged ::
  "string list \<Rightarrow> string \<Rightarrow> batch_row \<Rightarrow> store \<Rightarrow> store_error + store" where
  "chainReorged includedHashes txHash b st =
     (if br_replacedByTxHash b \<noteq> None then Inr st
      else if list_ex (\<lambda>m. toLowerCase (se_messageHash m) \<in> set includedHashes) (br_messageSnapshot b)
      then ebind (updateBatchStatus (br_chainId b) (br_txHash b) (br_contentTag b) BatchReorged
             \<lparr>bu_blockNumber = None, bu_txIndex = None, bu_replacedByTxHash = Some (Some txHash), bu_invalidatedAt = None\<rparr> st)
             (\<lambda>(_, st'). Inr st')
      else Inr st)"

definition confirmedBatch ::
  "loop_options \<Rightarrow> included_outcome \<Rightarrow> nat \<Rightarrow> submit_entry \<Rightarrow> snapshot_entry list \<Rightarrow> batch_row" where
  "confirmedBatch opts outcome submittedAt entry snapshot =
     \<lparr>br_txHash = io_txHash outcome, br_chainId = lo_chainId opts, br_contentTag = en_contentTag entry,
      br_blobVersionedHash = io_blobVersionedHash outcome, br_batchContentHash = io_blobVersionedHash outcome,
      br_blockNumber = Some (io_blockNumber outcome), br_txIndex = Some (io_txIndex outcome),
      br_status = BatchConfirmed, br_replacedByTxHash = None, br_submittedAt = Some submittedAt,
      br_invalidatedAt = None, br_submitter = Some (io_submitter outcome), br_l1IncludedAt = None,
      br_messageSnapshot = snapshot\<rparr>"

definition reorgedBatches :: "loop_options \<Rightarrow> included_outcome \<Rightarrow> submit_entry \<Rightarrow> batch_row list qry" where
  "reorgedBatches opts outcome entry =
     listBatches \<lparr>bq_contentTag = Some (en_contentTag entry), bq_chainId = Some (lo_chainId opts),
       bq_status = Some BatchReorged, bq_sinceBlock = Some (io_blockNumber outcome - lo_reorgWindowBlocks opts),
       bq_sinceIncludedAt = None, bq_limit = None\<rparr>"

definition recordEntry ::
  "(bytes \<Rightarrow> bytes) \<Rightarrow> loop_options \<Rightarrow> included_outcome \<Rightarrow> nat \<Rightarrow> submit_entry \<Rightarrow> store \<Rightarrow> store_error + store" where
  "recordEntry keccak opts outcome submittedAt entry st =
     (let indexed = enumerate 0 (en_messages entry);
          batchContentHash = io_blobVersionedHash outcome in
      ebind (mapE (snapshotEntry keccak (en_contentTag entry) batchContentHash) indexed) (\<lambda>snapshot.
      ebind (upsertBatch (confirmedBatch opts outcome submittedAt entry snapshot) st) (\<lambda>(_, st1).
      ebind (foldE (confirmMessage keccak (lo_chainId opts) outcome (en_contentTag entry)) indexed st1) (\<lambda>st2.
      ebind (reorgedBatches opts outcome entry st2) (\<lambda>reorged.
        foldE (chainReorged (map (\<lambda>e. toLowerCase (se_messageHash e)) snapshot) (io_txHash outcome)) reorged st2)))))"

definition recordPack ::
  "(bytes \<Rightarrow> bytes) \<Rightarrow> loop_options \<Rightarrow> included_outcome \<Rightarrow> nat \<Rightarrow> unit txn" where
  "recordPack keccak opts outcome submittedAt st =
     ebind (foldE (recordEntry keccak opts outcome submittedAt) (io_entries outcome) st) (\<lambda>st'. Inr ((), st'))"

definition loopTick ::
  "(bytes \<Rightarrow> bytes) \<Rightarrow> loop_options \<Rightarrow> (nat \<Rightarrow> bool) \<Rightarrow> (nat \<Rightarrow> bool) \<Rightarrow> nat \<Rightarrow> (pack_result \<Rightarrow> submit_outcome) \<Rightarrow> nat
     \<Rightarrow> loop_state \<Rightarrow> store \<Rightarrow> (loop_error + tick_outcome) \<times> loop_state \<times> store" where
  "loopTick keccak opts readConflict writeConflict now submit submittedAt ls st =
     (if lp_permanentlyStopped ls then (Inr TickPermanent, ls, st)
      else case withTxn readConflict (snapshotPools (ao_tags (lo_aggregator opts))) st of
        (Inl e, st1) \<Rightarrow> (Inl (LoopStore e), ls, st1)
      | (Inr poolMap, st1) \<Rightarrow>
          (let pool = (\<lambda>tag. case poolMap tag of None \<Rightarrow> [] | Some rows \<Rightarrow> rows) in
           case aggregatorTick (lo_aggregator opts) pool now (lp_aggregator ls) of
             (Inl e, ag) \<Rightarrow> (Inl (LoopTick e), ls\<lparr>lp_aggregator := ag\<rparr>, st1)
           | (Inr None, ag) \<Rightarrow> (Inr Idle, ls\<lparr>lp_aggregator := ag\<rparr>, st1)
           | (Inr (Some pk), ag) \<Rightarrow>
               let ls1 = ls\<lparr>lp_aggregator := ag\<rparr> in
               if length (pp_included (pr_plan pk)) = 0 then (Inr Idle, ls1, st1)
               else case submit pk of
                 Included outcome \<Rightarrow>
                   (case withTxn writeConflict (recordPack keccak opts outcome submittedAt) st1 of
                      (Inl e, st2) \<Rightarrow> (Inl (LoopStore e), ls1, st2)
                    | (Inr _, st2) \<Rightarrow>
                        (Inr Success, ls1\<lparr>lp_lastPackedTxHash := Some (io_txHash outcome),
                           lp_lastPackedTagCount := length (io_entries outcome),
                           lp_failures := recordSuccess (lp_failures ls1)\<rparr>, st2))
               | Retryable _ \<Rightarrow> (Inr Retry, ls1\<lparr>lp_failures := recordFailure (lp_failures ls1)\<rparr>, st1)
               | Permanent _ \<Rightarrow>
                   (Inr TickPermanent, ls1\<lparr>lp_failures := recordFailure (lp_failures ls1),
                      lp_permanentlyStopped := True\<rparr>, st1)))"

section \<open>Reorg watcher\<close>

definition MIN_REORG_WINDOW :: int where "MIN_REORG_WINDOW = 4"
definition MAX_REORG_WINDOW :: int where "MAX_REORG_WINDOW = 128"
definition DEFAULT_REORG_WINDOW :: int where "DEFAULT_REORG_WINDOW = 32"

text \<open>The argument is a JavaScript number: None stands for one that is not finite, and a
finite one is given by its floor.\<close>

definition clampReorgWindow :: "int option \<Rightarrow> int" where
  "clampReorgWindow n =
     (case n of None \<Rightarrow> DEFAULT_REORG_WINDOW | Some k \<Rightarrow> min (max k MIN_REORG_WINDOW) MAX_REORG_WINDOW)"

text \<open>The clock is read as one value per tick.\<close>

record watcher_options =
  wo_chainId :: nat
  wo_reorgWindowBlocks :: "int option"
  wo_now :: nat

definition requeuedRow :: "watcher_options \<Rightarrow> string \<Rightarrow> message_row \<Rightarrow> nat \<Rightarrow> message_row" where
  "requeuedRow opts contentTag m sq =
     \<lparr>mr_messageId = None, mr_sender = mr_sender m, mr_nonce = mr_nonce m, mr_contentTag = contentTag,
      mr_contents = mr_contents m, mr_signature = mr_signature m, mr_messageHash = mr_messageHash m,
      mr_status = Pending, mr_batchRef = None, mr_chainId = Some (wo_chainId opts),
      mr_ingestedAt = Some (wo_now opts), mr_ingestSeq = Some sq, mr_blockNumber = None, mr_txIndex = None,
      mr_messageIndex = None\<rparr>"

definition requeueMessage :: "watcher_options \<Rightarrow> string \<Rightarrow> message_row \<Rightarrow> store \<Rightarrow> store_error + store" where
  "requeueMessage opts contentTag m st =
     ebind (getBySenderNonce (mr_sender m) (mr_nonce m) st) (\<lambda>existing.
       if (case existing of Some e \<Rightarrow> mr_status e = Pending | None \<Rightarrow> False) then Inr st
       else ebind (nextIngestSeq contentTag st) (\<lambda>(sq, st1).
         ebind (upsertObserved (requeuedRow opts contentTag m sq) st1) (\<lambda>(_, st2). Inr st2)))"

definition seq_or_0 :: "message_row \<Rightarrow> nat" where
  "seq_or_0 m = (case mr_ingestSeq m of None \<Rightarrow> 0 | Some s \<Rightarrow> s)"

definition reorgBatch :: "watcher_options \<Rightarrow> batch_row \<Rightarrow> unit txn" where
  "reorgBatch opts batch st =
     ebind (listMessages (no_messages_query\<lparr>mq_batchRef := Some (br_txHash batch),
         mq_contentTag := Some (br_contentTag batch)\<rparr>) st) (\<lambda>attached.
     ebind (markReorged (wo_chainId opts) (br_txHash batch) (wo_now opts) st) (\<lambda>(_, st1).
     ebind (foldE (requeueMessage opts (br_contentTag batch)) (sort_key seq_or_0 attached) st1) (\<lambda>st2.
       Inr ((), st2))))"

text \<open>
  The candidates of a tick, then the loop over them: txBlock n h is the block source's
  answer to the n-th query of the tick, and conflict n says which attempts of the n-th
  reorg transaction are aborted. A failed transaction ends the tick.
\<close>

definition watcherCandidates :: "watcher_options \<Rightarrow> nat \<Rightarrow> batch_row list qry" where
  "watcherCandidates opts head st =
     ebind (listBatches \<lparr>bq_contentTag = None, bq_chainId = Some (wo_chainId opts), bq_status = None,
        bq_sinceBlock = Some (nat (int head - clampReorgWindow (wo_reorgWindowBlocks opts))),
        bq_sinceIncludedAt = None, bq_limit = None\<rparr> st) (\<lambda>recent.
       Inr (filter (\<lambda>b. br_status b = BatchConfirmed \<and> br_blockNumber b \<noteq> None) recent))"

primrec watcherLoop ::
  "watcher_options \<Rightarrow> (nat \<Rightarrow> string \<Rightarrow> nat option) \<Rightarrow> (nat \<Rightarrow> nat \<Rightarrow> bool) \<Rightarrow> batch_row list \<Rightarrow> nat \<Rightarrow> nat \<times> nat \<Rightarrow> store
     \<Rightarrow> (store_error + (nat \<times> nat)) \<times> store" where
  "watcherLoop opts txBlock conflict [] i counts st = (Inr counts, st)"
| "watcherLoop opts txBlock conflict (batch # batches) i counts st =
     (case txBlock i (br_txHash batch) of
        Some _ \<Rightarrow> watcherLoop opts txBlock conflict batches (Suc i) (fst counts, snd counts + 1) st
      | None \<Rightarrow>
          (case withTxn (conflict i) (reorgBatch opts batch) st of
             (Inl e, st1) \<Rightarrow> (Inl e, st1)
           | (Inr _, st1) \<Rightarrow> watcherLoop opts txBlock conflict batches (Suc i) (fst counts + 1, snd counts) st1))"

definition watcherTick ::
  "watcher_options \<Rightarrow> nat \<Rightarrow> (nat \<Rightarrow> string \<Rightarrow> nat option) \<Rightarrow> (nat \<Rightarrow> bool) \<Rightarrow> (nat \<Rightarrow> nat \<Rightarrow> bool) \<Rightarrow> store
     \<Rightarrow> (store_error + (nat \<times> nat)) \<times> store" where
  "watcherTick opts head txBlock readConflict conflict st =
     (case withTxn readConflict (\<lambda>st. ebind (watcherCandidates opts head st) (\<lambda>c. Inr (c, st))) st of
        (Inl e, st1) \<Rightarrow> (Inl e, st1)
      | (Inr candidates, st1) \<Rightarrow> watcherLoop opts txBlock conflict candidates 0 (0, 0) st1)"

section \<open>Every write is a sequence of store steps\<close>

lemma confirmMessage_Inr:
  assumes "confirmMessage keccak chainId outcome tag (i, m) st = Inr st'"
  obtains (absent) "getBySenderNonce (dm_sender m) (dm_nonce m) st = Inr None" "st' = st"
  | (observed) row mrow where "getBySenderNonce (dm_sender m) (dm_nonce m) st = Inr (Some row)"
      "upsertObserved mrow st = Inr ((), st')" "mr_status mrow = Confirmed" "mr_sender mrow = dm_sender m"
      "mr_nonce mrow = dm_nonce m" "mr_messageHash mrow = dm_messageHash m" "mr_batchRef mrow = Some (io_txHash outcome)"
proof -
  from assms obtain found where f: "getBySenderNonce (dm_sender m) (dm_nonce m) st = Inr found"
    by (cases "getBySenderNonce (dm_sender m) (dm_nonce m) st") (simp_all add: confirmMessage_def)
  show thesis
  proof (cases found)
    case None
    show thesis
      by (rule absent) (use assms f None in \<open>simp_all add: confirmMessage_def\<close>)
  next
    case (Some row)
    then obtain mid where "upsertObserved (confirmedRow chainId outcome tag i m row mid) st = Inr ((), st')"
      using assms f by (auto simp: confirmMessage_def)
    from observed [OF _ this] f Some show thesis by (simp add: confirmedRow_def)
  qed
qed

lemma confirmMessage_steps: "confirmMessage keccak chainId outcome tag im st = Inr st' \<Longrightarrow> steps st st'"
  by (cases im) (auto elim!: confirmMessage_Inr intro: store_step.observe)

lemma chainReorged_steps: "chainReorged hs h b st = Inr st' \<Longrightarrow> steps st st'"
  by (auto simp: chainReorged_def split: if_splits intro: store_step.status)

lemma recordEntry_parts:
  assumes "recordEntry keccak opts outcome submittedAt entry st = Inr st'"
  obtains brow st1 st2 hs reorged where "upsertBatch brow st = Inr ((), st1)"
    "foldE (confirmMessage keccak (lo_chainId opts) outcome (en_contentTag entry)) (enumerate 0 (en_messages entry)) st1 = Inr st2"
    "foldE (chainReorged hs (io_txHash outcome)) reorged st2 = Inr st'"
proof -
  from assms obtain snap where
    "ebind (upsertBatch (confirmedBatch opts outcome submittedAt entry snap) st) (\<lambda>(_, st1).
      ebind (foldE (confirmMessage keccak (lo_chainId opts) outcome (en_contentTag entry)) (enumerate 0 (en_messages entry)) st1) (\<lambda>st2.
      ebind (reorgedBatches opts outcome entry st2) (\<lambda>reorged.
        foldE (chainReorged (map (\<lambda>e. toLowerCase (se_messageHash e)) snap) (io_txHash outcome)) reorged st2))) = Inr st'"
    unfolding recordEntry_def Let_def ebind_Inr_iff by blast
  then show thesis
    using that by (auto simp del: foldE.simps)
qed

lemma recordEntry_steps: "recordEntry keccak opts outcome submittedAt entry st = Inr st' \<Longrightarrow> steps st st'"
proof (erule recordEntry_parts)
  fix brow st1 st2 hs reorged
  assume a: "upsertBatch brow st = Inr ((), st1)"
    "foldE (confirmMessage keccak (lo_chainId opts) outcome (en_contentTag entry)) (enumerate 0 (en_messages entry)) st1 = Inr st2"
    "foldE (chainReorged hs (io_txHash outcome)) reorged st2 = Inr st'"
  have "steps st st1"
    using store_step.batch [OF a(1)] by blast
  also have "steps st1 st2"
    using foldE_steps [OF a(2)] confirmMessage_steps by blast
  also have "steps st2 st'"
    using foldE_steps [OF a(3)] chainReorged_steps by blast
  finally show "steps st st'" .
qed

lemma recordPack_steps: "recordPack keccak opts outcome submittedAt st = Inr (u, st') \<Longrightarrow> steps st st'"
  using foldE_steps [of "recordEntry keccak opts outcome submittedAt" "io_entries outcome" st st'] recordEntry_steps
  by (auto simp: recordPack_def)

lemma snapshotPools_same: "snapshotPools tags st = Inr (x, s') \<Longrightarrow> s' = st"
  by (auto simp: snapshotPools_def)

text \<open>The ways a tick of the loop can end, with the store it leaves.\<close>

lemma loopTick_cases:
  assumes "loopTick keccak opts rc wc now submit submittedAt ls st = (r, ls', st')"
  obtains (unchanged) "st' = st" "r \<noteq> Inr Success"
  | (success) pools pk ag outcome where "withTxn rc (snapshotPools (ao_tags (lo_aggregator opts))) st = (Inr pools, st)"
      "aggregatorTick (lo_aggregator opts) (\<lambda>tag. case pools tag of None \<Rightarrow> [] | Some rows \<Rightarrow> rows) now (lp_aggregator ls) = (Inr (Some pk), ag)"
      "submit pk = Included outcome"
      "recordPack keccak opts outcome submittedAt st = Inr ((), st')" "r = Inr Success"
      "lp_failures ls' = 0" "lp_permanentlyStopped ls' = lp_permanentlyStopped ls"
proof (cases "lp_permanentlyStopped ls")
  case True
  then show thesis using assms unchanged by (auto simp: loopTick_def)
next
  case False
  obtain r1 st1 where read: "withTxn rc (snapshotPools (ao_tags (lo_aggregator opts))) st = (r1, st1)"
    by fastforce
  then have st1: "st1 = st"
    using withTxn_same snapshotPools_same by blast
  show thesis
  proof (cases r1)
    case (Inl e)
    then show thesis using assms read st1 False by (intro unchanged) (auto simp: loopTick_def)
  next
    case (Inr pools)
    let ?pool = "\<lambda>tag. case pools tag of None \<Rightarrow> [] | Some rows \<Rightarrow> rows"
    obtain res ag where tick: "aggregatorTick (lo_aggregator opts) ?pool now (lp_aggregator ls) = (res, ag)"
      by fastforce
    show thesis
    proof (cases "\<exists>pk. res = Inr (Some pk) \<and> pp_included (pr_plan pk) \<noteq> []")
      case no: False
      then show thesis
        using assms read st1 False Inr tick unchanged
        by (cases res) (auto simp: loopTick_def split: option.splits)
    next
      case True
      then obtain pk where pk: "res = Inr (Some pk)" "pp_included (pr_plan pk) \<noteq> []" by blast
      show thesis
      proof (cases "submit pk")
        case (Included outcome)
        obtain w st2 where w: "withTxn wc (recordPack keccak opts outcome submittedAt) st = (w, st2)"
          by fastforce
        show thesis
        proof (cases w)
          case (Inl e)
          then have "st2 = st"
            using w withTxn_Inl by blast
          then show thesis
            using assms read st1 False \<open>r1 = Inr pools\<close> tick pk Included w Inl
            by (intro unchanged) (auto simp: loopTick_def)
        next
          case (Inr u)
          then show thesis
            using assms read st1 False \<open>r1 = Inr pools\<close> tick pk Included w Inr withTxn_Inr [of wc _ st u st2]
            by (intro success [of pools pk ag outcome]) (auto simp: loopTick_def recordSuccess_def)
        qed
      qed (use assms read st1 False Inr tick pk unchanged in \<open>auto simp: loopTick_def\<close>)
    qed
  qed
qed

section \<open>The watcher's writes\<close>

lemma requeueMessage_Inr:
  assumes "requeueMessage opts tag m st = Inr st'"
  obtains (skip) e where "getBySenderNonce (mr_sender m) (mr_nonce m) st = Inr (Some e)" "mr_status e = Pending" "st' = st"
  | (requeue) existing sq st1 where "getBySenderNonce (mr_sender m) (mr_nonce m) st = Inr existing"
      "case existing of None \<Rightarrow> True | Some e \<Rightarrow> mr_status e \<noteq> Pending"
      "nextIngestSeq tag st = Inr (sq, st1)" "upsertObserved (requeuedRow opts tag m sq) st1 = Inr ((), st')"
proof -
  from assms obtain existing where e: "getBySenderNonce (mr_sender m) (mr_nonce m) st = Inr existing"
    by (cases "getBySenderNonce (mr_sender m) (mr_nonce m) st") (simp_all add: requeueMessage_def)
  show thesis
  proof (cases "case existing of Some e \<Rightarrow> mr_status e = Pending | None \<Rightarrow> False")
    case True
    then obtain x where "existing = Some x" "mr_status x = Pending" by (auto split: option.splits)
    then show thesis
      using assms e by (intro skip [of x]) (auto simp: requeueMessage_def)
  next
    case False
    then obtain sq st1 where "nextIngestSeq tag st = Inr (sq, st1)" "upsertObserved (requeuedRow opts tag m sq) st1 = Inr ((), st')"
      using assms e by (auto simp: requeueMessage_def)
    moreover have "case existing of None \<Rightarrow> True | Some e \<Rightarrow> mr_status e \<noteq> Pending"
      using False by (auto split: option.splits)
    ultimately show thesis using requeue e by blast
  qed
qed

lemma requeueMessage_steps:
  assumes "requeueMessage opts tag m st = Inr st'"
  shows "steps st st'"
  using assms
proof (cases rule: requeueMessage_Inr)
  case (requeue existing sq st1)
  have "store_step st st1"
    using requeue(3) by (rule store_step.seq)
  moreover have "store_step st1 st'"
    using requeue(4) by (rule store_step.requeue) (simp_all add: requeuedRow_def)
  ultimately show ?thesis by auto
qed simp

lemma reorgBatch_parts:
  assumes "reorgBatch opts batch st = Inr (u, st')"
  obtains attached st1 where "listMessages (no_messages_query\<lparr>mq_batchRef := Some (br_txHash batch),
         mq_contentTag := Some (br_contentTag batch)\<rparr>) st = Inr attached"
    "markReorged (wo_chainId opts) (br_txHash batch) (wo_now opts) st = Inr ((), st1)"
    "foldE (requeueMessage opts (br_contentTag batch)) (sort_key seq_or_0 attached) st1 = Inr st'"
  using assms by (auto simp: reorgBatch_def simp del: foldE.simps)

lemma reorgBatch_steps:
  assumes "reorgBatch opts batch st = Inr (u, st')"
  shows "steps st st'"
  using assms
proof (cases rule: reorgBatch_parts)
  case (1 attached st1)
  have "steps st st1"
    using store_step.reorg [OF 1(2)] by blast
  moreover have "steps st1 st'"
    using foldE_steps [OF 1(3)] requeueMessage_steps by blast
  ultimately show ?thesis by simp
qed

lemma watcherLoop_steps: "watcherLoop opts txBlock conflict bs i counts st = (r, st') \<Longrightarrow> steps st st'"
proof (induction bs arbitrary: i counts st)
  case (Cons b bs)
  show ?case
  proof (cases "txBlock i (br_txHash b)")
    case None
    obtain w st1 where w: "withTxn (conflict i) (reorgBatch opts b) st = (w, st1)"
      by fastforce
    then have "steps st st1"
      using withTxn_steps reorgBatch_steps by metis
    then show ?thesis
      using Cons None w by (cases w) (auto intro: rtranclp_trans)
  qed (use Cons in auto)
qed simp

lemma watcherTick_steps: 
  assumes "watcherTick opts head txBlock rc conflict st = (r, st')"
  shows "steps st st'"
proof -
  obtain w st1 where w: "withTxn rc (\<lambda>st. ebind (watcherCandidates opts head st) (\<lambda>c. Inr (c, st))) st = (w, st1)"
    by fastforce
  then have "st1 = st"
    by (rule withTxn_same) auto
  then show ?thesis
    using assms w watcherLoop_steps by (cases w) (auto simp: watcherTick_def)
qed

section \<open>Confirmation sticks\<close>

lemma confirmMessage_confirms:
  assumes "confirmMessage keccak chainId outcome tag (i, m) st = Inr st'" "store_inv st"
    and "encodeNonce (dm_nonce m) = Inr t" "(toLowerCase (dm_sender m), t) \<in> msg_key ` set (st_messages st)"
  shows "confirmed_at (toLowerCase (dm_sender m), t) (dm_messageHash m) st'"
  using assms(1)
proof (cases rule: confirmMessage_Inr)
  case absent
  then show ?thesis using getBySenderNonce_None assms(3,4) by blast
next
  case (observed row mrow)
  then show ?thesis using upsertObserved_makes_confirmed [OF observed(2) assms(2), of t] assms(3) by simp
qed

lemma confirmMessage_keeps:
  assumes "confirmMessage keccak chainId outcome tag im st = Inr st'" "store_inv st" "confirmed_at k h st"
  shows "confirmed_at k h st'"
proof (cases im)
  case (Pair i m)
  from assms(1) [unfolded Pair] show ?thesis
    by (cases rule: confirmMessage_Inr) (use assms(2,3) upsertObserved_confirmed_at in auto)
qed

lemma chainReorged_messages: "chainReorged hs h b st = Inr st' \<Longrightarrow> st_messages st' = st_messages st"
  by (auto simp: chainReorged_def updateBatchStatus_def Let_def split: if_splits)

lemma foldE_chainReorged_messages:
  "foldE (chainReorged hs h) bs st = Inr st' \<Longrightarrow> st_messages st' = st_messages st"
  by (induction bs arbitrary: st) (auto dest: chainReorged_messages)

lemma recordEntry_keeps:
  assumes "recordEntry keccak opts outcome submittedAt entry st = Inr st'" "store_inv st" "confirmed_at k h st"
  shows "confirmed_at k h st'"
  using assms(1)
proof (cases rule: recordEntry_parts)
  case (1 brow st1 st2 hs reorged)
  have "store_inv st1 \<and> confirmed_at k h st1"
    using upsertBatch_inv [OF 1(1) assms(2)] assms(3) by (simp add: confirmed_at_def)
  then have "store_inv st2 \<and> confirmed_at k h st2"
    by (rule foldE_invariant [where I = "\<lambda>s. store_inv s \<and> confirmed_at k h s", OF 1(2)])
      (use confirmMessage_keeps confirmMessage_steps steps_inv in blast)
  then show ?thesis
    using foldE_chainReorged_messages [OF 1(3)] by (simp add: confirmed_at_def)
qed

lemma recordEntry_confirms:
  assumes "recordEntry keccak opts outcome submittedAt entry st = Inr st'" "m \<in> set (en_messages entry)"
    and "encodeNonce (dm_nonce m) = Inr t" "slot_filled (toLowerCase (dm_sender m), t) st"
  shows "confirmed_at (toLowerCase (dm_sender m), t) (dm_messageHash m) st'"
  using assms(1)
proof (cases rule: recordEntry_parts)
  case (1 brow st1 st2 hs reorged)
  obtain i where "i < length (en_messages entry)" "en_messages entry ! i = m"
    using assms(2) by (auto simp: in_set_conv_nth)
  then have im: "(i, m) \<in> set (enumerate 0 (en_messages entry))"
    by (simp add: in_set_enumerate_eq)
  have "slot_filled (toLowerCase (dm_sender m), t) st1"
    using slot_filled_steps [OF r_into_rtranclp [of store_step, OF store_step.batch [OF 1(1)]] assms(4)] .
  then have "confirmed_at (toLowerCase (dm_sender m), t) (dm_messageHash m) st2"
  proof (rule foldE_reaches [where I = "slot_filled (toLowerCase (dm_sender m), t)"
        and Q = "confirmed_at (toLowerCase (dm_sender m), t) (dm_messageHash m)", OF 1(2) im])
    fix y s s' assume "slot_filled (toLowerCase (dm_sender m), t) s"
      "confirmMessage keccak (lo_chainId opts) outcome (en_contentTag entry) y s = Inr s'"
    then show "slot_filled (toLowerCase (dm_sender m), t) s'"
      using confirmMessage_steps slot_filled_steps by blast
  qed (use confirmMessage_confirms assms(3) confirmMessage_keeps in \<open>auto simp: slot_filled_def\<close>)
  then show ?thesis
    using foldE_chainReorged_messages [OF 1(3)] by (simp add: confirmed_at_def)
qed

section \<open>Properties\<close>

interpretation poster_loop: store_worker
  "\<lambda>(keccak, opts, rc, wc, now, submit, submittedAt, ls) st st'.
     \<exists>r ls'. loopTick keccak opts rc wc now submit submittedAt ls st = (r, ls', st')"
proof (unfold_locales, clarify)
  fix keccak opts rc wc now submit submittedAt ls st st' r ls'
  assume "loopTick keccak opts rc wc now submit submittedAt ls st = (r, ls', st')"
  then show "steps st st'"
    by (cases rule: loopTick_cases) (auto intro: recordPack_steps)
qed

interpretation poster_watcher: store_worker
  "\<lambda>(opts, head, txBlock, rc, conflict) st st'. \<exists>r. watcherTick opts head txBlock rc conflict st = (r, st')"
  by unfold_locales (auto dest: watcherTick_steps)

text \<open>
  Both workers of the Poster act on the store only through its lifecycle steps: from
  a reachable store, any tick of the submission loop and any tick of the reorg watcher,
  whatever the chain and the database answer, leads to a reachable store, so the store's
  invariant holds after it.
\<close>

theorem poster_workers_refine_store:
  assumes "store_step\<^sup>*\<^sup>* empty_store st"
    and "loopTick keccak opts rc wc now submit submittedAt ls st = (r1, ls', st1)"
    and "watcherTick wopts head txBlock rc' conflict st1 = (r2, st2)"
  shows "store_step\<^sup>*\<^sup>* empty_store st1 \<and> store_step\<^sup>*\<^sup>* empty_store st2 \<and> store_inv st2"
proof -
  have "steps empty_store st1"
    using poster_loop.keeps_reachable [of "(keccak, opts, rc, wc, now, submit, submittedAt, ls)"] assms(1,2) by auto
  moreover from this have "steps empty_store st2"
    using poster_watcher.keeps_reachable [of "(wopts, head, txBlock, rc', conflict)"] assms(3) by auto
  ultimately show ?thesis
    using steps_reachable by blast
qed

text \<open>
  C14. After a successful tick no message of the pack can be submitted again: every slot
  the store held for a message of an included segment is confirmed, with the hash that
  was submitted, and a slot is never confirmed for a different message.
\<close>

theorem loop_success_confirms:
  assumes "store_inv st" "loopTick keccak opts rc wc now submit submittedAt ls st = (Inr Success, ls', st')"
    and "\<And>pk outcome. submit pk = Included outcome \<Longrightarrow> io_entries outcome = entries"
    and "entry \<in> set entries" "m \<in> set (en_messages entry)"
    and "getBySenderNonce (dm_sender m) (dm_nonce m) st = Inr (Some row)"
  shows "\<exists>r \<in> set (st_messages st'). rm_sender r = toLowerCase (dm_sender m) \<and> decodeNonce (rm_nonce r) = Inr (dm_nonce m)
    \<and> rm_status r = Confirmed \<and> rm_messageHash r = dm_messageHash m"
  using assms(2)
proof (cases rule: loopTick_cases)
  case (success pools pk ag outcome)
  obtain t where t: "encodeNonce (dm_nonce m) = Inr t"
    using assms(6) by (auto simp: getBySenderNonce_def)
  have "slot_filled (toLowerCase (dm_sender m), t) st"
    using assms(1,6) t by (force simp: slot_filled_def getBySenderNonce_def first_message_def msgs_at_def filter_eq_Cons_iff split: list.splits)
  moreover have e: "entry \<in> set (io_entries outcome)"
    using assms(3) [OF success(3)] assms(4) by simp
  moreover obtain st2 where f: "foldE (recordEntry keccak opts outcome submittedAt) (io_entries outcome) st = Inr st2" "st2 = st'"
    using success(4) by (auto simp: recordPack_def)
  ultimately have "slot_filled (toLowerCase (dm_sender m), t) st"
    by simp
  then have "confirmed_at (toLowerCase (dm_sender m), t) (dm_messageHash m) st2"
  proof (rule foldE_reaches [where I = "slot_filled (toLowerCase (dm_sender m), t)"
        and Q = "confirmed_at (toLowerCase (dm_sender m), t) (dm_messageHash m)", OF f(1) e])
    fix y s s' assume "slot_filled (toLowerCase (dm_sender m), t) s" "recordEntry keccak opts outcome submittedAt y s = Inr s'"
    then show "slot_filled (toLowerCase (dm_sender m), t) s'"
      using recordEntry_steps slot_filled_steps by blast
  qed (use recordEntry_confirms assms(5) t recordEntry_keeps in \<open>auto simp: slot_filled_def\<close>)
  then show ?thesis
    using t f(2) by (force simp: confirmed_at_def)
qed simp

text \<open>
  A tick that does not succeed leaves the store exactly as it was, and a permanent
  failure is final: every later tick, with whatever submission, returns permanent at
  once and changes neither the loop's state nor the store.
\<close>

theorem loop_failure_is_harmless:
  assumes "loopTick keccak opts rc wc now submit submittedAt ls st = (r, ls', st')" "r \<noteq> Inr Success"
  shows "st' = st \<and> (r = Inr TickPermanent \<longrightarrow>
     loopTick keccak opts rc' wc' now' submit' submittedAt' ls' st' = (Inr TickPermanent, ls', st'))"
proof
  show "st' = st"
    using assms by (cases rule: loopTick_cases) simp_all
  have "lp_permanentlyStopped ls'" if "r = Inr TickPermanent"
    using assms(1) that
    by (auto simp: loopTick_def Let_def split: if_splits prod.splits sum.splits option.splits submit_outcome.splits)
  then show "r = Inr TickPermanent \<longrightarrow>
     loopTick keccak opts rc' wc' now' submit' submittedAt' ls' st' = (Inr TickPermanent, ls', st')"
    by (simp add: loopTick_def)
qed

definition loop_tag :: string where "loop_tag = bytesToHex (zeros 32)"

definition loop_pending :: pending_row where
  "loop_pending = \<lparr>pr_contentTag = loop_tag, pr_sender = bytesToHex (zeros 20), pr_nonce = 4, pr_contents = [1],
     pr_signature = zeros 65, pr_messageHash = ''0xh'', pr_chainId = 1, pr_ingestedAt = 10, pr_ingestSeq = 1\<rparr>"

definition loop_store :: store where
  "loop_store = empty_store\<lparr>st_messages := [pending_raw loop_pending sample_text]\<rparr>"

definition loop_message :: decoded_message where
  "loop_message = pendingRowToDecoded loop_pending"

definition sample_loop :: loop_options where
  "sample_loop = \<lparr>lo_aggregator = \<lparr>ao_policy = \<lparr>bp_select = (\<lambda>tag pools _ _. Some (pools tag)), bp_fill = (\<lambda>_ _ _. None)\<rparr>,
       ao_tags = [loop_tag], ao_maxTagsPerPack = 8, ao_capacity = defaultPackCapacity,
       ao_blobCapacityBytes = 1000, ao_encodeBatch = (\<lambda>_ _. Inr (zeros 40))\<rparr>,
     lo_chainId = 1, lo_backoff = DEFAULT_BACKOFF, lo_reorgWindowBlocks = 32\<rparr>"

definition sample_entry :: submit_entry where
  "sample_entry = \<lparr>en_contentTag = loop_tag, en_startFE = 0, en_endFE = 2, en_messages = [loop_message]\<rparr>"

definition sample_included :: included_outcome where
  "sample_included = \<lparr>io_txHash = ''0xtx'', io_blockNumber = 12, io_txIndex = 3, io_blobVersionedHash = bytesToHex (zeros 32),
     io_submitter = ''0x99'', io_entries = [sample_entry]\<rparr>"

lemma loop_encNonce: "encNonce 4 = Inr sample_text"
  using encode_4 by simp

lemma loop_decNonce: "decNonce sample_text = Inr 4"
  using encode_4 by simp

lemma loop_insert: "insertPending loop_pending empty_store = Inr ((), loop_store)"
proof -
  have "encNonce (pr_nonce loop_pending) = Inr sample_text"
    using encode_4 by (simp add: loop_pending_def)
  then show ?thesis
    by (simp add: insertPending_def Let_def msgs_at_def empty_store_def loop_store_def pending_raw_def del: encNonce_Inr)
qed

lemma loop_reachable: "store_step\<^sup>*\<^sup>* empty_store loop_store"
  by (rule r_into_rtranclp) (rule store_step.insert [OF loop_insert])

lemma loop_snapshot: "snapshotPools [loop_tag] loop_store = Inr ([loop_tag \<mapsto> [loop_message]], loop_store)"
  by (simp add: snapshotPools_def listPendingByTag_def loop_store_def empty_store_def pending_raw_def loop_pending_def limited_def
    seq_after_def mapPending_def loop_decNonce loop_message_def pendingRowToDecoded_def)

lemma loop_pack:
  "\<exists>pk ag. aggregatorTick (lo_aggregator sample_loop) (\<lambda>tag. case [loop_tag \<mapsto> [loop_message]] tag of None \<Rightarrow> [] | Some rows \<Rightarrow> rows) 9
     (lp_aggregator (newLoop sample_loop)) = (Inr (Some pk), ag) \<and> pp_included (pr_plan pk) \<noteq> []"
  by (simp add: aggregatorTick_def sample_loop_def empty_acc_def addSelection_def Let_def loop_message_def pendingRowToDecoded_def
    packSelections_def cappedSelections_def compareKey_def planPack_def planFrom_Cons defaultPackCapacity_def blob_consts
    feCountForPayload_def ceil_div_def)

lemma loop_messageId:
  "computeMessageId (\<lambda>_. zeros 32) (bytesToHex (zeros 20)) loop_tag 4 (bytesToHex (zeros 32)) = Inr (bytesToHex (zeros 32))"
  by (simp add: computeMessageId_def messageIdPreimage_def uint64_max_def loop_tag_def Let_def)

lemma loop_record:
  "\<exists>st'. recordPack (\<lambda>_. zeros 32) sample_loop sample_included 20 loop_store = Inr ((), st')"
  by (simp add: recordPack_def sample_included_def recordEntry_def sample_entry_def Let_def snapshotEntry_def loop_message_def
    pendingRowToDecoded_def loop_pending_def loop_messageId lift_message_def upsertBatch_def encodeMessageSnapshot_def
    loop_encNonce confirmedBatch_def raw_of_batch_def loop_store_def empty_store_def confirmMessage_def getBySenderNonce_def
    first_message_def msgs_at_def pending_raw_def mapMessage_def loop_decNonce upsertObserved_def confirmedRow_def
    reorgedBatches_def listBatches_def batch_matches_def limited_def opt_eq_def sample_loop_def del: encNonce_Inr)

lemma loop_run:
  "\<exists>ls' st'. loopTick (\<lambda>_. zeros 32) sample_loop (\<lambda>_. False) (\<lambda>_. False) 9 (\<lambda>_. Included sample_included) 20
     (newLoop sample_loop) loop_store = (Inr Success, ls', st')"
proof -
  obtain pk ag where pk: "aggregatorTick (lo_aggregator sample_loop) (\<lambda>tag. case [loop_tag \<mapsto> [loop_message]] tag of None \<Rightarrow> [] | Some rows \<Rightarrow> rows) 9
     (lp_aggregator (newLoop sample_loop)) = (Inr (Some pk), ag)" "pp_included (pr_plan pk) \<noteq> []"
    using loop_pack by blast
  obtain st' where rec: "recordPack (\<lambda>_. zeros 32) sample_loop sample_included 20 loop_store = Inr ((), st')"
    using loop_record by blast
  have tags: "ao_tags (lo_aggregator sample_loop) = [loop_tag]" and run: "\<not> lp_permanentlyStopped (newLoop sample_loop)"
    by (simp_all add: sample_loop_def newLoop_def)
  have txn: "withTxn (\<lambda>_. False) fn st = (case fn st of Inl e \<Rightarrow> (Inl e, st) | Inr (x, st') \<Rightarrow> (Inr x, st'))" for fn :: "'a txn" and st
    using withTxn_from_eq [of MAX_RETRIES "\<lambda>_. False" fn st] by (simp add: withTxn_def list_ex_iff)
  show ?thesis
    using pk(2) run by (simp add: loopTick_def txn tags loop_snapshot pk(1) rec del: fun_upd_apply)
qed

theorem poster_workers_refine_store_witness:
  "store_inv (snd (watcherTick \<lparr>wo_chainId = 1, wo_reorgWindowBlocks = None, wo_now = 30\<rparr> 20 (\<lambda>_ _. None) (\<lambda>_. False) (\<lambda>_ _. False)
     (snd (snd (loopTick (\<lambda>_. zeros 32) sample_loop (\<lambda>_. False) (\<lambda>_. False) 9 (\<lambda>_. Included sample_included) 20
        (newLoop sample_loop) loop_store)))))"
proof -
  let ?loop = "loopTick (\<lambda>_. zeros 32) sample_loop (\<lambda>_. False) (\<lambda>_. False) 9 (\<lambda>_. Included sample_included) 20
        (newLoop sample_loop) loop_store"
  let ?watch = "watcherTick \<lparr>wo_chainId = 1, wo_reorgWindowBlocks = None, wo_now = 30\<rparr> 20 (\<lambda>_ _. None) (\<lambda>_. False) (\<lambda>_ _. False)
     (snd (snd ?loop))"
  have "?loop = (fst ?loop, fst (snd ?loop), snd (snd ?loop))" "?watch = (fst ?watch, snd ?watch)"
    by simp_all
  from poster_workers_refine_store [OF loop_reachable this] show ?thesis
    by blast
qed

theorem loop_success_confirms_witness:
  "\<exists>st' :: store. \<exists>r \<in> set (st_messages st'). rm_sender r = toLowerCase (dm_sender loop_message)
    \<and> decodeNonce (rm_nonce r) = Inr (dm_nonce loop_message) \<and> rm_status r = Confirmed \<and> rm_messageHash r = dm_messageHash loop_message"
proof -
  obtain ls' st' where run: "loopTick (\<lambda>_. zeros 32) sample_loop (\<lambda>_. False) (\<lambda>_. False) 9 (\<lambda>_. Included sample_included) 20
     (newLoop sample_loop) loop_store = (Inr Success, ls', st')"
    using loop_run by blast
  have inv: "store_inv loop_store"
    using steps_inv [OF loop_reachable store_inv_empty] .
  obtain row where row: "getBySenderNonce (dm_sender loop_message) (dm_nonce loop_message) loop_store = Inr (Some row)"
    by (simp add: getBySenderNonce_def loop_message_def pendingRowToDecoded_def loop_pending_def loop_encNonce loop_store_def
      empty_store_def first_message_def msgs_at_def pending_raw_def mapMessage_def loop_decNonce del: encNonce_Inr)
  have "\<exists>r \<in> set (st_messages st'). rm_sender r = toLowerCase (dm_sender loop_message)
    \<and> decodeNonce (rm_nonce r) = Inr (dm_nonce loop_message) \<and> rm_status r = Confirmed \<and> rm_messageHash r = dm_messageHash loop_message"
    by (rule loop_success_confirms [OF inv run, where entries = "[sample_entry]" and entry = sample_entry])
      (simp_all add: sample_included_def sample_entry_def row)
  then show ?thesis by (rule exI)
qed

theorem loop_failure_is_harmless_witness:
  "loopTick (\<lambda>_. zeros 32) sample_loop (\<lambda>_. False) (\<lambda>_. False) 9 (\<lambda>_. Permanent EmptyPack) 20
     (newLoop sample_loop \<lparr>lp_permanentlyStopped := True\<rparr>) loop_store
   = (Inr TickPermanent, newLoop sample_loop \<lparr>lp_permanentlyStopped := True\<rparr>, loop_store)"
proof -
  have "loopTick (\<lambda>_. zeros 32) sample_loop (\<lambda>_. False) (\<lambda>_. False) 9 (\<lambda>_. Permanent EmptyPack) 20
     (newLoop sample_loop \<lparr>lp_permanentlyStopped := True\<rparr>) loop_store
     = (Inr TickPermanent, newLoop sample_loop \<lparr>lp_permanentlyStopped := True\<rparr>, loop_store)"
    by (simp add: loopTick_def)
  from loop_failure_is_harmless [OF this] show ?thesis by simp
qed

section \<open>A packed transaction that is reorged\<close>

text \<open>One requeue writes only the row of its own message.\<close>

lemma requeueMessage_others:
  assumes "requeueMessage opts tag m st = Inr st'" "store_inv st" "r \<in> set (st_messages st)"
    and "\<And>t. encodeNonce (mr_nonce m) = Inr t \<Longrightarrow> msg_key r \<noteq> (toLowerCase (mr_sender m), t)"
  shows "r \<in> set (st_messages st')"
  using assms(1)
proof (cases rule: requeueMessage_Inr)
  case (requeue existing sq st1)
  have st1: "st_messages st1 = st_messages st" "store_inv st1"
    using nextIngestSeq_tables [OF requeue(3)] tables_only_inv [OF assms(2)] by auto
  from requeue(4) st1(2) show ?thesis
  proof (cases rule: upsertObserved_Inr)
    case (replaced q t)
    have "msg_key r \<noteq> (toLowerCase (mr_sender (requeuedRow opts tag m sq)), t)"
      using assms(4) [of t] replaced(1) by (simp add: requeuedRow_def)
    then show ?thesis
      using assms(3) st1(1) by (auto simp: replaced(6) intro!: image_eqI [where x = r])
  qed (use assms(3) st1(1) in auto)
qed (use assms(3) in simp)

lemma requeueMessage_batches: "requeueMessage opts tag m st = Inr st' \<Longrightarrow> st_batches st' = st_batches st"
  by (erule requeueMessage_Inr) (simp_all add: upsertObserved_batches nextIngestSeq_tables)

lemma set_limited: "set (limited lim xs) \<subseteq> set xs"
  by (auto simp: limited_def split: option.splits dest: in_set_takeD)

lemma attached_decoded:
  assumes "listMessages q st = Inr attached" "m \<in> set attached"
  obtains r where "r \<in> set (st_messages st)" "message_matches q r" "mapMessage r = Inr m"
proof -
  obtain r where r: "r \<in> set (limited (mq_limit q) (sort_key message_order (filter (message_matches q) (st_messages st))))"
    "mapMessage r = Inr m"
    using mapE_member assms by (metis listMessages_def)
  then show thesis
    using that set_limited by fastforce
qed

lemma listBatches_row:
  assumes "listBatches q st = Inr rows" "b \<in> set rows"
  obtains rb where "rb \<in> set (st_batches st)" "batch_matches q rb" "mapBatch rb = Inr b"
proof -
  obtain r where r: "r \<in> set (limited (bq_limit q) (sort_key batch_order (filter (batch_matches q) (st_batches st))))"
    "mapBatch r = Inr b"
    using mapE_member assms by (metis listBatches_def)
  then show thesis
    using that set_limited by fastforce
qed

lemma mapMessage_key:
  "mapMessage r = Inr m \<Longrightarrow> mr_sender m = rm_sender r \<and> decodeNonce (rm_nonce r) = Inr (mr_nonce m)
     \<and> mr_messageHash m = rm_messageHash r \<and> mr_contents m = rm_contents r \<and> mr_signature m = rm_signature r"
  by (auto simp: mapMessage_def decNonce_def split: sum.splits)

lemma store_inv_row:
  assumes "store_inv st" "r \<in> set (st_messages st)" "decodeNonce (rm_nonce r) = Inr n"
  shows "encodeNonce n = Inr (rm_nonce r)" "toLowerCase (rm_sender r) = rm_sender r"
  using assms by (auto simp: store_inv_def list_all_iff msg_ok_def nonce_text_def)

text \<open>
  C16. The reorg of one batch strands the other tags of the same packed transaction: the
  watcher re-enqueues only the messages of the batch it is given, while marking the
  whole transaction as reorged. So once it has committed, a confirmed message of another
  tag of that transaction is reorged, not pending, and no later tick will find a batch of
  the transaction among its candidates. If the watcher stops, fails or sees the
  transaction again before it reaches the other tags, their messages are never re-enqueued.
\<close>

theorem reorg_strands_sibling_tags:
  assumes "store_inv st" "reorgBatch opts batch st = Inr ((), st')"
    and "r \<in> set (st_messages st)" "rm_batchRef r = Some (br_txHash batch)" "rm_chainId r = Some (wo_chainId opts)"
    and "rm_status r = Confirmed" "rm_contentTag r \<noteq> br_contentTag batch"
  shows "(\<exists>r' \<in> set (st_messages st'). msg_key r' = msg_key r \<and> rm_status r' = Reorged)
    \<and> (\<forall>head later b. watcherCandidates opts head st' = Inr later \<longrightarrow> b \<in> set later \<longrightarrow> br_txHash b \<noteq> br_txHash batch)"
  using assms(2)
proof (cases rule: reorgBatch_parts)
  case (1 attached st1)
  let ?q = "no_messages_query\<lparr>mq_batchRef := Some (br_txHash batch), mq_contentTag := Some (br_contentTag batch)\<rparr>"
  have inv1: "store_inv st1"
    using markReorged_inv [OF 1(2) assms(1)] .
  let ?r = "r\<lparr>rm_status := Reorged\<rparr>"
  have r1: "?r \<in> set (st_messages st1)"
    using assms(3-6) by (auto simp: markReorged_Inr(1) [OF 1(2)] intro!: image_eqI [where x = r])
  have "store_inv st' \<and> ?r \<in> set (st_messages st') \<and> st_batches st' = st_batches st1"
  proof (rule foldE_invariant [where I = "\<lambda>s. store_inv s \<and> ?r \<in> set (st_messages s) \<and> st_batches s = st_batches st1", OF 1(3)])
    fix m s s'
    assume m: "m \<in> set (sort_key seq_or_0 attached)" and s: "store_inv s \<and> ?r \<in> set (st_messages s) \<and> st_batches s = st_batches st1"
      and step: "requeueMessage opts (br_contentTag batch) m s = Inr s'"
    obtain q where q: "q \<in> set (st_messages st)" "message_matches ?q q" "mapMessage q = Inr m"
      using attached_decoded [OF 1(1), of m] m by auto
    have "msg_key ?r \<noteq> (toLowerCase (mr_sender m), t)" if "encodeNonce (mr_nonce m) = Inr t" for t
    proof
      assume "msg_key ?r = (toLowerCase (mr_sender m), t)"
      moreover have "msg_key q = (toLowerCase (mr_sender m), t)"
        using store_inv_row [OF assms(1) q(1)] mapMessage_key [OF q(3)] that by simp
      ultimately have "q = r"
        using assms(1,3) q(1) distinct_keys_unique [of "\<lambda>r. msg_key r" "st_messages st" q r] by (simp add: store_inv_def)
      then show False
        using q(2) assms(7) by (simp add: message_matches_def no_messages_query_def opt_eq_def)
    qed
    then have "?r \<in> set (st_messages s')"
      using requeueMessage_others [OF step] s by blast
    then show "store_inv s' \<and> ?r \<in> set (st_messages s') \<and> st_batches s' = st_batches st1"
      using s steps_inv [OF requeueMessage_steps [OF step]] requeueMessage_batches [OF step] by simp
  qed (use inv1 r1 in simp)
  moreover have "br_txHash b \<noteq> br_txHash batch"
    if c: "watcherCandidates opts head st' = Inr later" "b \<in> set later" and batches: "st_batches st' = st_batches st1" for head later b
  proof
    assume tx: "br_txHash b = br_txHash batch"
    from c obtain recent where l: "listBatches \<lparr>bq_contentTag = None, bq_chainId = Some (wo_chainId opts), bq_status = None,
        bq_sinceBlock = Some (nat (int head - clampReorgWindow (wo_reorgWindowBlocks opts))),
        bq_sinceIncludedAt = None, bq_limit = None\<rparr> st' = Inr recent" and b: "b \<in> set recent" "br_status b = BatchConfirmed"
      by (auto simp: watcherCandidates_def)
    obtain rb where rb: "rb \<in> set (st_batches st')" "rb_chainId rb = wo_chainId opts" "mapBatch rb = Inr b"
      using listBatches_row [OF l b(1)] by (auto simp: batch_matches_def opt_eq_def)
    then have "rb_txHash rb = br_txHash batch" "rb_status rb = BatchConfirmed"
      using tx b(2) by (auto simp: mapBatch_def)
    then show False
      using rb(1,2) by (auto simp: batches markReorged_Inr(2) [OF 1(2)] split: if_splits)
  qed
  ultimately show ?thesis
    by (intro conjI bexI [of _ ?r]) auto
qed

definition strand_row :: "string \<Rightarrow> string \<Rightarrow> nat \<Rightarrow> raw_message" where
  "strand_row sender tag i = \<lparr>rm_sender = sender, rm_nonce = sample_text, rm_contentTag = tag, rm_contents = [1],
     rm_signature = [2], rm_messageHash = ''0xh'', rm_messageId = None, rm_status = Confirmed, rm_batchRef = Some ''0xtx'',
     rm_chainId = Some 1, rm_ingestedAt = Some 10, rm_ingestSeq = Some i, rm_blockNumber = Some 12, rm_txIndex = Some 0,
     rm_messageIndex = Some 0\<rparr>"

definition strand_batch :: "string \<Rightarrow> raw_batch" where
  "strand_batch tag = \<lparr>rb_txHash = ''0xtx'', rb_chainId = 1, rb_contentTag = tag, rb_blobVersionedHash = ''0xv'',
     rb_batchContentHash = ''0xv'', rb_blockNumber = Some 12, rb_txIndex = Some 0, rb_status = BatchConfirmed,
     rb_replacedByTxHash = None, rb_submittedAt = Some 9, rb_invalidatedAt = None, rb_submitter = None,
     rb_l1IncludedAt = None, rb_messageSnapshot = []\<rparr>"

definition strand_store :: store where
  "strand_store = empty_store\<lparr>st_messages := [strand_row ''0xa'' ''0x01'' 1, strand_row ''0xb'' ''0x02'' 1],
     st_batches := [strand_batch ''0x01'', strand_batch ''0x02'']\<rparr>"

definition strand_watcher :: watcher_options where
  "strand_watcher = \<lparr>wo_chainId = 1, wo_reorgWindowBlocks = Some 32, wo_now = 30\<rparr>"

definition strand_first :: batch_row where
  "strand_first = \<lparr>br_txHash = ''0xtx'', br_chainId = 1, br_contentTag = ''0x01'', br_blobVersionedHash = ''0xv'',
     br_batchContentHash = ''0xv'', br_blockNumber = Some 12, br_txIndex = Some 0, br_status = BatchConfirmed,
     br_replacedByTxHash = None, br_submittedAt = Some 9, br_invalidatedAt = None, br_submitter = None,
     br_l1IncludedAt = None, br_messageSnapshot = []\<rparr>"

lemma strand_inv: "store_inv strand_store"
  using nonce_text_encode [OF encode_4]
  by (simp add: store_inv_def strand_store_def empty_store_def strand_row_def strand_batch_def msg_ok_def toLowerCase_def
    lower_char_def char_code_def)

lemma strand_run: "\<exists>st'. reorgBatch strand_watcher strand_first strand_store = Inr ((), st')"
proof -
  have low: "toLowerCase ''0xa'' = ''0xa''" "toLowerCase ''0xb'' = ''0xb''"
    by (simp_all add: toLowerCase_def lower_char_def char_code_def)
  show ?thesis
    by (simp add: reorgBatch_def listMessages_def message_matches_def no_messages_query_def opt_eq_def opt_ge_def limited_def
      strand_store_def empty_store_def strand_row_def strand_first_def strand_watcher_def mapMessage_def loop_decNonce
      markReorged_def strand_batch_def requeueMessage_def getBySenderNonce_def loop_encNonce low msgs_at_def first_message_def
      nextIngestSeq_def upsertObserved_def requeuedRow_def raw_of_row_def Let_def del: encNonce_Inr)
qed

theorem reorg_strands_sibling_tags_witness:
  "\<exists>st'. reorgBatch strand_watcher strand_first strand_store = Inr ((), st')
     \<and> (\<exists>r' \<in> set (st_messages st'). msg_key r' = (''0xb'', sample_text) \<and> rm_status r' = Reorged)"
proof -
  obtain st' where run: "reorgBatch strand_watcher strand_first strand_store = Inr ((), st')"
    using strand_run by blast
  have "strand_row ''0xb'' ''0x02'' 1 \<in> set (st_messages strand_store)"
    by (simp add: strand_store_def)
  from conjunct1 [OF reorg_strands_sibling_tags [OF strand_inv run this]] run show ?thesis
    by (auto simp: strand_row_def strand_first_def strand_watcher_def)
qed

definition tag_seq :: "string \<Rightarrow> store \<Rightarrow> nat" where
  "tag_seq tag st = (case st_tagSeq st tag of None \<Rightarrow> 0 | Some n \<Rightarrow> n)"

lemma nextIngestSeq_seq:
  "nextIngestSeq tag st = Inr (sq, st') \<Longrightarrow> sq = tag_seq tag st + 1 \<and> tag_seq tag st' = sq \<and> st_messages st' = st_messages st"
  by (auto simp: nextIngestSeq_def tag_seq_def Let_def split: option.splits)

lemma upsertObserved_tagSeq: "upsertObserved row st = Inr (u, st') \<Longrightarrow> st_tagSeq st' = st_tagSeq st"
  unfolding upsertObserved_def Let_def ebind_Inr_iff
  by (elim exE conjE) (auto split: list.split_asm if_split_asm)

lemma attached_covers:
  "listMessages q st = Inr attached \<Longrightarrow> mq_limit q = None \<Longrightarrow> r \<in> set (st_messages st) \<Longrightarrow> message_matches q r \<Longrightarrow>
   \<exists>m \<in> set attached. mapMessage r = Inr m"
  using mapE_covers [of mapMessage "sort_key message_order (filter (message_matches q) (st_messages st))" attached r]
  by (simp add: listMessages_def limited_def)

lemma requeueMessage_tag_seq:
  "requeueMessage opts tag m st = Inr st' \<Longrightarrow> tag_seq tag st \<le> tag_seq tag st'"
  by (erule requeueMessage_Inr) (auto dest!: nextIngestSeq_seq upsertObserved_tagSeq simp: tag_seq_def)

text \<open>The row a re-enqueued message leaves at key k, with a sequence number after n.\<close>

definition requeued_at :: "string \<times> string \<Rightarrow> message_row \<Rightarrow> nat \<Rightarrow> store \<Rightarrow> bool" where
  "requeued_at k m n st \<longleftrightarrow> (\<exists>q \<in> set (st_messages st). msg_key q = k \<and> rm_status q = Pending
     \<and> rm_messageHash q = mr_messageHash m \<and> rm_contents q = mr_contents m \<and> rm_signature q = mr_signature m
     \<and> rm_batchRef q = None \<and> (\<exists>sq > n. rm_ingestSeq q = Some sq))"

definition reorged_at :: "string \<times> string \<Rightarrow> store \<Rightarrow> bool" where
  "reorged_at k st \<longleftrightarrow> (\<exists>q \<in> set (st_messages st). msg_key q = k \<and> rm_status q = Reorged)"

lemma getBySenderNonce_status:
  assumes "store_inv st" "q \<in> set (st_messages st)" "msg_key q = (toLowerCase sender, t)" "encodeNonce nonce = Inr t"
    and "getBySenderNonce sender nonce st = Inr existing"
  shows "\<exists>e. existing = Some e \<and> mr_status e = rm_status q"
proof -
  have "msgs_at (toLowerCase sender) t st = [q]"
    using msgs_at_unique [OF assms(1,2)] assms(3) by simp
  then show ?thesis
    using assms(4,5) by (auto simp: getBySenderNonce_def first_message_def mapMessage_def)
qed

lemma requeueMessage_requeues:
  assumes "requeueMessage opts tag m st = Inr st'" "store_inv st" "n \<le> tag_seq tag st"
    and "encodeNonce (mr_nonce m) = Inr t" "k = (toLowerCase (mr_sender m), t)"
    and "reorged_at k st \<or> requeued_at k m n st"
  shows "requeued_at k m n st'"
  using assms(1)
proof (cases rule: requeueMessage_Inr)
  case (skip e)
  have "\<not> reorged_at k st"
    using getBySenderNonce_status [OF assms(2) _ _ assms(4) skip(1)] skip(2) assms(5) by (auto simp: reorged_at_def)
  then show ?thesis using assms(6) skip(3) by simp
next
  case (requeue existing sq st1)
  have "\<not> requeued_at k m n st"
    using getBySenderNonce_status [OF assms(2) _ _ assms(4) requeue(1)] requeue(2) assms(5)
    by (fastforce simp: requeued_at_def)
  then obtain q where q: "q \<in> set (st_messages st1)" "msg_key q = k" "rm_status q = Reorged"
    using assms(6) nextIngestSeq_seq [OF requeue(3)] by (auto simp: reorged_at_def)
  have sq: "n < sq"
    using nextIngestSeq_seq [OF requeue(3)] assms(3) by simp
  have inv1: "store_inv st1"
    using tables_only_inv [OF assms(2)] nextIngestSeq_tables [OF requeue(3)] by simp
  have t: "encodeNonce (mr_nonce (requeuedRow opts tag m sq)) = Inr t"
    using assms(4) by (simp add: requeuedRow_def)
  from requeue(4) inv1 show ?thesis
  proof (cases rule: upsertObserved_Inr)
    case (fresh t')
    then show ?thesis using q assms(5) t by (force simp: requeuedRow_def)
  next
    case (kept p t')
    then have "p = q"
      using inv1 q assms(5) t distinct_keys_unique [of "\<lambda>r. msg_key r" "st_messages st1" p q]
      by (simp add: store_inv_def requeuedRow_def)
    then show ?thesis using kept(5) q(3) by simp
  next
    case (replaced p t')
    then have "raw_of_row (requeuedRow opts tag m sq) (toLowerCase (mr_sender m)) t \<in> set (st_messages st')"
      using q(1,2) assms(5) t by (auto simp: requeuedRow_def intro!: image_eqI [where x = q])
    then show ?thesis
      unfolding requeued_at_def by (rule bexI [rotated]) (simp add: raw_of_row_def requeuedRow_def assms(5) sq)
  qed
qed



end
