(* ===== verification/RateLimit.thy ===== *)
theory RateLimit
  imports Hex
begin

text \<open>
  The Poster's sliding-window rate limiter (packages/bam-poster/src/ingest/rate-limit.ts): a
  map from lower-cased signer address to the times of its accepted checks, compacted in place
  and swept at most once per window, and its equivalence with a limiter that remembers every
  accepted check. Times are Date values in milliseconds.
\<close>

record rate_config =
  rt_windowMs :: int
  rt_maxPerWindow :: nat

record limiter =
  rl_timestamps :: "string \<Rightarrow> int list option"
  rl_lastSweepMs :: int

definition DEFAULT_RATE_LIMIT :: rate_config where
  "DEFAULT_RATE_LIMIT = \<lparr>rt_windowMs = 60000, rt_maxPerWindow = 60\<rparr>"

definition newLimiter :: limiter where
  "newLimiter = \<lparr>rl_timestamps = (\<lambda>_. None), rl_lastSweepMs = 0\<rparr>"

definition history_of :: "(string \<Rightarrow> int list option) \<Rightarrow> string \<Rightarrow> int list" where
  "history_of m k = (case m k of None \<Rightarrow> [] | Some h \<Rightarrow> h)"

definition sweep :: "int \<Rightarrow> (string \<Rightarrow> int list option) \<Rightarrow> string \<Rightarrow> int list option" where
  "sweep windowStart m =
     (\<lambda>addr. case m addr of None \<Rightarrow> None
        | Some hist \<Rightarrow> if hist = [] \<or> last hist \<le> windowStart then None else Some hist)"

text \<open>
  The history array is the one the map holds, so compacting it changes the map's entry before
  the sweep looks at it.
\<close>

definition rateCheck :: "rate_config \<Rightarrow> int \<Rightarrow> string \<Rightarrow> limiter \<Rightarrow> bool \<times> limiter" where
  "rateCheck config now key rl =
     (let windowStart = now - rt_windowMs config;
          normalized = toLowerCase key;
          history = filter (\<lambda>t. windowStart < t) (history_of (rl_timestamps rl) normalized);
          compacted = (if rl_timestamps rl normalized = None then rl_timestamps rl
                       else (rl_timestamps rl)(normalized \<mapsto> history));
          due = rt_windowMs config \<le> now - rl_lastSweepMs rl;
          swept = (if due then sweep windowStart compacted else compacted);
          lastSweep = (if due then now else rl_lastSweepMs rl)
      in if rt_maxPerWindow config \<le> length history
         then (False, \<lparr>rl_timestamps = swept(normalized \<mapsto> history), rl_lastSweepMs = lastSweep\<rparr>)
         else (True, \<lparr>rl_timestamps = swept(normalized \<mapsto> history @ [now]), rl_lastSweepMs = lastSweep\<rparr>))"

primrec limiter_run :: "rate_config \<Rightarrow> limiter \<Rightarrow> (int \<times> string) list \<Rightarrow> bool list" where
  "limiter_run config rl [] = []"
| "limiter_run config rl (c # cs) =
     (case rateCheck config (fst c) (snd c) rl of (ok, rl') \<Rightarrow> ok # limiter_run config rl' cs)"

section \<open>The reference: a log of every accepted check\<close>

definition in_window :: "rate_config \<Rightarrow> int \<Rightarrow> string \<Rightarrow> (int \<times> string) list \<Rightarrow> int list" where
  "in_window config now k accepted = map fst (filter (\<lambda>(t, k'). k' = k \<and> now - rt_windowMs config < t) accepted)"

definition ref_check :: "rate_config \<Rightarrow> int \<Rightarrow> string \<Rightarrow> (int \<times> string) list \<Rightarrow> bool" where
  "ref_check config now key accepted \<longleftrightarrow>
     length (in_window config now (toLowerCase key) accepted) < rt_maxPerWindow config"

primrec ref_run :: "rate_config \<Rightarrow> (int \<times> string) list \<Rightarrow> (int \<times> string) list \<Rightarrow> bool list" where
  "ref_run config accepted [] = []"
| "ref_run config accepted (c # cs) =
     (let ok = ref_check config (fst c) (snd c) accepted
      in ok # ref_run config (if ok then accepted @ [(fst c, toLowerCase (snd c))] else accepted) cs)"

text \<open>The accepted checks of a run.\<close>

definition accepted_of :: "(int \<times> string) list \<Rightarrow> bool list \<Rightarrow> (int \<times> string) list" where
  "accepted_of cs oks = map (\<lambda>((t, k), _). (t, toLowerCase k)) (filter snd (zip cs oks))"

lemma accepted_of_simps [simp]:
  "accepted_of [] oks = []"
  "accepted_of (c # cs) (ok # oks) = (if ok then (fst c, toLowerCase (snd c)) # accepted_of cs oks else accepted_of cs oks)"
  by (auto simp: accepted_of_def split: prod.splits)

section \<open>Equivalence\<close>

text \<open>The map agrees with the log on every window that ends no earlier than the last check.\<close>

definition agrees :: "rate_config \<Rightarrow> int \<Rightarrow> limiter \<Rightarrow> (int \<times> string) list \<Rightarrow> bool" where
  "agrees config T rl accepted \<longleftrightarrow>
     (\<forall>k. sorted (history_of (rl_timestamps rl) k) \<and> (\<forall>t \<in> set (history_of (rl_timestamps rl) k). t \<le> T)
        \<and> (\<forall>now \<ge> T. filter (\<lambda>t. now - rt_windowMs config < t) (history_of (rl_timestamps rl) k) = in_window config now k accepted))"

lemma history_upd [simp]: "history_of (m(k \<mapsto> h)) k' = (if k' = k then h else history_of m k')"
  by (simp add: history_of_def)

lemma history_sweep:
  assumes "sorted (history_of m k)" "windowStart \<le> ws"
  shows "filter (\<lambda>t. ws < t) (history_of (sweep windowStart m) k) = filter (\<lambda>t. ws < t) (history_of m k)"
    and "history_of (sweep windowStart m) k \<in> {[], history_of m k}"
proof -
  have "t \<le> windowStart" if "m k = Some h" "h \<noteq> []" "last h \<le> windowStart" "t \<in> set h" for h t
  proof -
    have "sorted (butlast h @ [last h])"
      using assms(1) that(1,2) by (simp add: history_of_def)
    then have "\<forall>x \<in> set (butlast h @ [last h]). x \<le> last h"
      by (simp only: sorted_append) simp
    then show ?thesis
      using that by (metis append_butlast_last_id order_trans)
  qed
  then have "filter (\<lambda>t. ws < t) h = []" if "m k = Some h" "h \<noteq> []" "last h \<le> windowStart" for h
    using that assms(2) unfolding filter_empty_conv by (meson order_trans not_less)
  then show "filter (\<lambda>t. ws < t) (history_of (sweep windowStart m) k) = filter (\<lambda>t. ws < t) (history_of m k)"
    by (cases "m k"; cases "the (m k) = []") (simp_all add: history_of_def sweep_def)
  show "history_of (sweep windowStart m) k \<in> {[], history_of m k}"
    by (auto simp: history_of_def sweep_def split: option.splits)
qed

lemma filter_later: "ws \<le> ws' \<Longrightarrow> filter (\<lambda>t. ws' < (t::int)) (filter (\<lambda>t. ws < t) xs) = filter (\<lambda>t. ws' < t) xs"
  by (auto simp: filter_filter intro: filter_cong)

lemma sorted_snoc: "sorted xs \<Longrightarrow> \<forall>x \<in> set xs. x \<le> (y::int) \<Longrightarrow> sorted (xs @ [y])"
  by (simp add: sorted_append)

lemma rateCheck_agrees:
  assumes "agrees config T rl accepted" "T \<le> now" "0 \<le> rt_windowMs config"
    and "rateCheck config now key rl = (ok, rl')"
  shows "ok = ref_check config now key accepted"
    and "agrees config now rl' (if ok then accepted @ [(now, toLowerCase key)] else accepted)"
proof -
  let ?ws = "now - rt_windowMs config" and ?k = "toLowerCase key"
  let ?h = "filter (\<lambda>t. ?ws < t) (history_of (rl_timestamps rl) ?k)"
  define m where "m = (if rl_timestamps rl ?k = None then rl_timestamps rl else (rl_timestamps rl)(?k \<mapsto> ?h))"
  define s where "s = (if rt_windowMs config \<le> now - rl_lastSweepMs rl then sweep ?ws m else m)"
  have a: "sorted (history_of (rl_timestamps rl) k)" "t \<in> set (history_of (rl_timestamps rl) k) \<Longrightarrow> t \<le> T"
    "T \<le> n \<Longrightarrow> filter (\<lambda>t. n - rt_windowMs config < t) (history_of (rl_timestamps rl) k) = in_window config n k accepted" for k t n
    using assms(1) by (simp_all add: agrees_def)
  have ok: "ok \<longleftrightarrow> length ?h < rt_maxPerWindow config"
    and ts: "rl_timestamps rl' = s(?k \<mapsto> if ok then ?h @ [now] else ?h)"
    using assms(4) by (auto simp: rateCheck_def Let_def m_def s_def split: if_splits)
  show "ok = ref_check config now key accepted"
    using ok a(3) [OF assms(2)] by (simp add: ref_check_def)
  have hm: "history_of m k = (if k = ?k then ?h else history_of (rl_timestamps rl) k)" for k
    by (auto simp: m_def history_of_def)
  have sm: "sorted (history_of m k)" for k
    using a(1) by (auto simp: hm intro: sorted_wrt_filter)
  have sn: "\<forall>t \<in> set (history_of m k). t \<le> now" for k
  proof
    fix t
    assume "t \<in> set (history_of m k)"
    then have "t \<in> set (history_of (rl_timestamps rl) k) \<union> set (history_of (rl_timestamps rl) ?k)"
      by (auto simp: hm split: if_splits)
    then show "t \<le> now"
      using a(2) assms(2) by (meson UnE order_trans)
  qed
  have hs: "history_of s k \<in> {[], history_of m k}" for k
    using history_sweep(2) [OF sm] by (auto simp: s_def)
  have fs: "filter (\<lambda>t. n - rt_windowMs config < t) (history_of s k) = in_window config n k accepted" if "now \<le> n" "k \<noteq> ?k" for n k
    using history_sweep(1) [OF sm, of ?ws "n - rt_windowMs config"] a(3) [of n k] that assms(2) by (auto simp: s_def hm)
  have fh: "filter (\<lambda>t. n - rt_windowMs config < t) ?h = in_window config n ?k accepted" if "now \<le> n" for n
    using filter_later [of ?ws "n - rt_windowMs config"] a(3) [of n ?k] that assms(2) by simp
  show "agrees config now rl' (if ok then accepted @ [(now, toLowerCase key)] else accepted)"
    unfolding agrees_def
  proof (intro allI conjI ballI impI)
    fix k
    show "sorted (history_of (rl_timestamps rl') k)"
      using hs [of k] sm [of k] sm [of ?k] sn [of ?k] unfolding ts hm by (auto intro!: sorted_snoc)
    show "t \<le> now" if "t \<in> set (history_of (rl_timestamps rl') k)" for t
      using that hs [of k] sn [of k] sn [of ?k] unfolding ts hm by (auto split: if_splits)
    show "filter (\<lambda>t. n - rt_windowMs config < t) (history_of (rl_timestamps rl') k)
        = in_window config n k (if ok then accepted @ [(now, ?k)] else accepted)" if "now \<le> n" for n
      using fs [OF that, of k] fh [OF that] unfolding ts by (auto simp: in_window_def)
  qed
qed

lemma limiter_run_ref:
  assumes "0 \<le> rt_windowMs config"
  shows "agrees config T rl accepted \<Longrightarrow> sorted (T # map fst cs) \<Longrightarrow>
    limiter_run config rl cs = ref_run config accepted cs"
proof (induction cs arbitrary: T rl accepted)
  case (Cons c cs)
  obtain ok rl' where r: "rateCheck config (fst c) (snd c) rl = (ok, rl')"
    by fastforce
  have T: "T \<le> fst c"
    using Cons.prems(2) by simp
  note step = rateCheck_agrees [OF Cons.prems(1) T assms r]
  show ?case
    using Cons.IH [OF step(2)] Cons.prems(2) r step(1) by (simp add: Let_def)
qed simp
section \<open>The bound\<close>

definition spent :: "rate_config \<Rightarrow> int \<Rightarrow> string \<Rightarrow> (int \<times> string) list \<Rightarrow> nat" where
  "spent config now k accepted =
     length (filter (\<lambda>(t, k'). k' = k \<and> now - rt_windowMs config < t \<and> t \<le> now) accepted)"

lemma spent_in_window: "t0 \<le> now \<Longrightarrow> spent config now k accepted \<le> length (in_window config t0 k accepted)"
  unfolding spent_def in_window_def length_map
  by (induction accepted) auto

lemma ref_run_bound:
  assumes "\<forall>now k. spent config now k accepted \<le> rt_maxPerWindow config"
  shows "spent config now k (accepted @ accepted_of cs (ref_run config accepted cs)) \<le> rt_maxPerWindow config"
  using assms
proof (induction cs arbitrary: accepted)
  case (Cons c cs)
  show ?case
  proof (cases "ref_check config (fst c) (snd c) accepted")
    case True
    let ?new = "accepted @ [(fst c, toLowerCase (snd c))]"
    have "spent config n k' ?new \<le> rt_maxPerWindow config" for n k'
    proof (cases "fst c \<le> n \<and> k' = toLowerCase (snd c)")
      case hit: True
      then have "spent config n k' ?new \<le> length (in_window config (fst c) k' accepted) + 1"
        using spent_in_window [of "fst c" n config k' accepted] by (simp add: spent_def)
      then show ?thesis
        using True hit by (simp add: ref_check_def)
    next
      case False
      then have "spent config n k' ?new = spent config n k' accepted"
        by (auto simp: spent_def)
      then show ?thesis
        using Cons.prems by simp
    qed
    then show ?thesis
      using Cons.IH [of ?new] True by (simp add: Let_def)
  qed (use Cons in \<open>simp add: Let_def\<close>)
qed simp

text \<open>
  C22. The rate limiter, which compacts its histories in place and drops idle entries in sweeps, decides every check exactly as a limiter that remembers all accepted checks, whatever addresses are interleaved and however they are cased, as long as the clock does not go back; so no address is ever granted more than maxPerWindow checks within any window of windowMs.
\<close>

theorem rate_limiter_exact:
  assumes "0 \<le> rt_windowMs config" "sorted (map fst cs)"
  shows "limiter_run config newLimiter cs = ref_run config [] cs
    \<and> spent config now k (accepted_of cs (limiter_run config newLimiter cs)) \<le> rt_maxPerWindow config"
proof -
  define T where "T = (case cs of [] \<Rightarrow> 0 | c # _ \<Rightarrow> fst c)"
  have "agrees config T newLimiter []"
    by (simp add: agrees_def newLimiter_def history_of_def in_window_def)
  moreover have "sorted (T # map fst cs)"
    using assms(2) by (cases cs) (simp_all add: T_def)
  ultimately have "limiter_run config newLimiter cs = ref_run config [] cs"
    by (rule limiter_run_ref [OF assms(1)])
  moreover have "spent config now k (accepted_of cs (ref_run config [] cs)) \<le> rt_maxPerWindow config"
    using ref_run_bound [of config "[]" now k cs] by (simp add: spent_def)
  ultimately show ?thesis
    by simp
qed

theorem rate_limiter_exact_witness:
  "let cs = [(10, ''0xA''), (20, ''0xb''), (30, ''0xa''), (40, ''0xA''), (111, ''0xa'')];
       oks = limiter_run \<lparr>rt_windowMs = 100, rt_maxPerWindow = 2\<rparr> newLimiter cs
   in oks = [True, True, True, False, True] \<and> spent \<lparr>rt_windowMs = 100, rt_maxPerWindow = 2\<rparr> 111 ''0xa'' (accepted_of cs oks) \<le> 2"
proof -
  let ?c = "\<lparr>rt_windowMs = 100, rt_maxPerWindow = 2\<rparr>"
  let ?cs = "[(10, ''0xA''), (20, ''0xb''), (30, ''0xa''), (40, ''0xA''), (111, ''0xa'')]"
  have "limiter_run ?c newLimiter ?cs = [True, True, True, False, True]"
    by code_simp
  then show ?thesis
    using rate_limiter_exact [of ?c ?cs 111 "''0xa''"] by (simp add: Let_def)
qed

end
