(* ===== verification/Ingest.thy ===== *)
theory Ingest
  imports Workers RateLimit Json Pack Decode
begin

text \<open>
  How a message enters the Poster (packages/bam-poster/src/ingest, validator/default-ecdsa.ts,
  util/canonical.ts, surfaces/nonce.ts): the envelope parser, the size bounds, the tag
  allowlist, the rate limit, the monotonicity check, the validator and the insertion, in one
  transaction. JSON.parse after UTF-8 decoding (parse, None when it throws), keccak and the
  ECDSA check are arguments.
\<close>

datatype poster_rejection =
    UnknownTag
  | MessageTooLarge
  | Malformed
  | BadSignature
  | StaleNonce
  | Duplicate
  | RateLimited
  | PosterUnhealthy
  | InternalError

datatype submit_result = Accepted string | Rejected poster_rejection

section \<open>Envelope\<close>

record envelope =
  me_tag :: string
  me_sender :: string
  me_nonce :: int
  me_contents :: bytes
  me_signature :: bytes

definition canonicalTag :: "string \<Rightarrow> string" where
  "canonicalTag tag = toLowerCase tag"

fun isHexPrefixed :: "nat \<Rightarrow> json option \<Rightarrow> string option" where
  "isHexPrefixed lengthBytes (Some (JStr v)) =
     (if length v \<noteq> 2 + lengthBytes * 2 then None else if prefixed_hex v then Some v else None)"
| "isHexPrefixed lengthBytes _ = None"

definition isBytes32 :: "json option \<Rightarrow> string option" where
  "isBytes32 v = isHexPrefixed 32 v"

definition isAddress :: "json option \<Rightarrow> string option" where
  "isAddress v = isHexPrefixed 20 v"

fun parseNonce :: "json option \<Rightarrow> int option" where
  "parseNonce (Some (JNum v)) = (if v \<ge> 0 then Some v else None)"
| "parseNonce (Some (JStr v)) =
     (if v \<noteq> [] \<and> list_all ascii_digit v then Some (BigInt10 v)
      else if prefixed_hex v then Some (BigInt16 v)
      else None)"
| "parseNonce _ = None"

fun parseHexBytes :: "json option \<Rightarrow> bytes option" where
  "parseHexBytes (Some (JStr v)) =
     (let hex = strip0x v in
      if \<not> list_all is_hex_char hex then None
      else if length hex mod 2 \<noteq> 0 then None
      else Some (hex_pairs hex))"
| "parseHexBytes _ = None"

definition parseEnvelope :: "(bytes \<Rightarrow> json option) \<Rightarrow> bytes \<Rightarrow> envelope option" where
  "parseEnvelope parse raw =
     (let decoded = parse raw in
      if \<not> is_object decoded then None
      else case isBytes32 (jget ''contentTag'' decoded) of
        None \<Rightarrow> None
      | Some contentTag \<Rightarrow>
          let message = jget ''message'' decoded in
          if \<not> is_object message then None
          else case isAddress (jget ''sender'' message) of
            None \<Rightarrow> None
          | Some sender \<Rightarrow>
              (case parseNonce (jget ''nonce'' message) of
                 None \<Rightarrow> None
               | Some nonce \<Rightarrow>
                   (case parseHexBytes (jget ''contents'' message) of
                      None \<Rightarrow> None
                    | Some contents \<Rightarrow>
                        (case parseHexBytes (jget ''signature'' message) of
                           None \<Rightarrow> None
                         | Some sig \<Rightarrow>
                             if length sig \<noteq> 65 then None
                             else Some \<lparr>me_tag = canonicalTag contentTag, me_sender = sender, me_nonce = nonce,
                                        me_contents = contents, me_signature = sig\<rparr>))))"

section \<open>Size bounds\<close>

definition BATCH_FRAMING_SLACK :: nat where "BATCH_FRAMING_SLACK = 4096"

definition BATCH_HEADER_FIXED_SIZE :: nat where "BATCH_HEADER_FIXED_SIZE = 95"

definition MESSAGE_HEADER_SIZE :: nat where "MESSAGE_HEADER_SIZE = 33"

definition DEFAULT_MAX_MESSAGE_SIZE_BYTES :: nat where
  "DEFAULT_MAX_MESSAGE_SIZE_BYTES =
     BLOB_USABLE_CAPACITY - BATCH_HEADER_FIXED_SIZE - MESSAGE_HEADER_SIZE - BATCH_FRAMING_SLACK"

definition DEFAULT_MAX_CONTENTS_SIZE_BYTES :: nat where
  "DEFAULT_MAX_CONTENTS_SIZE_BYTES = DEFAULT_MAX_MESSAGE_SIZE_BYTES - 1024"

definition checkSizeBound :: "bytes \<Rightarrow> nat \<Rightarrow> poster_rejection option" where
  "checkSizeBound raw maxBytes = (if length raw > maxBytes then Some MessageTooLarge else None)"

section \<open>Monotonicity\<close>

datatype monotonicity_outcome = MonoAccept | MonoNoOp string | MonoReject poster_rejection

definition seedNonce :: "string \<Rightarrow> store \<Rightarrow> store_error + (nonce_row option \<times> store)" where
  "seedNonce sender st =
     ebind (getNonce sender st) (\<lambda>row.
       case row of
         Some r \<Rightarrow> Inr (Some r, st)
       | None \<Rightarrow> ebind (getMaxNonReorgedNonce sender st) (\<lambda>seed.
           case seed of
             None \<Rightarrow> Inr (None, st)
           | Some s \<Rightarrow> ebind (setNonce s st) (\<lambda>(_, st'). Inr (Some s, st'))))"

definition checkMonotonicity ::
  "string \<Rightarrow> int \<Rightarrow> string \<Rightarrow> store \<Rightarrow> store_error + (monotonicity_outcome \<times> store)" where
  "checkMonotonicity sender nonce messageHash st =
     ebind (seedNonce sender st) (\<lambda>(row, st').
       case row of
         None \<Rightarrow> Inr (MonoAccept, st')
       | Some r \<Rightarrow>
           if nonce > nr_lastNonce r then Inr (MonoAccept, st')
           else if nonce = nr_lastNonce r then
             if toLowerCase messageHash = toLowerCase (nr_lastMessageHash r)
             then Inr (MonoNoOp (nr_lastMessageHash r), st')
             else Inr (MonoReject StaleNonce, st')
           else Inr (MonoReject StaleNonce, st'))"

definition getNextNonce :: "(nat \<Rightarrow> bool) \<Rightarrow> string \<Rightarrow> store \<Rightarrow> (store_error + int) \<times> store" where
  "getNextNonce conflict sender st =
     (case withTxn conflict (\<lambda>st. ebind (getNonce sender st) (\<lambda>r. Inr (r, st))) st of
        (Inl e, st') \<Rightarrow> (Inl e, st')
      | (Inr None, st') \<Rightarrow> (Inr 0, st')
      | (Inr (Some row), st') \<Rightarrow> (Inr (nr_lastNonce row + 1), st'))"

section \<open>Validator\<close>

text \<open>
  recoverSigner is optional; its outer None is an absent method, the result None a failed
  recovery or a throw, which the pipeline treats alike.
\<close>

record message_validator =
  mv_validate :: "decoded_message \<Rightarrow> poster_rejection option"
  mv_recoverSigner :: "(decoded_message \<Rightarrow> string option) option"

definition defaultEcdsaValidator :: "ecdsa \<Rightarrow> nat \<Rightarrow> message_validator" where
  "defaultEcdsaValidator ec chainId =
     (let ok = (\<lambda>msg. ec_verify ec (toBAMMessage msg) (dm_contentTag msg) (bytesToHex (dm_signature msg)) (dm_sender msg) chainId)
      in \<lparr>mv_validate = (\<lambda>msg. if ok msg then None else Some BadSignature),
          mv_recoverSigner = Some (\<lambda>msg. if ok msg then Some (dm_sender msg) else None)\<rparr>)"

section \<open>Pipeline\<close>

record ingest_options =
  ig_validator :: message_validator
  ig_rate :: rate_config
  ig_allowlistedTags :: "string list"
  ig_maxMessageSizeBytes :: nat
  ig_maxContentsSizeBytes :: nat
  ig_chainId :: nat

definition RECOVER_FAILED_KEY :: string where
  "RECOVER_FAILED_KEY = ZERO_ADDRESS"

definition rateLimitKey :: "message_validator \<Rightarrow> decoded_message \<Rightarrow> string" where
  "rateLimitKey v decoded =
     (case mv_recoverSigner v of
        None \<Rightarrow> dm_sender decoded
      | Some recoverSigner \<Rightarrow>
          (case recoverSigner decoded of
             None \<Rightarrow> RECOVER_FAILED_KEY
           | Some recovered \<Rightarrow>
               if toLowerCase recovered \<noteq> toLowerCase (dm_sender decoded) then RECOVER_FAILED_KEY else recovered))"

definition decodedOf :: "envelope \<Rightarrow> string \<Rightarrow> decoded_message" where
  "decodedOf env messageHash =
     \<lparr>dm_sender = me_sender env, dm_nonce = me_nonce env, dm_contents = me_contents env, dm_contentTag = me_tag env,
      dm_signature = me_signature env, dm_messageHash = messageHash, dm_ingestedAt = None\<rparr>"

definition pendingOf :: "ingest_options \<Rightarrow> decoded_message \<Rightarrow> nat \<Rightarrow> nat \<Rightarrow> pending_row" where
  "pendingOf opts d now sq =
     \<lparr>pr_contentTag = dm_contentTag d, pr_sender = dm_sender d, pr_nonce = dm_nonce d, pr_contents = dm_contents d,
      pr_signature = dm_signature d, pr_messageHash = dm_messageHash d, pr_chainId = ig_chainId opts,
      pr_ingestedAt = now, pr_ingestSeq = sq\<rparr>"

definition ingestTxn :: "ingest_options \<Rightarrow> decoded_message \<Rightarrow> nat \<Rightarrow> submit_result txn" where
  "ingestTxn opts d now st =
     ebind (checkMonotonicity (dm_sender d) (dm_nonce d) (dm_messageHash d) st) (\<lambda>(mono, st1).
       case mono of
         MonoReject reason \<Rightarrow> Inr (Rejected reason, st1)
       | MonoNoOp existing \<Rightarrow> Inr (Accepted existing, st1)
       | MonoAccept \<Rightarrow>
           (case mv_validate (ig_validator opts) d of
              Some reason \<Rightarrow> Inr (Rejected reason, st1)
            | None \<Rightarrow>
                ebind (setNonce \<lparr>nr_sender = dm_sender d, nr_lastNonce = dm_nonce d, nr_lastMessageHash = dm_messageHash d\<rparr> st1)
                  (\<lambda>(_, st2). ebind (nextIngestSeq (dm_contentTag d) st2)
                    (\<lambda>(sq, st3). ebind (insertPending (pendingOf opts d now sq) st3)
                      (\<lambda>(_, st4). Inr (Accepted (dm_messageHash d), st4))))))"

definition ingest ::
  "(bytes \<Rightarrow> bytes) \<Rightarrow> (bytes \<Rightarrow> json option) \<Rightarrow> ingest_options \<Rightarrow> (nat \<Rightarrow> bool) \<Rightarrow> nat \<Rightarrow> bytes \<Rightarrow> limiter \<times> store
     \<Rightarrow> (store_error + submit_result) \<times> limiter \<times> store" where
  "ingest keccak parse opts conflict now raw w =
     (case w of (rl, st) \<Rightarrow>
       case checkSizeBound raw (ig_maxMessageSizeBytes opts) of
         Some reason \<Rightarrow> (Inr (Rejected reason), rl, st)
       | None \<Rightarrow>
         (case parseEnvelope parse raw of
            None \<Rightarrow> (Inr (Rejected Malformed), rl, st)
          | Some env \<Rightarrow>
            if length (me_contents env) > ig_maxContentsSizeBytes opts then (Inr (Rejected MessageTooLarge), rl, st)
            else if \<not> list_ex (\<lambda>t. toLowerCase t = toLowerCase (me_tag env)) (ig_allowlistedTags opts)
            then (Inr (Rejected UnknownTag), rl, st)
            else case computeMessageHash keccak (me_sender env) (me_tag env) (me_nonce env) (me_contents env) of
              Inl _ \<Rightarrow> (Inr (Rejected Malformed), rl, st)
            | Inr messageHash \<Rightarrow>
              (let d = decodedOf env messageHash in
               case rateCheck (ig_rate opts) (int now) (rateLimitKey (ig_validator opts) d) rl of
                 (False, rl') \<Rightarrow> (Inr (Rejected RateLimited), rl', st)
               | (True, rl') \<Rightarrow>
                 (case withTxn conflict (ingestTxn opts d now) st of
                    (Inl (DuplicateMessage _ _), st') \<Rightarrow> (Inr (Rejected Duplicate), rl', st')
                  | (Inl e, st') \<Rightarrow> (Inl e, rl', st')
                  | (Inr res, st') \<Rightarrow> (Inr res, rl', st')))))"
section \<open>The transaction\<close>

lemma setNonce_Inr:
  "setNonce row st = Inr (u, st') \<longleftrightarrow> (\<exists>t. encodeNonce (nr_lastNonce row) = Inr t
     \<and> st' = st\<lparr>st_nonces := (st_nonces st)(toLowerCase (nr_sender row) \<mapsto> (t, nr_lastMessageHash row))\<rparr>)"
  by (auto simp: setNonce_def)

lemma getNonce_Inr:
  "getNonce sender st = Inr row \<Longrightarrow> (case row of
      None \<Rightarrow> st_nonces st (toLowerCase sender) = None
    | Some r \<Rightarrow> \<exists>t. st_nonces st (toLowerCase sender) = Some (t, nr_lastMessageHash r) \<and> decNonce t = Inr (nr_lastNonce r)
        \<and> nr_sender r = toLowerCase sender)"
  by (auto simp: getNonce_def split: option.splits)

text \<open>Only the tracker of the sender changes, and only from absent.\<close>

lemma seedNonce_Inr:
  assumes "seedNonce sender st = Inr (row, st')"
  shows "steps st st'" and "st' = st\<lparr>st_nonces := st_nonces st'\<rparr>"
    and "st_nonces st' s = st_nonces st s \<or> s = toLowerCase sender \<and> st_nonces st s = None"
    and "\<And>r t h. row = Some r \<Longrightarrow> st_nonces st (toLowerCase sender) = Some (t, h) \<Longrightarrow> decNonce t = Inr (nr_lastNonce r)"
    and "row = None \<Longrightarrow> st_nonces st (toLowerCase sender) = None"
proof -
  obtain r0 where r0: "getNonce sender st = Inr r0"
    using assms by (auto simp: seedNonce_def)
  consider (tracked) r where "r0 = Some r" "row = Some r" "st' = st"
    | (fresh) "r0 = None" "row = None" "st' = st"
    | (seeded) s where "r0 = None" "getMaxNonReorgedNonce sender st = Inr (Some s)" "row = Some s" "setNonce s st = Inr ((), st')"
    using assms r0 by (auto simp: seedNonce_def split: option.splits)
  then have "steps st st' \<and> st' = st\<lparr>st_nonces := st_nonces st'\<rparr>
    \<and> (st_nonces st' s = st_nonces st s \<or> s = toLowerCase sender \<and> st_nonces st s = None)
    \<and> (\<forall>r t h. row = Some r \<longrightarrow> st_nonces st (toLowerCase sender) = Some (t, h) \<longrightarrow> decNonce t = Inr (nr_lastNonce r))
    \<and> (row = None \<longrightarrow> st_nonces st (toLowerCase sender) = None)"
  proof cases
    case (tracked r)
    then show ?thesis
      using getNonce_Inr [OF r0] by auto
  next
    case fresh
    then show ?thesis
      using getNonce_Inr [OF r0] by auto
  next
    case (seeded s')
    have "nr_sender s' = toLowerCase sender"
      using seeded(2) by (auto simp: getMaxNonReorgedNonce_def Let_def split: option.splits)
    moreover have "steps st st'"
      using seeded(4) by (blast intro: store_step.nonce)
    ultimately show ?thesis
      using getNonce_Inr [OF r0] seeded by (auto simp: setNonce_Inr split: if_split_asm)
  qed
  then show "steps st st'" and "st' = st\<lparr>st_nonces := st_nonces st'\<rparr>"
    and "st_nonces st' s = st_nonces st s \<or> s = toLowerCase sender \<and> st_nonces st s = None"
    and "\<And>r t h. row = Some r \<Longrightarrow> st_nonces st (toLowerCase sender) = Some (t, h) \<Longrightarrow> decNonce t = Inr (nr_lastNonce r)"
    and "row = None \<Longrightarrow> st_nonces st (toLowerCase sender) = None"
    by blast+
qed

text \<open>The tracker of a sender lies below a nonce: absent, or decoding to a smaller number.\<close>

definition tracked_below :: "store \<Rightarrow> string \<Rightarrow> int \<Rightarrow> bool" where
  "tracked_below st s n \<longleftrightarrow> (\<forall>t h k. st_nonces st s = Some (t, h) \<longrightarrow> decNonce t = Inr k \<longrightarrow> k < n)"

lemma ingestTxn_cases:
  assumes "ingestTxn opts d now st = Inr (res, st')" "store_inv st"
  obtains (refused) reason where "res = Rejected reason" "st_messages st' = st_messages st" "st_batches st' = st_batches st"
      "\<And>s. st_nonces st' s = st_nonces st s \<or> s = toLowerCase (dm_sender d) \<and> st_nonces st s = None"
  | (retry) h where "res = Accepted h" "toLowerCase h = toLowerCase (dm_messageHash d)" "st_messages st' = st_messages st"
      "st_batches st' = st_batches st"
      "\<And>s. st_nonces st' s = st_nonces st s \<or> s = toLowerCase (dm_sender d) \<and> st_nonces st s = None"
  | (admitted) t sq where "res = Accepted (dm_messageHash d)" "mv_validate (ig_validator opts) d = None"
      "encodeNonce (dm_nonce d) = Inr t" "tracked_below st (toLowerCase (dm_sender d)) (dm_nonce d)"
      "\<forall>q \<in> set (st_messages st). msg_key q = (toLowerCase (dm_sender d), t) \<longrightarrow> rm_status q = Reorged"
      "st_messages st' = filter (\<lambda>q. msg_key q \<noteq> (toLowerCase (dm_sender d), t)) (st_messages st)
         @ [pending_raw (pendingOf opts d now sq) t]"
      "st_batches st' = st_batches st"
      "st_nonces st' (toLowerCase (dm_sender d)) = Some (t, dm_messageHash d)"
      "\<And>s. s \<noteq> toLowerCase (dm_sender d) \<Longrightarrow> st_nonces st' s = st_nonces st s"
proof -
  obtain row st1 where seed: "seedNonce (dm_sender d) st = Inr (row, st1)"
    using assms(1) by (auto simp: ingestTxn_def checkMonotonicity_def)
  obtain m where m: "st1 = st\<lparr>st_nonces := m\<rparr>"
    using seedNonce_Inr(2) [OF seed] by metis
  note tr = seedNonce_Inr(3) [OF seed]
  obtain mono where mono: "checkMonotonicity (dm_sender d) (dm_nonce d) (dm_messageHash d) st = Inr (mono, st1)"
    using assms(1) seed by (auto simp: ingestTxn_def checkMonotonicity_def split: option.splits if_splits)
  show thesis
  proof (cases mono)
    case (MonoReject reason)
    then show thesis
      using assms(1) mono m tr by (intro refused [of reason]) (auto simp: ingestTxn_def)
  next
    case (MonoNoOp h)
    then have "toLowerCase h = toLowerCase (dm_messageHash d)"
      using mono seed by (auto simp: checkMonotonicity_def split: option.splits if_splits)
    then show thesis
      using assms(1) mono m tr MonoNoOp by (intro retry [of h]) (auto simp: ingestTxn_def)
  next
    case MonoAccept
    show thesis
    proof (cases "mv_validate (ig_validator opts) d")
      case (Some reason)
      then show thesis
        using assms(1) mono m tr MonoAccept by (intro refused [of reason]) (auto simp: ingestTxn_def)
    next
      case None
      then obtain st2 sq st3 where st2: "setNonce \<lparr>nr_sender = dm_sender d, nr_lastNonce = dm_nonce d,
            nr_lastMessageHash = dm_messageHash d\<rparr> st1 = Inr ((), st2)"
          and st3: "nextIngestSeq (dm_contentTag d) st2 = Inr (sq, st3)"
          and ins: "insertPending (pendingOf opts d now sq) st3 = Inr ((), st')" and res: "res = Accepted (dm_messageHash d)"
        using assms(1) mono MonoAccept by (auto simp: ingestTxn_def)
      have msgs: "st_messages st3 = st_messages st" "st_batches st3 = st_batches st" "st_nonces st3 = st_nonces st2"
        using st2 st3 m by (auto simp: setNonce_Inr nextIngestSeq_def Let_def)
      then have inv: "store_inv st3"
        using assms(2) by (simp add: store_inv_def)
      obtain t where t: "encodeNonce (dm_nonce d) = Inr t"
        and st': "st' = st3\<lparr>st_messages := filter (\<lambda>q. msg_key q \<noteq> (toLowerCase (dm_sender d), t)) (st_messages st3)
            @ [pending_raw (pendingOf opts d now sq) t]\<rparr>"
        and slot: "list_all (\<lambda>q. msg_key q = (toLowerCase (dm_sender d), t) \<longrightarrow> rm_status q = Reorged) (st_messages st3)"
        using insertPending_Inr [OF ins inv] by (auto simp: pendingOf_def)
      have below: "tracked_below st (toLowerCase (dm_sender d)) (dm_nonce d)"
        using mono MonoAccept seed seedNonce_Inr(4,5) [OF seed]
        by (auto simp: checkMonotonicity_def tracked_below_def split: option.splits if_splits)
      have n: "st_nonces st' = m(toLowerCase (dm_sender d) \<mapsto> (t, dm_messageHash d))"
        using st2 st' msgs(3) m t by (auto simp: setNonce_Inr)
      show thesis
        using res None t below slot st' msgs n tr m by (intro admitted [of t sq]) (auto simp: list_all_iff)
    qed
  qed
qed

lemma ingestTxn_steps:
  assumes "ingestTxn opts d now st = Inr (res, st')"
  shows "steps st st'"
proof -
  obtain row st1 where seed: "seedNonce (dm_sender d) st = Inr (row, st1)"
    using assms by (auto simp: ingestTxn_def checkMonotonicity_def)
  obtain mono where mono: "checkMonotonicity (dm_sender d) (dm_nonce d) (dm_messageHash d) st = Inr (mono, st1)"
    using assms seed by (auto simp: ingestTxn_def checkMonotonicity_def split: option.splits if_splits)
  have "steps st1 st'"
  proof (cases "mono = MonoAccept \<and> mv_validate (ig_validator opts) d = None")
    case True
    then obtain st2 sq st3 where "setNonce \<lparr>nr_sender = dm_sender d, nr_lastNonce = dm_nonce d,
            nr_lastMessageHash = dm_messageHash d\<rparr> st1 = Inr ((), st2)"
          "nextIngestSeq (dm_contentTag d) st2 = Inr (sq, st3)" "insertPending (pendingOf opts d now sq) st3 = Inr ((), st')"
      using assms mono by (auto simp: ingestTxn_def)
    then have "store_step st1 st2" "store_step st2 st3" "store_step st3 st'"
      by (blast intro: store_step.insert store_step.nonce store_step.seq)+
    then show ?thesis
      by simp
  next
    case False
    then show ?thesis
      using assms mono by (auto simp: ingestTxn_def split: monotonicity_outcome.split_asm option.split_asm)
  qed
  then show ?thesis
    using seedNonce_Inr(1) [OF seed] by simp
qed

section \<open>A whole ingest\<close>

text \<open>What the gates before the transaction let through.\<close>

definition passes_gates ::
  "(bytes \<Rightarrow> bytes) \<Rightarrow> (bytes \<Rightarrow> json option) \<Rightarrow> ingest_options \<Rightarrow> bytes \<Rightarrow> envelope \<Rightarrow> string \<Rightarrow> bool" where
  "passes_gates keccak parse opts raw env h \<longleftrightarrow>
     length raw \<le> ig_maxMessageSizeBytes opts \<and> parseEnvelope parse raw = Some env
     \<and> length (me_contents env) \<le> ig_maxContentsSizeBytes opts
     \<and> (\<exists>tag \<in> set (ig_allowlistedTags opts). toLowerCase tag = toLowerCase (me_tag env))
     \<and> computeMessageHash keccak (me_sender env) (me_tag env) (me_nonce env) (me_contents env) = Inr h"

lemma ingest_cases:
  assumes "ingest keccak parse opts conflict now raw (rl, st) = (r, rl', st')"
  obtains (gate) reason where "r = Inr (Rejected reason)" "st' = st"
  | (failed) e where "r = Inl e \<or> r = Inr (Rejected Duplicate)" "st' = st"
  | (ran) env h res where "passes_gates keccak parse opts raw env h" "r = Inr res"
      "ingestTxn opts (decodedOf env h) now st = Inr (res, st')"
      "fst (rateCheck (ig_rate opts) (int now) (rateLimitKey (ig_validator opts) (decodedOf env h)) rl)"
proof (cases "\<exists>env h. passes_gates keccak parse opts raw env h
    \<and> fst (rateCheck (ig_rate opts) (int now) (rateLimitKey (ig_validator opts) (decodedOf env h)) rl)")
  case False
  then have "\<exists>reason. r = Inr (Rejected reason) \<and> st' = st"
    using assms by (auto simp: ingest_def passes_gates_def checkSizeBound_def list_ex_iff Let_def
        split: if_split_asm option.split_asm sum.split_asm prod.split_asm bool.split_asm)
  then show thesis
    using gate by blast
next
  case True
  then obtain env h where g: "passes_gates keccak parse opts raw env h"
    and rc: "fst (rateCheck (ig_rate opts) (int now) (rateLimitKey (ig_validator opts) (decodedOf env h)) rl)"
    by blast
  obtain rl1 where "rateCheck (ig_rate opts) (int now) (rateLimitKey (ig_validator opts) (decodedOf env h)) rl = (True, rl1)"
    using rc by (cases "rateCheck (ig_rate opts) (int now) (rateLimitKey (ig_validator opts) (decodedOf env h)) rl") simp
  then have run: "(case withTxn conflict (ingestTxn opts (decodedOf env h) now) st of
        (Inl (DuplicateMessage _ _), st') \<Rightarrow> (Inr (Rejected Duplicate), rl1, st')
      | (Inl e, st') \<Rightarrow> (Inl e, rl1, st')
      | (Inr res, st') \<Rightarrow> (Inr res, rl1, st')) = (r, rl', st')"
    using assms g by (simp add: ingest_def passes_gates_def checkSizeBound_def list_ex_iff Let_def)
  obtain v s where w: "withTxn conflict (ingestTxn opts (decodedOf env h) now) st = (v, s)"
    by fastforce
  show thesis
  proof (cases v)
    case (Inl e)
    then have "s = st"
      using w withTxn_Inl by blast
    then show thesis
      using run w Inl failed by (cases e) auto
  next
    case (Inr res)
    then show thesis
      using run w g rc withTxn_Inr [of conflict _ st res s] by (intro ran [of env h res]) auto
  qed
qed

lemma ingest_steps: "ingest keccak parse opts conflict now raw (rl, st) = (r, rl', st') \<Longrightarrow> steps st st'"
  by (erule ingest_cases) (auto dest: ingestTxn_steps)

interpretation poster_ingest: store_worker
  "\<lambda>(keccak, parse, opts, conflict, now, raw, rl) st st'. \<exists>r rl'. ingest keccak parse opts conflict now raw (rl, st) = (r, rl', st')"
  by unfold_locales (auto dest: ingest_steps)

text \<open>One message admitted: the row that entered the pool, and what let it in.\<close>

definition admitted ::
  "(bytes \<Rightarrow> bytes) \<Rightarrow> (bytes \<Rightarrow> json option) \<Rightarrow> ingest_options \<Rightarrow> nat \<Rightarrow> bytes \<Rightarrow> store \<Rightarrow> submit_result \<Rightarrow> store \<Rightarrow> bool" where
  "admitted keccak parse opts now raw st res st' \<longleftrightarrow> (\<exists>env h t sq.
     passes_gates keccak parse opts raw env h \<and> res = Accepted h
     \<and> mv_validate (ig_validator opts) (decodedOf env h) = None \<and> encodeNonce (me_nonce env) = Inr t
     \<and> (\<forall>q \<in> set (st_messages st). msg_key q = (toLowerCase (me_sender env), t) \<longrightarrow> rm_status q = Reorged)
     \<and> st_messages st' = filter (\<lambda>q. msg_key q \<noteq> (toLowerCase (me_sender env), t)) (st_messages st)
          @ [pending_raw (pendingOf opts (decodedOf env h) now sq) t])"

lemma ingest_admits_lemma:
  assumes "store_inv st" "ingest keccak parse opts conflict now raw (rl, st) = (r, rl', st')"
  shows "st_batches st' = st_batches st \<and> (st_messages st' = st_messages st
     \<or> (\<exists>res. r = Inr res \<and> admitted keccak parse opts now raw st res st'))"
  using assms(2)
proof (cases rule: ingest_cases)
  case (ran env h res)
  show ?thesis
  proof (cases rule: ingestTxn_cases [OF ran(3) assms(1)])
    case (3 t sq)
    have "admitted keccak parse opts now raw st res st'"
      unfolding admitted_def using ran(1) 3(1,2,3,5,6) by (intro exI [of _ env] exI [of _ h] exI [of _ t] exI [of _ sq]) (simp add: decodedOf_def)
    then show ?thesis
      using 3(7) ran(2) by blast
  qed simp_all
qed simp_all


section \<open>A run of ingests\<close>

record ingest_request =
  iq_raw :: bytes
  iq_now :: nat
  iq_conflict :: "nat \<Rightarrow> bool"

text \<open>The slots that a sequence of requests adds to the pool, in order.\<close>

primrec admissions ::
  "(bytes \<Rightarrow> bytes) \<Rightarrow> (bytes \<Rightarrow> json option) \<Rightarrow> ingest_options \<Rightarrow> ingest_request list \<Rightarrow> limiter \<times> store \<Rightarrow> (string \<times> int) list" where
  "admissions keccak parse opts [] w = []"
| "admissions keccak parse opts (q # qs) w =
     (case ingest keccak parse opts (iq_conflict q) (iq_now q) (iq_raw q) w of (r, w') \<Rightarrow>
        (if st_messages (snd w') = st_messages (snd w) then []
         else case parseEnvelope parse (iq_raw q) of
           None \<Rightarrow> []
         | Some env \<Rightarrow> [(toLowerCase (me_sender env), me_nonce env)])
        @ admissions keccak parse opts qs w')"

lemma ingest_tracker:
  assumes "store_inv st" "ingest keccak parse opts conflict now raw (rl, st) = (r, rl', st')"
  obtains (unchanged) "st_messages st' = st_messages st" "\<And>s. st_nonces st' s = st_nonces st s \<or> st_nonces st s = None"
  | (changed) env h t where "st_messages st' \<noteq> st_messages st" "parseEnvelope parse raw = Some env"
      "tracked_below st (toLowerCase (me_sender env)) (me_nonce env)" "encodeNonce (me_nonce env) = Inr t"
      "st_nonces st' (toLowerCase (me_sender env)) = Some (t, h)"
      "\<And>s. s \<noteq> toLowerCase (me_sender env) \<Longrightarrow> st_nonces st' s = st_nonces st s"
  using assms(2)
proof (cases rule: ingest_cases)
  case (ran env h res)
  have d: "dm_sender (decodedOf env h) = me_sender env" "dm_nonce (decodedOf env h) = me_nonce env"
    by (simp_all add: decodedOf_def)
  show thesis
  proof (cases rule: ingestTxn_cases [OF ran(3) assms(1)])
    case (1 reason)
    show thesis
      by (rule unchanged [OF 1(2)]) (use 1(4) in metis)
  next
    case (2 k)
    show thesis
      by (rule unchanged [OF 2(3)]) (use 2(5) in metis)
  next
    case (3 t sq)
    let ?new = "pending_raw (pendingOf opts (decodedOf env h) now sq) t"
    have "?new \<in> set (st_messages st')" "msg_key ?new = (toLowerCase (me_sender env), t)" "rm_status ?new = Pending"
      using 3(6) by (simp_all add: pending_raw_def pendingOf_def d)
    then have "st_messages st' \<noteq> st_messages st"
      using 3(5) d by (metis message_status.distinct(5))
    then show thesis
      using 3(3,4,8,9) ran(1) d by (intro changed [of env t "dm_messageHash (decodedOf env h)"]) (simp_all add: passes_gates_def)
  qed
qed (use unchanged in auto)

lemma admissions_increase:
  assumes "store_inv st"
  shows "(\<forall>(s, n) \<in> set (admissions keccak parse opts qs (rl, st)). tracked_below st s n)
    \<and> sorted_wrt (\<lambda>(s, n) (s', n'). s = s' \<longrightarrow> n < n') (admissions keccak parse opts qs (rl, st))"
  using assms
proof (induction qs arbitrary: rl st)
  case (Cons q qs)
  obtain r rl' st' where run: "ingest keccak parse opts (iq_conflict q) (iq_now q) (iq_raw q) (rl, st) = (r, rl', st')"
    by (metis prod_cases3)
  let ?tail = "admissions keccak parse opts qs (rl', st')"
  have "store_inv st'"
    using ingest_steps [OF run] Cons.prems steps_inv by blast
  note ih = Cons.IH [OF this, of rl']
  from Cons.prems run show ?case
  proof (cases rule: ingest_tracker)
    case unchanged
    have "tracked_below st s n" if "(s, n) \<in> set ?tail" for s n
      using ih that unchanged(2) [of s] by (fastforce simp: tracked_below_def)
    then show ?thesis
      using run unchanged(1) ih by auto
  next
    case (changed env h t)
    let ?s = "toLowerCase (me_sender env)" and ?n = "me_nonce env"
    have later: "s = ?s \<Longrightarrow> ?n < n" and below: "tracked_below st s n" if "(s, n) \<in> set ?tail" for s n
    proof -
      have t: "tracked_below st' s n"
        using ih that by auto
      show "?n < n" if "s = ?s"
        using t that changed(5) decNonce_encode [OF changed(4)] by (simp add: tracked_below_def)
      then show "tracked_below st s n"
        using t changed(3) changed(6) [of s] by (cases "s = ?s") (fastforce simp: tracked_below_def)+
    qed
    show ?thesis
    proof -
      have "admissions keccak parse opts (q # qs) (rl, st) = (?s, ?n) # ?tail"
        using run changed(1,2) by simp
      moreover have "\<forall>x \<in> set ?tail. case x of (s, n) \<Rightarrow> ?s = s \<longrightarrow> ?n < n"
        using later by auto
      moreover have "\<forall>x \<in> set ?tail. case x of (s, n) \<Rightarrow> tracked_below st s n"
        using below by auto
      ultimately show ?thesis
        using ih changed(3) by simp
    qed
  qed
qed simp

text \<open>
  C21. Each sender's messages enter the pool in strictly increasing nonce order, whatever the requests, their interleaving with other senders and tags, the casing of the addresses, the clock and the database's aborts: in every sequence of ingests the slots added for a sender have increasing nonces, so no (sender, nonce) is admitted twice and none below a message already accepted.
\<close>

theorem ingest_nonces_increase:
  assumes "store_inv st"
  shows "sorted_wrt (\<lambda>(s, n) (s', n'). s = s' \<longrightarrow> n < n') (admissions keccak parse opts qs (rl, st))"
  using admissions_increase [OF assms] by simp

section \<open>What the tracker does not see\<close>

text \<open>
  The next nonce the Poster advertises can be one it then refuses: for a sender whose messages are only known from the chain, with no tracker row of its own, getNextNonce answers 0, while the monotonicity check seeds itself from the stored messages and rejects nonce 0 as stale.
\<close>

theorem next_nonce_ignores_history:
  assumes "store_inv st" "st_nonces st (toLowerCase s) = None" "live_nonce st s n" "0 < n"
    and "getNextNonce conflict s st = (Inr x, st1)" "dm_sender d = s" "dm_nonce d = x"
  shows "x = 0 \<and> (\<exists>st'. ingestTxn opts d now st1 = Inr (Rejected StaleNonce, st'))"
proof -
  have none: "getNonce s st = Inr None"
    by (simp add: getNonce_def assms(2))
  obtain v s1 where w: "withTxn conflict (\<lambda>st. ebind (getNonce s st) (\<lambda>r. Inr (r, st))) st = (v, s1)"
    by fastforce
  have "s1 = st"
    by (rule withTxn_same [OF w]) auto
  moreover have "v = Inr None" if "v = Inr y" for y
    using withTxn_Inr [OF w [unfolded that]] none that by simp
  ultimately have x: "x = 0" "st1 = st"
    using assms(5) w by (cases v; fastforce simp: getNextNonce_def split: option.split_asm)+
  obtain row where row: "getMaxNonReorgedNonce s st = Inr (Some row)" "n \<le> nr_lastNonce row" "live_nonce st s (nr_lastNonce row)"
    using getMaxNonReorgedNonce_spec [OF assms(1), of s] assms(3) by blast
  then obtain t where "encodeNonce (nr_lastNonce row) = Inr t"
    by (auto simp: live_nonce_def)
  then obtain st' where "setNonce row st = Inr ((), st')"
    by (auto simp: setNonce_Inr)
  then have "seedNonce s st = Inr (Some row, st')"
    by (simp add: seedNonce_def none row(1))
  then have "ingestTxn opts d now st = Inr (Rejected StaleNonce, st')"
    using row(2) assms(4,6,7) x by (simp add: ingestTxn_def checkMonotonicity_def)
  with x show ?thesis
    by blast
qed

text \<open>
  A byte-equal retry of a reorged message is acknowledged and lost: when the sender's last accepted message has been reorged off the chain, submitting it again answers accepted with its hash, but changes nothing, and no pending row holds the slot.
\<close>

theorem retry_of_reorged_is_lost:
  assumes "store_inv st" "r \<in> set (st_messages st)" "rm_status r = Reorged"
    and "msg_key r = (toLowerCase (dm_sender d), t)" "encodeNonce (dm_nonce d) = Inr t"
    and "st_nonces st (toLowerCase (dm_sender d)) = Some (t, h)" "toLowerCase h = toLowerCase (dm_messageHash d)"
  shows "ingestTxn opts d now st = Inr (Accepted h, st) \<and> getPendingByKey (dm_sender d) (dm_nonce d) st = Inr None"
proof -
  have "getNonce (dm_sender d) st = Inr (Some \<lparr>nr_sender = toLowerCase (dm_sender d), nr_lastNonce = dm_nonce d, nr_lastMessageHash = h\<rparr>)"
    using assms(5,6) by (simp add: getNonce_def)
  then have "ingestTxn opts d now st = Inr (Accepted h, st)"
    using assms(7) by (simp add: ingestTxn_def checkMonotonicity_def seedNonce_def)
  moreover have "msgs_at (toLowerCase (dm_sender d)) t st = [r]"
    using msgs_at_unique [OF assms(1,2)] assms(4) by simp
  then have "getPendingByKey (dm_sender d) (dm_nonce d) st = Inr None"
    using assms(3,5) by (simp add: getPendingByKey_def encNonce_def)
  ultimately show ?thesis ..
qed

text \<open>
  A message within the default contents bound always fits a blob on its own, as the comment on
  DEFAULT_MAX_MESSAGE_SIZE_BYTES asks.
\<close>

theorem default_bounds_fit_blob:
  assumes "passes_gates keccak parse opts raw env h" "ig_maxContentsSizeBytes opts = DEFAULT_MAX_CONTENTS_SIZE_BYTES"
  shows "estimateBatchSize [toBAMMessage (decodedOf env h)] \<le> BLOB_USABLE_CAPACITY"
  using assms
  by (simp add: passes_gates_def estimateBatchSize_def toBAMMessage_def decodedOf_def batch_consts DEFAULT_MAX_CONTENTS_SIZE_BYTES_def
      DEFAULT_MAX_MESSAGE_SIZE_BYTES_def BLOB_USABLE_CAPACITY_def BATCH_HEADER_FIXED_SIZE_def MESSAGE_HEADER_SIZE_def BATCH_FRAMING_SLACK_def)

section \<open>A sample ingest\<close>

definition ingest_body_sample :: json where
  "ingest_body_sample = JObj [(''contentTag'', JStr (bytesToHex (zeros 32))),
     (''message'', JObj [(''sender'', JStr (bytesToHex (zeros 20))), (''nonce'', JStr ''4''),
        (''contents'', JStr ''0x01ff''), (''signature'', JStr (bytesToHex (zeros 65)))])]"

definition ingest_options_sample :: ingest_options where
  "ingest_options_sample = \<lparr>ig_validator = defaultEcdsaValidator \<lparr>ec_verify = (\<lambda>_ _ _ _ _. True), ec_digest = (\<lambda>_ _ _. [])\<rparr> 1,
     ig_rate = \<lparr>rt_windowMs = 100, rt_maxPerWindow = 2\<rparr>, ig_allowlistedTags = [bytesToHex (zeros 32)],
     ig_maxMessageSizeBytes = 1000, ig_maxContentsSizeBytes = 500, ig_chainId = 1\<rparr>"

definition ingest_sample :: "(store_error + submit_result) \<times> limiter \<times> store" where
  "ingest_sample = ingest (\<lambda>_. zeros 32) (\<lambda>_. Some ingest_body_sample) ingest_options_sample (\<lambda>_. False) 7 [] (newLimiter, empty_store)"

lemma ingest_sample_run:
  "fst ingest_sample = Inr (Accepted (bytesToHex (zeros 32)))" "length (st_messages (snd (snd ingest_sample))) = 1"
  by code_simp+


theorem ingest_nonces_increase_witness:
  "let qs = [\<lparr>iq_raw = [], iq_now = 7, iq_conflict = (\<lambda>_. False)\<rparr>, \<lparr>iq_raw = [], iq_now = 8, iq_conflict = (\<lambda>_. False)\<rparr>];
       adm = admissions (\<lambda>_. zeros 32) (\<lambda>_. Some ingest_body_sample) ingest_options_sample qs (newLimiter, empty_store)
   in adm = [(bytesToHex (zeros 20), 4)] \<and> sorted_wrt (\<lambda>(s, n) (s', n'). s = s' \<longrightarrow> n < n') adm"
proof -
  let ?adm = "admissions (\<lambda>_. zeros 32) (\<lambda>_. Some ingest_body_sample) ingest_options_sample
    [\<lparr>iq_raw = [], iq_now = 7, iq_conflict = (\<lambda>_. False)\<rparr>, \<lparr>iq_raw = [], iq_now = 8, iq_conflict = (\<lambda>_. False)\<rparr>] (newLimiter, empty_store)"
  have "?adm = [(bytesToHex (zeros 20), 4)]"
    by code_simp
  then show ?thesis
    using ingest_nonces_increase [OF store_inv_empty, of "\<lambda>_. zeros 32" "\<lambda>_. Some ingest_body_sample" ingest_options_sample
        "[\<lparr>iq_raw = [], iq_now = 7, iq_conflict = (\<lambda>_. False)\<rparr>, \<lparr>iq_raw = [], iq_now = 8, iq_conflict = (\<lambda>_. False)\<rparr>]" newLimiter]
    by (simp only: Let_def)
qed

definition observed_store :: "message_status \<Rightarrow> store" where
  "observed_store s = sample_store\<lparr>st_messages := map (\<lambda>r. r\<lparr>rm_status := s\<rparr>) (st_messages sample_store)\<rparr>"

lemma observed_store_inv: "store_inv (observed_store s)" if "s \<noteq> Pending"
  using sample_store_inv that by (simp add: store_inv_def observed_store_def list_all_iff msg_ok_def comp_def)

definition observed_message :: "int \<Rightarrow> decoded_message" where
  "observed_message n = \<lparr>dm_sender = pr_sender sample_pending, dm_nonce = n, dm_contents = [], dm_contentTag = '''',
     dm_signature = [], dm_messageHash = ''0xh'', dm_ingestedAt = None\<rparr>"

theorem next_nonce_ignores_history_witness:
  "\<exists>x st'. ingestTxn ingest_options_sample (observed_message x) 7 (observed_store Confirmed) = Inr (Rejected StaleNonce, st') \<and> x = 0"
proof -
  let ?s = "pr_sender sample_pending" and ?st = "observed_store Confirmed"
  have no: "st_nonces ?st (toLowerCase ?s) = None"
    by (simp add: observed_store_def sample_store_def empty_store_def)
  have live: "live_nonce ?st ?s 4"
    by (auto simp: live_nonce_def observed_store_def sample_store_def sample_pending_def pending_raw_def encode_4 toLowerCase_def)
  have "withTxn (\<lambda>_. False) (\<lambda>st. ebind (getNonce ?s st) (\<lambda>r. Inr (r, st))) ?st = (Inr None, ?st)"
    by (rule withTxn_ok [of 0]) (simp_all add: no getNonce_def)
  then obtain y st1 where next0: "getNextNonce (\<lambda>_. False) ?s ?st = (Inr y, st1)" and st1: "st1 = ?st"
    by (simp add: getNextNonce_def)
  have "y = 0 \<and> (\<exists>st'. ingestTxn ingest_options_sample (observed_message y) 7 st1 = Inr (Rejected StaleNonce, st'))"
    by (rule next_nonce_ignores_history [OF observed_store_inv no live _ next0]) (simp_all add: observed_message_def)
  then show ?thesis
    using st1 by blast
qed

theorem retry_of_reorged_is_lost_witness:
  "\<exists>h st. ingestTxn ingest_options_sample (observed_message 4) 7 st = Inr (Accepted h, st) \<and> length (st_messages st) = 1
     \<and> getPendingByKey (pr_sender sample_pending) 4 st = Inr None"
proof -
  let ?k = "toLowerCase (pr_sender sample_pending)"
  let ?st = "(observed_store Reorged)\<lparr>st_nonces := (\<lambda>_. None)(?k \<mapsto> (sample_text, ''0xh''))\<rparr>"
  have inv: "store_inv ?st"
    using observed_store_inv [of Reorged] by (simp add: store_inv_def)
  obtain r where r: "st_messages ?st = [r]" "rm_status r = Reorged" "msg_key r = (?k, sample_text)"
    by (simp add: observed_store_def sample_store_def sample_pending_def pending_raw_def toLowerCase_def)
  have "ingestTxn ingest_options_sample (observed_message 4) 7 ?st = Inr (Accepted ''0xh'', ?st)
      \<and> getPendingByKey (dm_sender (observed_message 4)) (dm_nonce (observed_message 4)) ?st = Inr None"
    by (rule retry_of_reorged_is_lost [OF inv, of r]) (use r in \<open>simp_all add: observed_message_def encode_4 toLowerCase_def lower_char_def char_code_def\<close>)
  then show ?thesis
    using r(1) by (intro exI [of _ "''0xh''"] exI [of _ ?st]) (simp add: observed_message_def)
qed

end
