(* ===== verification/Surfaces.thy ===== *)
theory Surfaces
  imports PosterLoop Ingest
begin

text \<open>
  The Poster's read surfaces (packages/bam-poster/src/surfaces): the pending list, the
  submitted batches, the status with its last batch per tag, and health. Each reads the store
  in one transaction; the wallet balance and the signer's address are arguments.
\<close>

section \<open>Pending messages\<close>

record pending_view =
  pv_sender :: string
  pv_nonce :: int
  pv_contentTag :: string
  pv_contents :: bytes
  pv_signature :: bytes
  pv_messageHash :: string
  pv_ingestedAt :: nat
  pv_ingestSeq :: nat

record pending_query =
  pq_contentTag :: "string option"
  pq_since :: "nat option"
  pq_limit :: "nat option"

definition mapPendingRow :: "pending_row \<Rightarrow> pending_view" where
  "mapPendingRow row = \<lparr>pv_sender = pr_sender row, pv_nonce = pr_nonce row, pv_contentTag = pr_contentTag row,
     pv_contents = pr_contents row, pv_signature = pr_signature row, pv_messageHash = pr_messageHash row,
     pv_ingestedAt = pr_ingestedAt row, pv_ingestSeq = pr_ingestSeq row\<rparr>"

definition pendingRows :: "pending_query \<Rightarrow> pending_row list qry" where
  "pendingRows query st =
     (case pq_contentTag query of
        Some tag \<Rightarrow> listPendingByTag tag (pq_limit query) (pq_since query) st
      | None \<Rightarrow> listPendingAll (pq_limit query) (pq_since query) st)"

definition listPending :: "(nat \<Rightarrow> bool) \<Rightarrow> pending_query \<Rightarrow> store \<Rightarrow> (store_error + pending_view list) \<times> store" where
  "listPending conflict query st =
     (case withTxn conflict (\<lambda>st. ebind (pendingRows query st) (\<lambda>rows. Inr (rows, st))) st of
        (Inl e, st') \<Rightarrow> (Inl e, st')
      | (Inr rows, st') \<Rightarrow> (Inr (map mapPendingRow rows), st'))"

section \<open>Submitted batches\<close>

datatype submitted_status = SubPending | SubIncluded | SubReorged | SubResubmitted

record submitted_message =
  sm_sender :: string
  sm_nonce :: int
  sm_contents :: bytes
  sm_signature :: bytes
  sm_messageHash :: string
  sm_messageId :: "string option"

record submitted_batch =
  sb_txHash :: string
  sb_contentTag :: string
  sb_blobVersionedHash :: string
  sb_batchContentHash :: string
  sb_blockNumber :: "nat option"
  sb_status :: submitted_status
  sb_replacedByTxHash :: "string option"
  sb_submittedAt :: "nat option"
  sb_invalidatedAt :: "nat option"
  sb_messages :: "submitted_message list"

record submitted_query =
  sq_contentTag :: "string option"
  sq_sinceBlock :: "nat option"
  sq_limit :: "int option"

record snapshot_join =
  sj_row :: "message_row option"
  sj_messageId :: string
  sj_index :: nat

datatype surface_error = SurfaceStore store_error | BadLimit int

definition batchToOldStatus :: "batch_row \<Rightarrow> submitted_status" where
  "batchToOldStatus b =
     (case br_status b of
        PendingTx \<Rightarrow> SubPending
      | BatchConfirmed \<Rightarrow> SubIncluded
      | BatchReorged \<Rightarrow> if br_replacedByTxHash b \<noteq> None then SubResubmitted else SubReorged)"

definition readSnapshotMessages :: "batch_row \<Rightarrow> snapshot_join list qry" where
  "readSnapshotMessages b st =
     mapE (\<lambda>e. ebind (getBySenderNonce (se_sender e) (se_nonce e) st) (\<lambda>row.
       Inr \<lparr>sj_row = row, sj_messageId = se_messageId e, sj_index = se_messageIndex e\<rparr>)) (br_messageSnapshot b)"

definition submittedMessage :: "bool \<Rightarrow> snapshot_join \<Rightarrow> message_row \<Rightarrow> submitted_message" where
  "submittedMessage reorged m row = \<lparr>sm_sender = mr_sender row, sm_nonce = mr_nonce row, sm_contents = mr_contents row,
     sm_signature = mr_signature row, sm_messageHash = mr_messageHash row,
     sm_messageId = (if reorged then None else Some (sj_messageId m))\<rparr>"

definition mapSubmitted :: "batch_row \<Rightarrow> snapshot_join list \<Rightarrow> submitted_batch" where
  "mapSubmitted b msgs =
     (let status = batchToOldStatus b;
          reorged = (status = SubReorged \<or> status = SubResubmitted);
          ordered = sort_key sj_index msgs
      in \<lparr>sb_txHash = br_txHash b, sb_contentTag = br_contentTag b, sb_blobVersionedHash = br_blobVersionedHash b,
          sb_batchContentHash = br_batchContentHash b, sb_blockNumber = br_blockNumber b, sb_status = status,
          sb_replacedByTxHash = br_replacedByTxHash b, sb_submittedAt = br_submittedAt b,
          sb_invalidatedAt = br_invalidatedAt b,
          sb_messages = concat (map (\<lambda>m. case sj_row m of None \<Rightarrow> [] | Some row \<Rightarrow> [submittedMessage reorged m row]) ordered)\<rparr>)"

text \<open>The loop over the batches; n is the length of out so far.\<close>

fun collectSubmitted :: "int option \<Rightarrow> nat \<Rightarrow> batch_row list \<Rightarrow> submitted_batch list qry" where
  "collectSubmitted lim n [] st = Inr []"
| "collectSubmitted lim n (b # bs) st =
     (if (case lim of None \<Rightarrow> False | Some l \<Rightarrow> l \<le> int n) then Inr []
      else if br_submittedAt b = None then collectSubmitted lim n bs st
      else ebind (readSnapshotMessages b st) (\<lambda>msgs.
             ebind (collectSubmitted lim (Suc n) bs st) (\<lambda>rest. Inr (mapSubmitted b msgs # rest))))"

definition submitted_filter :: "nat \<Rightarrow> submitted_query \<Rightarrow> batches_query" where
  "submitted_filter chainId query = \<lparr>bq_contentTag = sq_contentTag query, bq_chainId = Some chainId, bq_status = None,
     bq_sinceBlock = sq_sinceBlock query, bq_sinceIncludedAt = None, bq_limit = None\<rparr>"

definition submittedTxn :: "nat \<Rightarrow> submitted_query \<Rightarrow> submitted_batch list txn" where
  "submittedTxn chainId query st =
     ebind (listBatches (submitted_filter chainId query) st) (\<lambda>batches.
     ebind (collectSubmitted (sq_limit query) 0 batches st) (\<lambda>out. Inr (out, st)))"

definition listSubmittedBatches ::
  "(nat \<Rightarrow> bool) \<Rightarrow> nat \<Rightarrow> submitted_query \<Rightarrow> store \<Rightarrow> (surface_error + submitted_batch list) \<times> store" where
  "listSubmittedBatches conflict chainId query st =
     (case sq_limit query of
        Some l \<Rightarrow>
          if l < 0 then (Inl (BadLimit l), st)
          else map_prod (map_sum SurfaceStore id) id (withTxn conflict (submittedTxn chainId query) st)
      | None \<Rightarrow> map_prod (map_sum SurfaceStore id) id (withTxn conflict (submittedTxn chainId query) st))"

section \<open>Status\<close>

record last_submitted =
  ls_contentTag :: string
  ls_txHash :: string
  ls_blobVersionedHash :: string
  ls_blockNumber :: "nat option"
  ls_submittedAt :: nat

record poster_status =
  ps_walletAddress :: string
  ps_walletBalanceWei :: nat
  ps_configuredTags :: "string list"
  ps_pendingByTag :: "(string \<times> nat) list"
  ps_lastSubmittedByTag :: "last_submitted list"

definition status_filter :: "nat \<Rightarrow> string \<Rightarrow> nat option \<Rightarrow> batches_query" where
  "status_filter chainId tag lim = \<lparr>bq_contentTag = Some tag, bq_chainId = Some chainId, bq_status = None,
     bq_sinceBlock = None, bq_sinceIncludedAt = None, bq_limit = lim\<rparr>"

definition lastSubmitted :: "string \<Rightarrow> batch_row list \<Rightarrow> last_submitted list" where
  "lastSubmitted tag recent =
     (case find (\<lambda>b. br_submittedAt b \<noteq> None) recent of
        None \<Rightarrow> []
      | Some b \<Rightarrow> (case br_submittedAt b of
          None \<Rightarrow> []
        | Some at \<Rightarrow> [\<lparr>ls_contentTag = tag, ls_txHash = br_txHash b, ls_blobVersionedHash = br_blobVersionedHash b,
                        ls_blockNumber = br_blockNumber b, ls_submittedAt = at\<rparr>]))"

fun statusTags :: "nat \<Rightarrow> string list \<Rightarrow> ((string \<times> nat) list \<times> last_submitted list) qry" where
  "statusTags chainId [] st = Inr ([], [])"
| "statusTags chainId (tag # tags) st =
     ebind (listBatches (status_filter chainId tag (Some 8)) st) (\<lambda>recent.
     ebind (statusTags chainId tags st) (\<lambda>(counts, lasts).
       Inr ((tag, countPendingByTag tag st) # counts, lastSubmitted tag recent @ lasts)))"

definition readStatus ::
  "(nat \<Rightarrow> bool) \<Rightarrow> nat \<Rightarrow> string list \<Rightarrow> string \<Rightarrow> string + nat \<Rightarrow> store \<Rightarrow> ((string + store_error) + poster_status) \<times> store" where
  "readStatus conflict chainId configuredTags walletAddress balance st =
     (case balance of
        Inl rpc \<Rightarrow> (Inl (Inl rpc), st)
      | Inr wei \<Rightarrow>
          (case withTxn conflict (\<lambda>st. ebind (statusTags chainId configuredTags st) (\<lambda>r. Inr (r, st))) st of
             (Inl e, st') \<Rightarrow> (Inl (Inr e), st')
           | (Inr (counts, lasts), st') \<Rightarrow>
               (Inr \<lparr>ps_walletAddress = walletAddress, ps_walletBalanceWei = wei, ps_configuredTags = configuredTags,
                     ps_pendingByTag = counts, ps_lastSubmittedByTag = lasts\<rparr>, st')))"

section \<open>Health\<close>

record health_tag_entry =
  ht_contentTag :: string
  ht_pendingCount :: nat
  ht_packingLossStreak :: nat
  ht_lastIncludedAt :: "nat option"
  ht_warn :: bool

record health_aggregator =
  ha_lastPackedTxHash :: "string option"
  ha_lastPackedTagCount :: nat
  ha_permanentlyStopped :: bool
  ha_tags :: "health_tag_entry list"

record health_report =
  hp_state :: health_state
  hp_reason :: "string option"
  hp_since :: "nat option"
  hp_aggregator :: "health_aggregator option"

definition readHealth :: "health_state \<Rightarrow> string option \<Rightarrow> nat option \<Rightarrow> health_aggregator option \<Rightarrow> health_report" where
  "readHealth submissionState reason since aggregator =
     (if submissionState = Ok then \<lparr>hp_state = Ok, hp_reason = None, hp_since = None, hp_aggregator = aggregator\<rparr>
      else \<lparr>hp_state = submissionState, hp_reason = reason, hp_since = since, hp_aggregator = aggregator\<rparr>)"

section \<open>The submitted list is a filter, a slice and a map\<close>

definition ownBatches :: "int option \<Rightarrow> batch_row list \<Rightarrow> batch_row list" where
  "ownBatches lim bs = limited (map_option nat lim) (filter (\<lambda>b. br_submittedAt b \<noteq> None) bs)"

lemma take_Suc_filter: "take (Suc k) (x # xs) = x # take k xs"
  by simp

lemma collectSubmitted_eq:
  assumes "case lim of None \<Rightarrow> True | Some l \<Rightarrow> int n \<le> l"
  shows "collectSubmitted lim n bs st =
    mapE (\<lambda>b. ebind (readSnapshotMessages b st) (\<lambda>msgs. Inr (mapSubmitted b msgs)))
      (ownBatches (map_option (\<lambda>l. l - int n) lim) bs)"
  using assms
proof (induction bs arbitrary: n)
  case (Cons b bs)
  show ?case
  proof (cases lim)
    case None
    then show ?thesis
      using Cons.IH [of n] Cons.IH [of "Suc n"]
      by (cases "readSnapshotMessages b st") (auto simp: ownBatches_def limited_def)
  next
    case (Some l)
    show ?thesis
    proof (cases "l \<le> int n")
      case True
      then have "nat (l - int n) = 0"
        by simp
      then show ?thesis
        using Some True by (simp add: ownBatches_def limited_def)
    next
      case False
      then have "nat (l - int n) = Suc (nat (l - int (Suc n)))"
        by simp
      then show ?thesis
        using Cons.IH [of n] Cons.IH [of "Suc n"] Some False Cons.prems
        by (cases "readSnapshotMessages b st") (simp_all add: ownBatches_def limited_def)
    qed
  qed
qed (simp add: ownBatches_def limited_def split: option.splits)

lemma map_prod_Inr [simp]: "map_prod (map_sum f id) id p = (Inr x, s) \<longleftrightarrow> p = (Inr x, s)"
  by (cases p; cases "fst p") auto

lemma listSubmittedBatches_Inr:
  assumes "listSubmittedBatches conflict chainId query st = (Inr out, st')"
  shows "submittedTxn chainId query st = Inr (out, st')" and "case sq_limit query of None \<Rightarrow> True | Some l \<Rightarrow> int 0 \<le> l"
  using assms withTxn_Inr by (fastforce simp: listSubmittedBatches_def split: option.splits if_splits)+

text \<open>
  The submitted-batches surface is exact: a successful call changes nothing and returns, in the listing's order, precisely the first limit batches of the chain that carry a submission time, each with the messages of its frozen snapshot in batch order; the early exit of the loop and the filtering of other writers' batches never cost an entry.
\<close>

theorem submitted_surface_exact:
  assumes "listSubmittedBatches conflict chainId query st = (Inr out, st')"
  shows "st' = st \<and> (\<exists>batches. listBatches (submitted_filter chainId query) st = Inr batches
     \<and> mapE (\<lambda>b. ebind (readSnapshotMessages b st) (\<lambda>msgs. Inr (mapSubmitted b msgs))) (ownBatches (sq_limit query) batches) = Inr out)"
  using listSubmittedBatches_Inr [OF assms] collectSubmitted_eq by (fastforce simp: submittedTxn_def option.map_ident)
section \<open>Two surfaces that disagree\<close>

lemma mapE_take: "mapE f xs = Inr ys \<Longrightarrow> mapE f (take k xs) = Inr (take k ys)"
  unfolding mapE_Inr_iff by (rule list_all2_takeI)

lemma status_listing:
  assumes "listBatches (status_filter chainId tag None) st = Inr bs"
  shows "listBatches (status_filter chainId tag (Some k)) st = Inr (take k bs)"
proof -
  have "batch_matches (status_filter chainId tag (Some k)) = batch_matches (status_filter chainId tag None)"
    by (rule ext) (simp add: batch_matches_def status_filter_def)
  then show ?thesis
    using assms mapE_take by (fastforce simp: listBatches_def limited_def status_filter_def)
qed

lemma status_submitted_filter:
  "submitted_filter chainId \<lparr>sq_contentTag = Some tag, sq_sinceBlock = None, sq_limit = None\<rparr> = status_filter chainId tag None"
  by (simp add: submitted_filter_def status_filter_def)

lemma submitted_lists_own:
  assumes "listSubmittedBatches conflict chainId \<lparr>sq_contentTag = Some tag, sq_sinceBlock = None, sq_limit = None\<rparr> st = (Inr out, st')"
    and "listBatches (status_filter chainId tag None) st = Inr bs" "b \<in> set bs" "br_submittedAt b \<noteq> None"
  shows "br_txHash b \<in> sb_txHash ` set out"
proof -
  have "collectSubmitted None 0 bs st = Inr out"
    using listSubmittedBatches_Inr(1) [OF assms(1)] assms(2) by (auto simp: submittedTxn_def status_submitted_filter)
  then have "mapE (\<lambda>b. ebind (readSnapshotMessages b st) (\<lambda>msgs. Inr (mapSubmitted b msgs)))
      (filter (\<lambda>b. br_submittedAt b \<noteq> None) bs) = Inr out"
    using collectSubmitted_eq [where lim = None and n = 0 and bs = bs and st = st] by (simp add: ownBatches_def limited_def)
  from mapE_covers [OF this, of b] obtain y msgs where "y \<in> set out" "y = mapSubmitted b msgs"
    using assms(3,4) by auto
  moreover have "sb_txHash (mapSubmitted b msgs) = br_txHash b"
    by (simp add: mapSubmitted_def Let_def)
  ultimately show ?thesis
    by (metis imageI)
qed

text \<open>
  The status can hide this Poster's own batches: when the eight most recent batches of a tag were observed on chain and not submitted here, the status reports no last submission for the tag, although the submitted-batches surface lists the ones it made. The listing is ordered by block, not by submission time.
\<close>

theorem status_hides_own_batches:
  assumes "listBatches (status_filter chainId tag None) st = Inr bs" "\<forall>b \<in> set (take 8 bs). br_submittedAt b = None"
    and "b \<in> set bs" "br_submittedAt b \<noteq> None"
    and "readStatus conflict chainId [tag] wallet (Inr wei) st = (Inr s, st1)"
    and "listSubmittedBatches conflict' chainId \<lparr>sq_contentTag = Some tag, sq_sinceBlock = None, sq_limit = None\<rparr> st = (Inr out, st2)"
  shows "ps_lastSubmittedByTag s = [] \<and> br_txHash b \<in> sb_txHash ` set out"
proof -
  have "find (\<lambda>b. br_submittedAt b \<noteq> None) (take 8 bs) = None"
    using assms(2) by (auto simp: find_None_iff)
  then have tags: "statusTags chainId [tag] st = Inr ([(tag, countPendingByTag tag st)], [])"
    using status_listing [OF assms(1), of 8] by (simp add: lastSubmitted_def)
  obtain v s1 where v: "withTxn conflict (\<lambda>st. ebind (statusTags chainId [tag] st) (\<lambda>r. Inr (r, st))) st = (v, s1)"
    by fastforce
  obtain counts lasts where r: "v = Inr (counts, lasts)" "ps_lastSubmittedByTag s = lasts"
    using assms(5) unfolding readStatus_def sum.case v prod.case by (cases v) auto
  have "lasts = []"
    using withTxn_Inr [OF v [unfolded r(1)]] tags by auto
  then show ?thesis
    using r(2) submitted_lists_own [OF assms(6,1,3,4)] by simp
qed

section \<open>A sample store\<close>

definition status_row :: "nat \<Rightarrow> nat option \<Rightarrow> raw_batch" where
  "status_row n at = \<lparr>rb_txHash = ''0x'' @ toString10 n, rb_chainId = 1, rb_contentTag = ''0xt'', rb_blobVersionedHash = ''0xv'',
     rb_batchContentHash = ''0xv'', rb_blockNumber = Some n, rb_txIndex = Some 0, rb_status = BatchConfirmed,
     rb_replacedByTxHash = None, rb_submittedAt = at, rb_invalidatedAt = None, rb_submitter = None, rb_l1IncludedAt = None,
     rb_messageSnapshot = []\<rparr>"

definition status_store :: store where
  "status_store = empty_store\<lparr>st_batches := status_row 1 (Some 5) # map (\<lambda>n. status_row n None) [2, 3, 4, 5, 6, 7, 8, 9]\<rparr>"

definition status_run :: "((string + store_error) + poster_status) \<times> store" where
  "status_run = readStatus (\<lambda>_. False) 1 [''0xt''] ''0xw'' (Inr 3) status_store"

definition submitted_run :: "(surface_error + submitted_batch list) \<times> store" where
  "submitted_run = listSubmittedBatches (\<lambda>_. False) 1 \<lparr>sq_contentTag = Some ''0xt'', sq_sinceBlock = None, sq_limit = None\<rparr> status_store"

lemma is_ok_fst: "is_ok (fst p) \<Longrightarrow> \<exists>x s. p = (Inr x, s)"
  by (metis is_ok_iff prod.exhaust_sel)

lemma status_facts: "is_ok (fst status_run)" "is_ok (fst submitted_run)"
  by code_simp+

lemma status_listing_sample:
  "case listBatches (status_filter 1 ''0xt'' None) status_store of
     Inl _ \<Rightarrow> False
   | Inr bs \<Rightarrow> list_all (\<lambda>b. br_submittedAt b = None) (take 8 bs) \<and> list_ex (\<lambda>b. br_submittedAt b \<noteq> None) bs"
  by code_simp

theorem status_hides_own_batches_witness:
  "\<exists>s st1 out st2. status_run = (Inr s, st1) \<and> submitted_run = (Inr out, st2) \<and> ps_lastSubmittedByTag s = [] \<and> out \<noteq> []"
proof -
  obtain s st1 out st2 where r: "status_run = (Inr s, st1)" "submitted_run = (Inr out, st2)"
    using status_facts by (metis is_ok_fst)
  obtain bs where bs: "listBatches (status_filter 1 ''0xt'' None) status_store = Inr bs"
    and n: "\<forall>b \<in> set (take 8 bs). br_submittedAt b = None" and o: "\<exists>b \<in> set bs. br_submittedAt b \<noteq> None"
    using status_listing_sample by (auto simp: list_all_iff list_ex_iff split: sum.split_asm)
  obtain b where b: "b \<in> set bs" "br_submittedAt b \<noteq> None"
    using o by blast
  have "ps_lastSubmittedByTag s = [] \<and> br_txHash b \<in> sb_txHash ` set out"
    by (rule status_hides_own_batches [OF bs n b r(1) [unfolded status_run_def] r(2) [unfolded submitted_run_def]])
  then have "ps_lastSubmittedByTag s = []" "out \<noteq> []"
    by auto
  with r show ?thesis
    by blast
qed

theorem submitted_surface_exact_witness:
  "\<exists>out. submitted_run = (Inr out, status_store) \<and> length out = 1"
proof -
  obtain out st2 where r: "submitted_run = (Inr out, st2)"
    using status_facts(2) by (metis is_ok_fst)
  from submitted_surface_exact [OF r [unfolded submitted_run_def]] have "st2 = status_store"
    by simp
  moreover have "length (case fst submitted_run of Inl _ \<Rightarrow> [] | Inr out \<Rightarrow> out) = 1"
    by code_simp
  then have "length out = 1"
    unfolding r by simp
  ultimately have "submitted_run = (Inr out, status_store)" "length out = 1"
    using r by simp_all
  then show ?thesis
    by blast
qed

text \<open>
  Paging through all tags with the cursor of the pending list can lose messages: ingestSeq
  counts per tag, but the filter compares it across tags.
\<close>

definition paging_row :: "string \<Rightarrow> nat \<Rightarrow> nat \<Rightarrow> raw_message" where
  "paging_row tag sq at = \<lparr>rm_sender = ''0x'' @ toString10 at, rm_nonce = sample_text, rm_contentTag = tag, rm_contents = [],
     rm_signature = [], rm_messageHash = ''0xh'', rm_messageId = None, rm_status = Pending, rm_batchRef = None,
     rm_chainId = Some 1, rm_ingestedAt = Some at, rm_ingestSeq = Some sq, rm_blockNumber = None, rm_txIndex = None,
     rm_messageIndex = None\<rparr>"

definition paging_store :: store where
  "paging_store = empty_store\<lparr>st_messages := [paging_row ''0xa'' 1 10, paging_row ''0xa'' 2 11, paging_row ''0xb'' 1 12]\<rparr>"

theorem pending_paging_loses_tags:
  "let page = (\<lambda>since. case fst (listPending (\<lambda>_. False) \<lparr>pq_contentTag = None, pq_since = since, pq_limit = Some 2\<rparr> paging_store) of
         Inl _ \<Rightarrow> [] | Inr rows \<Rightarrow> map (\<lambda>p. (pv_contentTag p, pv_ingestSeq p)) rows)
   in page None = [(''0xa'', 1), (''0xa'', 2)] \<and> page (Some 2) = [] \<and> length (st_messages paging_store) = 3"
  by code_simp

end
