(* ===== verification/Poster.thy ===== *)
theory Poster
  imports Scheduler Surfaces
begin

text \<open>
  The Poster as createPoster assembles it (packages/bam-poster/src/factory.ts and
  startup/reconcile.ts): the startup checks, the process-wide signer registry, the options
  and their defaults, and the operations of the resulting object over the pipeline, the
  submission loop, the reorg watcher and the surfaces of the other theories. The RPC client,
  the opening of the in-memory store and the ECDSA check are arguments. The dash in the text of
  a health reason is written as a hyphen.
\<close>

section \<open>Startup checks\<close>

datatype startup_error =
    AlreadyConfigured string
  | ChainIdMismatch nat nat
  | NoContractCode string nat
  | SchemaVersionMismatch nat
  | StartupThrow string

record startup_env =
  su_getChainId :: "string + nat"
  su_getCode :: "string \<Rightarrow> string + string"
  su_readSchemaVersion :: "string + nat"
  su_createMemoryStore :: "string + store"
  su_ecdsa :: ecdsa

definition SCHEMA_VERSION :: nat where "SCHEMA_VERSION = 6"

definition reconcileStartup :: "startup_env \<Rightarrow> nat \<Rightarrow> string \<Rightarrow> startup_error + unit" where
  "reconcileStartup su chainId bamCoreAddress =
     (case su_getChainId su of
        Inl e \<Rightarrow> Inl (StartupThrow e)
      | Inr c \<Rightarrow>
          if c \<noteq> chainId then Inl (ChainIdMismatch c chainId)
          else case su_getCode su bamCoreAddress of
            Inl e \<Rightarrow> Inl (StartupThrow e)
          | Inr code \<Rightarrow>
              if code = ''0x'' \<or> code = ''0x0'' then Inl (NoContractCode bamCoreAddress c) else Inr ())"

definition reconcileSchemaVersion :: "startup_env \<Rightarrow> startup_error + unit" where
  "reconcileSchemaVersion su =
     (case su_readSchemaVersion su of
        Inl e \<Rightarrow> Inl (StartupThrow e)
      | Inr found \<Rightarrow> if found \<noteq> SCHEMA_VERSION then Inl (SchemaVersionMismatch found) else Inr ())"

section \<open>Construction\<close>

text \<open>
  A field left out is None. The reorg window is a JavaScript number, as in clampReorgWindow.
\<close>

record poster_config =
  cf_signer :: string
  cf_chainId :: nat
  cf_bamCoreAddress :: string
  cf_allowlistedTags :: "string list"
  cf_store :: "store option"
  cf_validator :: "message_validator option"
  cf_batchPolicy :: "batch_policy option"
  cf_maxMessageSizeBytes :: "nat option"
  cf_maxContentsSizeBytes :: "nat option"
  cf_blobCapacityBytes :: "nat option"
  cf_reorgWindowBlocks :: "int option option"
  cf_rateLimit :: "rate_config option"
  cf_backoff :: "backoff_config option"
  cf_idlePollMs :: "nat option"
  cf_reorgPollMs :: "nat option"
  cf_warnThreshold :: "nat option"
  cf_maxTagsPerPack :: "nat option"
  cf_capacityFEs :: "nat option"
  cf_capacityBytes :: "nat option"
  cf_encodeBatch :: "(bam_message list \<Rightarrow> bytes list \<Rightarrow> batch_error + bytes) option"

definition given :: "'a option \<Rightarrow> 'a \<Rightarrow> 'a" where
  "given x d = (case x of None \<Rightarrow> d | Some v \<Rightarrow> v)"

definition DEFAULT_IDLE_POLL_MS :: nat where "DEFAULT_IDLE_POLL_MS = 1000"
definition DEFAULT_REORG_POLL_MS :: nat where "DEFAULT_REORG_POLL_MS = 12000"
definition DEFAULT_PACKING_LOSS_STREAK_WARN_THRESHOLD :: nat where "DEFAULT_PACKING_LOSS_STREAK_WARN_THRESHOLD = 10"

record poster =
  po_address :: string
  po_chainId :: nat
  po_tags :: "string list"
  po_ingest :: ingest_options
  po_loopOptions :: loop_options
  po_reorgWindow :: int
  po_idlePollMs :: nat
  po_reorgPollMs :: nat
  po_warnThreshold :: nat
  po_loop :: loop_state
  po_limiter :: limiter
  po_store :: store
  po_nonOkSince :: "nat option"

definition ingestOptionsOf :: "startup_env \<Rightarrow> poster_config \<Rightarrow> ingest_options" where
  "ingestOptionsOf su cf =
     \<lparr>ig_validator = given (cf_validator cf) (defaultEcdsaValidator (su_ecdsa su) (cf_chainId cf)),
      ig_rate = given (cf_rateLimit cf) DEFAULT_RATE_LIMIT,
      ig_allowlistedTags = map canonicalTag (cf_allowlistedTags cf),
      ig_maxMessageSizeBytes = given (cf_maxMessageSizeBytes cf) DEFAULT_MAX_MESSAGE_SIZE_BYTES,
      ig_maxContentsSizeBytes = given (cf_maxContentsSizeBytes cf) DEFAULT_MAX_CONTENTS_SIZE_BYTES,
      ig_chainId = cf_chainId cf\<rparr>"

definition reorgWindowOf :: "poster_config \<Rightarrow> int" where
  "reorgWindowOf cf = clampReorgWindow (given (cf_reorgWindowBlocks cf) (Some 32))"

definition loopOptionsOf :: "poster_config \<Rightarrow> loop_options" where
  "loopOptionsOf cf =
     \<lparr>lo_aggregator =
        \<lparr>ao_policy = given (cf_batchPolicy cf) (defaultBatchPolicy defaultPolicyConfig),
         ao_tags = map canonicalTag (cf_allowlistedTags cf),
         ao_maxTagsPerPack = given (cf_maxTagsPerPack cf) 8,
         ao_capacity = \<lparr>pc_maxFEs = given (cf_capacityFEs cf) FIELD_ELEMENTS_PER_BLOB,
                        pc_maxBytes = given (cf_capacityBytes cf) USABLE_BYTES_PER_BLOB\<rparr>,
         ao_blobCapacityBytes = given (cf_blobCapacityBytes cf) DEFAULT_BLOB_CAPACITY_BYTES,
         ao_encodeBatch = given (cf_encodeBatch cf) default_encode\<rparr>,
      lo_chainId = cf_chainId cf, lo_backoff = given (cf_backoff cf) DEFAULT_BACKOFF,
      lo_reorgWindowBlocks = nat (reorgWindowOf cf)\<rparr>"

definition buildPoster :: "startup_env \<Rightarrow> poster_config \<Rightarrow> store \<Rightarrow> poster" where
  "buildPoster su cf st =
     \<lparr>po_address = cf_signer cf, po_chainId = cf_chainId cf, po_tags = map canonicalTag (cf_allowlistedTags cf),
      po_ingest = ingestOptionsOf su cf, po_loopOptions = loopOptionsOf cf, po_reorgWindow = reorgWindowOf cf,
      po_idlePollMs = given (cf_idlePollMs cf) DEFAULT_IDLE_POLL_MS,
      po_reorgPollMs = given (cf_reorgPollMs cf) DEFAULT_REORG_POLL_MS,
      po_warnThreshold = given (cf_warnThreshold cf) DEFAULT_PACKING_LOSS_STREAK_WARN_THRESHOLD,
      po_loop = newLoop (loopOptionsOf cf), po_limiter = newLimiter, po_store = st, po_nonOkSince = None\<rparr>"

text \<open>The body of the try block, then createPoster over the registry of signers.\<close>

definition constructPoster :: "startup_env \<Rightarrow> poster_config \<Rightarrow> startup_error + poster" where
  "constructPoster su cf =
     ebind (reconcileStartup su (cf_chainId cf) (cf_bamCoreAddress cf)) (\<lambda>_.
     ebind (case cf_store cf of
              Some st \<Rightarrow> Inr st
            | None \<Rightarrow> (case su_createMemoryStore su of Inl e \<Rightarrow> Inl (StartupThrow e) | Inr st \<Rightarrow> Inr st)) (\<lambda>st.
     ebind (reconcileSchemaVersion su) (\<lambda>_. Inr (buildPoster su cf st))))"

definition createPoster ::
  "startup_env \<Rightarrow> poster_config \<Rightarrow> string set \<Rightarrow> (startup_error + poster) \<times> string set" where
  "createPoster su cf signerRegistry =
     (if cf_signer cf \<in> signerRegistry then (Inl (AlreadyConfigured (cf_signer cf)), signerRegistry)
      else case constructPoster su cf of
        Inl e \<Rightarrow> (Inl e, insert (cf_signer cf) signerRegistry - {cf_signer cf})
      | Inr p \<Rightarrow> (Inr p, insert (cf_signer cf) signerRegistry))"

section \<open>The signer registry\<close>

text \<open>
  The process: the registry, and the addresses of the Posters under construction (past the
  synchronous check of createPoster, awaiting its startup checks) and of the live ones (not
  yet drained by stop).
\<close>

record process =
  rg_registry :: "string set"
  rg_building :: "string list"
  rg_live :: "string list"

inductive process_step :: "process \<Rightarrow> process \<Rightarrow> bool" where
  begin_create: "cf_signer (cf :: poster_config) \<notin> rg_registry p \<Longrightarrow>
     process_step p (p\<lparr>rg_registry := insert (cf_signer cf) (rg_registry p), rg_building := cf_signer cf # rg_building p\<rparr>)"
| refused: "cf_signer (cf :: poster_config) \<in> rg_registry p \<Longrightarrow> process_step p p"
| built: "cf_signer cf \<in> set (rg_building p) \<Longrightarrow> constructPoster su cf = Inr q \<Longrightarrow>
     process_step p (p\<lparr>rg_building := remove1 (cf_signer cf) (rg_building p), rg_live := po_address q # rg_live p\<rparr>)"
| failed: "cf_signer cf \<in> set (rg_building p) \<Longrightarrow> constructPoster su cf = Inl e \<Longrightarrow>
     process_step p (p\<lparr>rg_building := remove1 (cf_signer cf) (rg_building p), rg_registry := rg_registry p - {cf_signer cf}\<rparr>)"
| stopped: "a \<in> set (rg_live p) \<Longrightarrow>
     process_step p (p\<lparr>rg_live := remove1 a (rg_live p), rg_registry := rg_registry p - {a}\<rparr>)"

definition new_process :: process where
  "new_process = \<lparr>rg_registry = {}, rg_building = [], rg_live = []\<rparr>"

definition registry_inv :: "process \<Rightarrow> bool" where
  "registry_inv p \<longleftrightarrow> distinct (rg_building p @ rg_live p) \<and> rg_registry p = set (rg_building p @ rg_live p)"

lemma constructPoster_Inr:
  "constructPoster su cf = Inr p \<Longrightarrow> \<exists>st. p = buildPoster su cf st \<and> (\<forall>s. cf_store cf = Some s \<longrightarrow> st = s)"
  by (auto simp: constructPoster_def split: option.split_asm sum.split_asm)

lemma constructed_address: "constructPoster su cf = Inr p \<Longrightarrow> po_address p = cf_signer cf"
  by (auto dest: constructPoster_Inr simp: buildPoster_def)

lemma process_step_inv: "process_step p p' \<Longrightarrow> registry_inv p \<Longrightarrow> registry_inv p'"
  by (induction rule: process_step.induct) (auto simp: registry_inv_def constructed_address)

lemma process_inv: "process_step\<^sup>*\<^sup>* new_process p \<Longrightarrow> registry_inv p"
proof (induction rule: rtranclp_induct)
  case base
  show ?case
    by (simp add: registry_inv_def new_process_def)
qed (rule process_step_inv)

text \<open>
  C24. A signer never serves two Posters of one process, and a failed start leaves no trace: in every state reachable by any interleaving of creations, their failures at any startup check and stops, the Posters under construction or live have pairwise distinct signers, and a creation is refused as already configured exactly when such a Poster holds its signer.
\<close>

theorem signer_registry_exclusive:
  assumes "process_step\<^sup>*\<^sup>* new_process p"
  shows "distinct (rg_building p @ rg_live p)
    \<and> (fst (createPoster su cf (rg_registry p)) = Inl (AlreadyConfigured (cf_signer cf))
       \<longleftrightarrow> cf_signer cf \<in> set (rg_building p @ rg_live p))
    \<and> (\<forall>e. fst (createPoster su cf (rg_registry p)) = Inl e \<longrightarrow> snd (createPoster su cf (rg_registry p)) = rg_registry p)"
proof -
  have inv: "distinct (rg_building p @ rg_live p)" "rg_registry p = set (rg_building p @ rg_live p)"
    using process_inv [OF assms] by (auto simp: registry_inv_def)
  have "constructPoster su cf \<noteq> Inl (AlreadyConfigured a)" for a
    by (auto simp: constructPoster_def reconcileStartup_def reconcileSchemaVersion_def ebind_Inl_iff
        split: option.splits sum.splits if_splits)
  then show ?thesis
    using inv by (auto simp: createPoster_def split: sum.splits)
qed

section \<open>Health\<close>

record health_snapshot =
  hs_state :: health_state
  hs_reason :: "string option"
  hs_since :: "nat option"

definition failed_reason :: "nat \<Rightarrow> string" where
  "failed_reason attempts = ''aggregator has failed '' @ toString10 attempts @ '' consecutive submissions''"

definition aggregateHealth :: "nat \<Rightarrow> poster \<Rightarrow> health_snapshot \<times> poster" where
  "aggregateHealth now p =
     (let state = healthState (po_loopOptions p) (po_loop p);
          reason = (case state of
              Unhealthy \<Rightarrow>
                Some (if lp_permanentlyStopped (po_loop p)
                      then ''aggregator PERMANENT failure - operator must intervene''
                      else failed_reason (lp_failures (po_loop p)))
            | Degraded \<Rightarrow> Some (failed_reason (lp_failures (po_loop p)))
            | Ok \<Rightarrow> None)
      in if state = Ok then (\<lparr>hs_state = state, hs_reason = reason, hs_since = None\<rparr>, p\<lparr>po_nonOkSince := None\<rparr>)
         else let since = given (po_nonOkSince p) now
              in (\<lparr>hs_state = state, hs_reason = reason, hs_since = Some since\<rparr>, p\<lparr>po_nonOkSince := Some since\<rparr>))"

text \<open>Health observed at a sequence of times, the loop having changed in between.\<close>

primrec observeHealth :: "(nat \<times> loop_state) list \<Rightarrow> poster \<Rightarrow> health_snapshot list" where
  "observeHealth [] p = []"
| "observeHealth (o1 # obs) p =
     (case aggregateHealth (fst o1) (p\<lparr>po_loop := snd o1\<rparr>) of (snap, p') \<Rightarrow> snap # observeHealth obs p')"

text \<open>The reference: the time of the first observation of the last unbroken run of trouble.\<close>

definition epoch_start :: "loop_options \<Rightarrow> (nat \<times> loop_state) list \<Rightarrow> nat option" where
  "epoch_start opts obs =
     (case takeWhile (\<lambda>(_, ls). healthState opts ls \<noteq> Ok) (rev obs) of
        [] \<Rightarrow> None
      | bad \<Rightarrow> Some (fst (last bad)))"

lemma epoch_start_snoc:
  "epoch_start opts (obs @ [(t, ls)]) =
     (if healthState opts ls = Ok then None else Some (given (epoch_start opts obs) t))"
  by (auto simp: epoch_start_def given_def split: list.splits)

lemma aggregateHealth_since:
  assumes "aggregateHealth now p = (snap, p')"
  shows "hs_since snap = po_nonOkSince p'" "po_loopOptions p' = po_loopOptions p"
    "po_nonOkSince p' = (if healthState (po_loopOptions p) (po_loop p) = Ok then None else Some (given (po_nonOkSince p) now))"
    "hs_state snap = healthState (po_loopOptions p) (po_loop p)"
  using assms by (auto simp: aggregateHealth_def Let_def split: if_split_asm)

lemma observeHealth_from:
  assumes "epoch_start (po_loopOptions p) before = po_nonOkSince p"
  shows "map hs_since (observeHealth obs p)
    = map (\<lambda>k. epoch_start (po_loopOptions p) (before @ take (Suc k) obs)) [0..<length obs]"
  using assms
proof (induction obs arbitrary: p before)
  case (Cons o1 obs)
  obtain snap p' where a: "aggregateHealth (fst o1) (p\<lparr>po_loop := snd o1\<rparr>) = (snap, p')"
    by fastforce
  note s = aggregateHealth_since [OF a]
  have "epoch_start (po_loopOptions p') (before @ [o1]) = po_nonOkSince p'"
    using s epoch_start_snoc [of "po_loopOptions p" before "fst o1" "snd o1"] Cons.prems by simp
  then have "map hs_since (observeHealth obs p')
      = map (\<lambda>k. epoch_start (po_loopOptions p) (before @ o1 # take (Suc k) obs)) [0..<length obs]"
    using Cons.IH [of p' "before @ [o1]"] s(2) by simp
  moreover have "hs_since snap = epoch_start (po_loopOptions p) (before @ [o1])"
    using s epoch_start_snoc [of "po_loopOptions p" before "fst o1" "snd o1"] Cons.prems by simp
  ultimately show ?case
    using a by (simp add: map_upt_Suc del: upt_Suc)
qed simp

text \<open>
  The since of the health report is exact: whatever the loop goes through between observations, each observation of a new Poster's health reports the time of the first observation of the current unbroken run of non-ok ones, and nothing when the state is ok; asking again within a run never moves it.
\<close>

theorem health_since_exact:
  assumes "constructPoster su cf = Inr p"
  shows "map hs_since (observeHealth obs p)
    = map (\<lambda>k. epoch_start (loopOptionsOf cf) (take (Suc k) obs)) [0..<length obs]"
proof -
  have "po_loopOptions p = loopOptionsOf cf" "po_nonOkSince p = None"
    using constructPoster_Inr [OF assms] by (auto simp: buildPoster_def)
  then show ?thesis
    using observeHealth_from [of p "[]" obs] by (simp add: epoch_start_def)
qed

section \<open>The operations of a Poster\<close>

definition poster_submit ::
  "(bytes \<Rightarrow> bytes) \<Rightarrow> (bytes \<Rightarrow> json option) \<Rightarrow> (nat \<Rightarrow> bool) \<Rightarrow> nat \<Rightarrow> bytes \<Rightarrow> poster \<Rightarrow> (store_error + submit_result) \<times> poster" where
  "poster_submit keccak parse conflict now raw p =
     (case aggregateHealth now p of (snap, p1) \<Rightarrow>
        if hs_state snap = Unhealthy then (Inr (Rejected PosterUnhealthy), p1)
        else case ingest keccak parse (po_ingest p1) conflict now raw (po_limiter p1, po_store p1) of
          (r, rl, st) \<Rightarrow> (r, p1\<lparr>po_limiter := rl, po_store := st\<rparr>))"

definition poster_listPending :: "(nat \<Rightarrow> bool) \<Rightarrow> pending_query \<Rightarrow> poster \<Rightarrow> store_error + pending_view list" where
  "poster_listPending conflict q p =
     fst (listPending conflict (q\<lparr>pq_contentTag := map_option canonicalTag (pq_contentTag q)\<rparr>) (po_store p))"

definition poster_listSubmittedBatches :: "(nat \<Rightarrow> bool) \<Rightarrow> submitted_query \<Rightarrow> poster \<Rightarrow> surface_error + submitted_batch list" where
  "poster_listSubmittedBatches conflict q p =
     fst (listSubmittedBatches conflict (po_chainId p) (q\<lparr>sq_contentTag := map_option canonicalTag (sq_contentTag q)\<rparr>) (po_store p))"

definition poster_getNextNonce :: "(nat \<Rightarrow> bool) \<Rightarrow> string \<Rightarrow> poster \<Rightarrow> store_error + int" where
  "poster_getNextNonce conflict sender p = fst (getNextNonce conflict sender (po_store p))"

definition poster_status_of :: "(nat \<Rightarrow> bool) \<Rightarrow> string + nat \<Rightarrow> poster \<Rightarrow> (string + store_error) + poster_status" where
  "poster_status_of conflict balance p =
     fst (readStatus conflict (po_chainId p) (po_tags p) (po_address p) balance (po_store p))"

definition poster_health :: "nat \<Rightarrow> poster \<Rightarrow> health_report \<times> poster" where
  "poster_health now p =
     (case aggregateHealth now p of (snap, p1) \<Rightarrow>
        let ls = po_loop p1 in
        (readHealth (hs_state snap) (hs_reason snap) (hs_since snap)
           (Some \<lparr>ha_lastPackedTxHash = lp_lastPackedTxHash ls, ha_lastPackedTagCount = lp_lastPackedTagCount ls,
                  ha_permanentlyStopped = lp_permanentlyStopped ls,
                  ha_tags = map (\<lambda>t. \<lparr>ht_contentTag = pls_contentTag t, ht_pendingCount = pls_pendingCount t,
                                    ht_packingLossStreak = pls_packingLossStreak t, ht_lastIncludedAt = pls_lastIncludedAt t,
                                    ht_warn = (pls_packingLossStreak t \<ge> po_warnThreshold p1)\<rparr>)
                    (packingLossSnapshot (lo_aggregator (po_loopOptions p1)) (lp_aggregator ls))\<rparr>), p1))"

text \<open>
  The aggregator worker's callback: what the chain and the database answer is one record. A
  tick that throws is not observed by the health latch; the delay is the next one of the timer.
\<close>

record tick_input =
  ti_readConflict :: "nat \<Rightarrow> bool"
  ti_writeConflict :: "nat \<Rightarrow> bool"
  ti_now :: nat
  ti_submit :: "pack_result \<Rightarrow> submit_outcome"
  ti_submittedAt :: nat
  ti_healthAt :: nat

definition poster_tick :: "(bytes \<Rightarrow> bytes) \<Rightarrow> tick_input \<Rightarrow> poster \<Rightarrow> (loop_error + tick_outcome) \<times> poster" where
  "poster_tick keccak ti p =
     (case loopTick keccak (po_loopOptions p) (ti_readConflict ti) (ti_writeConflict ti) (ti_now ti) (ti_submit ti)
             (ti_submittedAt ti) (po_loop p) (po_store p) of
        (r, ls, st) \<Rightarrow> (r, p\<lparr>po_loop := ls, po_store := st\<rparr>))"

definition workerDelay :: "poster \<Rightarrow> tick_outcome \<Rightarrow> nat option" where
  "workerDelay p outcome =
     (case outcome of
        Idle \<Rightarrow> Some (po_idlePollMs p)
      | Success \<Rightarrow> Some 0
      | Retry \<Rightarrow> Some (nextDelayMs (lo_backoff (po_loopOptions p)) (lp_failures (po_loop p)))
      | TickPermanent \<Rightarrow> None)"

definition aggregatorWork :: "(bytes \<Rightarrow> bytes) \<Rightarrow> tick_input \<Rightarrow> poster \<Rightarrow> (loop_error + nat option) \<times> poster" where
  "aggregatorWork keccak ti p =
     (case poster_tick keccak ti p of
        (Inl e, p1) \<Rightarrow> (Inl e, p1)
      | (Inr outcome, p1) \<Rightarrow>
          (case aggregateHealth (ti_healthAt ti) p1 of (_, p2) \<Rightarrow> (Inr (workerDelay p2 outcome), p2)))"

definition watcherOptionsOf :: "nat \<Rightarrow> poster \<Rightarrow> watcher_options" where
  "watcherOptionsOf now p = \<lparr>wo_chainId = po_chainId p, wo_reorgWindowBlocks = Some (po_reorgWindow p), wo_now = now\<rparr>"

definition poster_watch ::
  "nat \<Rightarrow> nat \<Rightarrow> (nat \<Rightarrow> string \<Rightarrow> nat option) \<Rightarrow> (nat \<Rightarrow> bool) \<Rightarrow> (nat \<Rightarrow> nat \<Rightarrow> bool) \<Rightarrow> poster \<Rightarrow> (store_error + (nat \<times> nat)) \<times> poster" where
  "poster_watch now head txBlock readConflict conflict p =
     (case watcherTick (watcherOptionsOf now p) head txBlock readConflict conflict (po_store p) of
        (r, st) \<Rightarrow> (r, p\<lparr>po_store := st\<rparr>))"

section \<open>Runs of a Poster\<close>

text \<open>Everything that changes a live Poster, in any order.\<close>

inductive poster_step :: "(bytes \<Rightarrow> bytes) \<Rightarrow> (bytes \<Rightarrow> json option) \<Rightarrow> poster \<Rightarrow> poster \<Rightarrow> bool" for keccak parse where
  submit: "poster_submit keccak parse conflict now raw p = (r, p') \<Longrightarrow> poster_step keccak parse p p'"
| work: "aggregatorWork keccak ti p = (r', p') \<Longrightarrow> poster_step keccak parse p p'"
| flush: "poster_tick keccak ti p = (r'', p') \<Longrightarrow> poster_step keccak parse p p'"
| watch: "poster_watch now head txBlock rc wc p = (w, p') \<Longrightarrow> poster_step keccak parse p p'"
| health: "poster_health now p = (h, p') \<Longrightarrow> poster_step keccak parse p p'"

lemma aggregateHealth_frame:
  "aggregateHealth now p = (snap, p') \<Longrightarrow> p' = p\<lparr>po_nonOkSince := po_nonOkSince p'\<rparr>"
  by (auto simp: aggregateHealth_def Let_def split: if_split_asm)

lemma aggregateHealth_fields:
  assumes "aggregateHealth now p = (snap, p')"
  shows "po_store p' = po_store p" "po_loop p' = po_loop p" "po_ingest p' = po_ingest p"
    "po_loopOptions p' = po_loopOptions p" "po_limiter p' = po_limiter p" "po_tags p' = po_tags p"
  by (subst aggregateHealth_frame [OF assms], simp)+

lemma loop_stopped_stays:
  "loopTick keccak opts rc wc now submit submittedAt ls st = (r, ls', st') \<Longrightarrow> lp_permanentlyStopped ls \<Longrightarrow> ls' = ls \<and> st' = st"
  by (simp add: loopTick_def)

text \<open>What every operation keeps: the options, and the store's lifecycle.\<close>

definition poster_keeps :: "poster \<Rightarrow> poster \<Rightarrow> bool" where
  "poster_keeps p p' \<longleftrightarrow> po_ingest p' = po_ingest p \<and> po_loopOptions p' = po_loopOptions p \<and> po_tags p' = po_tags p
     \<and> steps (po_store p) (po_store p')
     \<and> (lp_permanentlyStopped (po_loop p) \<longrightarrow> po_loop p' = po_loop p)"

lemma poster_keeps_trans [trans]: "poster_keeps p q \<Longrightarrow> poster_keeps q r \<Longrightarrow> poster_keeps p r"
  by (auto simp: poster_keeps_def)

lemma aggregateHealth_keeps: "aggregateHealth now p = (snap, p') \<Longrightarrow> poster_keeps p p'"
  using aggregateHealth_fields [of now p snap p'] by (simp add: poster_keeps_def)

lemma loopTick_steps:
  "loopTick keccak opts rc wc now submit submittedAt ls st = (r, ls', st') \<Longrightarrow> steps st st'"
  using poster_loop.run_steps [of "(keccak, opts, rc, wc, now, submit, submittedAt, ls)" st st'] by auto

lemma poster_tick_keeps:
  assumes "poster_tick keccak ti p = (r, p')"
  shows "poster_keeps p p'"
proof -
  obtain r1 ls st where t: "loopTick keccak (po_loopOptions p) (ti_readConflict ti) (ti_writeConflict ti) (ti_now ti) (ti_submit ti)
             (ti_submittedAt ti) (po_loop p) (po_store p) = (r1, ls, st)"
    by (metis prod_cases3)
  then have "p' = p\<lparr>po_loop := ls, po_store := st\<rparr>"
    using assms by (simp add: poster_tick_def)
  then show ?thesis
    using loopTick_steps [OF t] loop_stopped_stays [OF t] by (auto simp: poster_keeps_def)
qed

lemma poster_submit_keeps:
  assumes "poster_submit keccak parse conflict now raw p = (r, p')"
  shows "poster_keeps p p'"
proof -
  obtain snap p1 where h: "aggregateHealth now p = (snap, p1)"
    by fastforce
  obtain r1 rl st where i: "ingest keccak parse (po_ingest p1) conflict now raw (po_limiter p1, po_store p1) = (r1, rl, st)"
    by (metis prod_cases3)
  have "poster_keeps p1 (p1\<lparr>po_limiter := rl, po_store := st\<rparr>)"
    using ingest_steps [OF i] by (simp add: poster_keeps_def)
  then show ?thesis
    using assms h i aggregateHealth_keeps [OF h] poster_keeps_trans by (auto simp: poster_submit_def split: if_split_asm)
qed

lemma aggregatorWork_keeps:
  assumes "aggregatorWork keccak ti p = (r, p')"
  shows "poster_keeps p p'"
proof -
  obtain o1 p1 where t: "poster_tick keccak ti p = (o1, p1)"
    by fastforce
  obtain snap p2 where h: "aggregateHealth (ti_healthAt ti) p1 = (snap, p2)"
    by fastforce
  have "p' = p1 \<or> p' = p2"
    using assms t h by (auto simp: aggregatorWork_def split: sum.split_asm)
  then show ?thesis
    using poster_tick_keeps [OF t] aggregateHealth_keeps [OF h] poster_keeps_trans by blast
qed

lemma poster_step_keeps: "poster_step keccak parse p p' \<Longrightarrow> poster_keeps p p'"
proof (induction rule: poster_step.induct)
  case (watch now head txBlock rc wc p w p')
  then show ?case
    using watcherTick_steps by (fastforce simp: poster_watch_def poster_keeps_def split: prod.split_asm)
next
  case (health now p h p')
  then show ?case
    using aggregateHealth_keeps by (fastforce simp: poster_health_def Let_def split: prod.split_asm)
qed (auto dest: poster_submit_keeps aggregatorWork_keeps poster_tick_keeps)

lemma poster_run_keeps: "(poster_step keccak parse)\<^sup>*\<^sup>* p p' \<Longrightarrow> poster_keeps p p'"
proof (induction rule: rtranclp_induct)
  case (step y z)
  then show ?case
    using poster_keeps_trans poster_step_keeps by blast
qed (simp add: poster_keeps_def)

interpretation poster_object: store_worker
  "\<lambda>(keccak, parse, p) st st'. \<exists>p'. po_store p = st \<and> po_store p' = st' \<and> (poster_step keccak parse)\<^sup>*\<^sup>* p p'"
  by unfold_locales (auto dest: poster_run_keeps simp: poster_keeps_def)

section \<open>Properties of a live Poster\<close>

lemma constructed_wired:
  assumes "constructPoster su cf = Inr p" "(poster_step keccak parse)\<^sup>*\<^sup>* p p'"
  shows "ig_allowlistedTags (po_ingest p') = ao_tags (lo_aggregator (po_loopOptions p'))"
    and "list_all (\<lambda>t. toLowerCase t = t) (ao_tags (lo_aggregator (po_loopOptions p')))"
proof -
  obtain st where "p = buildPoster su cf st"
    using constructPoster_Inr [OF assms(1)] by blast
  moreover have "poster_keeps p p'"
    using poster_run_keeps [OF assms(2)] .
  ultimately have "po_ingest p' = ingestOptionsOf su cf" "po_loopOptions p' = loopOptionsOf cf"
    by (simp_all add: poster_keeps_def buildPoster_def)
  then show "ig_allowlistedTags (po_ingest p') = ao_tags (lo_aggregator (po_loopOptions p'))"
      and "list_all (\<lambda>t. toLowerCase t = t) (ao_tags (lo_aggregator (po_loopOptions p')))"
    by (simp_all add: ingestOptionsOf_def loopOptionsOf_def canonicalTag_def list_all_iff toLowerCase_idem)
qed

lemma snapshotPools_covers:
  assumes "snapshotPools tags st = Inr (pools, s)" "tag \<in> set tags" "r \<in> set (st_messages st)"
    and "rm_contentTag r = tag" "rm_status r = Pending"
  shows "\<exists>rows m pr. pools tag = Some rows \<and> m \<in> set rows \<and> mapPending r = Inr pr \<and> m = pendingRowToDecoded pr"
proof -
  from assms(1) obtain rows where rows: "mapE (\<lambda>tag. listPendingByTag tag None None st) tags = Inr rows"
    and pools: "pools = map_of (zip tags (map (map pendingRowToDecoded) rows))"
    by (auto simp: snapshotPools_def)
  have len: "length rows = length tags"
    using mapE_length [OF rows] .
  have dom: "tag \<in> dom pools"
    using assms(2) len by (simp add: pools dom_map_of_zip)
  then obtain ms where ms: "pools tag = Some ms"
    by blast
  then have "(tag, ms) \<in> set (zip tags (map (map pendingRowToDecoded) rows))"
    unfolding pools by (rule map_of_SomeD)
  then obtain i where i: "i < length tags" "tags ! i = tag" "ms = map pendingRowToDecoded (rows ! i)"
    using len by (auto simp: set_zip)
  have "listPendingByTag (tags ! i) None None st = Inr (rows ! i)"
    using rows i(1) by (auto simp: mapE_Inr_iff list_all2_conv_all_nth)
  then have "mapE mapPending (sort_key (\<lambda>r. asc_nl (rm_ingestSeq r))
      (filter (\<lambda>r. rm_contentTag r = tag \<and> rm_status r = Pending) (st_messages st))) = Inr (rows ! i)"
    by (simp add: listPendingByTag_def limited_def seq_after_def i(2))
  from mapE_covers [OF this, of r] obtain pr where "pr \<in> set (rows ! i)" "mapPending r = Inr pr"
    using assms(3-5) by auto
  then show ?thesis
    using ms i(3) by auto
qed

text \<open>
  C19. No accepted message is left out of the submission loop: in every run of a constructed Poster, when a submission is accepted and adds a row to the pool, the next pool snapshot over the loop's tags holds that message, with the hash the client was given and its tag, contents and signature; the allowlist the pipeline checks and the tags the loop polls are one canonical list, whatever casing the configuration and the envelope used.
\<close>

theorem accepted_message_is_polled:
  assumes "constructPoster su cf = Inr p0" "(poster_step keccak parse)\<^sup>*\<^sup>* p0 p" "store_inv (po_store p)"
    and "poster_submit keccak parse conflict now raw p = (Inr (Accepted h), p')"
    and "st_messages (po_store p') \<noteq> st_messages (po_store p)"
    and "snapshotPools (ao_tags (lo_aggregator (po_loopOptions p'))) (po_store p') = Inr (pools, s)"
  shows "\<exists>env rows m. parseEnvelope parse raw = Some env \<and> me_tag env \<in> set (ao_tags (lo_aggregator (po_loopOptions p')))
    \<and> pools (me_tag env) = Some rows \<and> m \<in> set rows \<and> dm_messageHash m = h \<and> dm_contentTag m = me_tag env
    \<and> dm_contents m = me_contents env \<and> dm_signature m = me_signature env \<and> dm_nonce m = me_nonce env"
proof -
  obtain snap p1 where a: "aggregateHealth now p = (snap, p1)"
    by fastforce
  note f = aggregateHealth_fields [OF a]
  have ok: "hs_state snap \<noteq> Unhealthy"
    using assms(4) a by (auto simp: poster_submit_def)
  obtain r rl st where i: "ingest keccak parse (po_ingest p1) conflict now raw (po_limiter p1, po_store p1) = (r, rl, st)"
    by (metis prod_cases3)
  have p': "r = Inr (Accepted h)" "po_store p' = st" "po_loopOptions p' = po_loopOptions p"
    using assms(4) a i ok f by (auto simp: poster_submit_def)
  have "admitted keccak parse (po_ingest p) now raw (po_store p) (Accepted h) st"
    using ingest_admits_lemma [OF _ i] assms(3,5) f p' by auto
  then obtain env hh t sq where env: "passes_gates keccak parse (po_ingest p) raw env hh" "h = hh"
      "encodeNonce (me_nonce env) = Inr t"
      "st_messages st = filter (\<lambda>q. msg_key q \<noteq> (toLowerCase (me_sender env), t)) (st_messages (po_store p))
          @ [pending_raw (pendingOf (po_ingest p) (decodedOf env hh) now sq) t]"
    unfolding admitted_def by blast
  let ?new = "pending_raw (pendingOf (po_ingest p) (decodedOf env hh) now sq) t"
  have new: "?new \<in> set (st_messages (po_store p'))"
    using env(4) p'(2) by simp
  have canon: "toLowerCase (me_tag env) = me_tag env" and parsed: "parseEnvelope parse raw = Some env"
    using env(1) by (auto simp: passes_gates_def parseEnvelope_def Let_def canonicalTag_def toLowerCase_idem
        split: if_split_asm option.split_asm)
  have tags: "ig_allowlistedTags (po_ingest p) = ao_tags (lo_aggregator (po_loopOptions p))"
      "list_all (\<lambda>t. toLowerCase t = t) (ao_tags (lo_aggregator (po_loopOptions p)))"
    using constructed_wired [OF assms(1,2)] .
  have tag: "me_tag env \<in> set (ao_tags (lo_aggregator (po_loopOptions p')))"
    using env(1) canon tags p'(3) by (auto simp: passes_gates_def list_all_iff)
  have row: "rm_contentTag ?new = me_tag env" "rm_status ?new = Pending"
    by (simp_all add: pending_raw_def pendingOf_def decodedOf_def)
  obtain rows m pr where m: "pools (me_tag env) = Some rows" "m \<in> set rows" "mapPending ?new = Inr pr" "m = pendingRowToDecoded pr"
    using snapshotPools_covers [OF assms(6) tag new row] by blast
  have "pr_contentTag pr = me_tag env \<and> pr_messageHash pr = h \<and> pr_contents pr = me_contents env \<and> pr_signature pr = me_signature env
      \<and> pr_nonce pr = me_nonce env"
    using m(3) decNonce_encode [OF env(3)] env(2)
    by (auto simp: mapPending_def pending_raw_def pendingOf_def decodedOf_def)
  then show ?thesis
    using m tag parsed by (auto simp: pendingRowToDecoded_def)
qed

text \<open>
  A permanent failure closes the Poster for good: once a worker's tick ends permanently its timer is not rearmed, and in every state the Poster can later reach, by submissions, flushes, health checks and reorg ticks in any order, each submission is refused as unhealthy without touching the pool, and each further tick of the loop ends permanently, submits nothing and writes nothing.
\<close>

theorem permanent_failure_closes_intake:
  assumes "poster_tick keccak ti p = (Inr TickPermanent, p1)" "(poster_step keccak parse)\<^sup>*\<^sup>* p1 p2"
  shows "workerDelay p1 TickPermanent = None
    \<and> (\<exists>p3. poster_submit keccak parse conflict now raw p2 = (Inr (Rejected PosterUnhealthy), p3) \<and> po_store p3 = po_store p2)
    \<and> poster_tick keccak ti' p2 = (Inr TickPermanent, p2)"
proof -
  obtain r ls st where t: "loopTick keccak (po_loopOptions p) (ti_readConflict ti) (ti_writeConflict ti) (ti_now ti) (ti_submit ti)
             (ti_submittedAt ti) (po_loop p) (po_store p) = (r, ls, st)"
    by (metis prod_cases3)
  then have p1: "r = Inr TickPermanent" "p1 = p\<lparr>po_loop := ls, po_store := st\<rparr>"
    using assms(1) by (simp_all add: poster_tick_def)
  have "lp_permanentlyStopped ls"
    using t [unfolded p1(1)]
    by (auto simp: loopTick_def Let_def split: if_split_asm prod.split_asm sum.split_asm option.split_asm submit_outcome.split_asm)
  then have stop: "lp_permanentlyStopped (po_loop p2)"
    using poster_run_keeps [OF assms(2)] p1(2) by (simp add: poster_keeps_def)
  obtain snap p3 where a: "aggregateHealth now p2 = (snap, p3)"
    by fastforce
  have "hs_state snap = Unhealthy" "po_store p3 = po_store p2"
    using aggregateHealth_since(4) [OF a] aggregateHealth_fields [OF a] stop by (simp_all add: healthState_def)
  moreover have "poster_tick keccak ti' p2 = (Inr TickPermanent, p2)"
    using stop by (simp add: poster_tick_def loopTick_def)
  ultimately show ?thesis
    using a by (simp add: workerDelay_def poster_submit_def)
qed

section \<open>Sample runs\<close>

definition startup_sample :: startup_env where
  "startup_sample = \<lparr>su_getChainId = Inr 1, su_getCode = (\<lambda>_. Inr ''0x60''), su_readSchemaVersion = Inr 6,
     su_createMemoryStore = Inr empty_store,
     su_ecdsa = \<lparr>ec_verify = (\<lambda>_ _ _ _ _. True), ec_digest = (\<lambda>_ _ _. [])\<rparr>\<rparr>"

definition config_sample :: poster_config where
  "config_sample = \<lparr>cf_signer = ''0xS'', cf_chainId = 1, cf_bamCoreAddress = ''0xc'', cf_allowlistedTags = [bytesToHex (zeros 32)],
     cf_store = None, cf_validator = None, cf_batchPolicy = None, cf_maxMessageSizeBytes = Some 1000, cf_maxContentsSizeBytes = Some 500,
     cf_blobCapacityBytes = None, cf_reorgWindowBlocks = None, cf_rateLimit = Some (\<lparr>rt_windowMs = 100, rt_maxPerWindow = 2\<rparr>),
     cf_backoff = None, cf_idlePollMs = None, cf_reorgPollMs = None, cf_warnThreshold = None, cf_maxTagsPerPack = None,
     cf_capacityFEs = None, cf_capacityBytes = None, cf_encodeBatch = None\<rparr>"

definition poster_sample :: poster where
  "poster_sample = buildPoster startup_sample config_sample empty_store"

lemma construct_sample: "constructPoster startup_sample config_sample = Inr poster_sample"
  by (simp add: constructPoster_def reconcileStartup_def reconcileSchemaVersion_def startup_sample_def config_sample_def
      SCHEMA_VERSION_def poster_sample_def)

theorem signer_registry_exclusive_witness:
  "fst (createPoster startup_sample config_sample {''0xS''}) = Inl (AlreadyConfigured ''0xS'')"
proof -
  let ?p = "new_process\<lparr>rg_registry := {''0xS''}, rg_building := [''0xS'']\<rparr>"
  have "process_step new_process ?p"
    using process_step.begin_create [of config_sample new_process] by (simp add: new_process_def config_sample_def)
  then have "process_step\<^sup>*\<^sup>* new_process ?p"
    by blast
  from signer_registry_exclusive [OF this, of startup_sample config_sample] show ?thesis
    by (simp add: config_sample_def)
qed

theorem health_since_exact_witness:
  "map hs_since (observeHealth [(3, newLoop (loopOptionsOf config_sample)),
      (5, (newLoop (loopOptionsOf config_sample))\<lparr>lp_permanentlyStopped := True\<rparr>),
      (8, (newLoop (loopOptionsOf config_sample))\<lparr>lp_permanentlyStopped := True\<rparr>)] poster_sample) = [None, Some 5, Some 5]"
  unfolding health_since_exact [OF construct_sample]
  by (simp add: epoch_start_def healthState_def newLoop_def loopOptionsOf_def config_sample_def given_def DEFAULT_BACKOFF_def
      healthFromAttempts_def)

definition submit_sample :: "(store_error + submit_result) \<times> poster" where
  "submit_sample = poster_submit (\<lambda>_. zeros 32) (\<lambda>_. Some ingest_body_sample) (\<lambda>_. False) 7 [] poster_sample"

lemma ingest_options_of_sample: "ingestOptionsOf startup_sample config_sample = ingest_options_sample"
  by (simp add: ingestOptionsOf_def startup_sample_def config_sample_def ingest_options_sample_def given_def canonicalTag_def)

lemma submit_sample_eq:
  "submit_sample = (fst ingest_sample, poster_sample\<lparr>po_limiter := fst (snd ingest_sample), po_store := snd (snd ingest_sample)\<rparr>)"
proof -
  have "aggregateHealth 7 poster_sample = (\<lparr>hs_state = Ok, hs_reason = None, hs_since = None\<rparr>, poster_sample)"
    by (simp add: aggregateHealth_def poster_sample_def buildPoster_def healthState_def newLoop_def loopOptionsOf_def
        config_sample_def given_def DEFAULT_BACKOFF_def healthFromAttempts_def)
  moreover have "po_ingest poster_sample = ingest_options_sample" "po_limiter poster_sample = newLimiter" "po_store poster_sample = empty_store"
    by (simp_all add: poster_sample_def buildPoster_def ingest_options_of_sample)
  ultimately show ?thesis
    by (simp add: submit_sample_def poster_submit_def ingest_sample_def split: prod.split)
qed

lemma submit_sample_run:
  "fst submit_sample = Inr (Accepted (bytesToHex (zeros 32)))" "length (st_messages (po_store (snd submit_sample))) = 1"
  by (simp_all add: submit_sample_eq ingest_sample_run)

lemma submit_sample_pools: "is_ok (snapshotPools [bytesToHex (zeros 32)] (snd (snd ingest_sample)))"
  by code_simp

theorem accepted_message_is_polled_witness:
  "\<exists>pools s rows m. snapshotPools [bytesToHex (zeros 32)] (po_store (snd submit_sample)) = Inr (pools, s)
     \<and> pools (bytesToHex (zeros 32)) = Some rows \<and> m \<in> set rows \<and> dm_messageHash m = bytesToHex (zeros 32)"
proof -
  obtain p' where p': "submit_sample = (Inr (Accepted (bytesToHex (zeros 32))), p')"
    using submit_sample_run(1) by (metis prod.collapse)
  obtain pools s where snap: "snapshotPools [bytesToHex (zeros 32)] (po_store p') = Inr (pools, s)"
    using submit_sample_pools p' by (auto simp: is_ok_iff submit_sample_eq)
  have keeps: "poster_keeps poster_sample p'"
    using poster_submit_keeps p' unfolding submit_sample_def by blast
  then have tags: "ao_tags (lo_aggregator (po_loopOptions p')) = [bytesToHex (zeros 32)]"
    by (simp add: poster_keeps_def poster_sample_def buildPoster_def loopOptionsOf_def config_sample_def canonicalTag_def)
  have st: "po_store poster_sample = empty_store"
    by (simp add: poster_sample_def buildPoster_def)
  have "length (st_messages (po_store p')) = 1"
    using submit_sample_run(2) unfolding p' by simp
  then have "st_messages (po_store p') \<noteq> st_messages (po_store poster_sample)"
    by (auto simp: st empty_store_def)
  moreover have "store_inv (po_store poster_sample)"
    by (simp add: st store_inv_empty)
  ultimately obtain env :: envelope and rows m where m: "me_tag env \<in> {bytesToHex (zeros 32)}" "pools (me_tag env) = Some rows" "m \<in> set rows"
      "dm_messageHash m = bytesToHex (zeros 32)"
    using accepted_message_is_polled [OF construct_sample rtranclp.rtrancl_refl _ p' [unfolded submit_sample_def], of pools s] snap
    unfolding tags by auto
  have "snapshotPools [bytesToHex (zeros 32)] (po_store (snd submit_sample)) = Inr (pools, s)"
    unfolding p' snd_conv by (rule snap)
  moreover have "pools (bytesToHex (zeros 32)) = Some rows"
    using m(1,2) by (simp only: singleton_iff)
  ultimately show ?thesis
    using m(3,4) by blast
qed

theorem permanent_failure_closes_intake_witness:
  "\<exists>p1 p3. poster_tick (\<lambda>_. []) \<lparr>ti_readConflict = (\<lambda>_. False), ti_writeConflict = (\<lambda>_. False), ti_now = 1, ti_submit = (\<lambda>_. Retryable SubmissionFailed),
       ti_submittedAt = 1, ti_healthAt = 1\<rparr> (poster_sample\<lparr>po_loop := (newLoop (loopOptionsOf config_sample))\<lparr>lp_permanentlyStopped := True\<rparr>\<rparr>)
     = (Inr TickPermanent, p1) \<and> poster_submit (\<lambda>_. []) (\<lambda>_. Some ingest_body_sample) (\<lambda>_. False) 7 [] p1 = (Inr (Rejected PosterUnhealthy), p3)"
proof -
  let ?ti = "\<lparr>ti_readConflict = (\<lambda>_. False), ti_writeConflict = (\<lambda>_. False), ti_now = 1, ti_submit = (\<lambda>_. Retryable SubmissionFailed),
       ti_submittedAt = 1, ti_healthAt = 1\<rparr>"
  let ?p = "poster_sample\<lparr>po_loop := (newLoop (loopOptionsOf config_sample))\<lparr>lp_permanentlyStopped := True\<rparr>\<rparr>"
  have t: "poster_tick (\<lambda>_. []) ?ti ?p = (Inr TickPermanent, ?p)"
    by (simp add: poster_tick_def loopTick_def)
  have "\<exists>p3. poster_submit (\<lambda>_. []) (\<lambda>_. Some ingest_body_sample) (\<lambda>_. False) 7 [] ?p = (Inr (Rejected PosterUnhealthy), p3)"
    using permanent_failure_closes_intake [OF t rtranclp.rtrancl_refl, where conflict = "\<lambda>_. False" and now = 7 and raw = "[]"
        and parse = "\<lambda>_. Some ingest_body_sample"] by blast
  then show ?thesis
    using t by blast
qed

end
