(* ===== verification/ReaderLoop.thy ===== *)
theory ReaderLoop
  imports ProcessBatch
begin

text \<open>
  The Reader's loops over the chain: the cursor (packages/bam-reader/src/discovery/cursor.ts),
  the live tail and the backfill (src/loop) and the reorg watcher (src/reorg-watcher.ts). The
  L1 client, the network behind each event and the database's aborts are arguments, one answer
  per call; progress and log lines are not modelled.
\<close>

datatype reader_error =
    ReaderRpc string
  | ReaderScan scan_error
  | ReaderProcess process_error
  | ReaderStore store_error

type_synonym 's world = "'s \<times> store \<times> reader_counters"

section \<open>Cursor\<close>

definition commitBlock ::
  "(nat \<Rightarrow> bool) \<Rightarrow> nat \<Rightarrow> nat \<Rightarrow> nat \<Rightarrow> nat \<Rightarrow> (store \<Rightarrow> store_error + store) \<Rightarrow> store \<Rightarrow> (store_error + unit) \<times> store" where
  "commitBlock conflict chainId blockNumber lastTxIndex now writes st =
     withTxn conflict (\<lambda>st. ebind (writes st) (\<lambda>st'.
       Inr ((), setCursor \<lparr>rc_chainId = chainId, rc_lastBlockNumber = blockNumber, rc_lastTxIndex = lastTxIndex,
                           rc_updatedAt = now\<rparr> st'))) st"

definition readCursor :: "(nat \<Rightarrow> bool) \<Rightarrow> nat \<Rightarrow> store \<Rightarrow> (store_error + reader_cursor option) \<times> store" where
  "readCursor conflict chainId st = withTxn conflict (\<lambda>st. Inr (getCursor chainId st, st)) st"

section \<open>One block\<close>

text \<open>
  What the loops are given: le_env b i is what the i-th event of block b meets (network,
  decoder, registry), le_conflict b i and le_recounted b i its transaction's aborted attempts,
  le_commitConflict b those of the cursor's.
\<close>

record 's loop_env =
  le_chainId :: nat
  le_sources :: "'s blob_sources"
  le_getLogs :: get_logs
  le_header :: "nat \<Rightarrow> string + (string option \<times> nat)"
  le_env :: "nat \<Rightarrow> nat \<Rightarrow> process_env"
  le_conflict :: "nat \<Rightarrow> nat \<Rightarrow> nat \<Rightarrow> bool"
  le_recounted :: "nat \<Rightarrow> nat \<Rightarrow> nat"
  le_commitConflict :: "nat \<Rightarrow> nat \<Rightarrow> bool"
  le_now :: nat

definition groupByBlock :: "batch_event list \<Rightarrow> (nat \<times> batch_event list) list" where
  "groupByBlock events =
     map (\<lambda>b. (b, filter (\<lambda>e. ev_blockNumber e = b) events)) (rev (remdups (rev (map ev_blockNumber events))))"

definition sortedBlocks :: "batch_event list \<Rightarrow> (nat \<times> batch_event list) list" where
  "sortedBlocks events = map (\<lambda>(b, es). (b, sort_key ev_logIndex es)) (sort_key fst (groupByBlock events))"

primrec processEvents ::
  "'s loop_env \<Rightarrow> string option \<Rightarrow> nat \<Rightarrow> nat \<Rightarrow> batch_event list \<Rightarrow> nat \<Rightarrow> 's world
     \<Rightarrow> (process_error + process_result list) \<times> 's world" where
  "processEvents le root ts b [] i w = (Inr [], w)"
| "processEvents le root ts b (ev # evs) i w =
     (case w of (arch, st, c) \<Rightarrow>
      (case processBatch ((le_env le b i)\<lparr>pe_chainId := le_chainId le\<rparr>) (le_sources le) ev root (Some ts)
              (le_conflict le b i) (le_recounted le b i) arch st c of
         (Inl e, w1) \<Rightarrow> (Inl e, w1)
       | (Inr res, w1) \<Rightarrow>
           (case processEvents le root ts b evs (Suc i) w1 of
              (Inl e, w2) \<Rightarrow> (Inl e, w2)
            | (Inr ress, w2) \<Rightarrow> (Inr (res # ress), w2))))"

definition maxTxIndex :: "process_result list \<Rightarrow> nat" where
  "maxTxIndex ress = foldl (\<lambda>m r. if ps_txIndex r > m then ps_txIndex r else m) 0 ress"

section \<open>Reorg watcher\<close>

definition clampReaderWindow :: "int option \<Rightarrow> int" where
  "clampReaderWindow n = (case n of None \<Rightarrow> 32 | Some k \<Rightarrow> min (max k 4) 128)"

record reader_watch =
  rw_head :: "string + nat"
  rw_txBlock :: "nat \<Rightarrow> string \<Rightarrow> string + nat option"
  rw_readConflict :: "nat \<Rightarrow> bool"
  rw_conflict :: "nat \<Rightarrow> nat \<Rightarrow> bool"
  rw_now :: nat

definition readerCandidates :: "nat \<Rightarrow> int option \<Rightarrow> nat \<Rightarrow> batch_row list qry" where
  "readerCandidates chainId window head st =
     ebind (listBatches \<lparr>bq_contentTag = None, bq_chainId = Some chainId, bq_status = None,
        bq_sinceBlock = Some (nat (int head - clampReaderWindow window)), bq_sinceIncludedAt = None, bq_limit = None\<rparr> st) (\<lambda>recent.
       Inr (filter (\<lambda>b. br_status b = BatchConfirmed \<and> br_blockNumber b \<noteq> None) recent))"

primrec readerWatchLoop ::
  "nat \<Rightarrow> reader_watch \<Rightarrow> batch_row list \<Rightarrow> nat \<Rightarrow> nat \<times> nat \<Rightarrow> store \<Rightarrow> (reader_error + (nat \<times> nat)) \<times> store" where
  "readerWatchLoop chainId rw [] i counts st = (Inr counts, st)"
| "readerWatchLoop chainId rw (b # bs) i counts st =
     (case rw_txBlock rw i (br_txHash b) of
        Inl m \<Rightarrow> (Inl (ReaderRpc m), st)
      | Inr (Some _) \<Rightarrow> readerWatchLoop chainId rw bs (Suc i) (fst counts, snd counts + 1) st
      | Inr None \<Rightarrow>
          (case withTxn (rw_conflict rw i) (markReorged chainId (br_txHash b) (rw_now rw)) st of
             (Inl e, st1) \<Rightarrow> (Inl (ReaderStore e), st1)
           | (Inr _, st1) \<Rightarrow> readerWatchLoop chainId rw bs (Suc i) (fst counts + 1, snd counts) st1))"

definition readerWatchTick :: "nat \<Rightarrow> int option \<Rightarrow> reader_watch \<Rightarrow> store \<Rightarrow> (reader_error + (nat \<times> nat)) \<times> store" where
  "readerWatchTick chainId window rw st =
     (case rw_head rw of
        Inl m \<Rightarrow> (Inl (ReaderRpc m), st)
      | Inr head \<Rightarrow>
          (case withTxn (rw_readConflict rw) (\<lambda>st. ebind (readerCandidates chainId window head st) (\<lambda>c. Inr (c, st))) st of
             (Inl e, st1) \<Rightarrow> (Inl (ReaderStore e), st1)
           | (Inr candidates, st1) \<Rightarrow> readerWatchLoop chainId rw candidates 0 (0, 0) st1))"

section \<open>Live tail\<close>

record tail_options =
  to_reorgWindow :: nat
  to_startBlock :: nat
  to_chunk :: nat

record tick_result =
  tr_fromBlock :: nat
  tr_toBlock :: int
  tr_scanned :: nat
  tr_processed :: nat
  tr_reorged :: nat
  tr_kept :: nat

text \<open>The loop over blocks: how many events were processed, the last block committed, and whether it was parked.\<close>

primrec tailBlocks ::
  "'s loop_env \<Rightarrow> (nat \<times> batch_event list) list \<Rightarrow> nat \<Rightarrow> nat option \<Rightarrow> 's world
     \<Rightarrow> (reader_error + (nat \<times> nat option \<times> bool)) \<times> 's world" where
  "tailBlocks le [] processed lastCommitted w = (Inr (processed, lastCommitted, False), w)"
| "tailBlocks le (g # gs) processed lastCommitted w =
     (case le_header le (fst g) of
        Inl m \<Rightarrow> (Inl (ReaderRpc m), w)
      | Inr (root, ts) \<Rightarrow>
          (case processEvents le root ts (fst g) (snd g) 0 w of
             (Inl e, w1) \<Rightarrow> (Inl (ReaderProcess e), w1)
           | (Inr ress, (arch1, st1, c1)) \<Rightarrow>
               if list_ex (\<lambda>r. ps_outcome r = Unreachable) ress
               then (Inr (processed, lastCommitted, True), (arch1, st1, snd (snd w)))
               else (case commitBlock (le_commitConflict le (fst g)) (le_chainId le) (fst g) (maxTxIndex ress) (le_now le) Inr st1 of
                       (Inl e, st2) \<Rightarrow> (Inl (ReaderStore e), (arch1, st2, c1))
                     | (Inr _, st2) \<Rightarrow> tailBlocks le gs (processed + length ress) (Some (fst g)) (arch1, st2, c1))))"

text \<open>The catch-up advance to the upper bound, when no block was parked.\<close>

definition catchUp :: "'s loop_env \<Rightarrow> nat \<Rightarrow> nat option \<Rightarrow> bool \<Rightarrow> store \<Rightarrow> (reader_error + unit) \<times> store" where
  "catchUp le toBlock lastCommitted parked st =
     (if \<not> parked \<and> (case lastCommitted of None \<Rightarrow> True | Some b \<Rightarrow> b < toBlock)
      then (case commitBlock (le_commitConflict le toBlock) (le_chainId le) toBlock 0 (le_now le) Inr st of
              (Inl e, st1) \<Rightarrow> (Inl (ReaderStore e), st1)
            | (Inr _, st1) \<Rightarrow> (Inr (), st1))
      else (Inr (), st))"

definition tailRange ::
  "'s loop_env \<Rightarrow> tail_options \<Rightarrow> reader_watch \<Rightarrow> nat \<Rightarrow> nat \<Rightarrow> 's world \<Rightarrow> (reader_error + tick_result) \<times> 's world" where
  "tailRange le opts rw fromBlock toBlock w =
     (case scanLogs (le_getLogs le) fromBlock toBlock (Some (to_chunk opts)) of
        Inl e \<Rightarrow> (Inl (ReaderScan e), w)
      | Inr events \<Rightarrow>
          (case tailBlocks le (sortedBlocks events) 0 None w of
             (Inl e, w1) \<Rightarrow> (Inl e, w1)
           | (Inr (processed, lastCommitted, parked), (arch1, st1, c1)) \<Rightarrow>
               (case catchUp le toBlock lastCommitted parked st1 of
                  (Inl e, st2) \<Rightarrow> (Inl e, (arch1, st2, c1))
                | (Inr _, st2) \<Rightarrow>
                    (case readerWatchTick (le_chainId le) (Some (int (to_reorgWindow opts))) rw st2 of
                       (Inl e, st3) \<Rightarrow> (Inl e, (arch1, st3, c1))
                     | (Inr (reorged, kept), st3) \<Rightarrow>
                         (Inr \<lparr>tr_fromBlock = fromBlock, tr_toBlock = int toBlock, tr_scanned = length events,
                               tr_processed = processed, tr_reorged = reorged, tr_kept = kept\<rparr>, (arch1, st3, c1))))))"

definition liveTailTick ::
  "'s loop_env \<Rightarrow> tail_options \<Rightarrow> string + nat \<Rightarrow> (nat \<Rightarrow> bool) \<Rightarrow> reader_watch \<Rightarrow> 's world
     \<Rightarrow> (reader_error + tick_result) \<times> 's world" where
  "liveTailTick le opts head readConflict rw w =
     (case head of
        Inl m \<Rightarrow> (Inl (ReaderRpc m), w)
      | Inr h \<Rightarrow>
          (case w of (arch, st, c) \<Rightarrow>
           (case readCursor readConflict (le_chainId le) st of
              (Inl e, st1) \<Rightarrow> (Inl (ReaderStore e), (arch, st1, c))
            | (Inr cursor, st1) \<Rightarrow>
                let safeHead = int h - int (to_reorgWindow opts);
                    fromBlock = (case cursor of None \<Rightarrow> to_startBlock opts | Some cu \<Rightarrow> rc_lastBlockNumber cu + 1)
                in if int fromBlock > safeHead
                   then (Inr \<lparr>tr_fromBlock = fromBlock, tr_toBlock = safeHead, tr_scanned = 0, tr_processed = 0,
                              tr_reorged = 0, tr_kept = 0\<rparr>, (arch, st1, c))
                   else tailRange le opts rw fromBlock (nat safeHead) (arch, st1, c))))"

section \<open>Backfill\<close>

definition DEFAULT_RETENTION_THRESHOLD_BLOCKS :: nat where "DEFAULT_RETENTION_THRESHOLD_BLOCKS = 18 * 7200"

record backfill_counters =
  bf_scanned :: nat
  bf_processed :: nat
  bf_permanent :: nat
  bf_transient :: nat

definition classifyResults :: "nat \<Rightarrow> nat \<Rightarrow> batch_event list \<Rightarrow> process_result list \<Rightarrow> backfill_counters \<Rightarrow> backfill_counters" where
  "classifyResults head retention evs ress bc =
     (let lost = filter (\<lambda>(ev, r). ps_outcome r = Unreachable) (zip evs ress);
          old = filter (\<lambda>(ev, r). int head - int (ev_blockNumber ev) > int retention) lost
      in bc\<lparr>bf_processed := bf_processed bc + length ress, bf_permanent := bf_permanent bc + length old,
            bf_transient := bf_transient bc + (length lost - length old)\<rparr>)"

primrec backfillBlocks ::
  "'s loop_env \<Rightarrow> nat \<Rightarrow> nat \<Rightarrow> (nat \<times> batch_event list) list \<Rightarrow> backfill_counters \<Rightarrow> 's world
     \<Rightarrow> (reader_error + backfill_counters) \<times> 's world" where
  "backfillBlocks le head retention [] bc w = (Inr bc, w)"
| "backfillBlocks le head retention (g # gs) bc w =
     (case le_header le (fst g) of
        Inl m \<Rightarrow> (Inl (ReaderRpc m), w)
      | Inr (root, ts) \<Rightarrow>
          (case processEvents le root ts (fst g) (snd g) 0 w of
             (Inl e, w1) \<Rightarrow> (Inl (ReaderProcess e), w1)
           | (Inr ress, (arch1, st1, c1)) \<Rightarrow>
               (case commitBlock (le_commitConflict le (fst g)) (le_chainId le) (fst g) (maxTxIndex ress) (le_now le) Inr st1 of
                  (Inl e, st2) \<Rightarrow> (Inl (ReaderStore e), (arch1, st2, c1))
                | (Inr _, st2) \<Rightarrow>
                    backfillBlocks le head retention gs (classifyResults head retention (snd g) ress bc) (arch1, st2, c1))))"

definition commitChunk :: "'s loop_env \<Rightarrow> batch_event list \<Rightarrow> nat \<Rightarrow> store \<Rightarrow> (reader_error + unit) \<times> store" where
  "commitChunk le events chunkTo st =
     (if events = [] \<or> Max (set (map ev_blockNumber events)) < chunkTo
      then (case commitBlock (le_commitConflict le chunkTo) (le_chainId le) chunkTo 0 (le_now le) Inr st of
              (Inl e, st1) \<Rightarrow> (Inl (ReaderStore e), st1)
            | (Inr _, st1) \<Rightarrow> (Inr (), st1))
      else (Inr (), st))"

definition backfillChunk ::
  "'s loop_env \<Rightarrow> nat \<Rightarrow> nat \<Rightarrow> nat \<Rightarrow> nat \<Rightarrow> backfill_counters \<Rightarrow> 's world \<Rightarrow> (reader_error + backfill_counters) \<times> 's world" where
  "backfillChunk le head retention chunkFrom chunkTo bc w =
     (case scanLogs (le_getLogs le) chunkFrom chunkTo None of
        Inl e \<Rightarrow> (Inl (ReaderScan e), w)
      | Inr events \<Rightarrow>
          (case backfillBlocks le head retention (sortedBlocks events) (bc\<lparr>bf_scanned := bf_scanned bc + length events\<rparr>) w of
             (Inl e, w1) \<Rightarrow> (Inl e, w1)
           | (Inr bc1, (arch1, st1, c1)) \<Rightarrow>
               (case commitChunk le events chunkTo st1 of
                  (Inl e, st2) \<Rightarrow> (Inl e, (arch1, st2, c1))
                | (Inr _, st2) \<Rightarrow> (Inr bc1, (arch1, st2, c1)))))"

function backfillChunks ::
  "'s loop_env \<Rightarrow> nat \<Rightarrow> nat \<Rightarrow> nat \<Rightarrow> nat \<Rightarrow> nat \<Rightarrow> backfill_counters \<Rightarrow> 's world
     \<Rightarrow> (reader_error + backfill_counters) \<times> 's world" where
  "backfillChunks le head retention chunkSize chunkFrom toBlock bc w =
     (if chunkFrom > toBlock \<or> chunkSize = 0 then (Inr bc, w)
      else case backfillChunk le head retention chunkFrom (min (chunkFrom + chunkSize - 1) toBlock) bc w of
        (Inl e, w1) \<Rightarrow> (Inl e, w1)
      | (Inr bc1, w1) \<Rightarrow> backfillChunks le head retention chunkSize (chunkFrom + chunkSize) toBlock bc1 w1)"
  by pat_completeness auto

termination backfillChunks
  by (relation "measure (\<lambda>(_, _, _, _, f, t, _, _). t + 1 - f)") auto

declare backfillChunks.simps [simp del]

definition no_backfill :: backfill_counters where
  "no_backfill = \<lparr>bf_scanned = 0, bf_processed = 0, bf_permanent = 0, bf_transient = 0\<rparr>"

definition backfill ::
  "'s loop_env \<Rightarrow> nat option \<Rightarrow> nat \<Rightarrow> string + nat \<Rightarrow> nat \<Rightarrow> nat \<Rightarrow> 's world \<Rightarrow> (reader_error + backfill_counters) \<times> 's world" where
  "backfill le retentionThreshold chunkSize head fromBlock toBlock w =
     (if fromBlock > toBlock then (Inr no_backfill, w)
      else case head of
        Inl m \<Rightarrow> (Inl (ReaderRpc m), w)
      | Inr h \<Rightarrow>
          let retention = (case retentionThreshold of None \<Rightarrow> DEFAULT_RETENTION_THRESHOLD_BLOCKS | Some t \<Rightarrow> t);
              effectiveToBlock = min toBlock h
          in if fromBlock > effectiveToBlock then (Inr no_backfill, w)
             else backfillChunks le h retention (max 1 chunkSize) fromBlock effectiveToBlock no_backfill w)"


section \<open>The loops act through store steps\<close>

lemma commitBlock_Inr:
  "commitBlock conflict chainId b tx now Inr st = (Inr u, st') \<Longrightarrow>
     st' = setCursor \<lparr>rc_chainId = chainId, rc_lastBlockNumber = b, rc_lastTxIndex = tx, rc_updatedAt = now\<rparr> st"
  unfolding commitBlock_def by (drule withTxn_Inr) simp

lemma commitBlock_steps: "commitBlock conflict chainId b tx now Inr st = (r, st') \<Longrightarrow> steps st st'"
  unfolding commitBlock_def by (erule withTxn_steps) (auto intro: store_step.cursor)

lemma readCursor_same: "readCursor conflict chainId st = (r, st') \<Longrightarrow> st' = st"
  unfolding readCursor_def by (erule withTxn_same) simp

lemma readCursor_Inr: "readCursor conflict chainId st = (Inr cursor, st') \<Longrightarrow> cursor = getCursor chainId st"
  unfolding readCursor_def by (drule withTxn_Inr) auto

text \<open>The cases of one event in the loop over a block.\<close>

lemma processEvents_Cons:
  assumes "processEvents le root ts b (ev # evs) i (arch, st, c) = (r, arch', st', c')"
  obtains (failed) e where "r = Inl e"
      "processBatch ((le_env le b i)\<lparr>pe_chainId := le_chainId le\<rparr>) (le_sources le) ev root (Some ts)
         (le_conflict le b i) (le_recounted le b i) arch st c = (Inl e, arch', st', c')"
  | (next_event) res arch1 st1 c1 r1 where
      "processBatch ((le_env le b i)\<lparr>pe_chainId := le_chainId le\<rparr>) (le_sources le) ev root (Some ts)
         (le_conflict le b i) (le_recounted le b i) arch st c = (Inr res, arch1, st1, c1)"
      "processEvents le root ts b evs (Suc i) (arch1, st1, c1) = (r1, arch', st', c')"
      "r = (case r1 of Inl e \<Rightarrow> Inl e | Inr ress \<Rightarrow> Inr (res # ress))"
proof -
  obtain r0 arch1 st1 c1 where p: "processBatch ((le_env le b i)\<lparr>pe_chainId := le_chainId le\<rparr>) (le_sources le) ev root (Some ts)
         (le_conflict le b i) (le_recounted le b i) arch st c = (r0, arch1, st1, c1)"
    by (metis prod_cases4)
  show thesis
  proof (cases r0)
    case (Inl e)
    then show thesis
      using assms p by (intro failed [of e]) simp_all
  next
    case (Inr res)
    obtain r1 arch2 st2 c2 where q: "processEvents le root ts b evs (Suc i) (arch1, st1, c1) = (r1, arch2, st2, c2)"
      by (metis prod_cases4)
    show thesis
    proof (cases r1)
      case r1: (Inl e)
      then have "r = Inl e" "arch2 = arch'" "st2 = st'" "c2 = c'"
        using assms p q Inr by simp_all
      then show thesis
        using p q Inr r1 by (intro next_event [of res arch1 st1 c1 r1]) simp_all
    next
      case r1: (Inr ress)
      then have "r = Inr (res # ress)" "arch2 = arch'" "st2 = st'" "c2 = c'"
        using assms p q Inr by simp_all
      then show thesis
        using p q Inr r1 by (intro next_event [of res arch1 st1 c1 r1]) simp_all
    qed
  qed
qed

lemma processEvents_steps: "processEvents le root ts b evs i (arch, st, c) = (r, arch', st', c') \<Longrightarrow> steps st st'"
proof (induction evs arbitrary: i arch st c r)
  case (Cons ev evs)
  from Cons.prems show ?case
  proof (cases rule: processEvents_Cons)
    case (failed e)
    then show ?thesis using processBatch_steps [OF failed(2)] by simp
  next
    case (next_event res arch1 st1 c1 r1)
    then show ?thesis
      using processBatch_steps [OF next_event(1)] Cons.IH [OF next_event(2)] by simp
  qed
qed simp

text \<open>One block of the live tail.\<close>

lemma tailBlocks_Cons:
  assumes "tailBlocks le (g # gs) p lastC (arch, st, c) = (r, arch', st', c')"
  obtains (rpc) m where "r = Inl (ReaderRpc m)" "(arch', st', c') = (arch, st, c)"
  | (thrown) e root ts where "processEvents le root ts (fst g) (snd g) 0 (arch, st, c) = (Inl e, arch', st', c')" "r = Inl (ReaderProcess e)"
  | (parked) ress root ts c1 where "processEvents le root ts (fst g) (snd g) 0 (arch, st, c) = (Inr ress, arch', st', c1)"
      "list_ex (\<lambda>r. ps_outcome r = Unreachable) ress" "r = Inr (p, lastC, True)" "c' = c"
  | (uncommitted) ress root ts st1 e where "processEvents le root ts (fst g) (snd g) 0 (arch, st, c) = (Inr ress, arch', st1, c')"
      "commitBlock (le_commitConflict le (fst g)) (le_chainId le) (fst g) (maxTxIndex ress) (le_now le) Inr st1 = (Inl e, st')"
      "r = Inl (ReaderStore e)"
  | (committed) ress root ts arch1 st1 c1 st2 where "processEvents le root ts (fst g) (snd g) 0 (arch, st, c) = (Inr ress, arch1, st1, c1)"
      "\<not> list_ex (\<lambda>r. ps_outcome r = Unreachable) ress"
      "commitBlock (le_commitConflict le (fst g)) (le_chainId le) (fst g) (maxTxIndex ress) (le_now le) Inr st1 = (Inr (), st2)"
      "tailBlocks le gs (p + length ress) (Some (fst g)) (arch1, st2, c1) = (r, arch', st', c')"
proof (cases "le_header le (fst g)")
  case (Inl m)
  then show thesis
    using assms by (intro rpc [of m]) simp_all
next
  case (Inr ht)
  then obtain root ts where ht: "le_header le (fst g) = Inr (root, ts)"
    by (cases ht) auto
  obtain r0 arch1 st1 c1 where p: "processEvents le root ts (fst g) (snd g) 0 (arch, st, c) = (r0, arch1, st1, c1)"
    by (metis prod_cases4)
  show thesis
  proof (cases r0)
    case (Inl e)
    then show thesis
      using assms p ht by (intro thrown) auto
  next
    case ok: (Inr ress)
    show thesis
    proof (cases "list_ex (\<lambda>r. ps_outcome r = Unreachable) ress")
      case True
      then show thesis
        using assms p ht ok by (intro parked) auto
    next
      case False
      obtain k st2 where k: "commitBlock (le_commitConflict le (fst g)) (le_chainId le) (fst g) (maxTxIndex ress) (le_now le) Inr st1 = (k, st2)"
        by fastforce
      then show thesis
        using assms p ht ok False uncommitted committed by (cases k) simp_all
    qed
  qed
qed

lemma tailBlocks_steps: "tailBlocks le gs p lastC (arch, st, c) = (r, arch', st', c') \<Longrightarrow> steps st st'"
proof (induction gs arbitrary: p lastC arch st c)
  case (Cons g gs)
  from Cons.prems show ?case
  proof (cases rule: tailBlocks_Cons)
    case (uncommitted ress root ts st1 e)
    then show ?thesis
      using processEvents_steps [OF uncommitted(1)] commitBlock_steps [OF uncommitted(2)] by simp
  next
    case (committed ress root ts arch1 st1 c1 st2)
    then show ?thesis
      using processEvents_steps [OF committed(1)] commitBlock_steps [OF committed(3)] Cons.IH [OF committed(4)] by simp
  qed (use processEvents_steps in auto)
qed simp

lemma catchUp_steps: "catchUp le toBlock lastC parked st = (r, st') \<Longrightarrow> steps st st'"
  using commitBlock_steps by (auto simp: catchUp_def split: if_split_asm prod.split_asm sum.split_asm)

lemma readerWatchLoop_steps: "readerWatchLoop chainId rw bs i counts st = (r, st') \<Longrightarrow> steps st st'"
proof (induction bs arbitrary: i counts st)
  case (Cons b bs)
  show ?case
  proof (cases "rw_txBlock rw i (br_txHash b) = Inr None")
    case True
    obtain w st1 where w: "withTxn (rw_conflict rw i) (markReorged chainId (br_txHash b) (rw_now rw)) st = (w, st1)"
      by fastforce
    then have "steps st st1"
      by (rule withTxn_steps) (auto intro: store_step.reorg)
    then show ?thesis
      using Cons True w by (cases w) (auto intro: rtranclp_trans)
  next
    case False
    then show ?thesis
      using Cons by (auto split: sum.split_asm option.split_asm)
  qed
qed simp

lemma readerWatchTick_steps: "readerWatchTick chainId window rw st = (r, st') \<Longrightarrow> steps st st'"
proof (cases "rw_head rw")
  case (Inr head)
  assume tick: "readerWatchTick chainId window rw st = (r, st')"
  obtain w st1 where w: "withTxn (rw_readConflict rw) (\<lambda>st. ebind (readerCandidates chainId window head st) (\<lambda>c. Inr (c, st))) st = (w, st1)"
    by fastforce
  then have "st1 = st"
    by (rule withTxn_same) auto
  then show ?thesis
    using tick w Inr readerWatchLoop_steps by (cases w) (auto simp: readerWatchTick_def)
qed (simp add: readerWatchTick_def)


section \<open>What a processed event leaves\<close>

lemma upsertBatch_cursor: "upsertBatch row st = Inr (u, st') \<Longrightarrow> st_cursor st' = st_cursor st"
  by (auto simp: upsertBatch_def Let_def split: if_splits)

lemma upsertObserved_cursor:
  assumes "upsertObserved row st = Inr (u, st')"
  shows "st_cursor st' = st_cursor st"
proof -
  obtain nonce where n: "encNonce (mr_nonce row) = Inr nonce"
    using assms by (cases "encNonce (mr_nonce row)") (simp_all add: upsertObserved_def Let_def)
  show ?thesis
    by (cases "msgs_at (toLowerCase (mr_sender row)) nonce st")
      (use assms n in \<open>auto simp: upsertObserved_def Let_def split: if_split_asm\<close>)
qed

lemma observeAll_cursor: "observeAll env ev vs counts st = Inr (counts', st') \<Longrightarrow> st_cursor st' = st_cursor st"
proof (induction vs arbitrary: counts st)
  case (Cons v vs)
  from Cons.prems show ?case
  proof (cases rule: observe_first)
    case (conflict mid)
    then show ?thesis using Cons.IH by blast
  next
    case (written mid st1)
    then show ?thesis using Cons.IH [OF written(4)] upsertObserved_cursor [OF written(2)] by simp
  qed
qed simp

lemma writeBatch_cursor:
  assumes "writeBatch env ev l1 snapshot vs st = Inr (counts, st')"
  shows "st_cursor st' = st_cursor st"
proof (rule writeBatch_parts [OF assms])
  fix st1
  assume "upsertBatch ((baseBatch env ev l1)\<lparr>br_messageSnapshot := snapshot\<rparr>) st = Inr ((), st1)"
    "observeAll env ev vs (0, 0) st1 = Inr (counts, st')"
  then show ?thesis
    using observeAll_cursor upsertBatch_cursor by metis
qed

lemma writeEmptyBatch_Inr:
  "writeEmptyBatch env ev l1 conflict outcome st = (Inr res, st') \<Longrightarrow>
     upsertBatch (baseBatch env ev l1) st = Inr ((), st') \<and> res = process_result_of ev outcome 0"
  by (auto simp: writeEmptyBatch_def split: prod.split_asm sum.split_asm dest: withTxn_Inr)

lemma processBatch_cursor:
  assumes "processBatch env sources ev root l1 conflict recounted arch st c = (Inr res, arch', st', c')"
  shows "st_cursor st' = st_cursor st"
  using assms
proof (cases rule: processBatch_cases)
  case (empty outcome)
  then show ?thesis
    using writeEmptyBatch_Inr upsertBatch_cursor by blast
next
  case (decoded blob usable ms ss events)
  show ?thesis
    by (rule recordDecoded_Inr [OF decoded(4)]) (rule writeBatch_cursor)
qed simp

text \<open>An event is recorded: it has a batch row, unless its range is malformed.\<close>

definition recorded :: "nat \<Rightarrow> batch_event \<Rightarrow> store \<Rightarrow> bool" where
  "recorded chainId ev st \<longleftrightarrow> (validateSegmentRange (ev_startFE ev) (ev_endFE ev) = Inr ()
     \<longrightarrow> (chainId, ev_txHash ev, ev_contentTag ev) \<in> batch_key ` set (st_batches st))"

lemma recorded_steps:
  assumes "steps st st'" "recorded chainId ev st"
  shows "recorded chainId ev st'"
  unfolding recorded_def
proof
  assume "validateSegmentRange (ev_startFE ev) (ev_endFE ev) = Inr ()"
  then have "(chainId, ev_txHash ev, ev_contentTag ev) \<in> batch_key ` set (st_batches st)"
    using assms(2) by (simp only: recorded_def)
  then obtain b where b: "b \<in> set (st_batches st)" "(chainId, ev_txHash ev, ev_contentTag ev) = batch_key b"
    by (elim imageE)
  obtain b' where b': "b' \<in> set (st_batches st')" "batch_keeps b b'"
    using steps_batches [OF assms(1) b(1)] by (elim bexE)
  then have "batch_key b' = batch_key b"
    by (simp only: batch_keeps_def)
  then show "(chainId, ev_txHash ev, ev_contentTag ev) \<in> batch_key ` set (st_batches st')"
    using b'(1) b(2) by (intro image_eqI [of _ _ b']) simp_all
qed

lemma processBatch_records:
  assumes "processBatch env sources ev root l1 conflict recounted arch st c = (Inr res, arch', st', c')"
  shows "recorded (pe_chainId env) ev st'"
  unfolding recorded_def
proof
  assume ok: "validateSegmentRange (ev_startFE ev) (ev_endFE ev) = Inr ()"
  have row: "br_chainId (baseBatch env ev l1) = pe_chainId env" "br_txHash (baseBatch env ev l1) = ev_txHash ev"
    "br_contentTag (baseBatch env ev l1) = ev_contentTag ev"
    by (simp_all add: baseBatch_def)
  from assms show "(pe_chainId env, ev_txHash ev, ev_contentTag ev) \<in> batch_key ` set (st_batches st')"
  proof (cases rule: processBatch_cases)
    case unwritten
    have "ps_outcome res = RangeRejected"
      using unwritten(2) [of res] by (simp add: process_result_of_def)
    then show ?thesis
      using processBatch_outcome [OF assms] ok by blast
  next
    case (empty outcome)
    then have "upsertBatch (baseBatch env ev l1) st = Inr ((), st')"
      using writeEmptyBatch_Inr by blast
    from upsertBatch_key [OF this] show ?thesis
      by (simp only: row)
  next
    case (decoded blob usable ms ss events)
    obtain vs c1 snapshot written conflicts where w: "writeBatch env ev l1 snapshot vs st = Inr ((written, conflicts), st')"
      using recordDecoded_Inr [OF decoded(4)] .
    obtain st1 where b: "upsertBatch ((baseBatch env ev l1)\<lparr>br_messageSnapshot := snapshot\<rparr>) st = Inr ((), st1)"
      and o: "observeAll env ev vs (0, 0) st1 = Inr ((written, conflicts), st')"
      using writeBatch_parts [OF w] .
    have "recorded (pe_chainId env) ev st1"
      using upsertBatch_key [OF b] row by (simp add: recorded_def)
    then show ?thesis
      using recorded_steps [OF observeAll_steps [OF o]] ok by (simp add: recorded_def)
  qed
qed

lemma processEvents_facts:
  assumes "processEvents le root ts b evs i (arch, st, c) = (Inr ress, arch', st', c')"
  shows "st_cursor st' = st_cursor st \<and> length ress = length evs
    \<and> (\<forall>ev \<in> set evs. recorded (le_chainId le) ev st')
    \<and> (\<not> list_ex (\<lambda>r. ps_outcome r = Unreachable) ress \<longrightarrow> ct_undecodable c' = ct_undecodable c)"
  using assms
proof (induction evs arbitrary: i arch st c ress)
  case (Cons ev evs)
  from Cons.prems show ?case
  proof (cases rule: processEvents_Cons)
    case (next_event res arch1 st1 c1 r1)
    then obtain ress1 where r1: "r1 = Inr ress1" "ress = res # ress1"
      by (cases r1) simp_all
    note ih = Cons.IH [OF next_event(2) [unfolded r1(1)]]
    have "recorded (le_chainId le) ev st1"
      using processBatch_records [OF next_event(1)] by simp
    then have "recorded (le_chainId le) ev st'"
      using recorded_steps processEvents_steps [OF next_event(2)] by blast
    moreover have "ct_undecodable c1 = ct_undecodable c" if "ps_outcome res \<noteq> Unreachable"
      using processBatch_counts [OF next_event(1)] that by (auto split: batch_outcome.split_asm)
    ultimately show ?thesis
      using ih processBatch_cursor [OF next_event(1)] r1(2) by auto
  qed simp
qed simp

section \<open>The live tail never passes a batch it did not get\<close>

lemma tailBlocks_facts:
  assumes "tailBlocks le gs p lastC (arch, st, c) = (Inr (p', last', parked), arch', st', c')"
  shows "ct_undecodable c' = ct_undecodable c
    \<and> (\<exists>passed rest. gs = passed @ rest \<and> (parked \<longleftrightarrow> rest \<noteq> [])
        \<and> last' = (if passed = [] then lastC else Some (fst (last passed)))
        \<and> map_option rc_lastBlockNumber (getCursor (le_chainId le) st')
            = (if passed = [] then map_option rc_lastBlockNumber (getCursor (le_chainId le) st) else Some (fst (last passed)))
        \<and> (\<forall>g \<in> set passed. \<forall>ev \<in> set (snd g). recorded (le_chainId le) ev st'))"
  using assms
proof (induction gs arbitrary: p lastC arch st c)
  case Nil
  then show ?case by auto
next
  case (Cons g gs)
  from Cons.prems show ?case
  proof (cases rule: tailBlocks_Cons)
    case (parked ress root ts c1)
    then show ?thesis
      using processEvents_facts [OF parked(1)] by (auto simp: getCursor_def intro!: exI [of _ "[]"])
  next
    case (committed ress root ts arch1 st1 c1 st2)
    note ev = processEvents_facts [OF committed(1)]
    note st2 = commitBlock_Inr [OF committed(3)]
    have cur: "map_option rc_lastBlockNumber (getCursor (le_chainId le) st2) = Some (fst g)"
      by (simp add: st2 getCursor_def setCursor_def)
    note all = Cons.IH [OF committed(4), unfolded cur]
    then have und: "ct_undecodable c' = ct_undecodable c1"
      by (rule conjunct1)
    obtain passed rest where ih: "gs = passed @ rest" "parked \<longleftrightarrow> rest \<noteq> []"
        "last' = (if passed = [] then Some (fst g) else Some (fst (last passed)))"
        "map_option rc_lastBlockNumber (getCursor (le_chainId le) st')
            = (if passed = [] then Some (fst g) else Some (fst (last passed)))"
        "\<forall>g \<in> set passed. \<forall>ev \<in> set (snd g). recorded (le_chainId le) ev st'"
      using all [THEN conjunct2] by blast
    have "recorded (le_chainId le) e st'" if "e \<in> set (snd g)" for e
    proof -
      have "steps st1 st'"
        using commitBlock_steps [OF committed(3)] tailBlocks_steps [OF committed(4)] by simp
      then show ?thesis
        using recorded_steps ev that by blast
    qed
    then show ?thesis
      using ih und ev committed(2) by (intro conjI exI [of _ "g # passed"] exI [of _ rest]) auto
  qed simp_all
qed


section \<open>Blocks of a scan\<close>

lemma join_logs_block: "e \<in> set (join_logs logs) \<Longrightarrow> \<exists>l \<in> set logs. ev_blockNumber e = sl_blockNumber l"
  by (auto simp: join_logs_def Let_def in_set_enumerate_eq) (metis filter_is_subset nth_mem subsetD)

lemma scan_within:
  assumes "serves getLogs chain" "chain_ok chain" "scanLogs getLogs a b cs = Inr events"
  shows "set events = set (join_logs (within a b chain))" "e \<in> set events \<Longrightarrow> a \<le> ev_blockNumber e \<and> ev_blockNumber e \<le> b"
proof -
  show "set events = set (join_logs (within a b chain))"
    using scanLogs_serves [OF assms] by simp
  then show "a \<le> ev_blockNumber e \<and> ev_blockNumber e \<le> b" if "e \<in> set events"
    using that join_logs_block [of e "within a b chain"] by (auto simp: within_def)
qed

lemma insort_fst_map: "insort_key fst (b, f b) (map (\<lambda>b. (b, f b)) bs) = map (\<lambda>b. (b, f b)) (insort b bs)"
  by (induction bs) auto

lemma sort_fst_map: "sort_key fst (map (\<lambda>b. (b, f b)) bs) = map (\<lambda>b. (b, f b)) (sort bs)"
  by (induction bs) (simp_all add: insort_fst_map)

lemma sortedBlocks_eq:
  "sortedBlocks events = map (\<lambda>b. (b, sort_key ev_logIndex (filter (\<lambda>e. ev_blockNumber e = b) events)))
     (sort (rev (remdups (rev (map ev_blockNumber events)))))"
  by (simp add: sortedBlocks_def groupByBlock_def sort_fst_map)

lemma sortedBlocks_order: "sorted_wrt (<) (map fst (sortedBlocks events))"
proof -
  have "map fst (sortedBlocks events) = sort (rev (remdups (rev (map ev_blockNumber events))))"
    by (simp add: sortedBlocks_eq o_def)
  then show ?thesis
    by (simp add: strict_sorted_iff)
qed

lemma sortedBlocks_member:
  "g \<in> set (sortedBlocks events) \<Longrightarrow> e \<in> set (snd g) \<Longrightarrow> ev_blockNumber e = fst g \<and> e \<in> set events"
  by (auto simp: sortedBlocks_eq)

lemma sortedBlocks_covers: "e \<in> set events \<Longrightarrow> \<exists>g \<in> set (sortedBlocks events). e \<in> set (snd g) \<and> fst g = ev_blockNumber e"
  by (auto simp: sortedBlocks_eq)

lemma sortedBlocks_block: "g \<in> set (sortedBlocks events) \<Longrightarrow> fst g \<in> ev_blockNumber ` set events"
  by (auto simp: sortedBlocks_eq)

lemma withTxn_cursor:
  "withTxn conflict (markReorged chainId txHash now) st = (r, st') \<Longrightarrow> st_cursor st' = st_cursor st"
  using withTxn_from_eq [of MAX_RETRIES conflict "markReorged chainId txHash now" st]
  by (auto simp: withTxn_def markReorged_def Let_def split: if_split_asm sum.split_asm)

lemma readerWatchLoop_cursor: "readerWatchLoop chainId rw bs i counts st = (r, st') \<Longrightarrow> st_cursor st' = st_cursor st"
proof (induction bs arbitrary: i counts st)
  case (Cons b bs)
  show ?case
  proof (cases "rw_txBlock rw i (br_txHash b) = Inr None")
    case True
    obtain w st1 where w: "withTxn (rw_conflict rw i) (markReorged chainId (br_txHash b) (rw_now rw)) st = (w, st1)"
      by fastforce
    then show ?thesis
      using Cons True withTxn_cursor [OF w] by (cases w) auto
  next
    case False
    then show ?thesis
      using Cons by (auto split: sum.split_asm option.split_asm)
  qed
qed simp

lemma readerWatchTick_cursor: "readerWatchTick chainId window rw st = (r, st') \<Longrightarrow> st_cursor st' = st_cursor st"
proof (cases "rw_head rw")
  case (Inr head)
  assume tick: "readerWatchTick chainId window rw st = (r, st')"
  obtain w st1 where w: "withTxn (rw_readConflict rw) (\<lambda>st. ebind (readerCandidates chainId window head st) (\<lambda>c. Inr (c, st))) st = (w, st1)"
    by fastforce
  then have "st1 = st"
    by (rule withTxn_same) auto
  then show ?thesis
    using tick w Inr readerWatchLoop_cursor by (cases w) (auto simp: readerWatchTick_def)
qed (simp add: readerWatchTick_def)

lemma catchUp_Inr:
  assumes "catchUp le b lastC parked st = (Inr u, st')"
  shows "map_option rc_lastBlockNumber (getCursor (le_chainId le) st')
     = (if \<not> parked \<and> (case lastC of None \<Rightarrow> True | Some x \<Rightarrow> x < b) then Some b
        else map_option rc_lastBlockNumber (getCursor (le_chainId le) st))"
proof (cases "\<not> parked \<and> (case lastC of None \<Rightarrow> True | Some x \<Rightarrow> x < b)")
  case True
  then have "commitBlock (le_commitConflict le b) (le_chainId le) b 0 (le_now le) Inr st = (Inr (), st')"
    using assms by (simp add: catchUp_def split: prod.split_asm sum.split_asm)
  from commitBlock_Inr [OF this] show ?thesis
    using True by (simp add: getCursor_def setCursor_def)
next
  case False
  then show ?thesis
    using assms by (simp only: catchUp_def if_not_P) simp
qed

lemma tailRange_parts:
  assumes "tailRange le opts rw fromB toB (arch, st, c) = (Inr res, (arch', st', c'))"
  obtains events p lastC parked st1 st2 where "scanLogs (le_getLogs le) fromB toB (Some (to_chunk opts)) = Inr events"
    "tailBlocks le (sortedBlocks events) 0 None (arch, st, c) = (Inr (p, lastC, parked), arch', st1, c')"
    "catchUp le toB lastC parked st1 = (Inr (), st2)"
    "readerWatchTick (le_chainId le) (Some (int (to_reorgWindow opts))) rw st2 = (Inr (tr_reorged res, tr_kept res), st')"
    "tr_fromBlock res = fromB"
proof -
  obtain events where e: "scanLogs (le_getLogs le) fromB toB (Some (to_chunk opts)) = Inr events"
    using assms by (auto simp: tailRange_def split: sum.split_asm)
  obtain r1 arch1 st1 c1 where t: "tailBlocks le (sortedBlocks events) 0 None (arch, st, c) = (r1, arch1, st1, c1)"
    by (metis prod_cases4)
  then obtain p lastC parked where r1: "r1 = Inr (p, lastC, parked)"
    using assms e by (cases r1) (auto simp: tailRange_def)
  obtain k st2 where k: "catchUp le toB lastC parked st1 = (k, st2)"
    by fastforce
  then have ku: "k = Inr ()"
    using assms e t r1 by (cases k) (auto simp: tailRange_def)
  obtain v st3 where v: "readerWatchTick (le_chainId le) (Some (int (to_reorgWindow opts))) rw st2 = (v, st3)"
    by fastforce
  then obtain reorged kept where "v = Inr (reorged, kept)"
    using assms e t r1 k ku by (cases v) (auto simp: tailRange_def)
  then show thesis
    using assms e t r1 k ku v by (intro that [of events p lastC parked st1 st2]) (auto simp: tailRange_def)
qed

section \<open>Properties\<close>

lemma tailRange_safe:
  assumes "serves (le_getLogs le) chain" "chain_ok chain" "int fromB \<le> int head - int (to_reorgWindow opts)"
    and "tailRange le opts rw fromB (nat (int head - int (to_reorgWindow opts))) (arch, st, c) = (Inr res, (arch', st', c'))"
    and "getCursor (le_chainId le) st' = Some cu'"
    and "\<And>cu. getCursor (le_chainId le) st = Some cu \<Longrightarrow> fromB = rc_lastBlockNumber cu + 1"
  shows "ct_undecodable c' = ct_undecodable c
    \<and> (map_option rc_lastBlockNumber (getCursor (le_chainId le) st) = Some (rc_lastBlockNumber cu')
        \<or> tr_fromBlock res \<le> rc_lastBlockNumber cu' \<and> int (rc_lastBlockNumber cu') \<le> int head - int (to_reorgWindow opts))
    \<and> (\<forall>e \<in> set (join_logs (within (tr_fromBlock res) (rc_lastBlockNumber cu') chain)). recorded (le_chainId le) e st')"
proof -
  let ?id = "le_chainId le" and ?safe = "int head - int (to_reorgWindow opts)"
  have behind: "join_logs (within fromB (rc_lastBlockNumber cu) chain) = []" if "getCursor ?id st = Some cu" for cu
    using assms(6) [OF that] by (simp add: within_def join_logs_def filter_False)
  obtain events p lastC parked st1 st2 where
      scan: "scanLogs (le_getLogs le) fromB (nat ?safe) (Some (to_chunk opts)) = Inr events"
    and tail: "tailBlocks le (sortedBlocks events) 0 None (arch, st, c) = (Inr (p, lastC, parked), arch', st1, c')"
    and catch: "catchUp le (nat ?safe) lastC parked st1 = (Inr (), st2)"
    and watch: "readerWatchTick ?id (Some (int (to_reorgWindow opts))) rw st2 = (Inr (tr_reorged res, tr_kept res), st')"
    and res: "tr_fromBlock res = fromB"
    by (rule tailRange_parts [OF assms(4)])
  note w = scan_within [OF assms(1,2) scan]
  note facts = tailBlocks_facts [OF tail]
  then have und: "ct_undecodable c' = ct_undecodable c"
    by (rule conjunct1)
  obtain passed rest where gs: "sortedBlocks events = passed @ rest" and park: "parked \<longleftrightarrow> rest \<noteq> []"
    and last: "lastC = (if passed = [] then None else Some (fst (last passed)))"
    and cur1: "map_option rc_lastBlockNumber (getCursor ?id st1)
      = (if passed = [] then map_option rc_lastBlockNumber (getCursor ?id st) else Some (fst (last passed)))"
    and seen: "\<forall>g \<in> set passed. \<forall>ev \<in> set (snd g). recorded ?id ev st1"
    using facts [THEN conjunct2] by blast
  have cur': "map_option rc_lastBlockNumber (getCursor ?id st2) = Some (rc_lastBlockNumber cu')"
    using readerWatchTick_cursor [OF watch] assms(5) by (simp add: getCursor_def)
  have st1': "steps st1 st'"
    using catchUp_steps [OF catch] readerWatchTick_steps [OF watch] by simp
  have last_in: "fromB \<le> fst (last passed) \<and> fst (last passed) \<le> nat ?safe" if "passed \<noteq> []"
    using sortedBlocks_block [of "last passed" events] that w(2) by (auto simp: gs)
  have pos: "0 \<le> ?safe"
    using assms(3) by simp
  have cur: "Some (rc_lastBlockNumber cu') = (if rest = [] then Some (nat ?safe)
      else if passed = [] then map_option rc_lastBlockNumber (getCursor ?id st) else Some (fst (last passed)))"
    using catchUp_Inr [OF catch] cur' cur1 last park last_in by (auto split: if_split_asm)
  show ?thesis
  proof (cases "rest \<noteq> [] \<and> passed = []")
    case True
    then have same: "map_option rc_lastBlockNumber (getCursor ?id st) = Some (rc_lastBlockNumber cu')"
      using cur by simp
    then obtain cu where "getCursor ?id st = Some cu" "rc_lastBlockNumber cu = rc_lastBlockNumber cu'"
      by auto
    then have "join_logs (within fromB (rc_lastBlockNumber cu') chain) = []"
      using behind by metis
    then show ?thesis
      using und res same by simp
  next
    case False
    have between: "fromB \<le> rc_lastBlockNumber cu'" "rc_lastBlockNumber cu' \<le> nat ?safe"
      using cur False last_in assms(3) by (auto split: if_split_asm)
    have "recorded ?id e st'" if e: "e \<in> set (join_logs (within fromB (rc_lastBlockNumber cu') chain))" for e
    proof -
      have "e \<in> set events"
        using e join_within_split [OF assms(2), of fromB "rc_lastBlockNumber cu'" "nat ?safe"] between w(1) by simp
      then obtain g where g: "g \<in> set (sortedBlocks events)" "e \<in> set (snd g)" "fst g = ev_blockNumber e"
        using sortedBlocks_covers by blast
      have "ev_blockNumber e \<le> rc_lastBlockNumber cu'"
        using join_logs_block [OF e] by (auto simp: within_def)
      then have "g \<in> set passed"
        using g cur False sortedBlocks_order [of events]
        by (auto simp: gs sorted_wrt_append split: if_split_asm) (metis image_eqI last_in_set not_le)
      then show ?thesis
        using seen g(2) recorded_steps [OF st1'] by blast
    qed
    then show ?thesis
      using und res between pos by auto
  qed
qed



section \<open>Backfill\<close>

lemma backfillBlocks_Cons:
  assumes "backfillBlocks le head ret (g # gs) bc (arch, st, c) = (Inr bc', arch', st', c')"
  obtains ress root ts arch1 st1 c1 st2 bc1 where "processEvents le root ts (fst g) (snd g) 0 (arch, st, c) = (Inr ress, arch1, st1, c1)"
      "commitBlock (le_commitConflict le (fst g)) (le_chainId le) (fst g) (maxTxIndex ress) (le_now le) Inr st1 = (Inr (), st2)"
      "backfillBlocks le head ret gs bc1 (arch1, st2, c1) = (Inr bc', arch', st', c')"
proof (cases "le_header le (fst g)")
  case (Inl m)
  then show thesis
    using assms by simp
next
  case (Inr ht)
  then obtain root ts where ht: "le_header le (fst g) = Inr (root, ts)"
    by (cases ht) auto
  obtain r0 arch1 st1 c1 where p: "processEvents le root ts (fst g) (snd g) 0 (arch, st, c) = (r0, arch1, st1, c1)"
    by (metis prod_cases4)
  show thesis
  proof (cases r0)
    case (Inl e)
    then show thesis
      using assms p ht by simp
  next
    case ok: (Inr ress)
    obtain k st2 where k: "commitBlock (le_commitConflict le (fst g)) (le_chainId le) (fst g) (maxTxIndex ress) (le_now le) Inr st1 = (k, st2)"
      by fastforce
    then show thesis
      using assms p ht ok that by (cases k) simp_all
  qed
qed

lemma backfillBlocks_steps_Inr: "backfillBlocks le head ret gs bc (arch, st, c) = (Inr bc', arch', st', c') \<Longrightarrow> steps st st'"
proof (induction gs arbitrary: bc arch st c)
  case (Cons g gs)
  show ?case
  proof (rule backfillBlocks_Cons [OF Cons.prems])
    fix ress root ts arch1 st1 c1 st2 bc1
    assume a: "processEvents le root ts (fst g) (snd g) 0 (arch, st, c) = (Inr ress, arch1, st1, c1)"
      "commitBlock (le_commitConflict le (fst g)) (le_chainId le) (fst g) (maxTxIndex ress) (le_now le) Inr st1 = (Inr (), st2)"
      "backfillBlocks le head ret gs bc1 (arch1, st2, c1) = (Inr bc', arch', st', c')"
    show "steps st st'"
      using processEvents_steps [OF a(1)] commitBlock_steps [OF a(2)] Cons.IH [OF a(3)] by simp
  qed
qed simp

lemma backfillBlocks_facts:
  assumes "backfillBlocks le head ret gs bc (arch, st, c) = (Inr bc', arch', st', c')"
  shows "map_option rc_lastBlockNumber (getCursor (le_chainId le) st')
      = (if gs = [] then map_option rc_lastBlockNumber (getCursor (le_chainId le) st) else Some (fst (last gs)))
    \<and> (\<forall>g \<in> set gs. \<forall>ev \<in> set (snd g). recorded (le_chainId le) ev st')"
  using assms
proof (induction gs arbitrary: bc arch st c)
  case (Cons g gs)
  obtain ress root ts arch1 st1 c1 st2 bc1 where
      a: "processEvents le root ts (fst g) (snd g) 0 (arch, st, c) = (Inr ress, arch1, st1, c1)"
      "commitBlock (le_commitConflict le (fst g)) (le_chainId le) (fst g) (maxTxIndex ress) (le_now le) Inr st1 = (Inr (), st2)"
      "backfillBlocks le head ret gs bc1 (arch1, st2, c1) = (Inr bc', arch', st', c')"
    by (rule backfillBlocks_Cons [OF Cons.prems])
  have "map_option rc_lastBlockNumber (getCursor (le_chainId le) st2) = Some (fst g)"
    by (simp add: commitBlock_Inr [OF a(2)] getCursor_def setCursor_def)
  moreover have "steps st1 st'"
    using commitBlock_steps [OF a(2)] backfillBlocks_steps_Inr [OF a(3)] by simp
  then have "recorded (le_chainId le) ev st'" if "ev \<in> set (snd g)" for ev
    using processEvents_facts [OF a(1)] recorded_steps that by blast
  ultimately show ?case
    using Cons.IH [OF a(3)] by simp
qed simp

lemma commitChunk_Inr:
  assumes "commitChunk le events b st = (Inr u, st')"
  shows "map_option rc_lastBlockNumber (getCursor (le_chainId le) st')
     = (if events = [] \<or> Max (set (map ev_blockNumber events)) < b then Some b
        else map_option rc_lastBlockNumber (getCursor (le_chainId le) st))"
    and "steps st st'"
proof -
  show "steps st st'"
    using assms commitBlock_steps by (auto simp: commitChunk_def split: if_split_asm prod.split_asm sum.split_asm)
  show "map_option rc_lastBlockNumber (getCursor (le_chainId le) st')
     = (if events = [] \<or> Max (set (map ev_blockNumber events)) < b then Some b
        else map_option rc_lastBlockNumber (getCursor (le_chainId le) st))"
  proof (cases "events = [] \<or> Max (set (map ev_blockNumber events)) < b")
    case True
    then have "commitBlock (le_commitConflict le b) (le_chainId le) b 0 (le_now le) Inr st = (Inr (), st')"
      using assms by (simp only: commitChunk_def if_P) (simp split: prod.split_asm sum.split_asm)
    from commitBlock_Inr [OF this] show ?thesis
      unfolding if_P [OF True] by (simp add: getCursor_def setCursor_def)
  next
    case False
    then show ?thesis
      using assms by (simp only: commitChunk_def if_not_P) simp
  qed
qed

lemma backfillChunk_facts:
  assumes "serves (le_getLogs le) chain" "chain_ok chain"
    and "backfillChunk le head ret a b bc (arch, st, c) = (Inr bc', arch', st', c')"
  shows "map_option rc_lastBlockNumber (getCursor (le_chainId le) st') = Some b"
    and "e \<in> set (join_logs (within a b chain)) \<Longrightarrow> recorded (le_chainId le) e st'"
    and "steps st st'"
proof -
  obtain events where e: "scanLogs (le_getLogs le) a b None = Inr events"
    using assms(3) by (auto simp: backfillChunk_def split: sum.split_asm)
  obtain r1 arch1 st1 c1 where t: "backfillBlocks le head ret (sortedBlocks events) (bc\<lparr>bf_scanned := bf_scanned bc + length events\<rparr>) (arch, st, c)
      = (r1, arch1, st1, c1)"
    by (metis prod_cases4)
  then obtain bc1 where r1: "r1 = Inr bc1"
    using assms(3) e by (cases r1) (auto simp: backfillChunk_def)
  obtain k st2 where "commitChunk le events b st1 = (k, st2)"
    by fastforce
  then have k: "commitChunk le events b st1 = (Inr (), st')"
    using assms(3) e t r1 by (cases k) (auto simp: backfillChunk_def)
  note facts = backfillBlocks_facts [OF t [unfolded r1]]
  note w = scan_within [OF assms(1,2) e]
  show "steps st st'"
    using backfillBlocks_steps_Inr [OF t [unfolded r1]] commitChunk_Inr(2) [OF k] by simp
  show "recorded (le_chainId le) e st'" if "e \<in> set (join_logs (within a b chain))"
    using that w(1) sortedBlocks_covers [of e events] facts recorded_steps [OF commitChunk_Inr(2) [OF k]] by blast
  show "map_option rc_lastBlockNumber (getCursor (le_chainId le) st') = Some b"
  proof (cases "events = [] \<or> Max (set (map ev_blockNumber events)) < b")
    case True
    then show ?thesis
      using commitChunk_Inr(1) [OF k] by simp
  next
    case False
    have "Max (set (map ev_blockNumber events)) \<in> set (map ev_blockNumber events)"
      using False by (intro Max_in) auto
    then obtain e where "e \<in> set events" "ev_blockNumber e = Max (set (map ev_blockNumber events))"
      by auto
    then obtain g where g: "g \<in> set (sortedBlocks events)" "fst g = b"
      using sortedBlocks_covers [of e events] w(2) [of e] False by fastforce
    then obtain pre post where split: "sortedBlocks events = pre @ g # post"
      by (meson split_list)
    have "post = []"
    proof (rule ccontr)
      assume "post \<noteq> []"
      then have "fst g < fst (last post)" "last post \<in> set (sortedBlocks events)"
        using sortedBlocks_order [of events] by (auto simp: split sorted_wrt_append)
      then show False
        using sortedBlocks_block [of "last post" events] w(2) g(2) by fastforce
    qed
    then have "map_option rc_lastBlockNumber (getCursor (le_chainId le) st1) = Some b"
      using facts g(2) by (simp add: split)
    then show ?thesis
      using commitChunk_Inr(1) [OF k] False by (simp only: if_not_P if_False)
  qed
qed

lemma backfillChunks_facts:
  assumes "serves (le_getLogs le) chain" "chain_ok chain" "0 < k"
  shows "backfillChunks le head ret k a b bc (arch, st, c) = (Inr bc', arch', st', c') \<Longrightarrow> a \<le> b \<Longrightarrow>
     map_option rc_lastBlockNumber (getCursor (le_chainId le) st') = Some b
     \<and> (\<forall>e \<in> set (join_logs (within a b chain)). recorded (le_chainId le) e st') \<and> steps st st'"
proof (induction "b + 1 - a" arbitrary: a bc arch st c rule: less_induct)
  case less
  let ?to = "min (a + k - 1) b"
  obtain r1 arch1 st1 c1 where t: "backfillChunk le head ret a ?to bc (arch, st, c) = (r1, arch1, st1, c1)"
    by (metis prod_cases4)
  then obtain bc1 where r1: "r1 = Inr bc1"
    using less.prems assms(3) by (cases r1) (auto simp: backfillChunks.simps [of le head ret k a])
  then have rest: "backfillChunks le head ret k (a + k) b bc1 (arch1, st1, c1) = (Inr bc', arch', st', c')"
    using less.prems assms(3) t by (simp add: backfillChunks.simps [of le head ret k a])
  note f = backfillChunk_facts [OF assms(1,2) t [unfolded r1]]
  show ?case
  proof (cases "a + k \<le> b")
    case True
    then have to: "?to = a + k - 1" "?to + 1 = a + k"
      using assms(3) by simp_all
    have ih: "map_option rc_lastBlockNumber (getCursor (le_chainId le) st') = Some b"
      "\<forall>e \<in> set (join_logs (within (a + k) b chain)). recorded (le_chainId le) e st'" "steps st1 st'"
      using less.hyps [OF _ rest True] True assms(3) by auto
    have "join_logs (within a b chain) = join_logs (within a ?to chain) @ join_logs (within (?to + 1) b chain)"
      by (rule join_within_split [OF assms(2)]) (use True assms(3) in auto)
    then show ?thesis
      using ih f(2,3) recorded_steps [OF ih(3)] unfolding to(2) by auto
  next
    case False
    then have "st1 = st'" "?to = b"
      using rest by (auto simp: backfillChunks.simps)
    then show ?thesis
      using f by simp
  qed
qed

section \<open>Every run of the loops is a sequence of store steps\<close>

lemma liveTailTick_steps:
  assumes "liveTailTick le opts head rc rw (arch, st, c) = (r, arch', st', c')"
  shows "steps st st'"
proof (cases head)
  case (Inr h)
  obtain r1 st1 where rd: "readCursor rc (le_chainId le) st = (r1, st1)"
    by fastforce
  note same = readCursor_same [OF rd]
  have tail: "steps st st'" if "tailRange le opts rw f t (arch, st, c) = (r, arch', st', c')" for f t
  proof (cases "scanLogs (le_getLogs le) f t (Some (to_chunk opts))")
    case (Inr events)
    obtain v arch1 st2 c1 where b: "tailBlocks le (sortedBlocks events) 0 None (arch, st, c) = (v, arch1, st2, c1)"
      by (metis prod_cases4)
    note s1 = tailBlocks_steps [OF b]
    show ?thesis
    proof (cases v)
      case (Inl e)
      then show ?thesis
        using that \<open>scanLogs _ _ _ _ = _\<close> b s1 by (simp add: tailRange_def)
    next
      case v: (Inr plp)
      obtain p l k where plp: "plp = (p, l, k)"
        by (metis prod_cases3)
      obtain q st3 where cu: "catchUp le t l k st2 = (q, st3)"
        by fastforce
      obtain y st4 where w: "readerWatchTick (le_chainId le) (Some (int (to_reorgWindow opts))) rw st3 = (y, st4)"
        by fastforce
      note s = s1 catchUp_steps [OF cu] readerWatchTick_steps [OF w]
      show ?thesis
        using that Inr b v plp cu w s by (auto simp: tailRange_def split: sum.split_asm prod.split_asm)
    qed
  qed (use that in \<open>simp add: tailRange_def\<close>)
  show ?thesis
    using assms Inr rd same tail by (cases r1) (auto simp: liveTailTick_def Let_def split: if_split_asm)
qed (use assms in \<open>simp add: liveTailTick_def\<close>)

lemma backfillBlocks_steps: "backfillBlocks le head ret gs bc (arch, st, c) = (r, arch', st', c') \<Longrightarrow> steps st st'"
proof (induction gs arbitrary: bc arch st c)
  case (Cons g gs)
  show ?case
  proof (cases "le_header le (fst g)")
    case (Inr ht)
    obtain root ts where ht: "ht = (root, ts)"
      by fastforce
    obtain r0 arch1 st1 c1 where p: "processEvents le root ts (fst g) (snd g) 0 (arch, st, c) = (r0, arch1, st1, c1)"
      by (metis prod_cases4)
    note s1 = processEvents_steps [OF p]
    show ?thesis
    proof (cases r0)
      case (Inl e)
      then show ?thesis
        using Cons.prems Inr ht p s1 by simp
    next
      case ok: (Inr ress)
      obtain k st2 where k: "commitBlock (le_commitConflict le (fst g)) (le_chainId le) (fst g) (maxTxIndex ress) (le_now le) Inr st1 = (k, st2)"
        by fastforce
      note s2 = commitBlock_steps [OF k]
      show ?thesis
      proof (cases k)
        case (Inl e)
        then show ?thesis
          using Cons.prems Inr ht p s1 ok k s2 by simp
      next
        case (Inr u)
        then have "steps st2 st'"
          using Cons.prems \<open>le_header le (fst g) = _\<close> ht p ok k by (intro Cons.IH) simp
        then show ?thesis
          using s1 s2 by simp
      qed
    qed
  qed (use Cons.prems in simp)
qed simp

lemma commitChunk_steps: "commitChunk le events b st = (r, st') \<Longrightarrow> steps st st'"
  using commitBlock_steps by (auto simp: commitChunk_def split: if_split_asm prod.split_asm sum.split_asm)

lemma backfillChunk_steps:
  assumes "backfillChunk le head ret a b bc (arch, st, c) = (r, arch', st', c')"
  shows "steps st st'"
proof (cases "scanLogs (le_getLogs le) a b None")
  case (Inr events)
  obtain v arch1 st1 c1 where t: "backfillBlocks le head ret (sortedBlocks events) (bc\<lparr>bf_scanned := bf_scanned bc + length events\<rparr>) (arch, st, c)
      = (v, arch1, st1, c1)"
    by (metis prod_cases4)
  obtain q st2 where k: "commitChunk le events b st1 = (q, st2)"
    by fastforce
  show ?thesis
    using assms Inr t k backfillBlocks_steps [OF t] commitChunk_steps [OF k]
    by (cases v; cases q) (auto simp: backfillChunk_def)
qed (use assms in \<open>simp add: backfillChunk_def\<close>)

lemma backfillChunks_steps:
  "backfillChunks le head ret k a b bc (arch, st, c) = (r, arch', st', c') \<Longrightarrow> steps st st'"
proof (induction "b + 1 - a" arbitrary: a bc arch st c rule: less_induct)
  case less
  show ?case
  proof (cases "a > b \<or> k = 0")
    case False
    obtain r1 arch1 st1 c1 where t: "backfillChunk le head ret a (min (a + k - 1) b) bc (arch, st, c) = (r1, arch1, st1, c1)"
      by (metis prod_cases4)
    show ?thesis
    proof (cases r1)
      case (Inl e)
      then show ?thesis
        using less.prems False t backfillChunk_steps [OF t] by (simp add: backfillChunks.simps [of le head ret k a])
    next
      case (Inr bc1)
      then have "backfillChunks le head ret k (a + k) b bc1 (arch1, st1, c1) = (r, arch', st', c')"
        using less.prems False t by (simp add: backfillChunks.simps [of le head ret k a])
      moreover have "b + 1 - (a + k) < b + 1 - a"
        using False by linarith
      ultimately show ?thesis
        using less.hyps [of "a + k"] backfillChunk_steps [OF t] by (meson rtranclp_trans)
    qed
  qed (use less.prems in \<open>simp add: backfillChunks.simps\<close>)
qed

lemma backfill_steps: "backfill le ret k head a b (arch, st, c) = (r, arch', st', c') \<Longrightarrow> steps st st'"
  using backfillChunks_steps by (auto simp: backfill_def Let_def split: if_split_asm sum.split_asm)

interpretation reader_tail: store_worker
  "\<lambda>(le, opts, head, rc, rw, arch, c) st st'. \<exists>r arch' c'. liveTailTick le opts head rc rw (arch, st, c) = (r, arch', st', c')"
  by unfold_locales (auto dest: liveTailTick_steps)

interpretation reader_backfill: store_worker
  "\<lambda>(le, ret, k, head, a, b, arch, c) st st'. \<exists>r arch' c'. backfill le ret k head a b (arch, st, c) = (r, arch', st', c')"
  by unfold_locales (auto dest: backfill_steps)

interpretation reader_watcher: store_worker
  "\<lambda>(chainId, window, rw) st st'. \<exists>r. readerWatchTick chainId window rw st = (r, st')"
  by unfold_locales (auto dest: readerWatchTick_steps)

section \<open>What a backfill leaves\<close>

lemma backfill_reaches:
  assumes "serves (le_getLogs le) chain" "chain_ok chain"
    and "backfill le ret k (Inr head) a b (arch, st, c) = (Inr bc, arch', st', c')" "a \<le> min b head"
  shows "map_option rc_lastBlockNumber (getCursor (le_chainId le) st') = Some (min b head)
     \<and> (\<forall>e \<in> set (join_logs (within a (min b head) chain)). recorded (le_chainId le) e st')"
proof -
  have "backfillChunks le head (case ret of None \<Rightarrow> DEFAULT_RETENTION_THRESHOLD_BLOCKS | Some t \<Rightarrow> t) (max 1 k) a (min b head) no_backfill
      (arch, st, c) = (Inr bc, arch', st', c')"
    using assms(3) unfolding backfill_def Let_def using assms(4) leD [OF assms(4)] by simp
  from backfillChunks_facts [OF assms(1,2) _ this assms(4)] show ?thesis
    by simp
qed

text \<open>
  C11. A backfill that returns has covered its range: with to clamped to the head, every batch of the chain in [from, min to head] with a well-formed range has its row, whatever the chunk size, and the cursor stands at min to head.
\<close>

theorem backfill_complete:
  assumes "serves (le_getLogs le) chain" "chain_ok chain"
    and "backfill le ret k (Inr head) a b (arch, st, c) = (Inr bc, arch', st', c')" "a \<le> min b head"
  shows "map_option rc_lastBlockNumber (getCursor (le_chainId le) st') = Some (min b head)
     \<and> (\<forall>e \<in> set (join_logs (within a (min b head) chain)). recorded (le_chainId le) e st')"
  using backfill_reaches [OF assms] .

text \<open>
  The cursor forgets what it stood for: after a backfill of [from, min to head] the next live tick that scans starts at min to head + 1, wherever the cursor stood before. A backfill that starts past the cursor leaves the blocks between unscanned for ever, and one that ends before the cursor moves it back.
\<close>

theorem backfill_overrides_cursor:
  assumes "serves (le_getLogs le) chain" "chain_ok chain"
    and "backfill le ret k (Inr head) a b (arch, st, c) = (Inr bc, arch', st', c')" "a \<le> min b head"
    and "liveTailTick le opts (Inr head') rc rw (arch', st', c') = (Inr res, w)"
  shows "tr_fromBlock res = min b head + 1"
proof -
  obtain cu where cu: "getCursor (le_chainId le) st' = Some cu" "rc_lastBlockNumber cu = min b head"
    using backfill_reaches [OF assms(1-4)] by auto
  obtain r1 st1 where rd: "readCursor rc (le_chainId le) st' = (r1, st1)"
    by fastforce
  then have r1: "r1 = Inr (Some cu)"
    using assms(5) readCursor_Inr cu(1) by (cases r1) (auto simp: liveTailTick_def)
  let ?f = "rc_lastBlockNumber cu + 1"
  have "int ?f > int head' - int (to_reorgWindow opts)
      \<or> tailRange le opts rw ?f (nat (int head' - int (to_reorgWindow opts))) (arch', st1, c') = (Inr res, w)"
    using assms(5) rd r1 by (simp add: liveTailTick_def Let_def split: if_split_asm)
  then show ?thesis
  proof
    assume "int ?f > int head' - int (to_reorgWindow opts)"
    then show ?thesis
      using assms(5) rd r1 cu(2) by (auto simp: liveTailTick_def Let_def)
  next
    assume t: "tailRange le opts rw ?f (nat (int head' - int (to_reorgWindow opts))) (arch', st1, c') = (Inr res, w)"
    obtain a2 s2 c2 where "w = (a2, s2, c2)"
      by (metis prod_cases3)
    then show ?thesis
      using tailRange_parts [of le opts rw ?f] t cu(2) by metis
  qed
qed

section \<open>What the Reader's watcher can see\<close>

lemma readerCandidates_block:
  assumes "readerCandidates chainId window head st = Inr cands" "b \<in> set cands"
  shows "\<exists>r \<in> set (st_batches st). \<exists>n. rb_chainId r = chainId \<and> rb_blockNumber r = Some n
     \<and> int head - clampReaderWindow window \<le> int n"
proof -
  obtain recent where "listBatches \<lparr>bq_contentTag = None, bq_chainId = Some chainId, bq_status = None,
        bq_sinceBlock = Some (nat (int head - clampReaderWindow window)), bq_sinceIncludedAt = None, bq_limit = None\<rparr> st = Inr recent"
    and b: "b \<in> set recent" "br_blockNumber b \<noteq> None"
    using assms by (auto simp: readerCandidates_def split: sum.split_asm)
  then obtain r where r: "r \<in> set (st_batches st)" "mapBatch r = Inr b"
      "opt_eq (Some chainId) (rb_chainId r)" "opt_ge (Some (nat (int head - clampReaderWindow window))) (rb_blockNumber r)"
    using mapE_member by (fastforce simp: listBatches_def limited_def batch_matches_def)
  then have "rb_blockNumber r = br_blockNumber b"
    by (auto simp: mapBatch_def)
  then obtain n where "rb_blockNumber r = Some n"
    using b(2) by (cases "rb_blockNumber r") auto
  then show ?thesis
    using r by (auto simp: opt_eq_def opt_ge_def)
qed

text \<open>The highest block a chain's batch rows carry.\<close>

definition rows_up_to :: "nat \<Rightarrow> int \<Rightarrow> store \<Rightarrow> bool" where
  "rows_up_to chainId deepest st \<longleftrightarrow>
     (\<forall>r \<in> set (st_batches st). \<forall>n. rb_chainId r = chainId \<longrightarrow> rb_blockNumber r = Some n \<longrightarrow> int n \<le> deepest)"

text \<open>
  The Reader's watcher and its live tail do not overlap: the tail writes only blocks up to head - window, the watcher reads back only blocks from head - window on. When every row of the chain is at most head - window deep, a watcher tick at any later head looks at nothing: it reports no candidate and changes nothing, even if the chain has dropped every transaction the Reader recorded.
\<close>

theorem reader_watcher_blind:
  assumes "4 \<le> window" "window \<le> 128" "rows_up_to chainId (int head - int window) st"
    and "rw_head rw = Inr head'" "head < head'"
    and "readerWatchTick chainId (Some (int window)) rw st = (Inr counts, st')"
  shows "counts = (0, 0) \<and> st' = st"
proof -
  have clamp: "clampReaderWindow (Some (int window)) = int window"
    using assms(1,2) by (simp add: clampReaderWindow_def)
  obtain w st1 where w: "withTxn (rw_readConflict rw)
      (\<lambda>st. ebind (readerCandidates chainId (Some (int window)) head' st) (\<lambda>c. Inr (c, st))) st = (w, st1)"
    by fastforce
  then have "st1 = st"
    by (rule withTxn_same) auto
  with w assms(4,6) obtain cands where ok: "withTxn (rw_readConflict rw)
      (\<lambda>st. ebind (readerCandidates chainId (Some (int window)) head' st) (\<lambda>c. Inr (c, st))) st = (Inr cands, st)"
    and loop: "readerWatchLoop chainId rw cands 0 (0, 0) st = (Inr counts, st')"
    by (cases w) (auto simp: readerWatchTick_def)
  have "readerCandidates chainId (Some (int window)) head' st = Inr cands"
    using withTxn_Inr [OF ok] by auto
  then have "cands = []"
    using readerCandidates_block [of chainId "Some (int window)" head' st cands] assms(3,5)
    by (cases cands) (fastforce simp: rows_up_to_def clamp)+
  then show ?thesis
    using loop by simp
qed

end
