(* ===== verification/ReaderRuns.thy ===== *)
theory ReaderRuns
  imports ReaderLoop
begin

text \<open>
  Sample runs of the Reader's loops on a small chain, a provider that answers 64 blocks at a
  time and no blob source: the inputs at which the properties of ReaderLoop are applied.
\<close>

section \<open>Sample runs\<close>

definition loop_env_sample :: "unit loop_env" where
  "loop_env_sample = \<lparr>le_chainId = 1, le_sources = \<lparr>bs_beaconUrl = None, bs_blobscanUrl = None, bs_archive = None\<rparr>,
     le_getLogs = sample_provider, le_header = (\<lambda>b. Inr (None, b)),
     le_env = (\<lambda>_ _. \<lparr>pe_keccak = (\<lambda>_. []), pe_chainId = 1, pe_fetch = sample_fetch_env, pe_fz = (\<lambda>_ _. Inl []),
       pe_decoder = None, pe_registry = None, pe_ecdsa = \<lparr>ec_verify = (\<lambda>_ _ _ _ _. True), ec_digest = (\<lambda>_ _ _. [])\<rparr>\<rparr>),
     le_conflict = (\<lambda>_ _ _. False), le_recounted = (\<lambda>_ _. 0), le_commitConflict = (\<lambda>_ _. False), le_now = 5\<rparr>"

definition tail_options_sample :: tail_options where
  "tail_options_sample = \<lparr>to_reorgWindow = 32, to_startBlock = 3, to_chunk = 40\<rparr>"

definition reader_watch_sample :: reader_watch where
  "reader_watch_sample = \<lparr>rw_head = Inr 130, rw_txBlock = (\<lambda>_ _. Inr None), rw_readConflict = (\<lambda>_. False),
     rw_conflict = (\<lambda>_ _. False), rw_now = 9\<rparr>"

definition cursor_sample :: store where
  "cursor_sample = setCursor \<lparr>rc_chainId = 1, rc_lastBlockNumber = 5, rc_lastTxIndex = 0, rc_updatedAt = 0\<rparr> empty_store"

definition tail_run :: "(reader_error + tick_result) \<times> unit world" where
  "tail_run = liveTailTick loop_env_sample tail_options_sample (Inr 70) (\<lambda>_. False) reader_watch_sample ((), cursor_sample, emptyCounters)"

definition backfill_run :: "(reader_error + backfill_counters) \<times> unit world" where
  "backfill_run = backfill loop_env_sample (Some 40) 50 (Inr 95) 8 200 ((), cursor_sample, emptyCounters)"

lemma tail_run_ok: "is_ok (fst tail_run) \<and> map_option rc_lastBlockNumber (getCursor 1 (fst (snd (snd tail_run)))) = Some 5"
  by code_simp

lemma backfill_run_ok: "is_ok (fst backfill_run) \<and> length (st_batches (fst (snd (snd backfill_run)))) = 2"
  by code_simp

definition resumed_run :: "(reader_error + tick_result) \<times> unit world" where
  "resumed_run = liveTailTick loop_env_sample tail_options_sample (Inr 130) (\<lambda>_. False) reader_watch_sample (snd backfill_run)"

lemma resumed_run_ok: "is_ok (fst resumed_run)"
  by code_simp

lemma watch_run_ok:
  "is_ok (fst (readerWatchTick 1 (Some 32) reader_watch_sample (fst (snd (snd backfill_run)))))
   \<and> list_all (\<lambda>r. case rb_blockNumber r of None \<Rightarrow> True | Some n \<Rightarrow> n \<le> 90) (st_batches (fst (snd (snd backfill_run))))"
  by code_simp

lemma sample_chain_range: "length (join_logs (within 8 95 sample_chain)) = 2"
  by code_simp

lemma is_ok_fstE: "is_ok (fst p) \<Longrightarrow> (\<And>x s c. p = (Inr x, (), s, c) \<Longrightarrow> Q) \<Longrightarrow> Q"
  by (metis is_ok_iff prod.exhaust_sel old.unit.exhaust)


theorem backfill_complete_witness:
  "\<exists>bc st' c'. backfill_run = (Inr bc, (), st', c') \<and> map_option rc_lastBlockNumber (getCursor 1 st') = Some 95
     \<and> (\<forall>e \<in> set (join_logs (within 8 95 sample_chain)). recorded 1 e st') \<and> length (join_logs (within 8 95 sample_chain)) = 2"
proof -
  obtain bc st' c' where run: "backfill_run = (Inr bc, (), st', c')"
    using backfill_run_ok by (blast elim: is_ok_fstE)
  have le: "serves (le_getLogs loop_env_sample) sample_chain" "le_chainId loop_env_sample = 1"
    using sample_provider_serves by (simp_all add: loop_env_sample_def)
  show ?thesis
    using backfill_complete [OF le(1) sample_chain_ok run [unfolded backfill_run_def], unfolded le(2)] run sample_chain_range
    by (auto simp del: One_nat_def)
qed

theorem backfill_overrides_cursor_witness:
  "\<exists>res w. resumed_run = (Inr res, w) \<and> tr_fromBlock res = 96"
proof -
  obtain bc st' c' where run: "backfill_run = (Inr bc, (), st', c')"
    using backfill_run_ok by (blast elim: is_ok_fstE)
  obtain res st2 c2 where res: "resumed_run = (Inr res, (), st2, c2)"
    using resumed_run_ok by (blast elim: is_ok_fstE)
  have le: "serves (le_getLogs loop_env_sample) sample_chain"
    using sample_provider_serves by (simp add: loop_env_sample_def)
  have "tr_fromBlock res = 96"
    using backfill_overrides_cursor [OF le sample_chain_ok run [unfolded backfill_run_def] _ res [unfolded resumed_run_def run snd_conv]]
    by simp
  with res show ?thesis
    by blast
qed

theorem reader_watcher_blind_witness:
  "\<exists>st counts. length (st_batches st) = 2 \<and> readerWatchTick 1 (Some (int 32)) reader_watch_sample st = (Inr counts, st) \<and> counts = (0, 0)"
proof -
  let ?st = "fst (snd (snd backfill_run))"
  obtain counts st' where run: "readerWatchTick 1 (Some (int 32)) reader_watch_sample ?st = (Inr counts, st')"
    using watch_run_ok by (cases "readerWatchTick 1 (Some 32) reader_watch_sample ?st") (auto simp: is_ok_iff)
  have "rows_up_to 1 (int 125 - int 32) ?st"
    using watch_run_ok by (fastforce simp: rows_up_to_def list_all_iff split: option.splits)
  from reader_watcher_blind [OF _ _ this _ _ run, of 130] have "counts = (0, 0) \<and> st' = ?st"
    by (simp add: reader_watch_sample_def)
  then show ?thesis
    using run backfill_run_ok by blast
qed

end
