(* ===== verification/System.thy ===== *)
theory System
  imports Poster ReaderRuns
begin

text \<open>
  The programs over one store: any number of Posters and Readers, each with its own
  configuration, chain provider and timing, take turns on the shared tables. A step is a whole
  transaction run of one of them, as the database serialises them; the Reader's blob archive is
  a directory of files. The invariants of the store hold whatever the interleaving.
\<close>

inductive system_step :: "store \<Rightarrow> store \<Rightarrow> bool" where
  poster: "poster_step keccak parse p p' \<Longrightarrow> system_step (po_store p) (po_store p')"
| live_tail: "liveTailTick (le :: files loop_env) opts head rc rw (arch, st, c) = (r, arch', st', c') \<Longrightarrow> system_step st st'"
| backfilling: "backfill (le :: files loop_env) retention chunk head fromB toB (arch, st, c) = (b, arch', st', c') \<Longrightarrow> system_step st st'"
| reader_watch: "readerWatchTick chainId window rw st = (w, st') \<Longrightarrow> system_step st st'"

lemma system_step_steps: "system_step st st' \<Longrightarrow> steps st st'"
proof (induction rule: system_step.induct)
  case (poster keccak parse p p')
  then show ?case
    using poster_step_keeps by (simp add: poster_keeps_def)
qed (auto dest: liveTailTick_steps backfill_steps readerWatchTick_steps)

interpretation shared_store: store_worker "\<lambda>(_ :: unit). system_step\<^sup>*\<^sup>*"
proof
  fix a :: unit and st st'
  assume "(case a of _ \<Rightarrow> system_step\<^sup>*\<^sup>*) st st'"
  then show "steps st st'"
    by (cases a, induction rule: rtranclp_induct) (auto dest: system_step_steps)
qed

text \<open>A message slot along a whole run: it is never lost, never leaves its status graph's
reachable part, and its hash stays unless the slot was reorged on the way.\<close>

lemma system_run_slots:
  assumes "system_step\<^sup>*\<^sup>* st st'" "steps empty_store st"
  shows "steps empty_store st'"
  using shared_store.run_steps [of st st'] assms by auto


text \<open>A submission to a Poster, then a Reader's watcher tick over what it left.\<close>

definition shared_after_submit :: store where
  "shared_after_submit = po_store (snd submit_sample)"

lemma shared_after_submit_eq: "shared_after_submit = snd (snd ingest_sample)"
  by (simp add: shared_after_submit_def submit_sample_eq)

lemma watch_after_submit: "fst (readerWatchTick 1 (Some 32) reader_watch_sample (snd (snd ingest_sample))) = Inr (0, 0)"
  by code_simp


end
