(* ===== verification/TickOverlap.thy ===== *)
theory TickOverlap
  imports Poster
begin

text \<open>
  Two ticks of one submission loop at once. The timer of theory Scheduler never runs two, but
  POST /flush (packages/bam-poster/src/http/routes.ts) drives the same loop's tick beside it.
  A tick is split at its await of the submission: what it plans from the pool, and what it
  writes when the outcome is known; the whole tick is their composition.
\<close>

definition planTick ::
  "loop_options \<Rightarrow> (nat \<Rightarrow> bool) \<Rightarrow> nat \<Rightarrow> loop_state \<Rightarrow> store
     \<Rightarrow> (loop_error + (tick_outcome + pack_result)) \<times> loop_state \<times> store" where
  "planTick opts readConflict now ls st =
     (if lp_permanentlyStopped ls then (Inr (Inl TickPermanent), ls, st)
      else case withTxn readConflict (snapshotPools (ao_tags (lo_aggregator opts))) st of
        (Inl e, st1) \<Rightarrow> (Inl (LoopStore e), ls, st1)
      | (Inr poolMap, st1) \<Rightarrow>
          (let pool = (\<lambda>tag. case poolMap tag of None \<Rightarrow> [] | Some rows \<Rightarrow> rows) in
           case aggregatorTick (lo_aggregator opts) pool now (lp_aggregator ls) of
             (Inl e, ag) \<Rightarrow> (Inl (LoopTick e), ls\<lparr>lp_aggregator := ag\<rparr>, st1)
           | (Inr None, ag) \<Rightarrow> (Inr (Inl Idle), ls\<lparr>lp_aggregator := ag\<rparr>, st1)
           | (Inr (Some pk), ag) \<Rightarrow>
               (if length (pp_included (pr_plan pk)) = 0 then Inr (Inl Idle) else Inr (Inr pk),
                ls\<lparr>lp_aggregator := ag\<rparr>, st1)))"

definition settleTick ::
  "(bytes \<Rightarrow> bytes) \<Rightarrow> loop_options \<Rightarrow> (nat \<Rightarrow> bool) \<Rightarrow> submit_outcome \<Rightarrow> nat \<Rightarrow> loop_state \<Rightarrow> store
     \<Rightarrow> (loop_error + tick_outcome) \<times> loop_state \<times> store" where
  "settleTick keccak opts writeConflict outcome submittedAt ls st =
     (case outcome of
        Included included \<Rightarrow>
          (case withTxn writeConflict (recordPack keccak opts included submittedAt) st of
             (Inl e, st1) \<Rightarrow> (Inl (LoopStore e), ls, st1)
           | (Inr _, st1) \<Rightarrow>
               (Inr Success, ls\<lparr>lp_lastPackedTxHash := Some (io_txHash included),
                  lp_lastPackedTagCount := length (io_entries included),
                  lp_failures := recordSuccess (lp_failures ls)\<rparr>, st1))
      | Retryable _ \<Rightarrow> (Inr Retry, ls\<lparr>lp_failures := recordFailure (lp_failures ls)\<rparr>, st)
      | Permanent _ \<Rightarrow>
          (Inr TickPermanent, ls\<lparr>lp_failures := recordFailure (lp_failures ls), lp_permanentlyStopped := True\<rparr>, st))"

lemma loopTick_split:
  "loopTick keccak opts rc wc now submit submittedAt ls st =
     (case planTick opts rc now ls st of
        (Inl e, ls1, st1) \<Rightarrow> (Inl e, ls1, st1)
      | (Inr (Inl r), ls1, st1) \<Rightarrow> (Inr r, ls1, st1)
      | (Inr (Inr pk), ls1, st1) \<Rightarrow> settleTick keccak opts wc (submit pk) submittedAt ls1 st1)"
  by (simp add: loopTick_def planTick_def settleTick_def Let_def split: prod.split sum.split option.split submit_outcome.split)

section \<open>What a tick plans does not depend on the loop's state\<close>

lemma selectPhase_fst:
  "fst (selectPhase opts pools now tags acc st) = fst (selectPhase opts pools now tags acc st')"
proof (induction tags arbitrary: acc st st')
  case (Cons tag tags)
  show ?case
    by (auto simp: Let_def split: option.split sum.split intro: Cons.IH)
qed simp

lemma aggregatorTick_fst: "fst (aggregatorTick opts pools now st) = fst (aggregatorTick opts pools now st')"
proof -
  obtain r s s' where "selectPhase opts pools now (ao_tags opts) empty_acc st = (r, s)"
      "selectPhase opts pools now (ao_tags opts) empty_acc st' = (r, s')"
    using selectPhase_fst by (metis prod.collapse)
  then show ?thesis
    by (auto simp: aggregatorTick_def packSelections_def Let_def split: sum.split)
qed

lemma planTick_pack:
  assumes "planTick opts rc now ls st = (Inr (Inr pk), ls1, st1)"
  shows "st1 = st" and "\<not> lp_permanentlyStopped ls1"
    and "\<exists>ls2. planTick opts rc now ls1 st = (Inr (Inr pk), ls2, st)"
proof -
  obtain r s where w: "withTxn rc (snapshotPools (ao_tags (lo_aggregator opts))) st = (r, s)"
    by fastforce
  have s: "s = st"
    using withTxn_same [OF w] snapshotPools_same by blast
  have run: "\<not> lp_permanentlyStopped ls"
    using assms by (auto simp: planTick_def)
  obtain poolMap where r: "r = Inr poolMap"
    using assms w run by (cases r) (simp_all add: planTick_def)
  let ?pool = "\<lambda>tag. case poolMap tag of None \<Rightarrow> [] | Some rows \<Rightarrow> rows"
  obtain ag where a: "aggregatorTick (lo_aggregator opts) ?pool now (lp_aggregator ls) = (Inr (Some pk), ag)"
    and n: "length (pp_included (pr_plan pk)) \<noteq> 0" and ls1: "ls1 = ls\<lparr>lp_aggregator := ag\<rparr>" and st1: "st1 = s"
    using assms w run r
    by (auto simp: planTick_def Let_def split: prod.split_asm sum.split_asm option.split_asm if_split_asm)
  obtain ag2 where "aggregatorTick (lo_aggregator opts) ?pool now ag = (Inr (Some pk), ag2)"
    using aggregatorTick_fst [of "lo_aggregator opts" ?pool now "lp_aggregator ls" ag] a by (metis fst_conv prod.collapse)
  then show "\<exists>ls2. planTick opts rc now ls1 st = (Inr (Inr pk), ls2, st)"
    using run w r s n unfolding ls1 by (simp add: planTick_def Let_def)
  show "st1 = st" "\<not> lp_permanentlyStopped ls1"
    using st1 s ls1 run by simp_all
qed

section \<open>What a settled tick leaves\<close>

lemma steps_batch_key:
  assumes "steps st st'" "k \<in> batch_key ` set (st_batches st)"
  shows "k \<in> batch_key ` set (st_batches st')"
proof -
  obtain b where b: "b \<in> set (st_batches st)" "k = batch_key b"
    using assms(2) by blast
  from steps_batches [OF assms(1) b(1)] obtain b' where b': "b' \<in> set (st_batches st')" "batch_keeps b b'"
    by blast
  then have "k = batch_key b'"
    using b(2) by (simp add: batch_keeps_def)
  then show ?thesis
    using b'(1) by (rule image_eqI)
qed

lemma recordEntry_row:
  assumes "recordEntry keccak opts outcome submittedAt entry st = Inr st'"
  shows "(lo_chainId opts, io_txHash outcome, en_contentTag entry) \<in> batch_key ` set (st_batches st')"
proof -
  from assms obtain snap st1 st2 reorged where
    a: "upsertBatch (confirmedBatch opts outcome submittedAt entry snap) st = Inr ((), st1)"
    "foldE (confirmMessage keccak (lo_chainId opts) outcome (en_contentTag entry)) (enumerate 0 (en_messages entry)) st1 = Inr st2"
    "foldE (chainReorged (map (\<lambda>e. toLowerCase (se_messageHash e)) snap) (io_txHash outcome)) reorged st2 = Inr st'"
    unfolding recordEntry_def Let_def ebind_Inr_iff by (auto simp del: foldE.simps)
  have "(lo_chainId opts, io_txHash outcome, en_contentTag entry) \<in> batch_key ` set (st_batches st1)"
    using upsertBatch_key [OF a(1)] by (simp add: confirmedBatch_def)
  moreover have "steps st1 st2"
    using foldE_steps [OF a(2)] confirmMessage_steps by blast
  moreover have "steps st2 st'"
    using foldE_steps [OF a(3)] chainReorged_steps by blast
  ultimately show ?thesis
    using steps_batch_key [of st1 st2] steps_batch_key [of st2 st'] by simp
qed

lemma settle_rows:
  assumes "settleTick keccak opts wc (Included outcome) submittedAt ls st = (Inr Success, ls', st')"
    and "entry \<in> set (io_entries outcome)"
  shows "(lo_chainId opts, io_txHash outcome, en_contentTag entry) \<in> batch_key ` set (st_batches st')" and "steps st st'"
proof -
  have r: "recordPack keccak opts outcome submittedAt st = Inr ((), st')"
  proof (cases "withTxn wc (recordPack keccak opts outcome submittedAt) st")
    case (Pair r s)
    then have "withTxn wc (recordPack keccak opts outcome submittedAt) st = (Inr (), st')"
      using assms(1) by (cases r) (auto simp: settleTick_def)
    then show ?thesis
      by (rule withTxn_Inr)
  qed
  then show "steps st st'"
    by (rule recordPack_steps)
  have f: "foldE (recordEntry keccak opts outcome submittedAt) (io_entries outcome) st = Inr st'"
    using r by (auto simp: recordPack_def)
  show "(lo_chainId opts, io_txHash outcome, en_contentTag entry) \<in> batch_key ` set (st_batches st')"
  proof (rule foldE_reaches [OF f assms(2), where I = "\<lambda>_. True"])
    show "(lo_chainId opts, io_txHash outcome, en_contentTag entry) \<in> batch_key ` set (st_batches s')"
      if "recordEntry keccak opts outcome submittedAt entry s = Inr s'" for s s'
      using recordEntry_row [OF that] .
  qed (use recordEntry_steps steps_batch_key in blast)+
qed


section \<open>A run in which both ticks land\<close>

definition second_included :: included_outcome where
  "second_included = sample_included\<lparr>io_txHash := ''0xty'', io_txIndex := 4\<rparr>"

lemma both_recorded:
  "\<exists>s1 s2. recordPack (\<lambda>_. zeros 32) sample_loop sample_included 20 loop_store = Inr ((), s1)
     \<and> recordPack (\<lambda>_. zeros 32) sample_loop second_included 21 s1 = Inr ((), s2)"
  by (simp add: recordPack_def sample_included_def second_included_def recordEntry_def sample_entry_def Let_def snapshotEntry_def loop_message_def
    pendingRowToDecoded_def loop_pending_def loop_messageId lift_message_def upsertBatch_def encodeMessageSnapshot_def
    loop_encNonce confirmedBatch_def raw_of_batch_def loop_store_def empty_store_def confirmMessage_def getBySenderNonce_def
    first_message_def msgs_at_def pending_raw_def mapMessage_def loop_decNonce upsertObserved_def confirmedRow_def raw_of_row_def
    reorgedBatches_def listBatches_def batch_matches_def limited_def opt_eq_def sample_loop_def del: encNonce_Inr)

lemma overlap_planned: "\<exists>pk ls1. planTick sample_loop (\<lambda>_. False) 9 (newLoop sample_loop) loop_store = (Inr (Inr pk), ls1, loop_store)"
proof -
  obtain pk ag where pk: "aggregatorTick (lo_aggregator sample_loop) (\<lambda>tag. case [loop_tag \<mapsto> [loop_message]] tag of None \<Rightarrow> [] | Some rows \<Rightarrow> rows) 9
     (lp_aggregator (newLoop sample_loop)) = (Inr (Some pk), ag)" "pp_included (pr_plan pk) \<noteq> []"
    using loop_pack by blast
  have "withTxn (\<lambda>_. False) (snapshotPools [loop_tag]) loop_store = (Inr [loop_tag \<mapsto> [loop_message]], loop_store)"
    using withTxn_ok [of 0 "\<lambda>_. False"] loop_snapshot by simp
  moreover have "ao_tags (lo_aggregator sample_loop) = [loop_tag]" "\<not> lp_permanentlyStopped (newLoop sample_loop)"
    by (simp_all add: sample_loop_def newLoop_def)
  ultimately show ?thesis
    using pk by (simp add: planTick_def del: fun_upd_apply)
qed


end
