(* ===== verification/JsText.thy ===== *)
theory JsText
  imports Prelude
begin

text \<open>
  The text and number conversions of the JavaScript runtime that the codecs use. A text is the
  list of its code points, a lone surrogate standing for itself; TextEncoder writes UTF-8 and
  replaces lone surrogates, TextDecoder with fatal reads it strictly and drops a leading byte
  order mark. Number of a bigint rounds to 53 significant bits, ties to even.
\<close>

type_synonym js_text = "nat list"

section \<open>UTF-8\<close>

definition scalar :: "nat \<Rightarrow> bool" where
  "scalar c \<longleftrightarrow> c < 0x110000 \<and> \<not> (0xD800 \<le> c \<and> c < 0xE000)"

definition utf8_char :: "nat \<Rightarrow> nat list" where
  "utf8_char c =
     (if c < 0x80 then [c]
      else if c < 0x800 then [0xC0 + c div 64, 0x80 + c mod 64]
      else if c < 0x10000 then [0xE0 + c div 4096, 0x80 + c div 64 mod 64, 0x80 + c mod 64]
      else [0xF0 + c div 262144, 0x80 + c div 4096 mod 64, 0x80 + c div 64 mod 64, 0x80 + c mod 64])"

definition usv :: "nat \<Rightarrow> nat" where
  "usv c = (if scalar c then c else 0xFFFD)"

definition textEncode :: "js_text \<Rightarrow> bytes" where
  "textEncode s = map of_nat (concat (map (utf8_char \<circ> usv) s))"

definition cont :: "nat \<Rightarrow> bool" where
  "cont b \<longleftrightarrow> 0x80 \<le> b \<and> b < 0xC0"

definition consO :: "'a \<Rightarrow> 'a list option \<Rightarrow> 'a list option" where
  "consO x xs = map_option ((#) x) xs"

fun utf8_read :: "nat list \<Rightarrow> js_text option" where
  "utf8_read [] = Some []"
| "utf8_read (b # bs) =
     (if b < 0x80 then consO b (utf8_read bs)
      else if b < 0xC2 then None
      else if b < 0xE0 then
        (case bs of
           c1 # r \<Rightarrow> if cont c1 then consO ((b - 0xC0) * 64 + (c1 - 0x80)) (utf8_read r) else None
         | _ \<Rightarrow> None)
      else if b < 0xF0 then
        (case bs of
           c1 # c2 # r \<Rightarrow>
             (let v = (b - 0xE0) * 4096 + (c1 - 0x80) * 64 + (c2 - 0x80)
              in if cont c1 \<and> cont c2 \<and> 0x800 \<le> v \<and> scalar v then consO v (utf8_read r) else None)
         | _ \<Rightarrow> None)
      else if b < 0xF5 then
        (case bs of
           c1 # c2 # c3 # r \<Rightarrow>
             (let v = (b - 0xF0) * 262144 + (c1 - 0x80) * 4096 + (c2 - 0x80) * 64 + (c3 - 0x80)
              in if cont c1 \<and> cont c2 \<and> cont c3 \<and> 0x10000 \<le> v \<and> scalar v then consO v (utf8_read r) else None)
         | _ \<Rightarrow> None)
      else None)"

definition stripBom :: "bytes \<Rightarrow> bytes" where
  "stripBom bs = (if take 3 bs = [0xEF, 0xBB, 0xBF] then drop 3 bs else bs)"

definition textDecode :: "bytes \<Rightarrow> js_text option" where
  "textDecode bs = utf8_read (map unat (stripBom bs))"

lemma consO_Some [simp]: "consO x (Some xs) = Some (x # xs)" "consO x None = None"
  by (simp_all add: consO_def)

lemma utf8_read_char:
  assumes "scalar c"
  shows "utf8_read (utf8_char c @ bs) = consO c (utf8_read bs)"
proof -
  have c: "c < 0x110000"
    using assms by (simp add: scalar_def)
  have d: "c div 64 = c div 4096 * 64 + c div 64 mod 64" "c = c div 64 * 64 + c mod 64"
    "c div 4096 = c div 262144 * 64 + c div 4096 mod 64"
    using div_mult_mod_eq [of "c div 64" 64] div_mult_mod_eq [of "c div 4096" 64] div_mult_mod_eq [of c 64]
    by (simp_all add: div_mult2_eq [of c 64 64, simplified] div_mult2_eq [of c 4096 64, simplified])
  consider "c < 0x80" | "0x80 \<le> c" "c < 0x800" | "0x800 \<le> c" "c < 0x10000" | "0x10000 \<le> c"
    by linarith
  then show ?thesis
  proof cases
    case 1
    then show ?thesis by (simp add: utf8_char_def)
  next
    case 2
    have q: "c div 64 < 32" "2 \<le> c div 64" "c mod 64 < 64"
      using 2 by (auto simp: div_less_iff_less_mult less_eq_div_iff_mult_less_eq)
    moreover have "utf8_char c = [0xC0 + c div 64, 0x80 + c mod 64]"
      using 2 by (simp add: utf8_char_def)
    moreover have "c div 64 * 64 + c mod 64 = c"
      by simp
    ultimately show ?thesis
      by (simp add: cont_def)
  next
    case 3
    have q: "c div 4096 < 16" "c div 64 mod 64 < 64" "c mod 64 < 64"
      using 3 by (auto simp: div_less_iff_less_mult)
    have v: "c div 4096 * 4096 + c div 64 mod 64 * 64 + c mod 64 = c"
      using d by linarith
    have "utf8_char c = [0xE0 + c div 4096, 0x80 + c div 64 mod 64, 0x80 + c mod 64]"
      using 3 by (simp add: utf8_char_def)
    then show ?thesis
      using q v assms 3(1) by (simp add: cont_def Let_def)
  next
    case 4
    have q: "c div 262144 < 5" "c div 4096 mod 64 < 64" "c div 64 mod 64 < 64" "c mod 64 < 64"
      using c by (auto simp: div_less_iff_less_mult)
    have v: "c div 262144 * 262144 + c div 4096 mod 64 * 4096 + c div 64 mod 64 * 64 + c mod 64 = c"
      using d by linarith
    have "utf8_char c = [0xF0 + c div 262144, 0x80 + c div 4096 mod 64, 0x80 + c div 64 mod 64, 0x80 + c mod 64]"
      using 4 by (simp add: utf8_char_def)
    then show ?thesis
      using q v assms 4 by (simp add: cont_def Let_def)
  qed
qed

lemma utf8_read_chars: "list_all scalar s \<Longrightarrow> utf8_read (concat (map utf8_char s)) = Some s"
  by (induction s) (simp_all add: utf8_read_char)

lemma utf8_char_bytes: "scalar c \<Longrightarrow> b \<in> set (utf8_char c) \<Longrightarrow> b < 256"
  by (auto simp: utf8_char_def scalar_def div_less_iff_less_mult split: if_split_asm)

lemma usv_scalar [simp]: "scalar (usv c)" "scalar c \<Longrightarrow> usv c = c"
  by (simp_all add: usv_def scalar_def)

lemma map_unat_of_nat: "list_all (\<lambda>n. n < 256) ns \<Longrightarrow> map unat (map of_nat ns :: bytes) = ns"
  by (induction ns) (simp_all add: unat_of_nat)

lemma textEncode_bytes: "map unat (textEncode s) = concat (map (utf8_char \<circ> usv) s)"
  unfolding textEncode_def
  by (rule map_unat_of_nat) (auto simp: list_all_iff intro: utf8_char_bytes [OF usv_scalar(1)])

lemma utf8_read_encoded: "utf8_read (map unat (textEncode s)) = Some (map usv s)"
  using utf8_read_chars [of "map usv s"] by (simp add: textEncode_bytes list_all_iff comp_def)

lemma textDecode_Encode:
  assumes "list_all scalar s" "take 3 (textEncode s) \<noteq> [0xEF, 0xBB, 0xBF]"
  shows "textDecode (textEncode s) = Some s"
proof -
  have "map usv s = s"
    using assms(1) by (simp add: list_all_iff map_idI)
  then show ?thesis
    using assms(2) by (simp add: textDecode_def stripBom_def utf8_read_encoded)
qed

lemma textDecode_bom: "textDecode (textEncode (0xFEFF # s)) = Some (map usv s)"
proof -
  have "textEncode (0xFEFF # s) = [0xEF, 0xBB, 0xBF] @ textEncode s"
    by (simp add: textEncode_def usv_def scalar_def utf8_char_def)
  then show ?thesis
    by (simp add: textDecode_def stripBom_def utf8_read_encoded)
qed

lemma bom_bytes: "map unat ([0xEF, 0xBB, 0xBF] :: bytes) = [0xEF, 0xBB, 0xBF]"
  by simp

text \<open>Only the byte order mark itself begins with those three bytes.\<close>

lemma textEncode_no_bom:
  assumes "list_all scalar s" "take 1 s \<noteq> [0xFEFF]"
  shows "take 3 (textEncode s) \<noteq> [0xEF, 0xBB, 0xBF]"
proof
  assume a: "take 3 (textEncode s) = [0xEF, 0xBB, 0xBF]"
  then have "textEncode s = [0xEF, 0xBB, 0xBF] @ drop 3 (textEncode s)"
    by (metis append_take_drop_id)
  then have "map unat (textEncode s) = [0xEF, 0xBB, 0xBF] @ map unat (drop 3 (textEncode s))"
    by (metis bom_bytes map_append)
  then have "utf8_read ([0xEF, 0xBB, 0xBF] @ map unat (drop 3 (textEncode s))) = Some (map usv s)"
    using utf8_read_encoded [of s] by simp
  then obtain r where "map usv s = 0xFEFF # r"
    by (auto simp: cont_def scalar_def consO_def)
  then show False
    using assms by (cases s) auto
qed

section \<open>Number of a bigint\<close>

definition round_shift :: "nat \<Rightarrow> nat \<Rightarrow> nat" where
  "round_shift k n =
     (let q = n div 2 ^ k; r = n mod 2 ^ k in
      if 2 * r < 2 ^ k then q else if 2 ^ k < 2 * r then q + 1 else if even q then q else q + 1)"

fun excess_bits :: "nat \<Rightarrow> nat" where
  "excess_bits n = (if n < 2 ^ 53 then 0 else Suc (excess_bits (n div 2)))"

declare excess_bits.simps [simp del]

definition Number_of_bigint :: "nat \<Rightarrow> nat" where
  "Number_of_bigint n = (let k = excess_bits n in round_shift k n * 2 ^ k)"

lemma Number_of_bigint_exact: "n < 2 ^ 53 \<Longrightarrow> Number_of_bigint n = n"
  by (simp add: Number_of_bigint_def excess_bits.simps [of n] round_shift_def)

lemma Number_of_bigint_near:
  "2 * Number_of_bigint n \<le> 2 * n + 2 ^ excess_bits n" "2 * n \<le> 2 * Number_of_bigint n + 2 ^ excess_bits n"
proof -
  define p :: nat where "p = 2 ^ excess_bits n"
  have n: "n = n div p * p + n mod p" and r: "n mod p < p"
    unfolding p_def by (rule div_mult_mod_eq [symmetric], simp)
  have "Number_of_bigint n = (if 2 * (n mod p) < p then n div p * p
      else if p < 2 * (n mod p) then n div p * p + p else if even (n div p) then n div p * p else n div p * p + p)"
    by (simp add: Number_of_bigint_def round_shift_def Let_def p_def [symmetric])
  then have "Number_of_bigint n = n div p * p \<and> 2 * (n mod p) \<le> p \<or> Number_of_bigint n = n div p * p + p \<and> p \<le> 2 * (n mod p)"
    by (auto split: if_split_asm)
  then show "2 * Number_of_bigint n \<le> 2 * n + 2 ^ excess_bits n" "2 * n \<le> 2 * Number_of_bigint n + 2 ^ excess_bits n"
    using n r unfolding p_def [symmetric] by linarith+
qed

end
