(* ===== verification/ContentCodecs.thy ===== *)
theory ContentCodecs
  imports BatchCodec JsText
begin

text \<open>
  The application codecs of the SDK that fill a message's contents: post and reply
  (packages/bam-sdk/src/post-reply/index.ts) and the forum's post, reply and like
  (packages/bam-sdk/src/forum/index.ts), with every range check of the encoders and every
  bounds check of the decoders. A timestamp of post-reply is a JavaScript number with an
  integer value; one of the forum is a bigint.
\<close>

datatype codec_error =
    TimestampRange int
  | TextTooLong
  | BadHash
  | HashLength
  | TagTooLong
  | PayloadTooShort
  | UnsupportedVersion nat
  | UnknownKind nat
  | RunsPastBuffer
  | BadUtf8

definition textOf :: "bytes \<Rightarrow> codec_error + js_text" where
  "textOf bs = (case textDecode bs of None \<Rightarrow> Inl BadUtf8 | Some s \<Rightarrow> Inr s)"

definition hashOf :: "string \<Rightarrow> codec_error + bytes" where
  "hashOf h = (case hexToBytes h of
      Inl _ \<Rightarrow> Inl BadHash
    | Inr bs \<Rightarrow> if length bs \<noteq> 32 then Inl HashLength else Inr bs)"

section \<open>Post and reply\<close>

datatype post_reply =
    Post int js_text
  | Reply int string js_text

definition ENVELOPE_VERSION :: byte where "ENVELOPE_VERSION = 1"
definition KIND_POST :: byte where "KIND_POST = 0"
definition KIND_REPLY :: byte where "KIND_REPLY = 1"

fun pr_timestamp :: "post_reply \<Rightarrow> int" where
  "pr_timestamp (Post t _) = t" | "pr_timestamp (Reply t _ _) = t"

fun pr_content :: "post_reply \<Rightarrow> js_text" where
  "pr_content (Post _ c) = c" | "pr_content (Reply _ _ c) = c"

definition encodePostReplyContents :: "post_reply \<Rightarrow> codec_error + bytes" where
  "encodePostReplyContents msg =
     (let t = pr_timestamp msg; contentBytes = textEncode (pr_content msg) in
      if t < 0 \<or> t > 0xffffffffffff then Inl (TimestampRange t)
      else if length contentBytes > 0xffffffff then Inl TextTooLong
      else case msg of
        Post _ _ \<Rightarrow>
          (let b0 = zeros (14 + length contentBytes);
               b1 = uset (uset b0 [ENVELOPE_VERSION] 0) [KIND_POST] 1;
               b2 = writeU64BE b1 2 t;
               b3 = writeU32BE b2 10 (length contentBytes)
           in Inr (uset b3 contentBytes 14))
      | Reply _ parentMessageHash _ \<Rightarrow>
          ebind (hashOf parentMessageHash) (\<lambda>parent.
            let b0 = zeros (46 + length contentBytes);
                b1 = uset (uset b0 [ENVELOPE_VERSION] 0) [KIND_REPLY] 1;
                b2 = writeU64BE b1 2 t;
                b3 = uset b2 parent 10;
                b4 = writeU32BE b3 42 (length contentBytes)
            in Inr (uset b4 contentBytes 46)))"

definition decodePostReplyContents :: "bytes \<Rightarrow> codec_error + post_reply" where
  "decodePostReplyContents contents =
     (if length contents < 2 then Inl PayloadTooShort
      else let version = contents ! 0; kind = contents ! 1 in
        if version \<noteq> ENVELOPE_VERSION then Inl (UnsupportedVersion (unat version))
        else if kind = KIND_POST then
          (if length contents < 14 then Inl PayloadTooShort
           else let timestamp = int (Number_of_bigint (nat (readU64BE contents 2)));
                    contentLen = readU32BE contents 10
                in if 14 + contentLen > length contents then Inl RunsPastBuffer
                   else ebind (textOf (slice contents 14 (14 + contentLen))) (\<lambda>content. Inr (Post timestamp content)))
        else if kind = KIND_REPLY then
          (if length contents < 46 then Inl PayloadTooShort
           else let timestamp = int (Number_of_bigint (nat (readU64BE contents 2)));
                    parentMessageHash = bytesToHex (slice contents 10 42);
                    contentLen = readU32BE contents 42
                in if 46 + contentLen > length contents then Inl RunsPastBuffer
                   else ebind (textOf (slice contents 46 (46 + contentLen))) (\<lambda>content. Inr (Reply timestamp parentMessageHash content)))
        else Inl (UnknownKind (unat kind)))"

section \<open>Forum\<close>

datatype forum_payload =
    ForumPost int bytes js_text js_text
  | ForumReply int string js_text
  | ForumLike int string

definition KIND_LIKE :: byte where "KIND_LIKE = 2"
definition VERSION_POST :: byte where "VERSION_POST = 2"
definition VERSION_REPLY :: byte where "VERSION_REPLY = 1"
definition VERSION_LIKE :: byte where "VERSION_LIKE = 1"
definition MAX_TAG_LEN :: nat where "MAX_TAG_LEN = 32"

fun fp_timestamp :: "forum_payload \<Rightarrow> int" where
  "fp_timestamp (ForumPost t _ _ _) = t" | "fp_timestamp (ForumReply t _ _) = t" | "fp_timestamp (ForumLike t _) = t"

definition encodeForumContents :: "forum_payload \<Rightarrow> codec_error + bytes" where
  "encodeForumContents payload =
     (let t = fp_timestamp payload in
      if t < 0 \<or> t > 0xffffffffffffffff then Inl (TimestampRange t)
      else case payload of
        ForumPost _ tag title body \<Rightarrow>
          (if length tag > MAX_TAG_LEN then Inl TagTooLong
           else let titleBytes = textEncode title; bodyBytes = textEncode body in
             if length titleBytes > 0xffffffff then Inl TextTooLong
             else if length bodyBytes > 0xffffffff then Inl TextTooLong
             else let o1 = 11 + length tag; o2 = o1 + 4 + length titleBytes;
                      b0 = zeros (2 + 8 + 1 + length tag + 4 + length titleBytes + 4 + length bodyBytes);
                      b1 = uset (uset b0 [VERSION_POST] 0) [KIND_POST] 1;
                      b2 = writeU64BE b1 2 t;
                      b3 = uset (uset b2 [of_nat (length tag)] 10) tag 11;
                      b4 = uset (writeU32BE b3 o1 (length titleBytes)) titleBytes (o1 + 4)
                  in Inr (uset (writeU32BE b4 o2 (length bodyBytes)) bodyBytes (o2 + 4)))
      | ForumReply _ parentMessageHash body \<Rightarrow>
          ebind (hashOf parentMessageHash) (\<lambda>parent.
            let bodyBytes = textEncode body in
            if length bodyBytes > 0xffffffff then Inl TextTooLong
            else let b0 = zeros (46 + length bodyBytes);
                     b1 = uset (uset b0 [VERSION_REPLY] 0) [KIND_REPLY] 1;
                     b2 = uset (writeU64BE b1 2 t) parent 10
                 in Inr (uset (writeU32BE b2 42 (length bodyBytes)) bodyBytes 46))
      | ForumLike _ targetMessageHash \<Rightarrow>
          ebind (hashOf targetMessageHash) (\<lambda>target.
            let b1 = uset (uset (zeros 42) [VERSION_LIKE] 0) [KIND_LIKE] 1
            in Inr (uset (writeU64BE b1 2 t) target 10)))"

definition decodeForumContents :: "bytes \<Rightarrow> codec_error + forum_payload" where
  "decodeForumContents bs =
     (if length bs < 2 then Inl PayloadTooShort
      else let version = bs ! 0; kind = bs ! 1 in
        if version = VERSION_POST \<and> kind = KIND_POST then
          (if length bs < 11 then Inl PayloadTooShort
           else let timestamp = readU64BE bs 2; tagLen = unat (bs ! 10) in
             if tagLen > MAX_TAG_LEN then Inl TagTooLong
             else if 11 + tagLen > length bs then Inl RunsPastBuffer
             else let tag = slice bs 11 (11 + tagLen); o1 = 11 + tagLen in
               if o1 + 4 > length bs then Inl RunsPastBuffer
               else let titleLen = readU32BE bs o1; o2 = o1 + 4 in
                 if o2 + titleLen > length bs then Inl RunsPastBuffer
                 else ebind (textOf (slice bs o2 (o2 + titleLen))) (\<lambda>title.
                   let o3 = o2 + titleLen in
                   if o3 + 4 > length bs then Inl RunsPastBuffer
                   else let bodyLen = readU32BE bs o3; o4 = o3 + 4 in
                     if o4 + bodyLen > length bs then Inl RunsPastBuffer
                     else ebind (textOf (slice bs o4 (o4 + bodyLen))) (\<lambda>body.
                       Inr (ForumPost timestamp tag title body))))
        else if version = VERSION_REPLY \<and> kind = KIND_REPLY then
          (if length bs < 46 then Inl PayloadTooShort
           else let bodyLen = readU32BE bs 42 in
             if 46 + bodyLen > length bs then Inl RunsPastBuffer
             else ebind (textOf (slice bs 46 (46 + bodyLen))) (\<lambda>body.
               Inr (ForumReply (readU64BE bs 2) (bytesToHex (slice bs 10 42)) body)))
        else if version = VERSION_LIKE \<and> kind = KIND_LIKE then
          (if length bs < 42 then Inl PayloadTooShort
           else Inr (ForumLike (readU64BE bs 2) (bytesToHex (slice bs 10 42))))
        else Inl (UnknownKind (unat kind)))"

lemmas codec_consts =
  ENVELOPE_VERSION_def KIND_POST_def KIND_REPLY_def KIND_LIKE_def VERSION_POST_def VERSION_REPLY_def VERSION_LIKE_def MAX_TAG_LEN_def

section \<open>Layouts\<close>

text \<open>A text survives the codecs when it is well formed and does not start with a byte order mark.\<close>

definition plain_text :: "js_text \<Rightarrow> bool" where
  "plain_text s \<longleftrightarrow> list_all scalar s \<and> take 1 s \<noteq> [0xFEFF]"

lemma textOf_Encode: "plain_text s \<Longrightarrow> textOf (textEncode s) = Inr s"
  using textDecode_Encode textEncode_no_bom by (simp add: textOf_def plain_text_def)

lemma hashOf_Inr: "hashOf h = Inr bs \<longleftrightarrow> hexToBytes h = Inr bs \<and> length bs = 32"
  by (auto simp: hashOf_def split: sum.splits)

lemma envelope_fill:
  "2 \<le> n \<Longrightarrow> uset (uset (zeros n) [a] 0) [b] 1 = [a, b] @ zeros (n - 2)"
  using uset_fill_0 [of n "[a]"] uset_fill [of "[a]" 1 "n - 1" "[b]"] by (simp add: numeral_2_eq_2)

lemma stamped_fill:
  assumes "uint64 t" "10 \<le> n"
  shows "writeU64BE (uset (uset (zeros n) [a] 0) [b] 1) 2 t = ([a, b] @ be 8 (nat t)) @ zeros (n - 10)"
  using assms envelope_fill [of n a b] writeU64BE_fill [of t "[a, b]" 2 "n - 2"] by simp

lemma framed_text:
  assumes "length xs = off" "length txt \<le> 0xffffffff"
  shows "uset (writeU32BE (xs @ zeros (4 + length txt + k)) off (length txt)) txt (off + 4)
     = (xs @ be 4 (length txt) @ txt) @ zeros k"
proof -
  have "writeU32BE (xs @ zeros (4 + length txt + k)) off (length txt) = (xs @ be 4 (length txt)) @ zeros (length txt + k)"
    using writeU32BE_fill [OF assms(1), of "4 + length txt + k"] by simp
  then show ?thesis
    using assms(1) uset_fill [of "xs @ be 4 (length txt)" "off + 4" "length txt + k" "txt"] by simp
qed

lemma encode_post:
  assumes "encodePostReplyContents (Post t c) = Inr bs"
  shows "0 \<le> t" "t \<le> 0xffffffffffff" "length (textEncode c) \<le> 0xffffffff"
    "bs = [ENVELOPE_VERSION, KIND_POST] @ be 8 (nat t) @ be 4 (length (textEncode c)) @ textEncode c"
proof -
  show r: "0 \<le> t" "t \<le> 0xffffffffffff" and l: "length (textEncode c) \<le> 0xffffffff"
    using assms by (auto simp: encodePostReplyContents_def Let_def split: if_split_asm)
  then have "uint64 t"
    by (simp add: uint64_def uint64_max_def)
  from stamped_fill [OF this, of "14 + length (textEncode c)" ENVELOPE_VERSION KIND_POST]
  show "bs = [ENVELOPE_VERSION, KIND_POST] @ be 8 (nat t) @ be 4 (length (textEncode c)) @ textEncode c"
    using assms r l framed_text [of "[ENVELOPE_VERSION, KIND_POST] @ be 8 (nat t)" 10 "textEncode c" 0]
    by (simp add: encodePostReplyContents_def Let_def)
qed

lemma encode_reply:
  assumes "encodePostReplyContents (Reply t h c) = Inr bs"
  shows "0 \<le> t" "t \<le> 0xffffffffffff" "length (textEncode c) \<le> 0xffffffff"
    "\<exists>p. hexToBytes h = Inr p \<and> length p = 32
       \<and> bs = [ENVELOPE_VERSION, KIND_REPLY] @ be 8 (nat t) @ p @ be 4 (length (textEncode c)) @ textEncode c"
proof -
  show r: "0 \<le> t" "t \<le> 0xffffffffffff" and l: "length (textEncode c) \<le> 0xffffffff"
    using assms by (auto simp: encodePostReplyContents_def Let_def split: if_split_asm)
  obtain p where p: "hexToBytes h = Inr p" "length p = 32"
    using assms by (auto simp: encodePostReplyContents_def Let_def hashOf_Inr split: if_split_asm)
  let ?n = "length (textEncode c)"
  have "uint64 t"
    using r by (simp add: uint64_def uint64_max_def)
  note stamp = stamped_fill [OF this, of "46 + ?n" ENVELOPE_VERSION KIND_REPLY]
  have par: "uset (([ENVELOPE_VERSION, KIND_REPLY] @ be 8 (nat t)) @ zeros (36 + ?n)) p 10
      = ([ENVELOPE_VERSION, KIND_REPLY] @ be 8 (nat t) @ p) @ zeros (4 + ?n)"
    using p(2) uset_fill [of "[ENVELOPE_VERSION, KIND_REPLY] @ be 8 (nat t)" 10 "36 + ?n" p] by simp
  have "bs = [ENVELOPE_VERSION, KIND_REPLY] @ be 8 (nat t) @ p @ be 4 ?n @ textEncode c"
    using assms r l stamp par framed_text [of "[ENVELOPE_VERSION, KIND_REPLY] @ be 8 (nat t) @ p" 42 "textEncode c" 0] p
    by (simp add: encodePostReplyContents_def Let_def hashOf_def)
  with p show "\<exists>p. hexToBytes h = Inr p \<and> length p = 32
       \<and> bs = [ENVELOPE_VERSION, KIND_REPLY] @ be 8 (nat t) @ p @ be 4 ?n @ textEncode c"
    by blast
qed

lemma read_stamp:
  assumes "0 \<le> t" "t < 256 ^ 8"
  shows "readU64BE ([a, b] @ be 8 (nat t) @ rest) 2 = t"
proof -
  have "slice ([a, b] @ be 8 (nat t) @ rest) 2 10 = be 8 (nat t)"
    by (simp add: slice_def numeral_2_eq_2 [symmetric])
  then show ?thesis
    using assms by (subst readU64BE_eq) (simp_all add: nat_less_iff)
qed

lemma read_len:
  assumes "length xs = off" "n \<le> 0xffffffff"
  shows "readU32BE (xs @ be 4 n @ rest) off = n"
proof -
  have "slice (xs @ be 4 n @ rest) off (off + 4) = be 4 n"
    using assms(1) by (simp add: slice_def)
  then show ?thesis
    using assms by (subst readU32BE_eq) simp_all
qed

text \<open>The message as the decoder writes it: hashes in lower case with the prefix.\<close>

definition canonical_hash :: "string \<Rightarrow> string" where
  "canonical_hash h = ''0x'' @ toLowerCase (strip0x h)"

fun canonical_post_reply :: "post_reply \<Rightarrow> post_reply" where
  "canonical_post_reply (Post t c) = Post t c"
| "canonical_post_reply (Reply t h c) = Reply t (canonical_hash h) c"

fun canonical_forum :: "forum_payload \<Rightarrow> forum_payload" where
  "canonical_forum (ForumPost t tag title body) = ForumPost t tag title body"
| "canonical_forum (ForumReply t h body) = ForumReply t (canonical_hash h) body"
| "canonical_forum (ForumLike t h) = ForumLike t (canonical_hash h)"

lemma canonical_hash_eq: "hexToBytes h = Inr p \<Longrightarrow> canonical_hash h = bytesToHex p"
  by (simp add: canonical_hash_def hexToBytes_canonical)

lemma timestamp_exact: "0 \<le> t \<Longrightarrow> t \<le> 0xffffffffffff \<Longrightarrow> int (Number_of_bigint (nat t)) = t"
  by (subst Number_of_bigint_exact) simp_all

text \<open>
  Post and reply contents round-trip: whatever encodePostReplyContents writes, decodePostReplyContents reads back as the same message with the parent hash in canonical case, even with bytes appended, provided the text is well-formed Unicode that does not start with a byte order mark.
\<close>

theorem post_reply_roundtrip:
  assumes "encodePostReplyContents msg = Inr bs" "plain_text (pr_content msg)"
  shows "decodePostReplyContents (bs @ trailing) = Inr (canonical_post_reply msg)"
proof (cases msg)
  case (Post t c)
  note e = encode_post [OF assms(1) [unfolded Post]]
  let ?h = "[ENVELOPE_VERSION, KIND_POST] @ be 8 (nat t)"
  have bs: "bs @ trailing = ?h @ be 4 (length (textEncode c)) @ textEncode c @ trailing"
    using e(4) by simp
  have "readU64BE (bs @ trailing) 2 = t"
    using read_stamp [of t] e(1,2) unfolding bs by simp
  moreover have "readU32BE (bs @ trailing) 10 = length (textEncode c)"
    unfolding bs by (rule read_len) (use e(3) in simp_all)
  moreover have "slice (bs @ trailing) 14 (14 + length (textEncode c)) = textEncode c"
    using e(4) by (simp add: slice_def)
  moreover have "length (bs @ trailing) = 14 + length (textEncode c) + length trailing"
      "(bs @ trailing) ! 0 = ENVELOPE_VERSION" "(bs @ trailing) ! 1 = KIND_POST"
    using e(4) by simp_all
  ultimately show ?thesis
    using textOf_Encode [of c] assms(2) timestamp_exact [OF e(1,2)] Post by (simp add: decodePostReplyContents_def Let_def)
next
  case (Reply t h c)
  note e = encode_reply [OF assms(1) [unfolded Reply]]
  obtain p where p: "hexToBytes h = Inr p" "length p = 32"
      and b: "bs = [ENVELOPE_VERSION, KIND_REPLY] @ be 8 (nat t) @ p @ be 4 (length (textEncode c)) @ textEncode c"
    using e(4) by blast
  have bs: "bs @ trailing = ([ENVELOPE_VERSION, KIND_REPLY] @ be 8 (nat t) @ p) @ be 4 (length (textEncode c)) @ textEncode c @ trailing"
    using b by simp
  have "readU64BE (bs @ trailing) 2 = t"
    using read_stamp [of t] e(1,2) unfolding b by simp
  moreover have "readU32BE (bs @ trailing) 42 = length (textEncode c)"
    unfolding bs by (rule read_len) (use e(3) p in simp_all)
  moreover have "slice (bs @ trailing) 46 (46 + length (textEncode c)) = textEncode c" "slice (bs @ trailing) 10 42 = p"
    using b p by (simp_all add: slice_def)
  moreover have "length (bs @ trailing) = 46 + length (textEncode c) + length trailing"
      "(bs @ trailing) ! 0 = ENVELOPE_VERSION" "(bs @ trailing) ! 1 = KIND_REPLY" "KIND_REPLY \<noteq> KIND_POST"
    using b p by (simp_all add: codec_consts)
  ultimately show ?thesis
    using textOf_Encode [of c] assms(2) timestamp_exact [OF e(1,2)] Reply canonical_hash_eq [OF p(1)]
    by (simp add: decodePostReplyContents_def Let_def)
qed

section \<open>Forum\<close>

lemma tag_fill:
  assumes "length h = 10"
  shows "uset (uset (h @ zeros (1 + length tag + k)) [x] 10) tag 11 = (h @ [x] @ tag) @ zeros k"
proof -
  have "uset (h @ zeros (1 + length tag + k)) [x] 10 = (h @ [x]) @ zeros (length tag + k)"
    using uset_fill [OF assms, of "1 + length tag + k" "[x]"] by simp
  then show ?thesis
    using assms uset_fill [of "h @ [x]" 11 "length tag + k" tag] by simp
qed

lemma encode_forum_post:
  assumes "encodeForumContents (ForumPost t tag title body) = Inr bs"
  shows "0 \<le> t" "t < 256 ^ 8" "length tag \<le> 32" "length (textEncode title) \<le> 0xffffffff" "length (textEncode body) \<le> 0xffffffff"
    "bs = [VERSION_POST, KIND_POST] @ be 8 (nat t) @ [of_nat (length tag)] @ tag
       @ be 4 (length (textEncode title)) @ textEncode title @ be 4 (length (textEncode body)) @ textEncode body"
proof -
  show r: "0 \<le> t" "t < 256 ^ 8" and g: "length tag \<le> 32"
      and l: "length (textEncode title) \<le> 0xffffffff" "length (textEncode body) \<le> 0xffffffff"
    using assms by (auto simp: encodeForumContents_def Let_def MAX_TAG_LEN_def split: if_split_asm)
  let ?h = "[VERSION_POST, KIND_POST] @ be 8 (nat t)"
  let ?n1 = "length (textEncode title)" and ?n2 = "length (textEncode body)" and ?g = "length tag"
  have "uint64 t"
    using r by (simp add: uint64_def uint64_max_def)
  from stamped_fill [OF this, of "2 + 8 + 1 + ?g + 4 + ?n1 + 4 + ?n2" VERSION_POST KIND_POST]
  have b2: "writeU64BE (uset (uset (zeros (2 + 8 + 1 + ?g + 4 + ?n1 + 4 + ?n2)) [VERSION_POST] 0) [KIND_POST] 1) 2 t
      = ?h @ zeros (1 + ?g + (4 + ?n1 + (4 + ?n2)))"
    by (simp add: add.assoc)
  have b3: "uset (uset (?h @ zeros (1 + ?g + (4 + ?n1 + (4 + ?n2)))) [of_nat ?g] 10) tag 11
      = (?h @ [of_nat ?g] @ tag) @ zeros (4 + ?n1 + (4 + ?n2))"
    by (rule tag_fill) simp
  have b4: "uset (writeU32BE ((?h @ [of_nat ?g] @ tag) @ zeros (4 + ?n1 + (4 + ?n2))) (11 + ?g) ?n1) (textEncode title) (11 + ?g + 4)
      = (?h @ [of_nat ?g] @ tag @ be 4 ?n1 @ textEncode title) @ zeros (4 + ?n2 + 0)"
    using framed_text [of "?h @ [of_nat ?g] @ tag" "11 + ?g" "textEncode title" "4 + ?n2"] l(1) by simp
  have b5: "uset (writeU32BE ((?h @ [of_nat ?g] @ tag @ be 4 ?n1 @ textEncode title) @ zeros (4 + ?n2 + 0)) (11 + ?g + 4 + ?n1) ?n2)
        (textEncode body) (11 + ?g + 4 + ?n1 + 4)
      = ?h @ [of_nat ?g] @ tag @ be 4 ?n1 @ textEncode title @ be 4 ?n2 @ textEncode body"
    using framed_text [of "?h @ [of_nat ?g] @ tag @ be 4 ?n1 @ textEncode title" "11 + ?g + 4 + ?n1" "textEncode body" 0] l(2) by simp
  have "bs = uset (writeU32BE (uset (writeU32BE (uset (uset (writeU64BE (uset (uset (zeros (2 + 8 + 1 + ?g + 4 + ?n1 + 4 + ?n2)) [VERSION_POST] 0)
      [KIND_POST] 1) 2 t) [of_nat ?g] 10) tag 11) (11 + ?g) ?n1) (textEncode title) (11 + ?g + 4)) (11 + ?g + 4 + ?n1) ?n2)
      (textEncode body) (11 + ?g + 4 + ?n1 + 4)"
    using assms by (auto simp: encodeForumContents_def Let_def split: if_split_asm)
  then show "bs = [VERSION_POST, KIND_POST] @ be 8 (nat t) @ [of_nat ?g] @ tag @ be 4 ?n1 @ textEncode title @ be 4 ?n2 @ textEncode body"
    unfolding b2 b3 b4 b5 by simp
qed

lemma slice_mid: "length xs = off \<Longrightarrow> length mid = n \<Longrightarrow> slice (xs @ mid @ ys) off (off + n) = mid"
  by (simp add: slice_def)

lemma encode_forum_reply:
  assumes "encodeForumContents (ForumReply t h body) = Inr bs"
  shows "0 \<le> t" "t < 256 ^ 8" "length (textEncode body) \<le> 0xffffffff"
    "\<exists>p. hexToBytes h = Inr p \<and> length p = 32
       \<and> bs = [VERSION_REPLY, KIND_REPLY] @ be 8 (nat t) @ p @ be 4 (length (textEncode body)) @ textEncode body"
proof -
  let ?n = "length (textEncode body)"
  show r: "0 \<le> t" "t < 256 ^ 8" and l: "?n \<le> 0xffffffff"
    using assms by (auto simp: encodeForumContents_def Let_def split: if_split_asm)
  obtain p where p: "hexToBytes h = Inr p" "length p = 32"
    using assms by (auto simp: encodeForumContents_def Let_def hashOf_Inr split: if_split_asm)
  let ?h = "[VERSION_REPLY, KIND_REPLY] @ be 8 (nat t)"
  have "uint64 t"
    using r by (simp add: uint64_def uint64_max_def)
  note stamp = stamped_fill [OF this, of "46 + ?n" VERSION_REPLY KIND_REPLY]
  have par: "uset (?h @ zeros (36 + ?n)) p 10 = (?h @ p) @ zeros (4 + ?n)"
    using p(2) uset_fill [of ?h 10 "36 + ?n" p] by simp
  have "bs = ?h @ p @ be 4 ?n @ textEncode body"
    using assms r l stamp par framed_text [of "?h @ p" 42 "textEncode body" 0] p
    by (simp add: encodeForumContents_def Let_def hashOf_def)
  with p show "\<exists>p. hexToBytes h = Inr p \<and> length p = 32
       \<and> bs = [VERSION_REPLY, KIND_REPLY] @ be 8 (nat t) @ p @ be 4 ?n @ textEncode body"
    by auto
qed

lemma encode_forum_like:
  assumes "encodeForumContents (ForumLike t h) = Inr bs"
  shows "0 \<le> t" "t < 256 ^ 8"
    "\<exists>p. hexToBytes h = Inr p \<and> length p = 32 \<and> bs = [VERSION_LIKE, KIND_LIKE] @ be 8 (nat t) @ p"
proof -
  show r: "0 \<le> t" "t < 256 ^ 8"
    using assms by (auto simp: encodeForumContents_def Let_def split: if_split_asm)
  obtain p where p: "hexToBytes h = Inr p" "length p = 32"
    using assms by (auto simp: encodeForumContents_def Let_def hashOf_Inr split: if_split_asm)
  have "uint64 t"
    using r by (simp add: uint64_def uint64_max_def)
  note stamp = stamped_fill [OF this, of 42 VERSION_LIKE KIND_LIKE]
  have "uset (([VERSION_LIKE, KIND_LIKE] @ be 8 (nat t)) @ zeros 32) p 10 = [VERSION_LIKE, KIND_LIKE] @ be 8 (nat t) @ p"
    using p(2) uset_fill [of "[VERSION_LIKE, KIND_LIKE] @ be 8 (nat t)" 10 32 p] by simp
  then have "bs = [VERSION_LIKE, KIND_LIKE] @ be 8 (nat t) @ p"
    using assms r stamp p by (simp add: encodeForumContents_def Let_def hashOf_def)
  with p show "\<exists>p. hexToBytes h = Inr p \<and> length p = 32 \<and> bs = [VERSION_LIKE, KIND_LIKE] @ be 8 (nat t) @ p"
    by blast
qed

fun forum_text_ok :: "forum_payload \<Rightarrow> bool" where
  "forum_text_ok (ForumPost _ _ title body) = (plain_text title \<and> plain_text body)"
| "forum_text_ok (ForumReply _ _ body) = plain_text body"
| "forum_text_ok (ForumLike _ _) = True"

text \<open>
  Forum contents round-trip: whatever encodeForumContents writes for a post, a reply or a like, decodeForumContents reads back as the same payload with hashes in canonical case, even with bytes appended, provided the texts are well-formed Unicode that do not start with a byte order mark; the freetext tag survives as raw bytes whatever they are.
\<close>

theorem forum_roundtrip:
  assumes "encodeForumContents payload = Inr bs" "forum_text_ok payload"
  shows "decodeForumContents (bs @ trailing) = Inr (canonical_forum payload)"
proof (cases payload)
  case (ForumPost t tag title body)
  note e = encode_forum_post [OF assms(1) [unfolded ForumPost]]
  let ?h = "[VERSION_POST, KIND_POST] @ be 8 (nat t)"
  let ?n1 = "length (textEncode title)" and ?n2 = "length (textEncode body)" and ?g = "length tag"
  let ?bs = "bs @ trailing"
  have g: "unat (of_nat ?g :: byte) = ?g"
    using e(3) by (simp add: unat_byte_of_nat)
  have "readU64BE ?bs 2 = t"
    using read_stamp [of t] e(1,2) unfolding e(6) by simp
  moreover have "readU32BE ?bs (11 + ?g) = ?n1"
    using read_len [of "?h @ [of_nat ?g] @ tag" "11 + ?g" ?n1] e(4) unfolding e(6) by simp
  moreover have "readU32BE ?bs (11 + ?g + 4 + ?n1) = ?n2"
    using read_len [of "?h @ [of_nat ?g] @ tag @ be 4 ?n1 @ textEncode title" "11 + ?g + 4 + ?n1" ?n2] e(5) unfolding e(6) by simp
  moreover have "slice ?bs 11 (11 + ?g) = tag" "slice ?bs (11 + ?g + 4) (11 + ?g + 4 + ?n1) = textEncode title"
      "slice ?bs (11 + ?g + 4 + ?n1 + 4) (11 + ?g + 4 + ?n1 + 4 + ?n2) = textEncode body"
    using slice_mid [of "?h @ [of_nat ?g]" 11 tag ?g] slice_mid [of "?h @ [of_nat ?g] @ tag @ be 4 ?n1" "11 + ?g + 4" "textEncode title" ?n1]
      slice_mid [of "?h @ [of_nat ?g] @ tag @ be 4 ?n1 @ textEncode title @ be 4 ?n2" "11 + ?g + 4 + ?n1 + 4" "textEncode body" ?n2]
    unfolding e(6) by simp_all
  moreover have "length ?bs = 11 + ?g + 4 + ?n1 + 4 + ?n2 + length trailing" "?bs ! 0 = VERSION_POST" "?bs ! 1 = KIND_POST"
      "?bs ! 10 = of_nat ?g"
    unfolding e(6) by (simp_all add: nth_append nth_Cons')
  ultimately show ?thesis
    using textOf_Encode [of title] textOf_Encode [of body] assms(2) ForumPost e(3) g
    by (simp add: decodeForumContents_def Let_def MAX_TAG_LEN_def)
next
  case (ForumReply t h body)
  note e = encode_forum_reply [OF assms(1) [unfolded ForumReply]]
  let ?n = "length (textEncode body)"
  obtain p where p: "hexToBytes h = Inr p" "length p = 32"
      and b: "bs = [VERSION_REPLY, KIND_REPLY] @ be 8 (nat t) @ p @ be 4 ?n @ textEncode body"
    using e(4) by blast
  let ?bs = "bs @ trailing"
  have "readU64BE ?bs 2 = t"
    using read_stamp [of t] e(1,2) unfolding b by simp
  moreover have "readU32BE ?bs 42 = ?n"
    using read_len [of "[VERSION_REPLY, KIND_REPLY] @ be 8 (nat t) @ p" 42 ?n] e(3) p unfolding b by simp
  moreover have "slice ?bs 46 (46 + ?n) = textEncode body" "slice ?bs 10 42 = p"
    using b p by (simp_all add: slice_def)
  moreover have "length ?bs = 46 + ?n + length trailing" "?bs ! 0 = VERSION_REPLY" "?bs ! 1 = KIND_REPLY"
    using b p by simp_all
  ultimately show ?thesis
    using textOf_Encode [of body] assms(2) ForumReply canonical_hash_eq [OF p(1)]
    by (simp add: decodeForumContents_def Let_def codec_consts)
next
  case (ForumLike t h)
  note e = encode_forum_like [OF assms(1) [unfolded ForumLike]]
  obtain p where p: "hexToBytes h = Inr p" "length p = 32" and b: "bs = [VERSION_LIKE, KIND_LIKE] @ be 8 (nat t) @ p"
    using e(3) by blast
  let ?bs = "bs @ trailing"
  have "readU64BE ?bs 2 = t"
    using read_stamp [of t] e(1,2) unfolding b by simp
  moreover have "slice ?bs 10 42 = p" "length ?bs = 42 + length trailing" "?bs ! 0 = VERSION_LIKE" "?bs ! 1 = KIND_LIKE"
    using b p by (simp_all add: slice_def)
  ultimately show ?thesis
    using ForumLike canonical_hash_eq [OF p(1)] by (simp add: decodeForumContents_def Let_def codec_consts)
qed

section \<open>Where the decoders are not inverses\<close>

text \<open>The decoder of a post drops a byte order mark that the encoder wrote.\<close>

theorem bom_content_lost:
  assumes "encodePostReplyContents (Post t (0xFEFF # s)) = Inr bs"
  shows "decodePostReplyContents bs = Inr (Post t (map usv s))"
proof -
  let ?c = "0xFEFF # s"
  note e = encode_post [OF assms]
  have bs: "bs = ([ENVELOPE_VERSION, KIND_POST] @ be 8 (nat t)) @ be 4 (length (textEncode ?c)) @ textEncode ?c @ []"
    using e(4) by simp
  have "readU64BE bs 2 = t"
    using read_stamp [of t ENVELOPE_VERSION KIND_POST "be 4 (length (textEncode ?c)) @ textEncode ?c"] e(1,2) unfolding bs by simp
  moreover have "readU32BE bs 10 = length (textEncode ?c)"
    unfolding bs by (rule read_len) (use e(3) in simp_all)
  moreover have "slice bs 14 (14 + length (textEncode ?c)) = textEncode ?c"
    using e(4) by (simp add: slice_def)
  moreover have "length bs = 14 + length (textEncode ?c)" "bs ! 0 = ENVELOPE_VERSION" "bs ! 1 = KIND_POST"
    using e(4) by simp_all
  moreover have "textOf (textEncode ?c) = Inr (map usv s)"
    by (simp add: textOf_def textDecode_bom)
  ultimately show ?thesis
    using timestamp_exact [OF e(1,2)] by (simp add: decodePostReplyContents_def Let_def)
qed

theorem post_reply_roundtrip_witness:
  "\<exists>bs. encodePostReplyContents (Reply 1700000000 (bytesToHex (zeros 32)) [104, 233, 8364, 128512]) = Inr bs
     \<and> decodePostReplyContents (bs @ [7]) = Inr (Reply 1700000000 (bytesToHex (zeros 32)) [104, 233, 8364, 128512])"
proof -
  let ?m = "Reply 1700000000 (bytesToHex (zeros 32)) [104, 233, 8364, 128512]"
  have len: "length (textEncode [104, 233, 8364, 128512]) = 10"
    by (simp add: textEncode_def usv_def scalar_def utf8_char_def)
  obtain bs where bs: "encodePostReplyContents ?m = Inr bs"
    by (simp add: encodePostReplyContents_def Let_def hashOf_def len)
  moreover have "plain_text (pr_content ?m)" "canonical_post_reply ?m = ?m"
    by (simp_all add: plain_text_def scalar_def canonical_hash_eq [of "bytesToHex (zeros 32)" "zeros 32"])
  ultimately show ?thesis
    using post_reply_roundtrip [OF bs, of "[7]"] by metis
qed

theorem forum_roundtrip_witness:
  "\<exists>bs. encodeForumContents (ForumPost 1700000000 [1, 2] [104] [233]) = Inr bs
     \<and> decodeForumContents (bs @ [7]) = Inr (ForumPost 1700000000 [1, 2] [104] [233])"
proof -
  let ?m = "ForumPost 1700000000 [1, 2] [104] [233]"
  have len: "length (textEncode [104]) = 1" "length (textEncode [233]) = 2"
    by (simp_all add: textEncode_def usv_def scalar_def utf8_char_def)
  obtain bs where bs: "encodeForumContents ?m = Inr bs"
    by (simp add: encodeForumContents_def Let_def len MAX_TAG_LEN_def)
  moreover have "forum_text_ok ?m" "canonical_forum ?m = ?m"
    by (simp_all add: plain_text_def scalar_def)
  ultimately show ?thesis
    using forum_roundtrip [OF bs, of "[7]"] by metis
qed

end
