(* ===== verification/IndexCursor.thy ===== *)
theory IndexCursor
  imports Workers ContentCodecs
begin

text \<open>
  The indexer's write database (packages/bam-indexer): the generation-keyed cursor table of
  framework/cursor.ts with its primary key and its unique index on the current generation, the
  posts table of the post-reply handler, the handler interface of framework/handler.ts, and the
  bootstrap and the resets of framework/migrate.ts. A statement that violates a constraint of
  the schema or a range of a column type fails, as in Postgres; UUIDs and clock readings are
  arguments.
\<close>

section \<open>Tables\<close>

record handler_cursor =
  hc_handlerName :: string
  hc_handlerVersion :: nat
  hc_versionId :: string
  hc_isCurrent :: bool
  hc_supersededAt :: "nat option"
  hc_lastBlockNumber :: int
  hc_lastTxIndex :: int
  hc_lastMsgIndex :: int
  hc_lastReorgInvalidatedAt :: int
  hc_updatedAt :: nat

record post_row =
  po_versionId :: string
  po_messageId :: string
  po_messageHash :: string
  po_sender :: string
  po_nonce :: int
  po_kind :: nat
  po_timestamp :: nat
  po_content :: js_text
  po_parentMessageHash :: "string option"
  po_batchRef :: string
  po_blockNumber :: nat
  po_txIndex :: nat
  po_messageIndex :: nat

text \<open>The posts tables by schema; None is a schema without the table.\<close>

record index_db =
  db_cursors :: "handler_cursor list"
  db_posts :: "string \<Rightarrow> post_row list option"

datatype index_error =
    CurrentNotUnique string
  | BigintRange nat
  | NulInText
  | MissingMessageId
  | MissingChainCoord
  | NoTable string
  | DbAbort string
  | SourceFailure string

definition empty_index :: index_db where
  "empty_index = \<lparr>db_cursors = [], db_posts = (\<lambda>_. None)\<rparr>"

section \<open>Cursors\<close>

abbreviation cursor_key :: "handler_cursor \<Rightarrow> string \<times> string" where
  "cursor_key c \<equiv> (hc_handlerName c, hc_versionId c)"

definition currents :: "string \<Rightarrow> handler_cursor list \<Rightarrow> handler_cursor list" where
  "currents name cs = filter (\<lambda>c. hc_handlerName c = name \<and> hc_isCurrent c) cs"

definition getCurrentCursor :: "string \<Rightarrow> index_db \<Rightarrow> handler_cursor option" where
  "getCurrentCursor handlerName db =
     (case currents handlerName (db_cursors db) of [] \<Rightarrow> None | c # _ \<Rightarrow> Some c)"

definition getCursorByVersionId :: "string \<Rightarrow> string \<Rightarrow> index_db \<Rightarrow> handler_cursor option" where
  "getCursorByVersionId handlerName versionId db =
     (case filter (\<lambda>c. cursor_key c = (handlerName, versionId)) (db_cursors db) of [] \<Rightarrow> None | c # _ \<Rightarrow> Some c)"

definition listCursors :: "string \<Rightarrow> index_db \<Rightarrow> handler_cursor list" where
  "listCursors handlerName db =
     sort_key (\<lambda>c. (if hc_isCurrent c then 0 else 1 :: nat, - int (hc_updatedAt c)))
       (filter (\<lambda>c. hc_handlerName c = handlerName) (db_cursors db))"

definition put_cursor :: "handler_cursor \<Rightarrow> handler_cursor list \<Rightarrow> handler_cursor list" where
  "put_cursor cursor cs =
     (if \<exists>c \<in> set cs. cursor_key c = cursor_key cursor
      then map (\<lambda>c. if cursor_key c = cursor_key cursor then cursor else c) cs
      else cs @ [cursor])"

definition upsertCursor :: "handler_cursor \<Rightarrow> index_db \<Rightarrow> index_error + index_db" where
  "upsertCursor cursor db =
     (let cs = put_cursor cursor (db_cursors db) in
      if length (currents (hc_handlerName cursor) cs) > 1 then Inl (CurrentNotUnique (hc_handlerName cursor))
      else Inr (db\<lparr>db_cursors := cs\<rparr>))"

definition supersedeCurrent :: "string \<Rightarrow> nat \<Rightarrow> index_db \<Rightarrow> index_db" where
  "supersedeCurrent handlerName now db =
     db\<lparr>db_cursors := map (\<lambda>c. if hc_handlerName c = handlerName \<and> hc_isCurrent c
        then c\<lparr>hc_isCurrent := False, hc_supersededAt := Some now, hc_updatedAt := now\<rparr> else c) (db_cursors db)\<rparr>"

definition deleteAllCursors :: "string \<Rightarrow> index_db \<Rightarrow> index_db" where
  "deleteAllCursors handlerName db = db\<lparr>db_cursors := filter (\<lambda>c. hc_handlerName c \<noteq> handlerName) (db_cursors db)\<rparr>"

definition deleteHandlerCursor :: "string \<Rightarrow> string \<Rightarrow> index_db \<Rightarrow> index_db" where
  "deleteHandlerCursor handlerName versionId db =
     db\<lparr>db_cursors := filter (\<lambda>c. cursor_key c \<noteq> (handlerName, versionId)) (db_cursors db)\<rparr>"

section \<open>Handlers\<close>

datatype enrichment_kind = Stake | EcdsaRegistry | Allowlist

text \<open>A field is None when absent; all enrichers resolve to null today, the inner None.\<close>

record enrichment_result =
  er_stake :: "int option option"
  er_ecdsaRegistered :: "bool option option"
  er_allowlisted :: "bool option option"

fun resolveOne :: "enrichment_kind \<Rightarrow> enrichment_result \<Rightarrow> enrichment_result" where
  "resolveOne Stake out = out\<lparr>er_stake := Some None\<rparr>"
| "resolveOne EcdsaRegistry out = out\<lparr>er_ecdsaRegistered := Some None\<rparr>"
| "resolveOne Allowlist out = out\<lparr>er_allowlisted := Some None\<rparr>"

definition resolveEnrichments :: "enrichment_kind list \<Rightarrow> enrichment_result" where
  "resolveEnrichments reqs =
     fold resolveOne reqs \<lparr>er_stake = None, er_ecdsaRegistered = None, er_allowlisted = None\<rparr>"

record 'e handler =
  hd_contentTag :: string
  hd_name :: string
  hd_version :: nat
  hd_schema :: string
  hd_migrate :: "index_db \<Rightarrow> index_db"
  hd_decode :: "bytes \<Rightarrow> 'e option"
  hd_enrichments :: "enrichment_kind list"
  hd_project :: "message_row \<Rightarrow> 'e \<Rightarrow> enrichment_result \<Rightarrow> string \<Rightarrow> index_db \<Rightarrow> index_error + index_db"
  hd_onReorg :: "string \<Rightarrow> nat \<Rightarrow> index_db \<Rightarrow> index_error + index_db"
  hd_deleteVersion :: "string \<Rightarrow> index_db \<Rightarrow> index_error + index_db"

section \<open>The post-reply handler\<close>

text \<open>
  The driver sends a number as its shortest decimal text: the fewest digits, filled with
  zeros, that read back as the same number.
\<close>

definition js_shortest :: "nat \<Rightarrow> nat" where
  "js_shortest n =
     (let len = length (toString10 n) in
      case find (\<lambda>d. Number_of_bigint d = n) (map (\<lambda>k. (let u = 10 ^ (len - k) in (n + u div 2) div u * u)) [1..<len + 1]) of
        None \<Rightarrow> n
      | Some d \<Rightarrow> d)"

definition with_posts :: "string \<Rightarrow> (post_row list \<Rightarrow> post_row list) \<Rightarrow> index_db \<Rightarrow> index_error + index_db" where
  "with_posts schema f db =
     (case db_posts db schema of
        None \<Rightarrow> Inl (NoTable schema)
      | Some rows \<Rightarrow> Inr (db\<lparr>db_posts := (db_posts db)(schema \<mapsto> f rows)\<rparr>))"

abbreviation post_key :: "post_row \<Rightarrow> string \<times> string" where
  "post_key r \<equiv> (po_versionId r, po_messageId r)"

text \<open>ON CONFLICT keeps the sender and the nonce of the old row.\<close>

definition upsert_post :: "post_row \<Rightarrow> post_row list \<Rightarrow> post_row list" where
  "upsert_post row rows =
     (if \<exists>r \<in> set rows. post_key r = post_key row
      then map (\<lambda>r. if post_key r = post_key row then row\<lparr>po_sender := po_sender r, po_nonce := po_nonce r\<rparr> else r) rows
      else rows @ [row])"

definition BIGINT_MAX :: nat where "BIGINT_MAX = 2 ^ 63 - 1"

fun post_kind :: "post_reply \<Rightarrow> nat" where
  "post_kind (Post _ _) = 0" | "post_kind (Reply _ _ _) = 1"

fun post_parent :: "post_reply \<Rightarrow> string option" where
  "post_parent (Post _ _) = None" | "post_parent (Reply _ p _) = Some (toLowerCase p)"

definition post_of :: "message_row \<Rightarrow> post_reply \<Rightarrow> string \<Rightarrow> string \<Rightarrow> string \<Rightarrow> nat \<Rightarrow> nat \<Rightarrow> nat \<Rightarrow> post_row" where
  "post_of msg decoded versionId messageId batchRef b t i =
     \<lparr>po_versionId = versionId, po_messageId = toLowerCase messageId, po_messageHash = toLowerCase (mr_messageHash msg),
      po_sender = toLowerCase (mr_sender msg), po_nonce = mr_nonce msg, po_kind = post_kind decoded,
      po_timestamp = js_shortest (nat (pr_timestamp decoded)), po_content = pr_content decoded,
      po_parentMessageHash = post_parent decoded, po_batchRef = toLowerCase batchRef,
      po_blockNumber = b, po_txIndex = t, po_messageIndex = i\<rparr>"

definition projectPost ::
  "string \<Rightarrow> message_row \<Rightarrow> post_reply \<Rightarrow> enrichment_result \<Rightarrow> string \<Rightarrow> index_db \<Rightarrow> index_error + index_db" where
  "projectPost schema msg decoded enriched versionId db =
     (case mr_messageId msg of
        None \<Rightarrow> Inl MissingMessageId
      | Some messageId \<Rightarrow>
          (case (mr_batchRef msg, mr_blockNumber msg, mr_txIndex msg, mr_messageIndex msg) of
             (Some batchRef, Some b, Some t, Some i) \<Rightarrow>
               (let row = post_of msg decoded versionId messageId batchRef b t i in
                if po_timestamp row > BIGINT_MAX then Inl (BigintRange (po_timestamp row))
                else if 0 \<in> set (po_content row) then Inl NulInText
                else with_posts schema (upsert_post row) db)
           | _ \<Rightarrow> Inl MissingChainCoord))"

definition createPostReplyHandler :: "string \<Rightarrow> string \<Rightarrow> string \<Rightarrow> nat option \<Rightarrow> post_reply handler" where
  "createPostReplyHandler name contentTag schema version =
     \<lparr>hd_contentTag = contentTag, hd_name = name,
      hd_version = (case version of None \<Rightarrow> 1 | Some v \<Rightarrow> v), hd_schema = schema,
      hd_migrate = (\<lambda>db. if db_posts db schema = None then db\<lparr>db_posts := (db_posts db)(schema \<mapsto> [])\<rparr> else db),
      hd_decode = (\<lambda>contents. case decodePostReplyContents contents of Inl _ \<Rightarrow> None | Inr m \<Rightarrow> Some m),
      hd_enrichments = [],
      hd_project = projectPost schema,
      hd_onReorg = (\<lambda>txHash _. with_posts schema (filter (\<lambda>r. po_batchRef r \<noteq> toLowerCase txHash))),
      hd_deleteVersion = (\<lambda>versionId. with_posts schema (filter (\<lambda>r. po_versionId r \<noteq> versionId)))\<rparr>"

section \<open>Migration and resets\<close>

definition genesis_cursor :: "'e handler \<Rightarrow> string \<Rightarrow> nat \<Rightarrow> handler_cursor" where
  "genesis_cursor h versionId now =
     \<lparr>hc_handlerName = hd_name h, hc_handlerVersion = hd_version h, hc_versionId = versionId, hc_isCurrent = True,
      hc_supersededAt = None, hc_lastBlockNumber = -1, hc_lastTxIndex = -1, hc_lastMsgIndex = -1,
      hc_lastReorgInvalidatedAt = -1, hc_updatedAt = now\<rparr>"

definition migrateHandler :: "'e handler \<Rightarrow> string \<Rightarrow> nat \<Rightarrow> index_db \<Rightarrow> index_error + index_db" where
  "migrateHandler h uuid now db =
     ebind (case getCurrentCursor (hd_name h) db of
              None \<Rightarrow> upsertCursor (genesis_cursor h uuid now) db
            | Some existing \<Rightarrow>
                if hc_handlerVersion existing \<noteq> hd_version h
                then upsertCursor (genesis_cursor h uuid now) (supersedeCurrent (hd_name h) now db)
                else Inr db)
       (\<lambda>db1. Inr (hd_migrate h db1))"

text \<open>The uuids and the times drawn for each handler in turn; a failure keeps what came before it.\<close>

primrec migrate :: "('e handler \<times> string \<times> nat) list \<Rightarrow> index_db \<Rightarrow> (index_error + unit) \<times> index_db" where
  "migrate [] db = (Inr (), db)"
| "migrate (x # xs) db =
     (case migrateHandler (fst x) (fst (snd x)) (snd (snd x)) db of
        Inl e \<Rightarrow> (Inl e, db)
      | Inr db1 \<Rightarrow> migrate xs db1)"

definition resetHandler :: "'e handler \<Rightarrow> index_db \<Rightarrow> index_db" where
  "resetHandler h db =
     hd_migrate h (deleteAllCursors (hd_name h) (db\<lparr>db_posts := (db_posts db)(hd_schema h := None)\<rparr>))"

definition resetHandlerVersion :: "'e handler \<Rightarrow> string \<Rightarrow> index_db \<Rightarrow> index_error + index_db" where
  "resetHandlerVersion h versionId db =
     ebind (hd_deleteVersion h versionId db) (\<lambda>db1. Inr (deleteHandlerCursor (hd_name h) versionId db1))"

definition resetHandlerCurrent :: "'e handler \<Rightarrow> index_db \<Rightarrow> index_error + index_db" where
  "resetHandlerCurrent h db =
     (case getCurrentCursor (hd_name h) db of
        None \<Rightarrow> Inr db
      | Some cur \<Rightarrow> resetHandlerVersion h (hc_versionId cur) db)"

section \<open>The cursor table\<close>

definition cursors_inv :: "index_db \<Rightarrow> bool" where
  "cursors_inv db \<longleftrightarrow> distinct (map cursor_key (db_cursors db)) \<and> (\<forall>name. length (currents name (db_cursors db)) \<le> 1)"

lemma currents_other: "hc_handlerName cursor \<noteq> name \<Longrightarrow> currents name (put_cursor cursor cs) = currents name cs"
proof -
  assume a: "hc_handlerName cursor \<noteq> name"
  have "filter (\<lambda>c. hc_handlerName c = name \<and> hc_isCurrent c) (map (\<lambda>c. if cursor_key c = cursor_key cursor then cursor else c) cs)
      = filter (\<lambda>c. hc_handlerName c = name \<and> hc_isCurrent c) cs"
    by (induction cs) (use a in auto)
  then show ?thesis
    using a by (simp add: currents_def put_cursor_def)
qed

lemma put_cursor_keys:
  "map cursor_key (put_cursor cursor cs)
    = (if cursor_key cursor \<in> set (map cursor_key cs) then map cursor_key cs else map cursor_key cs @ [cursor_key cursor])"
proof (cases "cursor_key cursor \<in> cursor_key ` set cs")
  case True
  then have "put_cursor cursor cs = map (\<lambda>c. if cursor_key c = cursor_key cursor then cursor else c) cs"
    unfolding put_cursor_def by (metis (no_types, lifting) imageE)
  then show ?thesis
    using True by (simp add: comp_def if_distrib [of cursor_key] cong: if_cong)
next
  case False
  then have "put_cursor cursor cs = cs @ [cursor]"
    unfolding put_cursor_def by (metis (no_types, lifting) image_eqI)
  then show ?thesis
    using False by simp
qed

lemma upsertCursor_inv:
  assumes "upsertCursor cursor db = Inr db'" "cursors_inv db"
  shows "cursors_inv db'" and "db_posts db' = db_posts db"
proof -
  have db': "db' = db\<lparr>db_cursors := put_cursor cursor (db_cursors db)\<rparr>"
    and one: "length (currents (hc_handlerName cursor) (put_cursor cursor (db_cursors db))) \<le> 1"
    using assms(1) by (auto simp: upsertCursor_def Let_def split: if_split_asm)
  have "length (currents name (put_cursor cursor (db_cursors db))) \<le> 1" for name
    using one currents_other [of cursor name] assms(2) by (cases "name = hc_handlerName cursor") (simp_all add: cursors_inv_def)
  moreover have "distinct (map cursor_key (put_cursor cursor (db_cursors db)))"
    using assms(2) unfolding put_cursor_keys cursors_inv_def by auto
  ultimately show "cursors_inv db'" and "db_posts db' = db_posts db"
    by (simp_all add: db' cursors_inv_def)
qed

text \<open>Writing a current cursor back under its own key makes it the current one.\<close>

lemma upsertCursor_current:
  assumes "upsertCursor cursor db = Inr db'" "hc_isCurrent cursor"
  shows "currents (hc_handlerName cursor) (db_cursors db') = [cursor]"
proof -
  have mem: "cursor \<in> set (put_cursor cursor cs)" for cs
    by (auto simp: put_cursor_def)
  have "cursor \<in> set (currents (hc_handlerName cursor) (db_cursors db'))"
    using assms mem by (auto simp: upsertCursor_def Let_def currents_def split: if_split_asm)
  moreover have "length (currents (hc_handlerName cursor) (db_cursors db')) \<le> 1"
    using assms(1) by (auto simp: upsertCursor_def Let_def split: if_split_asm)
  ultimately show ?thesis
    by (cases "currents (hc_handlerName cursor) (db_cursors db')") auto
qed

lemma supersede_currents: "currents name (db_cursors (supersedeCurrent name now db)) = []"
proof -
  have "filter (\<lambda>c. hc_handlerName c = name \<and> hc_isCurrent c)
      (map (\<lambda>c. if hc_handlerName c = name \<and> hc_isCurrent c then c\<lparr>hc_isCurrent := False, hc_supersededAt := Some now, hc_updatedAt := now\<rparr> else c) cs)
      = []" for cs
    by (induction cs) auto
  then show ?thesis
    by (simp add: supersedeCurrent_def currents_def)
qed

lemma supersede_others: "name \<noteq> n \<Longrightarrow> currents n (db_cursors (supersedeCurrent name now db)) = currents n (db_cursors db)"
proof -
  assume a: "name \<noteq> n"
  have "filter (\<lambda>c. hc_handlerName c = n \<and> hc_isCurrent c)
      (map (\<lambda>c. if hc_handlerName c = name \<and> hc_isCurrent c then c\<lparr>hc_isCurrent := False, hc_supersededAt := Some now, hc_updatedAt := now\<rparr> else c) cs)
      = filter (\<lambda>c. hc_handlerName c = n \<and> hc_isCurrent c) cs" for cs
    by (induction cs) (use a in auto)
  then show ?thesis
    by (simp add: supersedeCurrent_def currents_def)
qed

lemma supersede_inv: "cursors_inv db \<Longrightarrow> cursors_inv (supersedeCurrent name now db)"
proof -
  assume a: "cursors_inv db"
  have "map cursor_key (db_cursors (supersedeCurrent name now db)) = map cursor_key (db_cursors db)"
    by (simp add: supersedeCurrent_def)
  moreover have "length (currents n (db_cursors (supersedeCurrent name now db))) \<le> 1" for n
    using a supersede_currents [of name now db] supersede_others [of name n now db] by (cases "name = n") (simp_all add: cursors_inv_def)
  ultimately show ?thesis
    using a by (simp add: cursors_inv_def)
qed

section \<open>What a handler must keep to\<close>

text \<open>
  A handler writes only in its own schema and never in the cursor table; this is what lets the
  framework move the cursor and the projection together.
\<close>

definition only_schema :: "string \<Rightarrow> index_db \<Rightarrow> index_db \<Rightarrow> bool" where
  "only_schema s db db' \<longleftrightarrow> db_cursors db' = db_cursors db \<and> (\<forall>t. t \<noteq> s \<longrightarrow> db_posts db' t = db_posts db t)"

lemma only_schema_refl [simp]: "only_schema s db db"
  by (simp add: only_schema_def)

locale index_handler =
  fixes h :: "'e handler"
  assumes migrate_own: "only_schema (hd_schema h) db (hd_migrate h db)"
    and project_own: "hd_project h m e er v db = Inr db' \<Longrightarrow> only_schema (hd_schema h) db db'"
    and reorg_own: "hd_onReorg h tx chain db = Inr db' \<Longrightarrow> only_schema (hd_schema h) db db'"
    and delete_own: "hd_deleteVersion h v db = Inr db' \<Longrightarrow> only_schema (hd_schema h) db db'"
begin

lemma migrate_current:
  assumes "migrateHandler h uuid now db = Inr db'" "cursors_inv db"
  shows "cursors_inv db'"
    and "\<exists>c. currents (hd_name h) (db_cursors db') = [c] \<and> hc_handlerVersion c = hd_version h
      \<and> (c = genesis_cursor h uuid now \<or> getCurrentCursor (hd_name h) db = Some c)"
    and "\<forall>t. t \<noteq> hd_schema h \<longrightarrow> db_posts db' t = db_posts db t"
proof -
  obtain db1 where db1: "(case getCurrentCursor (hd_name h) db of
              None \<Rightarrow> upsertCursor (genesis_cursor h uuid now) db
            | Some existing \<Rightarrow>
                if hc_handlerVersion existing \<noteq> hd_version h
                then upsertCursor (genesis_cursor h uuid now) (supersedeCurrent (hd_name h) now db)
                else Inr db) = Inr db1" and db': "db' = hd_migrate h db1"
    using assms(1) by (auto simp: migrateHandler_def)
  have own: "db_cursors db' = db_cursors db1" "\<forall>t. t \<noteq> hd_schema h \<longrightarrow> db_posts db' t = db_posts db1 t"
    using migrate_own [of db1] by (auto simp: db' only_schema_def)
  have gen: "hc_handlerName (genesis_cursor h uuid now) = hd_name h" "hc_isCurrent (genesis_cursor h uuid now)"
    "hc_handlerVersion (genesis_cursor h uuid now) = hd_version h"
    by (simp_all add: genesis_cursor_def)
  have "cursors_inv db1 \<and> db_posts db1 = db_posts db \<and> (\<exists>c. currents (hd_name h) (db_cursors db1) = [c] \<and> hc_handlerVersion c = hd_version h
      \<and> (c = genesis_cursor h uuid now \<or> getCurrentCursor (hd_name h) db = Some c))"
  proof (cases "getCurrentCursor (hd_name h) db")
    case None
    then have up: "upsertCursor (genesis_cursor h uuid now) db = Inr db1"
      using db1 by simp
    show ?thesis
      using upsertCursor_inv [OF up assms(2)] upsertCursor_current [OF up gen(2)] gen by simp
  next
    case (Some c0)
    show ?thesis
    proof (cases "hc_handlerVersion c0 = hd_version h")
      case True
      then have "db1 = db"
        using db1 Some by simp
      moreover have "currents (hd_name h) (db_cursors db) = [c0]"
      proof (cases "currents (hd_name h) (db_cursors db)")
        case Nil
        then show ?thesis using Some by (simp add: getCurrentCursor_def)
      next
        case (Cons x xs)
        moreover have "length (currents (hd_name h) (db_cursors db)) \<le> 1"
          using assms(2) by (simp add: cursors_inv_def)
        ultimately show ?thesis using Some by (simp add: getCurrentCursor_def)
      qed
      ultimately show ?thesis
        using assms(2) True Some by simp
    next
      case False
      then have up: "upsertCursor (genesis_cursor h uuid now) (supersedeCurrent (hd_name h) now db) = Inr db1"
        using db1 Some by simp
      show ?thesis
        using upsertCursor_inv [OF up supersede_inv [OF assms(2)]] upsertCursor_current [OF up gen(2)] gen
        by (simp add: supersedeCurrent_def)
    qed
  qed
  then show "cursors_inv db'"
    and "\<exists>c. currents (hd_name h) (db_cursors db') = [c] \<and> hc_handlerVersion c = hd_version h
      \<and> (c = genesis_cursor h uuid now \<or> getCurrentCursor (hd_name h) db = Some c)"
    and "\<forall>t. t \<noteq> hd_schema h \<longrightarrow> db_posts db' t = db_posts db t"
    using own by (simp_all add: cursors_inv_def)
qed

end

lemma with_posts_own: "with_posts s f db = Inr db' \<Longrightarrow> only_schema s db db'"
  by (auto simp: with_posts_def only_schema_def split: option.split_asm)

lemma projectPost_Inr:
  assumes "projectPost s m e er v db = Inr db'"
  obtains mid bref b t i rows where "mr_messageId m = Some mid" "mr_batchRef m = Some bref" "mr_blockNumber m = Some b"
    "mr_txIndex m = Some t" "mr_messageIndex m = Some i" "db_posts db s = Some rows"
    "db' = db\<lparr>db_posts := (db_posts db)(s \<mapsto> upsert_post (post_of m e v mid bref b t i) rows)\<rparr>"
  using assms that
  by (auto simp: projectPost_def with_posts_def Let_def split: option.split_asm if_split_asm)

interpretation post_reply_handler: index_handler "createPostReplyHandler name tag schema version"
  for name tag schema version
proof
  fix db show "only_schema (hd_schema (createPostReplyHandler name tag schema version)) db (hd_migrate (createPostReplyHandler name tag schema version) db)"
    by (simp add: createPostReplyHandler_def only_schema_def)
next
  fix m e er v db db'
  assume "hd_project (createPostReplyHandler name tag schema version) m e er v db = Inr db'"
  then have "projectPost schema m e er v db = Inr db'"
    by (simp add: createPostReplyHandler_def)
  then show "only_schema (hd_schema (createPostReplyHandler name tag schema version)) db db'"
    by (rule projectPost_Inr) (simp add: createPostReplyHandler_def only_schema_def)
qed (auto simp: createPostReplyHandler_def dest: with_posts_own)

text \<open>
  A new version of a handler starts a generation of its own and loses nothing: after a successful migration the handler has exactly one current cursor, of the handler's version, which is the one it had when the version is the same, and otherwise a fresh one at genesis; every other handler's table and every row already projected stay, so old generations remain queryable.
\<close>

theorem migration_keeps_generations:
  assumes "cursors_inv db" "migrateHandler (createPostReplyHandler name tag schema version) uuid now db = Inr db'"
  shows "cursors_inv db' \<and> (\<exists>c. currents name (db_cursors db') = [c]
      \<and> hc_handlerVersion c = hd_version (createPostReplyHandler name tag schema version)
      \<and> (getCurrentCursor name db = Some c \<or> c = genesis_cursor (createPostReplyHandler name tag schema version) uuid now))
    \<and> (\<forall>s rows. db_posts db s = Some rows \<longrightarrow> db_posts db' s = Some rows)"
proof -
  let ?h = "createPostReplyHandler name tag schema version"
  have n: "hd_name ?h = name" "hd_schema ?h = schema"
    by (simp_all add: createPostReplyHandler_def)
  note m = post_reply_handler.migrate_current [OF assms(2,1), unfolded n]
  have "db_posts db' schema = Some rows" if "db_posts db schema = Some rows" for rows
  proof -
    obtain db1 where "db_posts db1 = db_posts db" "db' = hd_migrate ?h db1"
      using assms(2) upsertCursor_inv(2) [OF _ assms(1)] upsertCursor_inv(2) [OF _ supersede_inv [OF assms(1)]]
      by (fastforce simp: migrateHandler_def supersedeCurrent_def split: option.split_asm if_split_asm)
    then show ?thesis
      using that by (simp add: createPostReplyHandler_def)
  qed
  then have "\<forall>s rows. db_posts db s = Some rows \<longrightarrow> db_posts db' s = Some rows"
    using m(3) by metis
  then show ?thesis
    using m(1,2) by blast
qed

theorem migration_keeps_generations_witness:
  "\<exists>db'. migrateHandler (createPostReplyHandler ''tw'' ''0xt'' ''s'' (Some 2)) ''u2'' 9
       \<lparr>db_cursors = [genesis_cursor (createPostReplyHandler ''tw'' ''0xt'' ''s'' None) ''u1'' 3], db_posts = [''s'' \<mapsto> []]\<rparr> = Inr db'
     \<and> map hc_versionId (currents ''tw'' (db_cursors db')) = [''u2''] \<and> db_posts db' ''s'' = Some []"
proof -
  let ?h = "createPostReplyHandler ''tw'' ''0xt'' ''s'' (Some 2)"
  let ?db = "\<lparr>db_cursors = [genesis_cursor (createPostReplyHandler ''tw'' ''0xt'' ''s'' None) ''u1'' 3], db_posts = [''s'' \<mapsto> []]\<rparr>"
  have inv: "cursors_inv ?db"
    by (simp add: cursors_inv_def currents_def)
  obtain db' where run: "migrateHandler ?h ''u2'' 9 ?db = Inr db'"
      "db_cursors db' \<noteq> db_cursors ?db"
    by (simp add: migrateHandler_def getCurrentCursor_def currents_def genesis_cursor_def createPostReplyHandler_def
        upsertCursor_def put_cursor_def supersedeCurrent_def)
  have old: "getCurrentCursor ''tw'' ?db = Some (genesis_cursor (createPostReplyHandler ''tw'' ''0xt'' ''s'' None) ''u1'' 3)"
    by (simp add: getCurrentCursor_def currents_def genesis_cursor_def createPostReplyHandler_def)
  obtain c where "currents ''tw'' (db_cursors db') = [c]" "hc_handlerVersion c = hd_version ?h"
      "getCurrentCursor ''tw'' ?db = Some c \<or> c = genesis_cursor ?h ''u2'' 9" "db_posts db' ''s'' = Some []"
    using migration_keeps_generations [OF inv run(1)] by auto
  then show ?thesis
    using run(1) old by (auto simp: genesis_cursor_def createPostReplyHandler_def)
qed

end
