(* ===== verification/Indexer.thy ===== *)
theory Indexer
  imports IndexCursor
begin

text \<open>
  The indexer's tick (packages/bam-indexer/src/framework/tick.ts) over the read-only source of
  source/bam-store-source.ts: the forward pass over confirmed messages beyond the cursor, then
  the reorg pass. Each write transaction may be aborted by the database; abort i says whether
  the i-th of a tick is. What each tick reads of the store is an argument, one snapshot per
  query.
\<close>

section \<open>Source\<close>

type_synonym coord = "int \<times> int \<times> int"

definition coord_of :: "raw_message \<Rightarrow> coord option" where
  "coord_of r =
     (case (rm_blockNumber r, rm_txIndex r, rm_messageIndex r) of
        (Some b, Some t, Some i) \<Rightarrow> Some (int b, int t, int i)
      | _ \<Rightarrow> None)"

definition coord_gt :: "coord \<Rightarrow> coord \<Rightarrow> bool" where
  "coord_gt c a =
     (case (c, a) of ((b, t, i), (b0, t0, i0)) \<Rightarrow> b > b0 \<or> b = b0 \<and> t > t0 \<or> b = b0 \<and> t = t0 \<and> i > i0)"

definition confirmed_beyond :: "nat \<Rightarrow> string \<Rightarrow> coord \<Rightarrow> raw_message \<Rightarrow> bool" where
  "confirmed_beyond chainId contentTag after r \<longleftrightarrow>
     rm_status r = Confirmed \<and> rm_contentTag r = contentTag \<and> rm_chainId r = Some chainId
     \<and> (case coord_of r of None \<Rightarrow> False | Some c \<Rightarrow> coord_gt c after)"

text \<open>mapMessage of the source: BigInt reads the nonce's digits without the codec's checks.\<close>

definition source_message :: "raw_message \<Rightarrow> message_row" where
  "source_message r =
     \<lparr>mr_messageId = rm_messageId r, mr_sender = rm_sender r, mr_nonce = BigInt10 (rm_nonce r),
      mr_contentTag = rm_contentTag r, mr_contents = rm_contents r, mr_signature = rm_signature r,
      mr_messageHash = rm_messageHash r, mr_status = rm_status r, mr_batchRef = rm_batchRef r,
      mr_chainId = rm_chainId r, mr_ingestedAt = rm_ingestedAt r, mr_ingestSeq = rm_ingestSeq r,
      mr_blockNumber = rm_blockNumber r, mr_txIndex = rm_txIndex r, mr_messageIndex = rm_messageIndex r\<rparr>"

definition coord_key :: "raw_message \<Rightarrow> coord" where
  "coord_key r = (case coord_of r of None \<Rightarrow> (0, 0, 0) | Some c \<Rightarrow> c)"

definition listConfirmedAfter :: "nat \<Rightarrow> string \<Rightarrow> coord \<Rightarrow> nat \<Rightarrow> store \<Rightarrow> raw_message list" where
  "listConfirmedAfter chainId contentTag after lim src =
     take lim (sort_key coord_key (filter (confirmed_beyond chainId contentTag after) (st_messages src)))"

definition reorged_beyond :: "nat \<Rightarrow> string \<Rightarrow> int \<Rightarrow> raw_batch \<Rightarrow> bool" where
  "reorged_beyond chainId contentTag after b \<longleftrightarrow>
     rb_status b = BatchReorged \<and> rb_chainId b = chainId \<and> rb_contentTag b = contentTag
     \<and> (case rb_invalidatedAt b of None \<Rightarrow> False | Some t \<Rightarrow> int t > after)"

definition reorg_key :: "raw_batch \<Rightarrow> nat \<times> string" where
  "reorg_key b = ((case rb_invalidatedAt b of None \<Rightarrow> 0 | Some t \<Rightarrow> t), rb_txHash b)"

definition listReorgedAfter :: "nat \<Rightarrow> string \<Rightarrow> int \<Rightarrow> nat \<Rightarrow> store \<Rightarrow> (string \<times> nat) list" where
  "listReorgedAfter chainId contentTag after lim src =
     map (\<lambda>b. (rb_txHash b, fst (reorg_key b)))
       (take lim (sort_key reorg_key (filter (reorged_beyond chainId contentTag after) (st_batches src))))"

section \<open>One row\<close>

record handler_counters =
  hk_projected :: nat
  hk_skippedDecode :: nat
  hk_skippedConflict :: nat
  hk_reorged :: nat

definition emptyHandlerCounters :: handler_counters where
  "emptyHandlerCounters = \<lparr>hk_projected = 0, hk_skippedDecode = 0, hk_skippedConflict = 0, hk_reorged = 0\<rparr>"

definition runInTxn :: "string option \<Rightarrow> (index_db \<Rightarrow> index_error + index_db) \<Rightarrow> index_db \<Rightarrow> (index_error + unit) \<times> index_db" where
  "runInTxn aborted fn db =
     (case aborted of
        Some m \<Rightarrow> (Inl (DbAbort m), db)
      | None \<Rightarrow> (case fn db of Inl e \<Rightarrow> (Inl e, db) | Inr db1 \<Rightarrow> (Inr (), db1)))"

text \<open>What one row does to the pass: go on from a new cursor, stop it, or throw out of the tick.\<close>

datatype row_outcome = Advanced handler_cursor | Stuck | Thrown index_error

definition orElse :: "nat option \<Rightarrow> int \<Rightarrow> int" where
  "orElse x d = (case x of None \<Rightarrow> d | Some n \<Rightarrow> int n)"

definition advance :: "handler_cursor \<Rightarrow> message_row \<Rightarrow> nat \<Rightarrow> handler_cursor" where
  "advance forward row now =
     forward\<lparr>hc_lastBlockNumber := orElse (mr_blockNumber row) (hc_lastBlockNumber forward),
             hc_lastTxIndex := orElse (mr_txIndex row) (hc_lastTxIndex forward),
             hc_lastMsgIndex := orElse (mr_messageIndex row) (hc_lastMsgIndex forward),
             hc_updatedAt := now\<rparr>"

definition projectOne ::
  "'e handler \<Rightarrow> message_row \<Rightarrow> handler_cursor \<Rightarrow> nat \<Rightarrow> string option \<Rightarrow> handler_counters \<times> index_db
     \<Rightarrow> row_outcome \<times> handler_counters \<times> index_db" where
  "projectOne h row forward now aborted w =
     (case w of (k, db) \<Rightarrow>
        let advanced = advance forward row now in
        case hd_decode h (mr_contents row) of
          None \<Rightarrow>
            (let k1 = k\<lparr>hk_skippedDecode := hk_skippedDecode k + 1\<rparr> in
             case runInTxn aborted (upsertCursor advanced) db of
               (Inl e, db1) \<Rightarrow> (Thrown e, k1, db1)
             | (Inr _, db1) \<Rightarrow> (Advanced advanced, k1, db1))
        | Some decoded \<Rightarrow>
            (case runInTxn aborted (\<lambda>db. ebind (hd_project h row decoded (resolveEnrichments (hd_enrichments h))
                     (hc_versionId forward) db) (upsertCursor advanced)) db of
               (Inl e, db1) \<Rightarrow> (Stuck, k\<lparr>hk_skippedConflict := hk_skippedConflict k + 1\<rparr>, db1)
             | (Inr _, db1) \<Rightarrow> (Advanced advanced, k\<lparr>hk_projected := hk_projected k + 1\<rparr>, db1)))"

definition reorgOne ::
  "'e handler \<Rightarrow> nat \<Rightarrow> string \<times> nat \<Rightarrow> handler_cursor \<Rightarrow> nat \<Rightarrow> string option \<Rightarrow> handler_counters \<times> index_db
     \<Rightarrow> row_outcome \<times> handler_counters \<times> index_db" where
  "reorgOne h chainId entry forward now aborted w =
     (case w of (k, db) \<Rightarrow>
        let advanced = forward\<lparr>hc_lastReorgInvalidatedAt := max (hc_lastReorgInvalidatedAt forward) (int (snd entry)),
                               hc_updatedAt := now\<rparr> in
        case runInTxn aborted (\<lambda>db. ebind (hd_onReorg h (fst entry) chainId db) (upsertCursor advanced)) db of
          (Inl e, db1) \<Rightarrow> (Stuck, k, db1)
        | (Inr _, db1) \<Rightarrow> (Advanced advanced, k\<lparr>hk_reorged := hk_reorged k + 1\<rparr>, db1))"

text \<open>A pass over its rows; i counts the transactions of the tick.\<close>

fun pass ::
  "(nat \<Rightarrow> 'r \<Rightarrow> handler_cursor \<Rightarrow> handler_counters \<times> index_db \<Rightarrow> row_outcome \<times> handler_counters \<times> index_db)
     \<Rightarrow> 'r list \<Rightarrow> nat \<Rightarrow> handler_cursor \<Rightarrow> handler_counters \<times> index_db
     \<Rightarrow> (index_error + (handler_cursor \<times> nat)) \<times> handler_counters \<times> index_db" where
  "pass one [] i forward w = (Inr (forward, i), w)"
| "pass one (r # rs) i forward w =
     (case one i r forward w of
        (Advanced next', w1) \<Rightarrow> pass one rs (Suc i) next' w1
      | (Stuck, w1) \<Rightarrow> (Inr (forward, Suc i), w1)
      | (Thrown e, w1) \<Rightarrow> (Inl e, w1))"

section \<open>A tick\<close>

record tick_env =
  te_chainId :: nat
  te_batchSize :: nat
  te_forwardSource :: "string + store"
  te_reorgSource :: "string + store"
  te_now :: nat
  te_abort :: "nat \<Rightarrow> string option"

definition tickHandler ::
  "tick_env \<Rightarrow> 'e handler \<Rightarrow> index_db \<Rightarrow> (index_error + handler_counters) \<times> index_db" where
  "tickHandler te h db =
     (case getCurrentCursor (hd_name h) db of
        None \<Rightarrow> (Inr emptyHandlerCounters, db)
      | Some cursor \<Rightarrow>
          (case te_forwardSource te of
             Inl m \<Rightarrow> (Inl (SourceFailure m), db)
           | Inr src \<Rightarrow>
               (let rows = map source_message (listConfirmedAfter (te_chainId te) (hd_contentTag h)
                       (hc_lastBlockNumber cursor, hc_lastTxIndex cursor, hc_lastMsgIndex cursor) (te_batchSize te) src)
                in case pass (\<lambda>i row forward. projectOne h row forward (te_now te) (te_abort te i)) rows 0 cursor
                          (emptyHandlerCounters, db) of
                     (Inl e, k, db1) \<Rightarrow> (Inl e, db1)
                   | (Inr (forward, i), k, db1) \<Rightarrow>
                       (case te_reorgSource te of
                          Inl m \<Rightarrow> (Inl (SourceFailure m), db1)
                        | Inr src2 \<Rightarrow>
                            (case pass (\<lambda>i entry forward. reorgOne h (te_chainId te) entry forward (te_now te) (te_abort te i))
                                   (listReorgedAfter (te_chainId te) (hd_contentTag h) (hc_lastReorgInvalidatedAt forward)
                                      (te_batchSize te) src2) i forward (k, db1) of
                               (Inl e, k2, db2) \<Rightarrow> (Inl e, db2)
                             | (Inr _, k2, db2) \<Rightarrow> (Inr k2, db2))))))"

text \<open>The tick of the whole registry; an exception of one handler ends it.\<close>

primrec indexTick ::
  "(tick_env \<times> 'e handler) list \<Rightarrow> index_db \<Rightarrow> (index_error + (string \<times> handler_counters) list) \<times> index_db" where
  "indexTick [] db = (Inr [], db)"
| "indexTick (x # xs) db =
     (case tickHandler (fst x) (snd x) db of
        (Inl e, db1) \<Rightarrow> (Inl e, db1)
      | (Inr k, db1) \<Rightarrow>
          (case indexTick xs db1 of
             (Inl e, db2) \<Rightarrow> (Inl e, db2)
           | (Inr ks, db2) \<Rightarrow> (Inr ((hd_name (snd x), k) # ks), db2)))"

section \<open>The cursor moves with the projection\<close>

abbreviation cursor_coord :: "handler_cursor \<Rightarrow> coord" where
  "cursor_coord c \<equiv> (hc_lastBlockNumber c, hc_lastTxIndex c, hc_lastMsgIndex c)"

definition held :: "string \<Rightarrow> handler_cursor \<Rightarrow> index_db \<Rightarrow> bool" where
  "held name cur db \<longleftrightarrow> cursors_inv db \<and> currents name (db_cursors db) = [cur]"

lemma coord_gt_less: "coord_gt c a \<longleftrightarrow> a < c"
  by (cases c; cases a) (auto simp: coord_gt_def)

lemma held_cursor: "held name cur db \<Longrightarrow> getCurrentCursor name db = Some cur"
  by (simp add: held_def getCurrentCursor_def)

lemma heldI: "cursors_inv db \<Longrightarrow> getCurrentCursor name db = Some cur \<Longrightarrow> held name cur db"
proof -
  assume a: "cursors_inv db" "getCurrentCursor name db = Some cur"
  then have "length (currents name (db_cursors db)) \<le> 1"
    by (simp add: cursors_inv_def)
  then show ?thesis
    using a by (cases "currents name (db_cursors db)") (simp_all add: held_def getCurrentCursor_def)
qed

lemma held_fields: "held name cur db \<Longrightarrow> hc_handlerName cur = name \<and> hc_isCurrent cur \<and> cur \<in> set (db_cursors db)"
proof -
  assume "held name cur db"
  then have "cur \<in> set (currents name (db_cursors db))"
    by (simp add: held_def)
  then show ?thesis
    by (simp add: currents_def)
qed

lemma upsert_held:
  assumes "held name cur db" "cursor_key adv = cursor_key cur" "hc_isCurrent adv"
  shows "\<exists>db'. upsertCursor adv db = Inr db' \<and> held name adv db' \<and> db_posts db' = db_posts db"
proof -
  let ?f = "\<lambda>c. if cursor_key c = cursor_key adv then adv else c"
  let ?P = "\<lambda>c. hc_handlerName c = name \<and> hc_isCurrent c"
  have cur: "hc_handlerName cur = name" "hc_isCurrent cur" "cur \<in> set (db_cursors db)"
    using held_fields [OF assms(1)] by auto
  have name: "hc_handlerName adv = name"
    using assms(2) cur by simp
  have inj: "c = cur" if "c \<in> set (db_cursors db)" "cursor_key c = cursor_key adv" for c
    using assms(1) that cur(3) assms(2) unfolding held_def cursors_inv_def distinct_map inj_on_def by metis
  have put: "put_cursor adv (db_cursors db) = map ?f (db_cursors db)"
    unfolding put_cursor_def using cur(3) assms(2) by metis
  have same: "?P (?f c) = ?P c" if "c \<in> set (db_cursors db)" for c
  proof (cases "cursor_key c = cursor_key adv")
    case True
    then have "c = cur" using inj that by blast
    then show ?thesis using True cur(1,2) name assms(3) by simp
  next
    case False
    then show ?thesis by (simp only: if_False)
  qed
  have "filter ?P (map ?f (db_cursors db)) = map ?f (filter ?P (db_cursors db))"
    unfolding filter_map o_def by (rule arg_cong [of _ _ "map ?f"], rule filter_cong [OF refl], rule same)
  also have "\<dots> = [adv]"
    using assms(1,2) by (simp add: held_def currents_def)
  finally have one: "currents name (put_cursor adv (db_cursors db)) = [adv]"
    unfolding put currents_def .
  have up: "upsertCursor adv db = Inr (db\<lparr>db_cursors := put_cursor adv (db_cursors db)\<rparr>)"
    using one by (simp add: upsertCursor_def name)
  have "cursors_inv (db\<lparr>db_cursors := put_cursor adv (db_cursors db)\<rparr>)"
    using upsertCursor_inv(1) [OF up] assms(1) by (simp add: held_def)
  then show ?thesis
    using up one by (simp add: held_def)
qed

lemma held_own: "held name cur db \<Longrightarrow> only_schema s db db' \<Longrightarrow> held name cur db'"
  by (simp add: held_def only_schema_def cursors_inv_def)

lemma advance_key: "cursor_key (advance c row now) = cursor_key c" "hc_isCurrent (advance c row now) = hc_isCurrent c"
  "hc_lastReorgInvalidatedAt (advance c row now) = hc_lastReorgInvalidatedAt c"
  by (simp_all add: advance_def)

context index_handler
begin

text \<open>
  What a row does: it advances the stored cursor in the same transaction as its projection, or
  it leaves the whole database as it was.
\<close>

lemma projectOne_cases:
  assumes "held (hd_name h) forward db"
  obtains (advanced) db' k' where "projectOne h row forward now ab (k, db) = (Advanced (advance forward row now), k', db')"
      "held (hd_name h) (advance forward row now) db'" "ab = None"
      "(hd_decode h (mr_contents row) = None \<and> db_posts db' = db_posts db)
       \<or> (\<exists>e db1. hd_decode h (mr_contents row) = Some e
            \<and> hd_project h row e (resolveEnrichments (hd_enrichments h)) (hc_versionId forward) db = Inr db1
            \<and> db_posts db' = db_posts db1)"
    | (kept) out k' where "projectOne h row forward now ab (k, db) = (out, k', db)"
      "out = Stuck \<or> (\<exists>e. out = Thrown e)"
      "ab \<noteq> None \<or> (\<exists>e x. hd_decode h (mr_contents row) = Some e
          \<and> hd_project h row e (resolveEnrichments (hd_enrichments h)) (hc_versionId forward) db = Inl x)"
proof (cases ab)
  case (Some m)
  show thesis
  proof (cases "hd_decode h (mr_contents row)")
    case None
    show thesis
      by (rule kept [of "Thrown (DbAbort m)" "k\<lparr>hk_skippedDecode := hk_skippedDecode k + 1\<rparr>"])
        (simp_all add: projectOne_def runInTxn_def Some None Let_def)
  next
    case e: (Some e)
    show thesis
      by (rule kept [of Stuck "k\<lparr>hk_skippedConflict := hk_skippedConflict k + 1\<rparr>"])
        (simp_all add: projectOne_def runInTxn_def Some e Let_def)
  qed
next
  case ab: None
  have cur: "hc_isCurrent (advance forward row now)" "cursor_key (advance forward row now) = cursor_key forward"
    using held_fields [OF assms] by (simp_all add: advance_def)
  show thesis
  proof (cases "hd_decode h (mr_contents row)")
    case None
    obtain db' where "upsertCursor (advance forward row now) db = Inr db'" "held (hd_name h) (advance forward row now) db'"
        "db_posts db' = db_posts db"
      using upsert_held [OF assms cur(2,1)] by blast
    then show thesis
      by (intro advanced [of "k\<lparr>hk_skippedDecode := hk_skippedDecode k + 1\<rparr>" db'])
        (simp_all add: projectOne_def runInTxn_def ab None Let_def)
  next
    case (Some e)
    show thesis
    proof (cases "hd_project h row e (resolveEnrichments (hd_enrichments h)) (hc_versionId forward) db")
      case (Inl x)
      show thesis
        by (rule kept [of Stuck "k\<lparr>hk_skippedConflict := hk_skippedConflict k + 1\<rparr>"])
          (simp_all add: projectOne_def runInTxn_def ab Some Inl Let_def)
    next
      case (Inr db1)
      obtain db' where "upsertCursor (advance forward row now) db1 = Inr db'" "held (hd_name h) (advance forward row now) db'"
          "db_posts db' = db_posts db1"
        using upsert_held [OF held_own [OF assms project_own [OF Inr]] cur(2,1)] by blast
      then show thesis
        by (intro advanced [of "k\<lparr>hk_projected := hk_projected k + 1\<rparr>" db'])
          (simp_all add: projectOne_def runInTxn_def ab Some Inr Let_def)
    qed
  qed
qed

lemma reorgOne_cases:
  fixes entry :: "string \<times> nat" and now :: nat
  assumes "held (hd_name h) forward db"
  defines "adv \<equiv> forward\<lparr>hc_lastReorgInvalidatedAt := max (hc_lastReorgInvalidatedAt forward) (int (snd entry)), hc_updatedAt := now\<rparr>"
  obtains (advanced) db' db1 k' where "reorgOne h chain entry forward now ab (k, db) = (Advanced adv, k', db')"
      "held (hd_name h) adv db'" "ab = None" "hd_onReorg h (fst entry) chain db = Inr db1" "db_posts db' = db_posts db1"
    | (kept) k' where "reorgOne h chain entry forward now ab (k, db) = (Stuck, k', db)"
      "ab \<noteq> None \<or> (\<exists>x. hd_onReorg h (fst entry) chain db = Inl x)"
proof (cases ab)
  case (Some m)
  show thesis
    by (rule kept) (simp_all add: reorgOne_def runInTxn_def Some Let_def)
next
  case ab: None
  have cur: "hc_isCurrent adv" "cursor_key adv = cursor_key forward"
    using held_fields [OF assms(1)] by (simp_all add: adv_def)
  show thesis
  proof (cases "hd_onReorg h (fst entry) chain db")
    case (Inl x)
    show thesis
      by (rule kept) (simp_all add: reorgOne_def runInTxn_def ab Inl Let_def)
  next
    case (Inr db1)
    obtain db' where "upsertCursor adv db1 = Inr db'" "held (hd_name h) adv db'" "db_posts db' = db_posts db1"
      using upsert_held [OF held_own [OF assms(1) reorg_own [OF Inr]] cur(2,1)] by blast
    then show thesis
      by (intro advanced [of "k\<lparr>hk_reorged := hk_reorged k + 1\<rparr>" db' db1])
        (simp_all add: reorgOne_def runInTxn_def ab Inr Let_def flip: adv_def)
  qed
qed

end

section \<open>A pass of the post-reply handler\<close>

lemmas post_reply_fields = createPostReplyHandler_def [THEN arg_cong [of _ _ hd_name]]
  createPostReplyHandler_def [THEN arg_cong [of _ _ hd_schema]]
  createPostReplyHandler_def [THEN arg_cong [of _ _ hd_contentTag]]
  createPostReplyHandler_def [THEN arg_cong [of _ _ hd_decode]]
  createPostReplyHandler_def [THEN arg_cong [of _ _ hd_enrichments]]
  createPostReplyHandler_def [THEN arg_cong [of _ _ hd_project]]
  createPostReplyHandler_def [THEN arg_cong [of _ _ hd_onReorg]]

definition placed :: "string \<Rightarrow> message_row \<Rightarrow> post_reply \<Rightarrow> post_row option" where
  "placed v row m =
     (case (mr_messageId row, mr_batchRef row, mr_blockNumber row, mr_txIndex row, mr_messageIndex row) of
        (Some mid, Some bref, Some b, Some t, Some i) \<Rightarrow> Some (post_of row m v mid bref b t i)
      | _ \<Rightarrow> None)"

definition fold_post :: "string \<Rightarrow> message_row \<Rightarrow> post_row list \<Rightarrow> post_row list" where
  "fold_post v row rows =
     (case decodePostReplyContents (mr_contents row) of
        Inl _ \<Rightarrow> rows
      | Inr m \<Rightarrow> (case placed v row m of None \<Rightarrow> rows | Some p \<Rightarrow> upsert_post p rows))"

definition same_post :: "post_row \<Rightarrow> post_row \<Rightarrow> bool" where
  "same_post p q \<longleftrightarrow> q\<lparr>po_sender := po_sender p, po_nonce := po_nonce p\<rparr> = p"

lemma same_post_key: "same_post p q \<Longrightarrow> post_key q = post_key p \<and> po_batchRef q = po_batchRef p"
  unfolding same_post_def by (cases p; cases q) simp

lemma upsert_post_new: "\<exists>q \<in> set (upsert_post p rows). same_post p q"
proof (cases "\<exists>r \<in> set rows. post_key r = post_key p")
  case True
  then obtain r where "r \<in> set rows" "post_key r = post_key p" ..
  then have "p\<lparr>po_sender := po_sender r, po_nonce := po_nonce r\<rparr> \<in> set (upsert_post p rows)"
    unfolding upsert_post_def using True by (auto intro!: image_eqI [of _ _ r])
  moreover have "same_post p (p\<lparr>po_sender := po_sender r, po_nonce := po_nonce r\<rparr>)"
    by (simp add: same_post_def)
  ultimately show ?thesis ..
next
  case False
  then have "upsert_post p rows = rows @ [p]"
    unfolding upsert_post_def by (simp only: if_False)
  then have "p \<in> set (upsert_post p rows)"
    by simp
  then show ?thesis
    by (rule bexI [rotated]) (simp add: same_post_def)
qed

lemma upsert_post_other: "q \<in> set rows \<Longrightarrow> post_key q \<noteq> post_key p \<Longrightarrow> q \<in> set (upsert_post p rows)"
  unfolding upsert_post_def by (auto intro!: image_eqI [of _ _ q])

lemma placed_key: "placed v row m = Some p \<Longrightarrow> \<exists>mid. mr_messageId row = Some mid \<and> post_key p = (v, toLowerCase mid)"
  by (auto simp: placed_def post_of_def split: option.split_asm)

lemma fold_post_holds:
  assumes "row \<in> set rs" "decodePostReplyContents (mr_contents row) = Inr m" "placed v row m = Some p"
    and "\<And>row'. row' \<in> set rs \<Longrightarrow> row' \<noteq> row \<Longrightarrow>
      map_option toLowerCase (mr_messageId row') \<noteq> map_option toLowerCase (mr_messageId row)"
  shows "\<exists>q \<in> set (fold (fold_post v) rs rows). same_post p q"
  using assms(1,4)
proof (induction rs rule: rev_induct)
  case Nil
  then show ?case by simp
next
  case (snoc x xs)
  show ?case
  proof (cases "x = row")
    case True
    then show ?thesis
      using upsert_post_new [of p] assms(2,3) by (simp add: fold_post_def)
  next
    case False
    then obtain q where q: "q \<in> set (fold (fold_post v) xs rows)" "same_post p q"
      using snoc by auto
    have "q \<in> set (fold_post v x (fold (fold_post v) xs rows))"
    proof (cases "decodePostReplyContents (mr_contents x)")
      case (Inr m')
      show ?thesis
      proof (cases "placed v x m'")
        case (Some p')
        have "map_option toLowerCase (mr_messageId x) \<noteq> map_option toLowerCase (mr_messageId row)"
          using snoc.prems(2) False by simp
        then have "post_key q \<noteq> post_key p'"
          using placed_key [OF Some] placed_key [OF assms(3)] same_post_key [OF q(2)] by auto
        then show ?thesis
          using upsert_post_other [OF q(1)] Inr Some by (simp add: fold_post_def)
      qed (use q Inr in \<open>simp add: fold_post_def\<close>)
    qed (use q in \<open>simp add: fold_post_def\<close>)
    then show ?thesis
      using q(2) by auto
  qed
qed

text \<open>A row the write database takes, or one that is skipped because it does not decode.\<close>

definition storable :: "string \<Rightarrow> message_row \<Rightarrow> bool" where
  "storable v row =
     (case decodePostReplyContents (mr_contents row) of
        Inl _ \<Rightarrow> True
      | Inr m \<Rightarrow> (case placed v row m of None \<Rightarrow> False
                 | Some p \<Rightarrow> po_timestamp p \<le> BIGINT_MAX \<and> 0 \<notin> set (po_content p)))"

lemma projectPost_storable:
  assumes "storable v row" "decodePostReplyContents (mr_contents row) = Inr m" "db_posts db s \<noteq> None"
  shows "\<exists>db'. projectPost s row m er v db = Inr db'"
  using assms by (auto simp: storable_def placed_def projectPost_def with_posts_def Let_def split: option.split_asm)

lemma projectPost_not_storable: "\<not> storable v row \<Longrightarrow> decodePostReplyContents (mr_contents row) = Inr m \<Longrightarrow>
    \<exists>e. projectPost s row m er v db = Inl e"
  by (auto simp: storable_def placed_def projectPost_def with_posts_def Let_def split: option.split)

text \<open>What the forward pass has done when it ends, whichever way.\<close>

lemma forward_pass:
  fixes name tag schema version
  defines "h \<equiv> createPostReplyHandler name tag schema version"
  assumes "held name forward db"
    and "pass (\<lambda>i row forward. projectOne h row forward now (ab i)) rows i forward (k, db) = (res, k', db')"
  shows "\<exists>n cur'. n \<le> length rows \<and> cur' = fold (\<lambda>row c. advance c row now) (take n rows) forward \<and> held name cur' db'
    \<and> db_posts db' schema = map_option (fold (fold_post (hc_versionId forward)) (take n rows)) (db_posts db schema)
    \<and> (\<forall>row \<in> set (take n rows). \<forall>m. decodePostReplyContents (mr_contents row) = Inr m \<longrightarrow>
        placed (hc_versionId forward) row m \<noteq> None \<and> db_posts db schema \<noteq> None \<and> storable (hc_versionId forward) row)
    \<and> (\<forall>f j. res = Inr (f, j) \<longrightarrow> f = cur')
    \<and> ((\<forall>i. ab i = None) \<longrightarrow> db_posts db schema \<noteq> None \<longrightarrow> (\<forall>row \<in> set rows. storable (hc_versionId forward) row)
        \<longrightarrow> n = length rows \<and> (\<exists>f j. res = Inr (f, j)))"
  using assms(2,3)
proof (induction rows arbitrary: forward db i k)
  case Nil
  then show ?case
    by (auto simp: option.map_id0 [unfolded id_def])
next
  case (Cons row rows)
  let ?v = "hc_versionId forward"
  have hn: "hd_name h = name"
    by (simp add: h_def post_reply_fields)
  from Cons.prems(1) have held: "held (hd_name (createPostReplyHandler name tag schema version)) forward db"
    by (simp add: post_reply_fields)
  show ?case
  proof (rule post_reply_handler.projectOne_cases [OF held, where row = row and now = now and ab = "ab i" and k = k], goal_cases)
    case (1 db1 k1)
    note step = 1
    have posts: "db_posts db1 schema = map_option (fold_post ?v row) (db_posts db schema)"
      "\<forall>m. decodePostReplyContents (mr_contents row) = Inr m \<longrightarrow> placed ?v row m \<noteq> None \<and> db_posts db schema \<noteq> None \<and> storable ?v row"
    proof -
      have skip: "decodePostReplyContents (mr_contents row) = Inl e \<Longrightarrow> fold_post ?v row = id" for e
        by (rule ext) (simp add: fold_post_def)
      have stored: "projectPost schema row m er ?v db = Inr d \<Longrightarrow> decodePostReplyContents (mr_contents row) = Inr m \<Longrightarrow> storable ?v row" for m er d
        using projectPost_not_storable [of ?v row m schema er db] by fastforce
      have stored': "\<forall>m. decodePostReplyContents (mr_contents row) = Inr m \<longrightarrow> storable ?v row"
        using step(4) stored by (auto simp: post_reply_fields split: sum.split_asm)
      show "db_posts db1 schema = map_option (fold_post ?v row) (db_posts db schema)"
        "\<forall>m. decodePostReplyContents (mr_contents row) = Inr m \<longrightarrow> placed ?v row m \<noteq> None \<and> db_posts db schema \<noteq> None \<and> storable ?v row"
        using step(4) stored'
        by (auto simp: post_reply_fields skip fold_post_def placed_def option.map_id split: sum.split_asm elim!: projectPost_Inr)
    qed
    have v: "hc_versionId (advance forward row now) = ?v"
      by (simp add: advance_def)
    have "pass (\<lambda>i row forward. projectOne h row forward now (ab i)) rows (Suc i) (advance forward row now) (k1, db1) = (res, k', db')"
      using Cons.prems(2) step(1) by (simp add: h_def)
    from Cons.IH [OF step(2) [unfolded post_reply_fields handler.simps] this] obtain n cur' where
      n: "n \<le> length rows" "cur' = fold (\<lambda>row c. advance c row now) (take n rows) (advance forward row now)" "held name cur' db'"
        "db_posts db' schema = map_option (fold (fold_post ?v) (take n rows)) (db_posts db1 schema)"
        "\<forall>row \<in> set (take n rows). \<forall>m. decodePostReplyContents (mr_contents row) = Inr m \<longrightarrow>
          placed ?v row m \<noteq> None \<and> db_posts db1 schema \<noteq> None \<and> storable ?v row"
        "\<forall>f j. res = Inr (f, j) \<longrightarrow> f = cur'"
        "(\<forall>i. ab i = None) \<longrightarrow> db_posts db1 schema \<noteq> None \<longrightarrow> (\<forall>row \<in> set rows. storable ?v row)
          \<longrightarrow> n = length rows \<and> (\<exists>f j. res = Inr (f, j))"
      unfolding v by blast
    have ne: "(db_posts db1 schema \<noteq> None) = (db_posts db schema \<noteq> None)"
      using posts(1) by simp
    have 1: "db_posts db' schema = map_option (fold (fold_post ?v) (take (Suc n) (row # rows))) (db_posts db schema)"
      by (simp add: n(4) posts(1) option.map_comp comp_def)
    have 2: "\<forall>row \<in> set (take (Suc n) (row # rows)). \<forall>m. decodePostReplyContents (mr_contents row) = Inr m \<longrightarrow>
        placed ?v row m \<noteq> None \<and> db_posts db schema \<noteq> None \<and> storable ?v row"
      using n(5) posts(2) unfolding ne by simp
    have 3: "(\<forall>i. ab i = None) \<longrightarrow> db_posts db schema \<noteq> None \<longrightarrow> (\<forall>row \<in> set (row # rows). storable ?v row)
        \<longrightarrow> Suc n = length (row # rows) \<and> (\<exists>f j. res = Inr (f, j))"
      using n(7) unfolding ne by simp
    show ?case
      by (rule exI [of _ "Suc n"], rule exI [of _ cur'], intro conjI 1 2 3) (use n(1-3,6) in simp_all)
  next
    case (2 out k1)
    have "\<not> ((\<forall>i. ab i = None) \<and> db_posts db schema \<noteq> None \<and> (\<forall>row \<in> set (row # rows). storable ?v row))"
    proof
      assume a: "(\<forall>i. ab i = None) \<and> db_posts db schema \<noteq> None \<and> (\<forall>row \<in> set (row # rows). storable ?v row)"
      then obtain m x where m: "decodePostReplyContents (mr_contents row) = Inr m"
          "projectPost schema row m (resolveEnrichments []) ?v db = Inl x"
        using 2(3) by (auto simp: post_reply_fields split: sum.split_asm)
      then show False
        using projectPost_storable [of ?v row m db schema "resolveEnrichments []"] a by auto
    qed
    then show ?case
      using 2(1,2) Cons.prems by (intro exI [of _ 0] exI [of _ forward]) (auto simp: h_def option.map_id0 [unfolded id_def])
  qed
qed

abbreviation evicts :: "(string \<times> nat) list \<Rightarrow> post_row \<Rightarrow> bool" where
  "evicts entries q \<equiv> po_batchRef q \<in> toLowerCase ` fst ` set entries"

lemma reorg_pass:
  fixes name tag schema version
  defines "h \<equiv> createPostReplyHandler name tag schema version"
  assumes "held name forward db"
    and "pass (\<lambda>i entry forward. reorgOne h chain entry forward now (ab i)) entries i forward (k, db) = (res, k', db')"
  shows "\<exists>n cur'. n \<le> length entries \<and> held name cur' db' \<and> cursor_coord cur' = cursor_coord forward
    \<and> hc_versionId cur' = hc_versionId forward
    \<and> hc_lastReorgInvalidatedAt cur' = fold (\<lambda>e m. max m (int (snd e))) (take n entries) (hc_lastReorgInvalidatedAt forward)
    \<and> db_posts db' schema = map_option (filter (\<lambda>q. \<not> evicts (take n entries) q)) (db_posts db schema)
    \<and> ((\<forall>i. ab i = None) \<longrightarrow> db_posts db schema \<noteq> None \<longrightarrow> n = length entries)"
  using assms(2,3)
proof (induction entries arbitrary: forward db i k)
  case Nil
  then show ?case
    by (auto simp: option.map_id0 [unfolded id_def])
next
  case (Cons entry entries)
  let ?adv = "forward\<lparr>hc_lastReorgInvalidatedAt := max (hc_lastReorgInvalidatedAt forward) (int (snd entry)), hc_updatedAt := now\<rparr>"
  from Cons.prems(1) have held: "held (hd_name (createPostReplyHandler name tag schema version)) forward db"
    by (simp add: post_reply_fields)
  show ?case
  proof (rule post_reply_handler.reorgOne_cases [OF held, where entry = entry and now = now and ab = "ab i" and k = k and chain = chain],
      goal_cases)
    case (1 db2 db1 k1)
    have posts: "db_posts db2 schema = map_option (filter (\<lambda>q. po_batchRef q \<noteq> toLowerCase (fst entry))) (db_posts db schema)"
      using 1(4,5) by (auto simp: post_reply_fields with_posts_def split: option.split_asm)
    have "pass (\<lambda>i entry forward. reorgOne h chain entry forward now (ab i)) entries (Suc i) ?adv (k1, db2) = (res, k', db')"
      using Cons.prems(2) 1(1) by (simp add: h_def)
    from Cons.IH [OF 1(2) [unfolded post_reply_fields handler.simps] this] obtain n cur' where
      n: "n \<le> length entries" "held name cur' db'" "cursor_coord cur' = cursor_coord ?adv" "hc_versionId cur' = hc_versionId ?adv"
        "hc_lastReorgInvalidatedAt cur' = fold (\<lambda>e m. max m (int (snd e))) (take n entries) (hc_lastReorgInvalidatedAt ?adv)"
      and rest: "db_posts db' schema = map_option (filter (\<lambda>q. \<not> evicts (take n entries) q)) (db_posts db2 schema)"
        "(\<forall>i. ab i = None) \<longrightarrow> db_posts db2 schema \<noteq> None \<longrightarrow> n = length entries"
      by blast
    have all: "db_posts db' schema = map_option (filter (\<lambda>q. \<not> evicts (take (Suc n) (entry # entries)) q)) (db_posts db schema)"
      unfolding rest posts by (simp add: option.map_comp comp_def conj_commute)
    show ?case
      by (rule exI [of _ "Suc n"], rule exI [of _ cur'], use n all rest(2) posts in simp)
  next
    case (2 k1)
    have "\<not> ((\<forall>i. ab i = None) \<and> db_posts db schema \<noteq> None)"
      using 2(2) by (auto simp: post_reply_fields with_posts_def)
    then show ?case
      using 2(1) Cons.prems by (intro exI [of _ 0] exI [of _ forward]) (auto simp: h_def option.map_id0 [unfolded id_def])
  qed
qed

section \<open>What the forward pass covers\<close>

lemma coord_key_Some: "confirmed_beyond chain tag after r \<Longrightarrow> coord_of r = Some (coord_key r) \<and> after < coord_key r"
  by (auto simp: confirmed_beyond_def coord_key_def coord_gt_less split: option.split_asm)

lemma advance_coord: "coord_of r = Some c \<Longrightarrow> cursor_coord (advance f (source_message r) now) = c"
  by (auto simp: coord_of_def advance_def source_message_def orElse_def split: option.split_asm)

lemma advance_fold_coord:
  assumes "\<forall>r \<in> set rs. coord_of r = Some (coord_key r)"
  shows "cursor_coord (fold (\<lambda>row c. advance c row now) (map source_message rs) f) = (if rs = [] then cursor_coord f else coord_key (last rs))"
proof (cases rs rule: rev_cases)
  case (snoc xs x)
  then show ?thesis
    using advance_coord [of x "coord_key x"] assms by simp
qed simp

lemma advance_fold_keeps:
  "hc_versionId (fold (\<lambda>row c. advance c row now) rows f) = hc_versionId f
    \<and> hc_lastReorgInvalidatedAt (fold (\<lambda>row c. advance c row now) rows f) = hc_lastReorgInvalidatedAt f"
  by (induction rows arbitrary: f) (simp_all add: advance_def)

lemma last_below:
  fixes f :: "'a \<Rightarrow> 'b::linorder"
  assumes "sorted (map f (xs @ ys))" "distinct (map f (xs @ ys))" "xs \<noteq> []" "y \<in> set ys"
  shows "f (last xs) < f y"
proof -
  have "last xs \<in> set xs"
    using assms(3) by simp
  then have "f (last xs) \<le> f y" "f (last xs) \<noteq> f y"
    using assms(1,2,4) by (auto simp: sorted_append disjoint_iff)
  then show ?thesis by simp
qed

text \<open>Every confirmed row beyond the old cursor is among the rows processed or beyond the new one.\<close>

lemma covered:
  assumes "distinct (map coord_key (filter (confirmed_beyond chain tag after) ms))" "r \<in> set ms" "confirmed_beyond chain tag after r"
    and "L = take lim (sort_key coord_key (filter (confirmed_beyond chain tag after) ms))" "after = cursor_coord f"
    and "cur' = fold (\<lambda>row c. advance c row now) (take n (map source_message L)) f" "n \<le> length L"
  shows "r \<in> set (take n L) \<or> cursor_coord cur' < coord_key r"
proof -
  let ?S = "sort_key coord_key (filter (confirmed_beyond chain tag after) ms)"
  have "n \<le> lim"
    using assms(4,7) by simp
  then have take: "take n L = take n ?S"
    unfolding assms(4) by (simp add: min_def)
  have all: "\<forall>r \<in> set (take n ?S). coord_of r = Some (coord_key r)"
    by (auto dest!: in_set_takeD coord_key_Some)
  have cur': "cursor_coord cur' = (if take n ?S = [] then after else coord_key (last (take n ?S)))"
    using advance_fold_coord [OF all, of now f] by (simp add: assms(5,6) take take_map)
  have "r \<in> set ?S"
    using assms(2,3) by simp
  then have split: "r \<in> set (take n ?S) \<or> r \<in> set (drop n ?S)"
    by (metis Un_iff append_take_drop_id set_append)
  have "cursor_coord cur' < coord_key r" if r: "r \<in> set (drop n ?S)"
  proof (cases "take n ?S = []")
    case True
    then show ?thesis
      using cur' coord_key_Some [OF assms(3)] by simp
  next
    case False
    have "sorted (map coord_key (take n ?S @ drop n ?S))" "distinct (map coord_key (take n ?S @ drop n ?S))"
      using assms(1) by (simp_all add: distinct_map)
    then have "coord_key (last (take n ?S)) < coord_key r"
      using False r by (rule last_below)
    then show ?thesis
      using cur' False by simp
  qed
  then show ?thesis
    using split take by auto
qed

section \<open>No confirmed post is skipped\<close>

lemma map_option_rows: "map_option f x = Some y \<Longrightarrow> \<exists>z. x = Some z \<and> y = f z"
  by (cases x) simp_all

text \<open>The forward pass of a tick and its reorg pass, out of the tick.\<close>

lemma tickHandler_cases:
  assumes "getCurrentCursor (hd_name h) db = Some cur" "te_forwardSource te = Inr src" "tickHandler te h db = (res, db')"
  obtains rows fres k db1 where
    "rows = map source_message (listConfirmedAfter (te_chainId te) (hd_contentTag h) (cursor_coord cur) (te_batchSize te) src)"
    "pass (\<lambda>i row forward. projectOne h row forward (te_now te) (te_abort te i)) rows 0 cur (emptyHandlerCounters, db) = (fres, k, db1)"
    "db' = db1 \<and> ((\<exists>e. fres = Inl e) \<or> (\<exists>e. te_reorgSource te = Inl e)) \<or> (\<exists>f j src2 rres k2. fres = Inr (f, j) \<and> te_reorgSource te = Inr src2
      \<and> pass (\<lambda>i entry forward. reorgOne h (te_chainId te) entry forward (te_now te) (te_abort te i))
          (listReorgedAfter (te_chainId te) (hd_contentTag h) (hc_lastReorgInvalidatedAt f) (te_batchSize te) src2) j f (k, db1) = (rres, k2, db'))"
proof -
  let ?rows = "map source_message (listConfirmedAfter (te_chainId te) (hd_contentTag h) (cursor_coord cur) (te_batchSize te) src)"
  obtain fres k db1 where p: "pass (\<lambda>i row forward. projectOne h row forward (te_now te) (te_abort te i)) ?rows 0 cur (emptyHandlerCounters, db) = (fres, k, db1)"
    by (metis prod_cases3)
  show thesis
    by (rule that [OF refl p])
      (use assms p in \<open>auto simp: tickHandler_def Let_def split: sum.split_asm prod.split_asm\<close>)
qed

text \<open>Everything one tick does: a prefix of the forward rows, then a prefix of the reorgs.\<close>

definition tick_rows :: "tick_env \<Rightarrow> string \<Rightarrow> handler_cursor \<Rightarrow> store \<Rightarrow> raw_message list" where
  "tick_rows te tag cur src = listConfirmedAfter (te_chainId te) tag (cursor_coord cur) (te_batchSize te) src"

definition tick_reorgs :: "tick_env \<Rightarrow> string \<Rightarrow> handler_cursor \<Rightarrow> (string \<times> nat) list" where
  "tick_reorgs te tag cur =
     (case te_reorgSource te of Inl _ \<Rightarrow> []
      | Inr src \<Rightarrow> listReorgedAfter (te_chainId te) tag (hc_lastReorgInvalidatedAt cur) (te_batchSize te) src)"

lemma tick_summary:
  assumes "held name cur db" "te_forwardSource te = Inr src"
    and "tickHandler te (createPostReplyHandler name tag schema version) db = (res, db')"
  shows "\<exists>n m cur'. n \<le> length (tick_rows te tag cur src) \<and> m \<le> length (tick_reorgs te tag cur) \<and> held name cur' db'
    \<and> cursor_coord cur' = cursor_coord (fold (\<lambda>row c. advance c row (te_now te)) (take n (map source_message (tick_rows te tag cur src))) cur)
    \<and> hc_versionId cur' = hc_versionId cur
    \<and> hc_lastReorgInvalidatedAt cur' = fold (\<lambda>e m. max m (int (snd e))) (take m (tick_reorgs te tag cur)) (hc_lastReorgInvalidatedAt cur)
    \<and> db_posts db' schema = map_option (\<lambda>rows. filter (\<lambda>q. \<not> evicts (take m (tick_reorgs te tag cur)) q)
        (fold (fold_post (hc_versionId cur)) (take n (map source_message (tick_rows te tag cur src))) rows)) (db_posts db schema)
    \<and> (\<forall>row \<in> set (take n (map source_message (tick_rows te tag cur src))). \<forall>m. decodePostReplyContents (mr_contents row) = Inr m \<longrightarrow>
        placed (hc_versionId cur) row m \<noteq> None \<and> db_posts db schema \<noteq> None \<and> storable (hc_versionId cur) row)
    \<and> ((\<forall>i. te_abort te i = None) \<longrightarrow> db_posts db schema \<noteq> None
        \<longrightarrow> (\<forall>row \<in> set (map source_message (tick_rows te tag cur src)). storable (hc_versionId cur) row)
        \<longrightarrow> n = length (tick_rows te tag cur src) \<and> m = length (tick_reorgs te tag cur))"
proof -
  let ?h = "createPostReplyHandler name tag schema version"
  have cur: "getCurrentCursor (hd_name ?h) db = Some cur"
    using held_cursor [OF assms(1)] by (simp add: post_reply_fields)
  obtain rows fres k db1 where rows: "rows = map source_message (tick_rows te tag cur src)"
    and fp: "pass (\<lambda>i row forward. projectOne ?h row forward (te_now te) (te_abort te i)) rows 0 cur (emptyHandlerCounters, db) = (fres, k, db1)"
    and rp: "db' = db1 \<and> ((\<exists>e. fres = Inl e) \<or> (\<exists>e. te_reorgSource te = Inl e)) \<or> (\<exists>f j src2 rres k2. fres = Inr (f, j) \<and> te_reorgSource te = Inr src2
      \<and> pass (\<lambda>i entry forward. reorgOne ?h (te_chainId te) entry forward (te_now te) (te_abort te i))
          (listReorgedAfter (te_chainId te) tag (hc_lastReorgInvalidatedAt f) (te_batchSize te) src2) j f (k, db1) = (rres, k2, db'))"
    by (rule tickHandler_cases [OF cur assms(2,3), unfolded post_reply_fields handler.simps, folded tick_rows_def])
  obtain n f where n: "n \<le> length rows" "f = fold (\<lambda>row c. advance c row (te_now te)) (take n rows) cur" "held name f db1"
      "db_posts db1 schema = map_option (fold (fold_post (hc_versionId cur)) (take n rows)) (db_posts db schema)"
      "\<forall>row \<in> set (take n rows). \<forall>m. decodePostReplyContents (mr_contents row) = Inr m \<longrightarrow>
        placed (hc_versionId cur) row m \<noteq> None \<and> db_posts db schema \<noteq> None \<and> storable (hc_versionId cur) row"
      "\<forall>g j. fres = Inr (g, j) \<longrightarrow> g = f"
      "(\<forall>i. te_abort te i = None) \<longrightarrow> db_posts db schema \<noteq> None \<longrightarrow> (\<forall>row \<in> set rows. storable (hc_versionId cur) row)
        \<longrightarrow> n = length rows \<and> (\<exists>f j. fres = Inr (f, j))"
    using forward_pass [OF assms(1) fp] by blast
  have f: "hc_versionId f = hc_versionId cur" "hc_lastReorgInvalidatedAt f = hc_lastReorgInvalidatedAt cur"
    using advance_fold_keeps n(2) by simp_all
  obtain m cur' where m: "m \<le> length (tick_reorgs te tag cur)" "held name cur' db'" "cursor_coord cur' = cursor_coord f"
      "hc_versionId cur' = hc_versionId f"
      "hc_lastReorgInvalidatedAt cur' = fold (\<lambda>e m. max m (int (snd e))) (take m (tick_reorgs te tag cur)) (hc_lastReorgInvalidatedAt f)"
      "db_posts db' schema = map_option (filter (\<lambda>q. \<not> evicts (take m (tick_reorgs te tag cur)) q)) (db_posts db1 schema)"
      "(\<forall>i. te_abort te i = None) \<longrightarrow> db_posts db1 schema \<noteq> None \<longrightarrow> (\<exists>f j. fres = Inr (f, j)) \<longrightarrow> m = length (tick_reorgs te tag cur)"
  proof (cases "db' = db1 \<and> ((\<exists>e. fres = Inl e) \<or> (\<exists>e. te_reorgSource te = Inl e))")
    case True
    have all: "filter (\<lambda>q :: post_row. True) = id"
      by auto
    show thesis
      by (rule that [of 0 f]) (use True n(3) in \<open>auto simp: all option.map_id tick_reorgs_def\<close>)
  next
    case False
    then obtain j src2 rres k2 where src2: "te_reorgSource te = Inr src2"
      and p: "pass (\<lambda>i entry forward. reorgOne ?h (te_chainId te) entry forward (te_now te) (te_abort te i))
          (listReorgedAfter (te_chainId te) tag (hc_lastReorgInvalidatedAt f) (te_batchSize te) src2) j f (k, db1) = (rres, k2, db')"
      using rp n(6) by blast
    have E: "listReorgedAfter (te_chainId te) tag (hc_lastReorgInvalidatedAt f) (te_batchSize te) src2 = tick_reorgs te tag cur"
      by (simp add: tick_reorgs_def src2 f)
    show thesis
      using reorg_pass [OF n(3) p, unfolded E] that by blast
  qed
  have posts: "db_posts db' schema = map_option (\<lambda>rows. filter (\<lambda>q. \<not> evicts (take m (tick_reorgs te tag cur)) q)
        (fold (fold_post (hc_versionId cur)) (take n (map source_message (tick_rows te tag cur src))) rows)) (db_posts db schema)"
    by (simp add: m(6) n(4) rows option.map_comp comp_def)
  have ne: "(db_posts db1 schema \<noteq> None) = (db_posts db schema \<noteq> None)"
    using n(4) by simp
  have last: "(\<forall>i. te_abort te i = None) \<longrightarrow> db_posts db schema \<noteq> None
        \<longrightarrow> (\<forall>row \<in> set (map source_message (tick_rows te tag cur src)). storable (hc_versionId cur) row)
        \<longrightarrow> n = length (tick_rows te tag cur src) \<and> m = length (tick_reorgs te tag cur)"
    using n(7) m(7) unfolding ne rows by simp
  show ?thesis
    by (rule exI [of _ n], rule exI [of _ m], rule exI [of _ cur'], intro conjI posts last n(5) [unfolded rows] m(1,2))
      (use n(1) m(3-5) f in \<open>simp_all add: rows n(2)\<close>)
qed

lemma tick_covers:
  assumes "cursors_inv db" "getCurrentCursor name db = Some cur"
    and "tickHandler te (createPostReplyHandler name tag schema version) db = (res, db')"
    and "te_forwardSource te = Inr src"
    and "distinct (map coord_key (filter (confirmed_beyond (te_chainId te) tag (cursor_coord cur)) (st_messages src)))"
    and "r \<in> set (st_messages src)" "confirmed_beyond (te_chainId te) tag (cursor_coord cur) r"
    and "\<And>r'. r' \<in> set (st_messages src) \<Longrightarrow> source_message r' \<noteq> source_message r \<Longrightarrow>
      map_option toLowerCase (rm_messageId r') \<noteq> map_option toLowerCase (rm_messageId r)"
    and "decodePostReplyContents (rm_contents r) = Inr m"
  shows "\<exists>cur'. getCurrentCursor name db' = Some cur' \<and> hc_versionId cur' = hc_versionId cur
    \<and> (cursor_coord cur' < coord_key r
       \<or> (\<exists>p q rows. placed (hc_versionId cur) (source_message r) m = Some p \<and> same_post p q
             \<and> db_posts db' schema = Some rows \<and> q \<in> set rows)
       \<or> (\<exists>src2 b. te_reorgSource te = Inr src2 \<and> b \<in> set (st_batches src2)
             \<and> reorged_beyond (te_chainId te) tag (hc_lastReorgInvalidatedAt cur) b
             \<and> map_option toLowerCase (rm_batchRef r) = Some (toLowerCase (rb_txHash b))))"
proof -
  let ?L = "tick_rows te tag cur src"
  let ?E = "tick_reorgs te tag cur"
  let ?rows = "map source_message ?L"
  obtain n m' cur' where n: "n \<le> length ?L" "held name cur' db'"
      "cursor_coord cur' = cursor_coord (fold (\<lambda>row c. advance c row (te_now te)) (take n ?rows) cur)"
      "hc_versionId cur' = hc_versionId cur"
    and posts: "db_posts db' schema = map_option (\<lambda>rows. filter (\<lambda>q. \<not> evicts (take m' ?E) q)
        (fold (fold_post (hc_versionId cur)) (take n ?rows) rows)) (db_posts db schema)"
    and ok: "\<forall>row \<in> set (take n ?rows). \<forall>m. decodePostReplyContents (mr_contents row) = Inr m \<longrightarrow>
        placed (hc_versionId cur) row m \<noteq> None \<and> db_posts db schema \<noteq> None \<and> storable (hc_versionId cur) row"
    using tick_summary [OF heldI [OF assms(1,2)] assms(4,3)] by blast
  consider "r \<in> set (take n ?L)" | "cursor_coord cur' < coord_key r"
    using covered [OF assms(5-7) tick_rows_def [unfolded listConfirmedAfter_def] refl refl n(1)] n(3) by auto
  then have "cursor_coord cur' < coord_key r
       \<or> (\<exists>p q rows. placed (hc_versionId cur) (source_message r) m = Some p \<and> same_post p q
             \<and> db_posts db' schema = Some rows \<and> q \<in> set rows)
       \<or> (\<exists>src2 b. te_reorgSource te = Inr src2 \<and> b \<in> set (st_batches src2)
             \<and> reorged_beyond (te_chainId te) tag (hc_lastReorgInvalidatedAt cur) b
             \<and> map_option toLowerCase (rm_batchRef r) = Some (toLowerCase (rb_txHash b)))"
  proof cases
    case 1
    have mem: "source_message r \<in> set (take n ?rows)"
      using 1 by (simp add: take_map)
    have dec: "decodePostReplyContents (mr_contents (source_message r)) = Inr m"
      using assms(9) by (simp add: source_message_def)
    obtain p rs where p: "placed (hc_versionId cur) (source_message r) m = Some p" and rs: "db_posts db schema = Some rs"
      using ok mem dec by blast
    have ids: "map_option toLowerCase (mr_messageId row') \<noteq> map_option toLowerCase (mr_messageId (source_message r))"
      if row': "row' \<in> set (take n ?rows)" "row' \<noteq> source_message r" for row'
    proof -
      obtain r' where "r' \<in> set (st_messages src)" "row' = source_message r'"
        using row'(1) by (auto simp: tick_rows_def listConfirmedAfter_def dest!: in_set_takeD)
      then show ?thesis
        using assms(8) [of r'] row'(2) by (auto simp: source_message_def)
    qed
    obtain q where q: "q \<in> set (fold (fold_post (hc_versionId cur)) (take n ?rows) rs)" "same_post p q"
      using fold_post_holds [OF mem dec p ids] by blast
    show ?thesis
    proof (cases "evicts (take m' ?E) q")
      case False
      then show ?thesis
        using q posts rs p by auto
    next
      case True
      have bref: "map_option toLowerCase (rm_batchRef r) = Some (po_batchRef q)"
        using p same_post_key [OF q(2)] by (auto simp: placed_def post_of_def source_message_def split: option.split_asm)
      obtain e where "e \<in> set ?E" "po_batchRef q = toLowerCase (fst e)"
        using True by (auto dest!: in_set_takeD)
      then obtain src2 b where "te_reorgSource te = Inr src2" "b \<in> set (st_batches src2)"
          "reorged_beyond (te_chainId te) tag (hc_lastReorgInvalidatedAt cur) b" "po_batchRef q = toLowerCase (rb_txHash b)"
        by (cases "te_reorgSource te") (auto simp: tick_reorgs_def listReorgedAfter_def dest!: in_set_takeD)
      then show ?thesis
        unfolding bref by (intro disjI2) blast
    qed
  qed simp
  then show ?thesis
    using held_cursor [OF n(2)] n(4) by auto
qed


section \<open>Runs of ticks\<close>

primrec run_ticks :: "tick_env list \<Rightarrow> 'e handler \<Rightarrow> index_db \<Rightarrow> index_db" where
  "run_ticks [] h db = db"
| "run_ticks (te # tes) h db = run_ticks tes h (snd (tickHandler te h db))"

lemma tickHandler_no_source:
  "getCurrentCursor (hd_name h) db = Some cur \<Longrightarrow> te_forwardSource te = Inl e \<Longrightarrow> snd (tickHandler te h db) = db"
  by (simp add: tickHandler_def)

lemma first_row:
  assumes "r \<in> set (st_messages src)" "confirmed_beyond (te_chainId te) tag (cursor_coord cur) r"
    and "\<And>r'. r' \<in> set (st_messages src) \<Longrightarrow> confirmed_beyond (te_chainId te) tag (cursor_coord cur) r' \<Longrightarrow> r' = r \<or> coord_key r < coord_key r'"
  shows "tick_rows te tag cur src = [] \<or> hd (tick_rows te tag cur src) = r"
proof -
  let ?S = "sort_key coord_key (filter (confirmed_beyond (te_chainId te) tag (cursor_coord cur)) (st_messages src))"
  have r: "r \<in> set ?S"
    using assms(1,2) by simp
  then obtain x S where S: "?S = x # S"
    by (cases ?S) auto
  have "x \<in> set ?S"
    unfolding S by simp
  then have x: "x = r \<or> coord_key r < coord_key x"
    using assms(3) [of x] by simp
  have "sorted (map coord_key ?S)"
    by simp
  then have "coord_key x \<le> coord_key r"
    using r unfolding S by auto
  then have "x = r"
    using x by auto
  then show ?thesis
    unfolding tick_rows_def listConfirmedAfter_def S by (cases "te_batchSize te") simp_all
qed

text \<open>
  C30. One post the database cannot take stops the indexer of its tag for good: if the first row beyond the cursor decodes and its text contains the code point 0 (which the encoder accepts and Postgres text does not), or its timestamp exceeds a bigint, then whatever number of ticks follow over whatever sources in which it stays the first row, the cursor keeps its coordinate and no row is added to the posts table. tick.ts says that a poison payload does not wedge the loop.
\<close>

theorem poison_row_wedges_indexer:
  assumes "cursors_inv db" "getCurrentCursor name db = Some cur"
    and "decodePostReplyContents (rm_contents r) = Inr m"
    and "0 \<in> set (pr_content m) \<or> BIGINT_MAX < js_shortest (nat (pr_timestamp m))"
    and "confirmed_beyond chain tag (cursor_coord cur) r"
    and "\<forall>te \<in> set tes. te_chainId te = chain \<and> (\<forall>src. te_forwardSource te = Inr src \<longrightarrow> r \<in> set (st_messages src)
      \<and> (\<forall>r' \<in> set (st_messages src). confirmed_beyond chain tag (cursor_coord cur) r' \<longrightarrow> r' = r \<or> coord_key r < coord_key r'))"
  shows "\<exists>cur'. getCurrentCursor name (run_ticks tes (createPostReplyHandler name tag schema version) db) = Some cur'
    \<and> cursor_coord cur' = cursor_coord cur
    \<and> (\<forall>rows'. db_posts (run_ticks tes (createPostReplyHandler name tag schema version) db) schema = Some rows' \<longrightarrow>
        (\<exists>rows. db_posts db schema = Some rows \<and> set rows' \<subseteq> set rows))"
  using assms(1,2,5,6)
proof (induction tes arbitrary: db cur)
  case Nil
  then show ?case by auto
next
  case (Cons te tes)
  let ?h = "createPostReplyHandler name tag schema version"
  let ?db1 = "snd (tickHandler te ?h db)"
  have bad: "\<not> storable v (source_message r)" for v
    using assms(3,4) by (auto simp: storable_def source_message_def placed_def post_of_def split: option.split)
  have held: "held name cur db"
    using Cons.prems(1,2) by (rule heldI)
  obtain cur1 where c1: "held name cur1 ?db1" "cursor_coord cur1 = cursor_coord cur"
    and p1: "\<forall>rows'. db_posts ?db1 schema = Some rows' \<longrightarrow> (\<exists>rows. db_posts db schema = Some rows \<and> set rows' \<subseteq> set rows)"
  proof (cases "te_forwardSource te")
    case (Inl e)
    have "?db1 = db"
      by (rule tickHandler_no_source [OF _ Inl, of _ _ cur]) (use Cons.prems(2) in \<open>simp add: post_reply_fields\<close>)
    then show thesis
      using that [of cur] held by simp
  next
    case (Inr src)
    let ?rows = "map source_message (tick_rows te tag cur src)"
    have chain: "te_chainId te = chain"
      using Cons.prems(4) by simp
    have src: "r \<in> set (st_messages src)"
      "\<And>r'. r' \<in> set (st_messages src) \<Longrightarrow> confirmed_beyond (te_chainId te) tag (cursor_coord cur) r' \<Longrightarrow> r' = r \<or> coord_key r < coord_key r'"
      using Cons.prems(4) Inr by auto
    obtain n k cur' where n: "held name cur' ?db1"
        "cursor_coord cur' = cursor_coord (fold (\<lambda>row c. advance c row (te_now te)) (take n ?rows) cur)"
      and posts: "db_posts ?db1 schema = map_option (\<lambda>rows. filter (\<lambda>q. \<not> evicts (take k (tick_reorgs te tag cur)) q)
          (fold (fold_post (hc_versionId cur)) (take n ?rows) rows)) (db_posts db schema)"
      and ok: "\<forall>row \<in> set (take n ?rows). \<forall>m. decodePostReplyContents (mr_contents row) = Inr m \<longrightarrow>
        placed (hc_versionId cur) row m \<noteq> None \<and> db_posts db schema \<noteq> None \<and> storable (hc_versionId cur) row"
      using tick_summary [OF held Inr surjective_pairing] by blast
    have none: "take n ?rows = []"
    proof (rule ccontr)
      assume a: "take n ?rows \<noteq> []"
      then have ne: "tick_rows te tag cur src \<noteq> []"
        by auto
      then have "hd (tick_rows te tag cur src) = r"
        using first_row [of r src te tag cur] src Cons.prems(3) chain by auto
      then have "hd ?rows = source_message r"
        using ne by (simp add: hd_map)
      moreover have "hd ?rows \<in> set (take n ?rows)"
        using a by (cases n; cases "tick_rows te tag cur src") simp_all
      ultimately have "source_message r \<in> set (take n ?rows)"
        by simp
      then show False
        using ok bad assms(3) by (auto simp: source_message_def)
    qed
    show thesis
      by (rule that [of cur']) (use n [unfolded none] posts [unfolded none] in auto)
  qed
  have "\<exists>cur'. getCurrentCursor name (run_ticks tes ?h ?db1) = Some cur' \<and> cursor_coord cur' = cursor_coord cur1
    \<and> (\<forall>rows'. db_posts (run_ticks tes ?h ?db1) schema = Some rows' \<longrightarrow> (\<exists>rows. db_posts ?db1 schema = Some rows \<and> set rows' \<subseteq> set rows))"
    by (rule Cons.IH) (use c1 held_cursor [OF c1(1)] Cons.prems(3,4) in \<open>simp_all add: held_def\<close>)
  then show ?case
    unfolding run_ticks.simps c1(2) using p1 by (meson subset_trans)
qed


section \<open>Catching up\<close>

lemma confirmed_mono:
  "after \<le> after' \<Longrightarrow> confirmed_beyond chain tag after' r \<longleftrightarrow> confirmed_beyond chain tag after r \<and> after' < coord_key r"
  by (auto simp: confirmed_beyond_def coord_key_def coord_gt_less split: option.splits)

lemma filter_beyond:
  fixes f :: "'a \<Rightarrow> 'b::linorder"
  assumes "sorted (map f (xs @ ys))" "distinct (map f (xs @ ys))" "xs \<noteq> []"
  shows "filter (\<lambda>y. f (last xs) < f y) (xs @ ys) = ys"
proof -
  have "\<not> f (last xs) < f x" if "x \<in> set xs" for x
  proof -
    obtain zs where xs: "xs = zs @ [last xs]"
      using assms(3) by (metis append_butlast_last_id)
    then have "sorted (map f (zs @ [last xs]))"
      using assms(1) by (metis map_append sorted_append)
    moreover have "x \<in> set zs \<or> x = last xs"
      using that by (subst (asm) xs) auto
    ultimately show ?thesis
      by (auto simp: sorted_append)
  qed
  then show ?thesis
    using last_below [OF assms] by (simp add: filter_False)
qed

lemma pending_after:
  assumes "distinct (map coord_key (filter (confirmed_beyond chain tag after) ms))"
    and "S = sort_key coord_key (filter (confirmed_beyond chain tag after) ms)" "n \<le> length S" "n > 0"
  shows "length (filter (confirmed_beyond chain tag (coord_key (last (take n S)))) ms) = length (filter (confirmed_beyond chain tag after) ms) - n"
proof -
  let ?new = "coord_key (last (take n S))"
  have ne: "take n S \<noteq> []"
    using assms(3,4) by auto
  then have "last (take n S) \<in> set S"
    by (meson in_set_takeD last_in_set)
  then have "confirmed_beyond chain tag after (last (take n S))"
    unfolding assms(2) by simp
  then have "after < ?new"
    using coord_key_Some by blast
  then have "filter (confirmed_beyond chain tag ?new) ms = filter (\<lambda>r. ?new < coord_key r) (filter (confirmed_beyond chain tag after) ms)"
    unfolding filter_filter by (intro filter_cong [OF refl] confirmed_mono less_imp_le)
  then have "length (filter (confirmed_beyond chain tag ?new) ms) = length (filter (\<lambda>r. ?new < coord_key r) S)"
    unfolding assms(2) filter_sort length_sort by simp
  also have "filter (\<lambda>r. ?new < coord_key r) S = drop n S"
    using filter_beyond [of coord_key "take n S" "drop n S"] assms(1,2) ne by (simp add: distinct_map)
  finally show ?thesis
    by (simp add: assms(2))
qed

text \<open>
  C27. The indexer catches up: while nothing new arrives, no transaction is aborted and the rows pending for its tag can be stored or do not decode, every tick moves the cursor past batchSize of them, so after k ticks the number of rows beyond the cursor is what it was less k * batchSize, and a backlog of n rows is gone after n / batchSize ticks rounded up.
\<close>

theorem indexer_catches_up:
  assumes "cursors_inv db" "getCurrentCursor name db = Some cur" "db_posts db schema \<noteq> None"
    and "distinct (map coord_key (filter (confirmed_beyond chain tag (cursor_coord cur)) (st_messages src)))"
    and "\<forall>r \<in> set (st_messages src). confirmed_beyond chain tag (cursor_coord cur) r \<longrightarrow> storable (hc_versionId cur) (source_message r)"
    and "\<forall>te \<in> set tes. te_chainId te = chain \<and> te_batchSize te = B \<and> te_forwardSource te = Inr src \<and> (\<forall>i. te_abort te i = None)"
  shows "\<exists>cur'. getCurrentCursor name (run_ticks tes (createPostReplyHandler name tag schema version) db) = Some cur'
    \<and> length (filter (confirmed_beyond chain tag (cursor_coord cur')) (st_messages src))
      = length (filter (confirmed_beyond chain tag (cursor_coord cur)) (st_messages src)) - length tes * B"
  using assms
proof (induction tes arbitrary: db cur)
  case Nil
  then show ?case by auto
next
  case (Cons te tes)
  let ?h = "createPostReplyHandler name tag schema version"
  let ?db1 = "snd (tickHandler te ?h db)"
  let ?S = "sort_key coord_key (filter (confirmed_beyond chain tag (cursor_coord cur)) (st_messages src))"
  let ?rows = "tick_rows te tag cur src"
  have te: "te_chainId te = chain" "te_batchSize te = B" "te_forwardSource te = Inr src" "\<forall>i. te_abort te i = None"
    using Cons.prems(6) by auto
  have L: "?rows = take B ?S"
    by (simp add: tick_rows_def listConfirmedAfter_def te)
  have mem: "r \<in> set (st_messages src) \<and> confirmed_beyond chain tag (cursor_coord cur) r" if "r \<in> set ?rows" for r
    using that unfolding L by (auto dest!: in_set_takeD)
  obtain n cur' where n: "held name cur' ?db1" "hc_versionId cur' = hc_versionId cur" "n = length ?rows"
      "cursor_coord cur' = cursor_coord (fold (\<lambda>row c. advance c row (te_now te)) (take n (map source_message ?rows)) cur)"
    and posts: "db_posts ?db1 schema \<noteq> None"
  proof -
    obtain n m cur' where "held name cur' ?db1" "hc_versionId cur' = hc_versionId cur"
        "cursor_coord cur' = cursor_coord (fold (\<lambda>row c. advance c row (te_now te)) (take n (map source_message ?rows)) cur)"
        "db_posts ?db1 schema = map_option (\<lambda>rows. filter (\<lambda>q. \<not> evicts (take m (tick_reorgs te tag cur)) q)
          (fold (fold_post (hc_versionId cur)) (take n (map source_message ?rows)) rows)) (db_posts db schema)"
        "(\<forall>i. te_abort te i = None) \<longrightarrow> db_posts db schema \<noteq> None
          \<longrightarrow> (\<forall>row \<in> set (map source_message ?rows). storable (hc_versionId cur) row) \<longrightarrow> n = length ?rows \<and> m = length (tick_reorgs te tag cur)"
      using tick_summary [OF heldI [OF Cons.prems(1,2)] te(3) surjective_pairing] by blast
    moreover have "\<forall>row \<in> set (map source_message ?rows). storable (hc_versionId cur) row"
      using mem Cons.prems(5) by auto
    ultimately show thesis
      using that te(4) Cons.prems(3) by auto
  qed
  have coord: "cursor_coord cur' = (if ?rows = [] then cursor_coord cur else coord_key (last ?rows))"
    using advance_fold_coord [of ?rows "te_now te" cur] mem coord_key_Some n(3,4) by fastforce
  have len: "length (filter (confirmed_beyond chain tag (cursor_coord cur')) (st_messages src))
      = length (filter (confirmed_beyond chain tag (cursor_coord cur)) (st_messages src)) - B"
  proof (cases "?rows = []")
    case True
    then have "?S = [] \<or> B = 0"
      unfolding L by (metis take_eq_Nil)
    then have "filter (confirmed_beyond chain tag (cursor_coord cur)) (st_messages src) = [] \<or> B = 0"
      by (metis length_0_conv length_sort)
    then show ?thesis
      using coord True by auto
  next
    case False
    have take: "take (length ?rows) ?S = ?rows"
      by (simp add: L min_def)
    have cc: "cursor_coord cur' = coord_key (last ?rows)"
      using coord False by simp
    have "length ?rows \<le> length ?S" "0 < length ?rows"
      using False by (simp add: L) (use False in simp)
    then have "length (filter (confirmed_beyond chain tag (cursor_coord cur')) (st_messages src))
      = length (filter (confirmed_beyond chain tag (cursor_coord cur)) (st_messages src)) - length ?rows"
      unfolding cc using pending_after [OF Cons.prems(4) refl, of "length ?rows", unfolded take] by blast
    then show ?thesis
      by (simp add: L min_def split: if_split_asm)
  qed
  have mono: "cursor_coord cur \<le> cursor_coord cur'"
  proof (cases "?rows = []")
    case False
    have cc: "cursor_coord cur' = coord_key (last ?rows)"
      using coord False by simp
    have "cursor_coord cur < coord_key (last ?rows)"
      using mem [OF last_in_set [OF False]] coord_key_Some by blast
    then show ?thesis
      unfolding cc by (rule less_imp_le)
  next
    case True
    then have "cursor_coord cur' = cursor_coord cur"
      using coord by simp
    then show ?thesis
      by (rule ord_eq_le_trans [OF sym order_refl])
  qed
  have sub: "confirmed_beyond chain tag (cursor_coord cur') r \<Longrightarrow> confirmed_beyond chain tag (cursor_coord cur) r" for r
    using confirmed_mono [OF mono] by blast
  have "\<exists>c. getCurrentCursor name (run_ticks tes ?h ?db1) = Some c
    \<and> length (filter (confirmed_beyond chain tag (cursor_coord c)) (st_messages src))
      = length (filter (confirmed_beyond chain tag (cursor_coord cur')) (st_messages src)) - length tes * B"
  proof (rule Cons.IH)
    show "distinct (map coord_key (filter (confirmed_beyond chain tag (cursor_coord cur')) (st_messages src)))"
    proof -
      have "filter (confirmed_beyond chain tag (cursor_coord cur')) (st_messages src)
          = filter (confirmed_beyond chain tag (cursor_coord cur')) (filter (confirmed_beyond chain tag (cursor_coord cur)) (st_messages src))"
        unfolding filter_filter by (rule filter_cong [OF refl]) (use sub in blast)
      then show ?thesis
        using distinct_map_filter [OF Cons.prems(4)] by simp
    qed
  qed (use n(1,2) held_cursor [OF n(1)] posts Cons.prems(5,6) sub in \<open>auto simp: held_def\<close>)
  then show ?case
    using len by simp
qed


section \<open>Reorgs\<close>

lemma fold_post_other:
  assumes "q \<in> set rows" "\<And>row. row \<in> set rs \<Longrightarrow> map_option toLowerCase (mr_messageId row) \<noteq> Some (po_messageId q)"
  shows "q \<in> set (fold (fold_post v) rs rows)"
  using assms
proof (induction rs arbitrary: rows)
  case (Cons row rs)
  have "q \<in> set (fold_post v row rows)"
  proof (cases "\<exists>m p. decodePostReplyContents (mr_contents row) = Inr m \<and> placed v row m = Some p")
    case True
    then obtain m p where mp: "decodePostReplyContents (mr_contents row) = Inr m" "placed v row m = Some p"
      by blast
    have "post_key q \<noteq> post_key p"
      using placed_key [OF mp(2)] Cons.prems(2) [of row] by auto
    then show ?thesis
      using upsert_post_other Cons.prems(1) mp by (simp add: fold_post_def)
  next
    case False
    then show ?thesis
      using Cons.prems(1) by (auto simp: fold_post_def split: sum.split option.split)
  qed
  then show ?case
    unfolding fold_Cons o_def by (rule Cons.IH) (rule Cons.prems(2), simp)
qed simp

lemma fold_max_ge: "a \<le> fold (\<lambda>e m. max m (int (snd e))) es (a :: int)"
proof (induction es arbitrary: a)
  case (Cons e es)
  have "max a (int (snd e)) \<le> fold (\<lambda>e m. max m (int (snd e))) es (max a (int (snd e)))"
    by (rule Cons.IH)
  then show ?case by simp
qed simp

text \<open>
  A reorg the cursor has passed is never applied: the reorg pass asks for invalidation times strictly greater than the cursor's, so a reorged batch whose time is not (a second batch of the same millisecond cut off by the batch size, or committed after the query) is not read again, and a post projected from it stays in the posts table through any number of ticks. The comment of tick.ts says that cursoring on invalidated_at cannot miss a cascade.
\<close>

theorem tied_reorg_is_lost:
  assumes "cursors_inv db" "getCurrentCursor name db = Some cur" "db_posts db schema = Some rows" "q \<in> set rows"
    and "\<forall>te \<in> set tes. (\<forall>src. te_forwardSource te = Inr src \<longrightarrow>
        (\<forall>r \<in> set (st_messages src). map_option toLowerCase (rm_messageId r) \<noteq> Some (po_messageId q)))
      \<and> (\<forall>src. te_reorgSource te = Inr src \<longrightarrow> (\<forall>b \<in> set (st_batches src). toLowerCase (rb_txHash b) = po_batchRef q \<longrightarrow>
          (\<exists>t. rb_invalidatedAt b = Some t \<and> int t \<le> hc_lastReorgInvalidatedAt cur)))"
  shows "\<exists>rows'. db_posts (run_ticks tes (createPostReplyHandler name tag schema version) db) schema = Some rows' \<and> q \<in> set rows'"
  using assms
proof (induction tes arbitrary: db cur rows)
  case Nil
  then show ?case by simp
next
  case (Cons te tes)
  let ?h = "createPostReplyHandler name tag schema version"
  let ?db1 = "snd (tickHandler te ?h db)"
  have held: "held name cur db"
    using Cons.prems(1,2) by (rule heldI)
  obtain cur1 rows1 where c1: "held name cur1 ?db1" "hc_lastReorgInvalidatedAt cur \<le> hc_lastReorgInvalidatedAt cur1"
    and q1: "db_posts ?db1 schema = Some rows1" "q \<in> set rows1"
  proof (cases "te_forwardSource te")
    case (Inl e)
    have "?db1 = db"
      by (rule tickHandler_no_source [OF _ Inl, of _ _ cur]) (use Cons.prems(2) in \<open>simp add: post_reply_fields\<close>)
    then show thesis
      using that [of cur rows] held Cons.prems(3,4) by simp
  next
    case (Inr src)
    let ?rows = "map source_message (tick_rows te tag cur src)"
    let ?E = "tick_reorgs te tag cur"
    obtain n k cur' where n: "held name cur' ?db1"
        "hc_lastReorgInvalidatedAt cur' = fold (\<lambda>e m. max m (int (snd e))) (take k ?E) (hc_lastReorgInvalidatedAt cur)"
      and posts: "db_posts ?db1 schema = map_option (\<lambda>rows. filter (\<lambda>q. \<not> evicts (take k ?E) q)
          (fold (fold_post (hc_versionId cur)) (take n ?rows) rows)) (db_posts db schema)"
      using tick_summary [OF held Inr surjective_pairing] by blast
    have "map_option toLowerCase (mr_messageId row) \<noteq> Some (po_messageId q)" if row: "row \<in> set (take n ?rows)" for row
    proof -
      obtain r where "r \<in> set (st_messages src)" "row = source_message r"
        using row by (auto simp: tick_rows_def listConfirmedAfter_def dest!: in_set_takeD)
      then show ?thesis
        using Cons.prems(5) Inr by (auto simp: source_message_def)
    qed
    then have q: "q \<in> set (fold (fold_post (hc_versionId cur)) (take n ?rows) rows)"
      using Cons.prems(4) by (intro fold_post_other)
    have "\<not> evicts (take k ?E) q"
    proof
      assume "evicts (take k ?E) q"
      then obtain e where e: "e \<in> set ?E" "po_batchRef q = toLowerCase (fst e)"
        by (auto dest!: in_set_takeD)
      obtain src2 where src2: "te_reorgSource te = Inr src2"
        using e(1) by (cases "te_reorgSource te") (auto simp: tick_reorgs_def)
      obtain b where b: "b \<in> set (st_batches src2)" "reorged_beyond (te_chainId te) tag (hc_lastReorgInvalidatedAt cur) b"
          "po_batchRef q = toLowerCase (rb_txHash b)"
        using e src2 by (auto simp: tick_reorgs_def listReorgedAfter_def dest!: in_set_takeD)
      then obtain t where "rb_invalidatedAt b = Some t" "int t \<le> hc_lastReorgInvalidatedAt cur"
        using Cons.prems(5) src2 by fastforce
      then show False
        using b(2) by (simp add: reorged_beyond_def)
    qed
    then have "q \<in> set (filter (\<lambda>q. \<not> evicts (take k ?E) q) (fold (fold_post (hc_versionId cur)) (take n ?rows) rows))"
      using q by simp
    moreover have "db_posts ?db1 schema = Some (filter (\<lambda>q. \<not> evicts (take k ?E) q) (fold (fold_post (hc_versionId cur)) (take n ?rows) rows))"
      using posts Cons.prems(3) by simp
    moreover have "hc_lastReorgInvalidatedAt cur \<le> hc_lastReorgInvalidatedAt cur'"
      unfolding n(2) by (rule fold_max_ge)
    ultimately show thesis
      using that [OF n(1)] by blast
  qed
  have "\<exists>rows'. db_posts (run_ticks tes ?h ?db1) schema = Some rows' \<and> q \<in> set rows'"
  proof (rule Cons.IH [OF _ held_cursor [OF c1(1)] q1])
    show "cursors_inv ?db1"
      using c1(1) by (simp add: held_def)
    show "\<forall>te \<in> set tes. (\<forall>src. te_forwardSource te = Inr src \<longrightarrow>
        (\<forall>r \<in> set (st_messages src). map_option toLowerCase (rm_messageId r) \<noteq> Some (po_messageId q)))
      \<and> (\<forall>src. te_reorgSource te = Inr src \<longrightarrow> (\<forall>b \<in> set (st_batches src). toLowerCase (rb_txHash b) = po_batchRef q \<longrightarrow>
          (\<exists>t. rb_invalidatedAt b = Some t \<and> int t \<le> hc_lastReorgInvalidatedAt cur1)))"
      using Cons.prems(5) c1(2) by fastforce
  qed
  then show ?case by simp
qed


section \<open>Examples\<close>

definition sample_contents :: "byte \<Rightarrow> bytes" where
  "sample_contents c = [1, 0, 0, 0, 0, 0, 0, 0, 0, 5, 0, 0, 0, 1, c]"

lemma sample_decodes: "decodePostReplyContents (sample_contents 104) = Inr (Post 5 [104])"
  "decodePostReplyContents (sample_contents 0) = Inr (Post 5 [0])"
proof -
  have upt: "[0..<8] = [0, 1, 2, 3, 4, 5, 6, 7]"
    by (simp add: upt_rec)
  have stamp: "readU64BE (sample_contents c) 2 = 5" "readU32BE (sample_contents c) 10 = 1" for c
    by (simp_all add: sample_contents_def readU64BE_def load_be_def readU32BE_def upt)
  have "Number_of_bigint 5 = 5"
    by (rule Number_of_bigint_exact) simp
  then show "decodePostReplyContents (sample_contents 104) = Inr (Post 5 [104])"
    "decodePostReplyContents (sample_contents 0) = Inr (Post 5 [0])"
    by (simp_all add: decodePostReplyContents_def stamp Let_def)
      (simp_all add: sample_contents_def ENVELOPE_VERSION_def KIND_POST_def slice_def textOf_def textDecode_def stripBom_def)
qed

definition sample_post :: "byte \<Rightarrow> raw_message" where
  "sample_post c =
     \<lparr>rm_sender = ''0xa'', rm_nonce = ''1'', rm_contentTag = ''0xt'', rm_contents = sample_contents c, rm_signature = [],
      rm_messageHash = ''0xf'', rm_messageId = Some ''0xe'', rm_status = Confirmed, rm_batchRef = Some ''0xb'', rm_chainId = Some 1,
      rm_ingestedAt = None, rm_ingestSeq = None, rm_blockNumber = Some 2, rm_txIndex = Some 0, rm_messageIndex = Some 0\<rparr>"

abbreviation (input) sample_cursor :: handler_cursor where
  "sample_cursor \<equiv> genesis_cursor (createPostReplyHandler ''tw'' ''0xt'' ''s'' None) ''v'' 0"

abbreviation (input) sample_index :: index_db where
  "sample_index \<equiv> \<lparr>db_cursors = [sample_cursor], db_posts = [''s'' \<mapsto> []]\<rparr>"

definition sample_tick :: "store \<Rightarrow> tick_env" where
  "sample_tick src = \<lparr>te_chainId = 1, te_batchSize = 1, te_forwardSource = Inr src, te_reorgSource = Inr src,
     te_now = 9, te_abort = (\<lambda>_. None)\<rparr>"

lemma sample_index_ok: "cursors_inv sample_index" "getCurrentCursor ''tw'' sample_index = Some sample_cursor"
  by (simp_all add: cursors_inv_def currents_def getCurrentCursor_def genesis_cursor_def createPostReplyHandler_def)

lemma sample_post_beyond: "confirmed_beyond 1 ''0xt'' (cursor_coord sample_cursor) (sample_post c)"
  by (simp add: confirmed_beyond_def sample_post_def genesis_cursor_def coord_of_def coord_gt_def)

theorem poison_row_wedges_indexer_witness:
  "\<exists>cur'. getCurrentCursor ''tw'' (run_ticks (replicate 7 (sample_tick (empty_store\<lparr>st_messages := [sample_post 0]\<rparr>)))
      (createPostReplyHandler ''tw'' ''0xt'' ''s'' None) sample_index) = Some cur' \<and> hc_lastBlockNumber cur' = -1"
proof -
  let ?tes = "replicate 7 (sample_tick (empty_store\<lparr>st_messages := [sample_post 0]\<rparr>))"
  have tes: "\<forall>te \<in> set ?tes. te_chainId te = 1 \<and> (\<forall>src. te_forwardSource te = Inr src \<longrightarrow> sample_post 0 \<in> set (st_messages src)
      \<and> (\<forall>r' \<in> set (st_messages src). confirmed_beyond 1 ''0xt'' (cursor_coord sample_cursor) r' \<longrightarrow> r' = sample_post 0 \<or> coord_key (sample_post 0) < coord_key r'))"
    by (simp add: sample_tick_def)
  have dec: "decodePostReplyContents (rm_contents (sample_post 0)) = Inr (Post 5 [0])"
    by (simp add: sample_post_def sample_decodes)
  have "0 \<in> set (pr_content (Post 5 [0])) \<or> BIGINT_MAX < js_shortest (nat (pr_timestamp (Post 5 [0])))"
    by simp
  from poison_row_wedges_indexer [OF sample_index_ok dec this sample_post_beyond tes, of "''s''" None]
  obtain cur' where "getCurrentCursor ''tw'' (run_ticks ?tes (createPostReplyHandler ''tw'' ''0xt'' ''s'' None) sample_index) = Some cur'"
      "cursor_coord cur' = cursor_coord sample_cursor"
    by blast
  then show ?thesis
    by (intro exI [of _ cur']) (simp add: genesis_cursor_def)
qed

lemma sample_storable: "storable v (source_message (sample_post 104))"
proof -
  have "js_shortest 5 = 5"
    by (simp add: js_shortest_def toString10.simps Let_def Number_of_bigint_exact)
  then show ?thesis
    by (simp add: storable_def source_message_def sample_post_def sample_decodes placed_def post_of_def BIGINT_MAX_def)
qed

theorem indexer_catches_up_witness:
  "\<exists>cur'. getCurrentCursor ''tw'' (run_ticks [sample_tick (empty_store\<lparr>st_messages := [sample_post 104]\<rparr>)]
      (createPostReplyHandler ''tw'' ''0xt'' ''s'' None) sample_index) = Some cur'
    \<and> filter (confirmed_beyond 1 ''0xt'' (cursor_coord cur')) [sample_post 104] = []"
proof -
  let ?src = "empty_store\<lparr>st_messages := [sample_post 104]\<rparr>"
  let ?te = "sample_tick ?src"
  have "\<forall>te \<in> set [?te]. te_chainId te = 1 \<and> te_batchSize te = 1 \<and> te_forwardSource te = Inr ?src \<and> (\<forall>i. te_abort te i = None)"
    by (simp add: sample_tick_def)
  moreover have "distinct (map coord_key (filter (confirmed_beyond 1 ''0xt'' (cursor_coord sample_cursor)) (st_messages ?src)))"
    by simp
  moreover have "\<forall>r \<in> set (st_messages ?src). confirmed_beyond 1 ''0xt'' (cursor_coord sample_cursor) r
      \<longrightarrow> storable (hc_versionId sample_cursor) (source_message r)"
    using sample_storable by simp
  moreover have "db_posts sample_index ''s'' \<noteq> None"
    by simp
  ultimately obtain cur' where "getCurrentCursor ''tw'' (run_ticks [?te] (createPostReplyHandler ''tw'' ''0xt'' ''s'' None) sample_index) = Some cur'"
    "length (filter (confirmed_beyond 1 ''0xt'' (cursor_coord cur')) (st_messages ?src))
      = length (filter (confirmed_beyond 1 ''0xt'' (cursor_coord sample_cursor)) (st_messages ?src)) - length [?te] * 1"
    using indexer_catches_up [OF sample_index_ok, where tes = "[?te]" and B = 1 and src = ?src and chain = 1 and tag = "''0xt''"
        and schema = "''s''" and version = None] by blast
  then show ?thesis
    by (intro exI [of _ cur']) (auto split: if_split_asm)
qed



definition sample_row :: post_row where
  "sample_row =
     \<lparr>po_versionId = ''v'', po_messageId = ''0xe'', po_messageHash = ''0xf'', po_sender = ''0xa'', po_nonce = 1, po_kind = 0,
      po_timestamp = 5, po_content = [104], po_parentMessageHash = None, po_batchRef = ''0xb'', po_blockNumber = 2,
      po_txIndex = 0, po_messageIndex = 0\<rparr>"

definition sample_reorged :: raw_batch where
  "sample_reorged =
     \<lparr>rb_txHash = ''0xb'', rb_chainId = 1, rb_contentTag = ''0xt'', rb_blobVersionedHash = '''', rb_batchContentHash = '''',
      rb_blockNumber = None, rb_txIndex = None, rb_status = BatchReorged, rb_replacedByTxHash = None, rb_submittedAt = None,
      rb_invalidatedAt = Some 4, rb_submitter = None, rb_l1IncludedAt = None, rb_messageSnapshot = []\<rparr>"

theorem tied_reorg_is_lost_witness:
  "\<exists>rows'. db_posts (run_ticks (replicate 9 (sample_tick (empty_store\<lparr>st_batches := [sample_reorged]\<rparr>)))
      (createPostReplyHandler ''tw'' ''0xt'' ''s'' None)
      \<lparr>db_cursors = [sample_cursor\<lparr>hc_lastReorgInvalidatedAt := 4\<rparr>], db_posts = [''s'' \<mapsto> [sample_row]]\<rparr>) ''s'' = Some rows'
    \<and> sample_row \<in> set rows'"
proof -
  let ?cur = "sample_cursor\<lparr>hc_lastReorgInvalidatedAt := 4\<rparr>"
  let ?db = "\<lparr>db_cursors = [?cur], db_posts = [''s'' \<mapsto> [sample_row]]\<rparr>"
  let ?src = "empty_store\<lparr>st_batches := [sample_reorged]\<rparr>"
  have 1: "cursors_inv ?db" "getCurrentCursor ''tw'' ?db = Some ?cur"
    by (simp_all add: cursors_inv_def currents_def getCurrentCursor_def genesis_cursor_def createPostReplyHandler_def)
  have 2: "db_posts ?db ''s'' = Some [sample_row]" "sample_row \<in> set [sample_row]"
    by simp_all
  have src: "st_messages ?src = []" "st_batches ?src = [sample_reorged]"
    by (simp_all add: empty_store_def)
  have 3: "\<forall>te \<in> set (replicate 9 (sample_tick ?src)). (\<forall>src. te_forwardSource te = Inr src \<longrightarrow>
        (\<forall>r \<in> set (st_messages src). map_option toLowerCase (rm_messageId r) \<noteq> Some (po_messageId sample_row)))
      \<and> (\<forall>src. te_reorgSource te = Inr src \<longrightarrow> (\<forall>b \<in> set (st_batches src). toLowerCase (rb_txHash b) = po_batchRef sample_row \<longrightarrow>
          (\<exists>t. rb_invalidatedAt b = Some t \<and> int t \<le> hc_lastReorgInvalidatedAt ?cur)))"
    using src by (auto simp: sample_tick_def sample_reorged_def)
  show ?thesis
    by (rule tied_reorg_is_lost [OF 1 2 3])
qed

end
