(* ===== verification/Http.thy ===== *)
theory Http
  imports Json TextMatch
begin

text \<open>
  What the HTTP surfaces share: the parsed request URL, its query parameters (the first of a
  name counts), the patterns their parameter checks use, and the matching of a path against a
  template with at most one parameter, its last segment (decodeURIComponent is an argument).
\<close>

record http_url =
  hu_path :: string
  hu_params :: "(string \<times> string) list"

definition searchGet :: "string \<Rightarrow> http_url \<Rightarrow> string option" where
  "searchGet name url = map_of (hu_params url) name"

definition HEX_BYTES32 :: "string \<Rightarrow> bool" where
  "HEX_BYTES32 s \<longleftrightarrow> length s = 66 \<and> prefixed_hex s"

definition HEX_ADDRESS :: "string \<Rightarrow> bool" where
  "HEX_ADDRESS s \<longleftrightarrow> length s = 42 \<and> prefixed_hex s"

definition digits :: "string \<Rightarrow> bool" where
  "digits s \<longleftrightarrow> s \<noteq> [] \<and> list_all ascii_digit s"

definition startsWith :: "string \<Rightarrow> string \<Rightarrow> bool" where
  "startsWith s p \<longleftrightarrow> take (length p) s = p"

text \<open>The position of the first occurrence of "/:", as indexOf gives it.\<close>

fun colonIdx :: "string \<Rightarrow> nat option" where
  "colonIdx (a # b # s) = (if a = CHR ''/'' \<and> b = CHR '':'' then Some 0 else map_option Suc (colonIdx (b # s)))"
| "colonIdx _ = None"

definition matchTemplate :: "(string \<Rightarrow> string option) \<Rightarrow> string \<Rightarrow> string \<Rightarrow> string option option" where
  "matchTemplate decodeURI template pathname =
     (case colonIdx template of
        None \<Rightarrow> if template = pathname then Some None else None
      | Some i \<Rightarrow>
          (let prefix = take (i + 1) template in
           if \<not> startsWith pathname prefix then None
           else let tail = drop (length prefix) pathname in
             if tail = [] \<or> CHR ''/'' \<in> set tail then None
             else case decodeURI tail of
               None \<Rightarrow> None
             | Some decoded \<Rightarrow> if CHR ''/'' \<in> set decoded then None else Some (Some decoded)))"

fun firstMatch :: "(string \<Rightarrow> string option) \<Rightarrow> string \<Rightarrow> (string \<times> 'r) list \<Rightarrow> 'r option" where
  "firstMatch decodeURI pathname [] = None"
| "firstMatch decodeURI pathname ((path, r) # rs) =
     (if matchTemplate decodeURI path pathname \<noteq> None then Some r else firstMatch decodeURI pathname rs)"

end
