(* ===== verification/IndexRoutes.thy ===== *)
theory IndexRoutes
  imports Indexer Http
begin

text \<open>
  The indexer's registry of handlers and its read-only HTTP surface
  (packages/bam-indexer/src/framework/registry.ts, framework/sql.ts, http/server.ts,
  http/routes.ts, handlers/post-reply/routes.ts): route matching, parameter checks, the
  resolution of a generation, and the queries over the posts and cursor tables. Splitting a
  request's URL into a path and its parameters (parseUrl, None when it throws) and
  decodeURIComponent are arguments; a request reads one state of the database; headers are left
  out.
\<close>

section \<open>Registry\<close>

datatype registry_error = DuplicateTag string | DuplicateName string | DuplicateSchema string | UnknownHandler string

record 'e registry =
  hr_byTag :: "string \<Rightarrow> 'e handler option"
  hr_byName :: "string \<Rightarrow> 'e handler option"
  hr_order :: "'e handler list"

fun registerHandlers :: "'e handler list \<Rightarrow> string list \<Rightarrow> string list \<Rightarrow> string list \<Rightarrow> 'e registry \<Rightarrow> registry_error + 'e registry" where
  "registerHandlers [] seenTag seenName seenSchema reg = Inr reg"
| "registerHandlers (h # hs) seenTag seenName seenSchema reg =
     (let tagKey = toLowerCase (hd_contentTag h) in
      if tagKey \<in> set seenTag then Inl (DuplicateTag (hd_contentTag h))
      else if hd_name h \<in> set seenName then Inl (DuplicateName (hd_name h))
      else if hd_schema h \<in> set seenSchema then Inl (DuplicateSchema (hd_schema h))
      else registerHandlers hs (tagKey # seenTag) (hd_name h # seenName) (hd_schema h # seenSchema)
             (reg\<lparr>hr_byTag := (hr_byTag reg)(tagKey \<mapsto> h), hr_byName := (hr_byName reg)(hd_name h \<mapsto> h)\<rparr>))"

definition newRegistry :: "'e handler list \<Rightarrow> registry_error + 'e registry" where
  "newRegistry handlers =
     registerHandlers handlers [] [] [] \<lparr>hr_byTag = (\<lambda>_. None), hr_byName = (\<lambda>_. None), hr_order = handlers\<rparr>"

definition byContentTag :: "'e registry \<Rightarrow> string \<Rightarrow> 'e handler option" where
  "byContentTag reg tag = hr_byTag reg (toLowerCase tag)"

definition getHandler :: "'e registry \<Rightarrow> string \<Rightarrow> registry_error + 'e handler" where
  "getHandler reg name = (case hr_byName reg name of None \<Rightarrow> Inl (UnknownHandler name) | Some h \<Rightarrow> Inr h)"

section \<open>Requests and parameters\<close>

definition UUID :: "string \<Rightarrow> bool" where
  "UUID s \<longleftrightarrow> length s = 36 \<and> (\<forall>i < 36. if i \<in> {8, 13, 18, 23} then s ! i = CHR ''-'' else is_hex_char (s ! i))"

definition LIMIT_MAX :: nat where "LIMIT_MAX = 200"
definition LIMIT_DEFAULT :: nat where "LIMIT_DEFAULT = 50"

definition routeLimit :: "string option \<Rightarrow> nat option" where
  "routeLimit raw =
     (case raw of
        None \<Rightarrow> Some LIMIT_DEFAULT
      | Some s \<Rightarrow>
          if s = [] then Some LIMIT_DEFAULT
          else if \<not> digits s then None
          else let n = nat (BigInt10 s) in if n < 1 \<or> n > LIMIT_MAX then None else Some n)"

section \<open>Replies\<close>

record post_view =
  vw_messageId :: string
  vw_messageHash :: string
  vw_sender :: string
  vw_nonce :: string
  vw_isPost :: bool
  vw_timestamp :: nat
  vw_content :: js_text
  vw_parentMessageHash :: "string option"
  vw_batchRef :: string
  vw_blockNumber :: nat
  vw_txIndex :: nat
  vw_messageIndex :: nat

record cursor_view =
  cv_handler :: string
  cv_version :: nat
  cv_versionId :: "string option"
  cv_contentTag :: string
  cv_lastBlockNumber :: "int option"
  cv_lastTxIndex :: "int option"
  cv_lastMsgIndex :: "int option"
  cv_lastReorgInvalidatedAt :: "int option"
  cv_updatedAt :: "nat option"

record health_body =
  hb_chainId :: nat
  hb_uptimeMs :: int
  hb_handlers :: "(string \<times> nat \<times> string \<times> string) list"
  hb_cursors :: "cursor_view list"
  hb_versions :: "handler_cursor list"

datatype index_body =
    EmptyBody
  | BadRequestBody string
  | NotFoundBody
  | InternalErrorBody
  | PostsBody string "post_view list"
  | RepliesBody string "post_view list"
  | PostBody string post_view
  | VersionsBody "handler_cursor list"
  | HealthBody health_body

type_synonym index_reply = "nat \<times> index_body"

definition badRequest :: "string \<Rightarrow> index_reply" where "badRequest field = (400, BadRequestBody field)"
definition notFound :: index_reply where "notFound = (404, NotFoundBody)"
definition internalError :: index_reply where "internalError = (500, InternalErrorBody)"

definition mapPost :: "post_row \<Rightarrow> post_view" where
  "mapPost r =
     \<lparr>vw_messageId = po_messageId r, vw_messageHash = po_messageHash r, vw_sender = po_sender r,
      vw_nonce = toString10 (nat (po_nonce r)), vw_isPost = (po_kind r = 0),
      vw_timestamp = Number_of_bigint (po_timestamp r), vw_content = po_content r,
      vw_parentMessageHash = po_parentMessageHash r, vw_batchRef = po_batchRef r,
      vw_blockNumber = Number_of_bigint (po_blockNumber r), vw_txIndex = Number_of_bigint (po_txIndex r),
      vw_messageIndex = Number_of_bigint (po_messageIndex r)\<rparr>"

section \<open>Routes of a post-reply handler\<close>

record route_options =
  ro_schema :: string
  ro_prefix :: string
  ro_name :: string

datatype version_resolution = VersionOk string | VersionInvalid | MissingCurrent

definition resolveVersionId :: "string \<Rightarrow> string option \<Rightarrow> index_db \<Rightarrow> version_resolution" where
  "resolveVersionId handlerName raw db =
     (case raw of
        Some v \<Rightarrow>
          if v \<noteq> [] then
            (if \<not> UUID v then VersionInvalid
             else case getCursorByVersionId handlerName (toLowerCase v) db of
               None \<Rightarrow> VersionInvalid
             | Some c \<Rightarrow> VersionOk (hc_versionId c))
          else (case getCurrentCursor handlerName db of None \<Rightarrow> MissingCurrent | Some c \<Rightarrow> VersionOk (hc_versionId c))
      | None \<Rightarrow> (case getCurrentCursor handlerName db of None \<Rightarrow> MissingCurrent | Some c \<Rightarrow> VersionOk (hc_versionId c)))"

text \<open>The handlers share this shape: resolve the generation, then query the posts table.\<close>

definition withVersion :: "route_options \<Rightarrow> http_url \<Rightarrow> index_db \<Rightarrow> (string \<Rightarrow> post_row list \<Rightarrow> index_reply) \<Rightarrow> index_reply" where
  "withVersion ro url db query =
     (case resolveVersionId (ro_name ro) (searchGet ''version'' url) db of
        VersionInvalid \<Rightarrow> badRequest ''version''
      | MissingCurrent \<Rightarrow> notFound
      | VersionOk versionId \<Rightarrow>
          (case db_posts db (ro_schema ro) of None \<Rightarrow> internalError | Some rows \<Rightarrow> query versionId rows))"

definition newest_key :: "post_row \<Rightarrow> int \<times> int \<times> int" where
  "newest_key r = (- int (po_blockNumber r), - int (po_txIndex r), - int (po_messageIndex r))"

definition oldest_key :: "post_row \<Rightarrow> nat \<times> nat \<times> nat \<times> nat" where
  "oldest_key r = (po_timestamp r, po_blockNumber r, po_txIndex r, po_messageIndex r)"

definition postsHandler :: "route_options \<Rightarrow> http_url \<Rightarrow> index_db \<Rightarrow> index_reply" where
  "postsHandler ro url db =
     (let sender = searchGet ''sender'' url; since = searchGet ''since'' url in
      case routeLimit (searchGet ''limit'' url) of
        None \<Rightarrow> badRequest ''limit''
      | Some limit' \<Rightarrow>
          if (case sender of None \<Rightarrow> False | Some s \<Rightarrow> \<not> HEX_ADDRESS s) then badRequest ''sender''
          else if (case since of None \<Rightarrow> False | Some s \<Rightarrow> \<not> digits s) then badRequest ''since''
          else withVersion ro url db (\<lambda>versionId rows.
            let since' = map_option (\<lambda>s. js_shortest (Number_of_bigint (nat (BigInt10 s)))) since in
            if (case since' of None \<Rightarrow> False | Some n \<Rightarrow> n > BIGINT_MAX) then internalError
            else (200, PostsBody versionId (map mapPost (take limit' (sort_key newest_key
                   (filter (\<lambda>r. po_kind r = 0 \<and> po_versionId r = versionId
                      \<and> (case sender of None \<Rightarrow> True | Some s \<Rightarrow> po_sender r = toLowerCase s)
                      \<and> (case since' of None \<Rightarrow> True | Some n \<Rightarrow> po_blockNumber r \<ge> n)) rows)))))))"

definition postByIdHandler :: "route_options \<Rightarrow> http_url \<Rightarrow> index_db \<Rightarrow> index_reply" where
  "postByIdHandler ro url db =
     (let prefix = ro_prefix ro @ ''/posts/id/'' in
      if \<not> startsWith (hu_path url) prefix then badRequest ''path''
      else let ident = drop (length prefix) (hu_path url) in
        if \<not> HEX_BYTES32 ident then badRequest ''id''
        else withVersion ro url db (\<lambda>versionId rows.
          case filter (\<lambda>r. po_versionId r = versionId \<and> po_messageId r = toLowerCase ident) rows of
            [] \<Rightarrow> notFound
          | r # _ \<Rightarrow> (200, PostBody versionId (mapPost r))))"

definition postByHashHandler :: "route_options \<Rightarrow> http_url \<Rightarrow> index_db \<Rightarrow> index_reply" where
  "postByHashHandler ro url db =
     (let prefix = ro_prefix ro @ ''/posts/hash/'' in
      if \<not> startsWith (hu_path url) prefix then badRequest ''path''
      else let hash = drop (length prefix) (hu_path url) in
        if \<not> HEX_BYTES32 hash then badRequest ''hash''
        else withVersion ro url db (\<lambda>versionId rows.
          case filter (\<lambda>r. po_versionId r = versionId \<and> po_messageHash r = toLowerCase hash) rows of
            [] \<Rightarrow> notFound
          | r # _ \<Rightarrow> (200, PostBody versionId (mapPost r))))"

definition repliesHandler :: "route_options \<Rightarrow> http_url \<Rightarrow> index_db \<Rightarrow> index_reply" where
  "repliesHandler ro url db =
     (case routeLimit (searchGet ''limit'' url) of
        None \<Rightarrow> badRequest ''limit''
      | Some limit' \<Rightarrow>
          (case searchGet ''parentMessageHash'' url of
             None \<Rightarrow> badRequest ''parentMessageHash''
           | Some parent \<Rightarrow>
               if \<not> HEX_BYTES32 parent then badRequest ''parentMessageHash''
               else withVersion ro url db (\<lambda>versionId rows.
                 (200, RepliesBody versionId (map mapPost (take limit' (sort_key oldest_key
                    (filter (\<lambda>r. po_versionId r = versionId \<and> po_kind r = 1
                       \<and> po_parentMessageHash r = Some (toLowerCase parent)) rows))))))))"

definition profileHandler :: "route_options \<Rightarrow> http_url \<Rightarrow> index_db \<Rightarrow> index_reply" where
  "profileHandler ro url db =
     (let prefix = ro_prefix ro @ ''/profile/'' in
      if \<not> startsWith (hu_path url) prefix then badRequest ''path''
      else let sender = drop (length prefix) (hu_path url) in
        if \<not> HEX_ADDRESS sender then badRequest ''sender''
        else case routeLimit (searchGet ''limit'' url) of
          None \<Rightarrow> badRequest ''limit''
        | Some limit' \<Rightarrow>
            withVersion ro url db (\<lambda>versionId rows.
              (200, PostsBody versionId (map mapPost (take limit' (sort_key newest_key
                 (filter (\<lambda>r. po_versionId r = versionId \<and> po_sender r = toLowerCase sender) rows)))))))"

definition versionsHandler :: "route_options \<Rightarrow> index_db \<Rightarrow> index_reply" where
  "versionsHandler ro db = (200, VersionsBody (listCursors (ro_name ro) db))"

datatype post_route = PostsRoute | PostByIdRoute | PostByHashRoute | RepliesRoute | ProfileRoute | VersionsRoute

definition buildPostReplyRoutes :: "route_options \<Rightarrow> (string \<times> post_route) list" where
  "buildPostReplyRoutes ro =
     [(ro_prefix ro @ ''/posts'', PostsRoute),
      (ro_prefix ro @ ''/posts/id/:id'', PostByIdRoute),
      (ro_prefix ro @ ''/posts/hash/:hash'', PostByHashRoute),
      (ro_prefix ro @ ''/replies'', RepliesRoute),
      (ro_prefix ro @ ''/profile/:sender'', ProfileRoute),
      (ro_prefix ro @ ''/versions'', VersionsRoute)]"

fun runRoute :: "route_options \<Rightarrow> post_route \<Rightarrow> http_url \<Rightarrow> index_db \<Rightarrow> index_reply" where
  "runRoute ro PostsRoute url db = postsHandler ro url db"
| "runRoute ro PostByIdRoute url db = postByIdHandler ro url db"
| "runRoute ro PostByHashRoute url db = postByHashHandler ro url db"
| "runRoute ro RepliesRoute url db = repliesHandler ro url db"
| "runRoute ro ProfileRoute url db = profileHandler ro url db"
| "runRoute ro VersionsRoute url db = versionsHandler ro db"

section \<open>The server\<close>

record server_handler =
  sh_handler :: "post_reply handler"
  sh_options :: route_options

definition served :: "string \<Rightarrow> string \<Rightarrow> string \<Rightarrow> string option \<Rightarrow> nat option \<Rightarrow> server_handler" where
  "served name contentTag schema routePrefix version =
     \<lparr>sh_handler = createPostReplyHandler name contentTag schema version,
      sh_options = \<lparr>ro_schema = schema, ro_prefix = (case routePrefix of None \<Rightarrow> ''/'' @ name | Some p \<Rightarrow> p), ro_name = name\<rparr>\<rparr>"

datatype dispatch_target = BuiltinHealth | HandlerRoute route_options post_route

definition matchRoute :: "(string \<Rightarrow> string option) \<Rightarrow> server_handler list \<Rightarrow> string \<Rightarrow> string \<Rightarrow> dispatch_target option" where
  "matchRoute decodeURI handlers verb pathname =
     (if verb \<noteq> ''GET'' then None
      else if pathname = ''/health'' then Some BuiltinHealth
      else firstMatch decodeURI pathname
        (concat (map (\<lambda>h. map (\<lambda>(path, r). (path, HandlerRoute (sh_options h) r)) (buildPostReplyRoutes (sh_options h))) handlers)))"

definition cursorOf :: "post_reply handler \<Rightarrow> index_db \<Rightarrow> cursor_view" where
  "cursorOf h db =
     (let current = getCurrentCursor (hd_name h) db in
      \<lparr>cv_handler = hd_name h, cv_version = hd_version h, cv_versionId = map_option hc_versionId current,
       cv_contentTag = hd_contentTag h, cv_lastBlockNumber = map_option hc_lastBlockNumber current,
       cv_lastTxIndex = map_option hc_lastTxIndex current, cv_lastMsgIndex = map_option hc_lastMsgIndex current,
       cv_lastReorgInvalidatedAt = map_option hc_lastReorgInvalidatedAt current, cv_updatedAt = map_option hc_updatedAt current\<rparr>)"

definition healthHandler :: "nat \<Rightarrow> nat \<Rightarrow> nat \<Rightarrow> server_handler list \<Rightarrow> index_db \<Rightarrow> index_reply" where
  "healthHandler chainId startedAt now handlers db =
     (200, HealthBody
        \<lparr>hb_chainId = chainId, hb_uptimeMs = int now - int startedAt,
         hb_handlers = map (\<lambda>s. (let h = sh_handler s in (hd_name h, hd_version h, hd_contentTag h, hd_schema h))) handlers,
         hb_cursors = map (\<lambda>s. cursorOf (sh_handler s) db) handlers,
         hb_versions = concat (map (\<lambda>s. listCursors (hd_name (sh_handler s)) db) handlers)\<rparr>)"

text \<open>The database may refuse a connection (None), which ends as an internal error.\<close>

definition dispatch ::
  "(string \<Rightarrow> http_url option) \<Rightarrow> (string \<Rightarrow> string option) \<Rightarrow> nat \<Rightarrow> nat \<Rightarrow> nat \<Rightarrow> server_handler list
     \<Rightarrow> string \<Rightarrow> string option \<Rightarrow> index_db option \<Rightarrow> index_reply" where
  "dispatch parseUrl decodeURI chainId startedAt now handlers verb rawUrl conn =
     (if verb = ''OPTIONS'' then (204, EmptyBody)
      else case parseUrl (case rawUrl of None \<Rightarrow> ''/'' | Some u \<Rightarrow> u) of
        None \<Rightarrow> internalError
      | Some url \<Rightarrow>
          (case matchRoute decodeURI handlers verb (hu_path url) of
             None \<Rightarrow> notFound
           | Some target \<Rightarrow>
               (case conn of
                  None \<Rightarrow> internalError
                | Some db \<Rightarrow>
                    (case target of
                       BuiltinHealth \<Rightarrow> healthHandler chainId startedAt now handlers db
                     | HandlerRoute ro r \<Rightarrow> runRoute ro r url db))))"


section \<open>Exact numbers\<close>

lemma excess_bits_high: "2 ^ 53 \<le> n \<Longrightarrow> 0 < excess_bits n \<and> 2 ^ 52 \<le> n div 2 ^ excess_bits n"
proof (induction n rule: excess_bits.induct)
  case (1 n)
  have e: "excess_bits n = Suc (excess_bits (n div 2))"
    using "1.prems" by (simp add: excess_bits.simps [of n])
  show ?case
  proof (cases "n div 2 < 2 ^ 53")
    case True
    then have "excess_bits (n div 2) = 0"
      by (simp add: excess_bits.simps [of "n div 2"])
    then show ?thesis
      using e "1.prems" by simp
  next
    case False
    then have "2 ^ 52 \<le> n div 2 div 2 ^ excess_bits (n div 2)"
      using "1.IH" "1.prems" by simp
    then show ?thesis
      using e by (simp add: div_mult2_eq)
  qed
qed

lemma Number_of_bigint_big: "2 ^ 53 \<le> n \<Longrightarrow> 2 ^ 53 \<le> Number_of_bigint n"
proof -
  assume a: "2 ^ 53 \<le> n"
  let ?k = "excess_bits n"
  have "n div 2 ^ ?k \<le> round_shift ?k n"
    by (simp add: round_shift_def Let_def)
  then have r: "2 ^ 52 \<le> round_shift ?k n"
    using excess_bits_high [OF a] by linarith
  have "(2 :: nat) ^ 1 \<le> 2 ^ ?k"
    using excess_bits_high [OF a] by (intro power_increasing) auto
  then have "2 ^ 52 * 2 \<le> round_shift ?k n * 2 ^ ?k"
    using mult_le_mono [OF r, of "2 ^ 1" "2 ^ ?k"] by simp
  then show ?thesis
    by (simp add: Number_of_bigint_def Let_def)
qed

text \<open>Below 2^53 the driver's decimal text is the number itself.\<close>

lemma js_shortest_exact: "n < 2 ^ 53 \<Longrightarrow> js_shortest n = n"
proof -
  assume n: "n < 2 ^ 53"
  have "d = n" if "Number_of_bigint d = n" for d
    using that n Number_of_bigint_big [of d] Number_of_bigint_exact [of d] by (cases "d < 2 ^ 53") auto
  then have "find (\<lambda>d. Number_of_bigint d = n) xs = Some d \<Longrightarrow> d = n" for xs d
    by (auto simp: find_Some_iff)
  then show ?thesis
    unfolding js_shortest_def Let_def by (simp split: option.split)
qed

section \<open>Keys and frames\<close>

lemma upsert_post_keys: "distinct (map post_key rows) \<Longrightarrow> distinct (map post_key (upsert_post p rows))"
proof (cases "\<exists>r \<in> set rows. post_key r = post_key p")
  case True
  assume d: "distinct (map post_key rows)"
  have "map post_key (map (\<lambda>r. if post_key r = post_key p then p\<lparr>po_sender := po_sender r, po_nonce := po_nonce r\<rparr> else r) rows)
      = map post_key rows"
    by simp
  then show ?thesis
    using d True unfolding upsert_post_def by (simp only: if_True)
next
  case False
  assume "distinct (map post_key rows)"
  moreover have "upsert_post p rows = rows @ [p]" "post_key p \<notin> set (map post_key rows)"
    using False unfolding upsert_post_def by (simp_all only: if_False) auto
  ultimately show ?thesis
    by simp
qed

lemma fold_post_keys: "distinct (map post_key rows) \<Longrightarrow> distinct (map post_key (fold (fold_post v) rs rows))"
proof (induction rs arbitrary: rows)
  case (Cons r rs)
  have "distinct (map post_key (fold_post v r rows))"
    using upsert_post_keys Cons.prems by (simp add: fold_post_def split: sum.split option.split)
  then show ?case
    unfolding fold_Cons o_def by (rule Cons.IH)
qed simp

lemma tick_keys:
  assumes "held name cur db" "te_forwardSource te = Inr src"
    and "tickHandler te (createPostReplyHandler name tag schema version) db = (res, db')"
    and "db_posts db' schema = Some rows'" "\<And>rows. db_posts db schema = Some rows \<Longrightarrow> distinct (map post_key rows)"
  shows "distinct (map post_key rows')"
proof -
  obtain n m where "db_posts db' schema = map_option (\<lambda>rows. filter (\<lambda>q. \<not> evicts (take m (tick_reorgs te tag cur)) q)
        (fold (fold_post (hc_versionId cur)) (take n (map source_message (tick_rows te tag cur src))) rows)) (db_posts db schema)"
    using tick_summary [OF assms(1-3)] by blast
  from map_option_rows [OF this [symmetric, unfolded assms(4)]] obtain rows where "db_posts db schema = Some rows"
    "rows' = filter (\<lambda>q. \<not> evicts (take m (tick_reorgs te tag cur)) q)
        (fold (fold_post (hc_versionId cur)) (take n (map source_message (tick_rows te tag cur src))) rows)"
    by blast
  then show ?thesis
    using distinct_map_filter [OF fold_post_keys [OF assms(5)]] by simp
qed

text \<open>What a tick of a handler called n with tables in s leaves as it was.\<close>

definition frame :: "string \<Rightarrow> string \<Rightarrow> index_db \<Rightarrow> index_db \<Rightarrow> bool" where
  "frame n s db db' \<longleftrightarrow>
     filter (\<lambda>c. hc_handlerName c \<noteq> n) (db_cursors db') = filter (\<lambda>c. hc_handlerName c \<noteq> n) (db_cursors db)
     \<and> (\<forall>t. t \<noteq> s \<longrightarrow> db_posts db' t = db_posts db t)"

lemma frame_refl [simp]: "frame n s db db"
  by (simp add: frame_def)

lemma frame_trans: "frame n s db db1 \<Longrightarrow> frame n s db1 db2 \<Longrightarrow> frame n s db db2"
  by (simp add: frame_def)

lemma frame_own: "only_schema s db db' \<Longrightarrow> frame n s db db'"
  by (simp add: frame_def only_schema_def)

lemma frame_upsert: "upsertCursor c db = Inr db' \<Longrightarrow> hc_handlerName c = n \<Longrightarrow> frame n s db db'"
proof -
  assume a: "upsertCursor c db = Inr db'" "hc_handlerName c = n"
  have "filter (\<lambda>x. hc_handlerName x \<noteq> n) (map (\<lambda>x. if cursor_key x = cursor_key c then c else x) cs)
      = filter (\<lambda>x. hc_handlerName x \<noteq> n) cs" for cs
    by (induction cs) (use a(2) in auto)
  then have "filter (\<lambda>x. hc_handlerName x \<noteq> n) (put_cursor c cs) = filter (\<lambda>x. hc_handlerName x \<noteq> n) cs" for cs
    using a(2) by (simp add: put_cursor_def)
  then show ?thesis
    using a(1) by (auto simp: frame_def upsertCursor_def Let_def split: if_split_asm)
qed

lemma frame_other:
  assumes "frame n s db db'" "name \<noteq> n"
  shows "getCurrentCursor name db' = getCurrentCursor name db" "listCursors name db' = listCursors name db"
proof -
  have f: "filter (\<lambda>c. hc_handlerName c = name \<and> P c) cs
      = filter (\<lambda>c. hc_handlerName c = name \<and> P c) (filter (\<lambda>c. hc_handlerName c \<noteq> n) cs)" for P cs
    unfolding filter_filter by (rule filter_cong [OF refl]) (use assms(2) in auto)
  have eq: "filter (\<lambda>c. hc_handlerName c = name \<and> P c) (db_cursors db') = filter (\<lambda>c. hc_handlerName c = name \<and> P c) (db_cursors db)" for P
    using assms(1) unfolding frame_def by (subst (1 2) f) (simp only: simp_thms)
  show "getCurrentCursor name db' = getCurrentCursor name db"
    using eq [of hc_isCurrent] by (simp add: getCurrentCursor_def currents_def)
  show "listCursors name db' = listCursors name db"
    using eq [of "\<lambda>_. True"] by (simp add: listCursors_def)
qed

lemma pass_frame:
  assumes "\<And>i r f k db out k' db'. one i r f (k, db) = (out, k', db') \<Longrightarrow> hc_handlerName f = n \<Longrightarrow>
      frame n s db db' \<and> (\<forall>f'. out = Advanced f' \<longrightarrow> hc_handlerName f' = n)"
  shows "pass one rs i f (k, db) = (res, k', db') \<Longrightarrow> hc_handlerName f = n \<Longrightarrow>
    frame n s db db' \<and> (\<forall>f' j. res = Inr (f', j) \<longrightarrow> hc_handlerName f' = n)"
proof (induction rs arbitrary: i f k db)
  case (Cons r rs)
  obtain out k1 db1 where one: "one i r f (k, db) = (out, k1, db1)"
    by (metis prod_cases3)
  note st = assms [OF one Cons.prems(2)]
  show ?case
  proof (cases out)
    case (Advanced f')
    have "frame n s db1 db' \<and> (\<forall>f' j. res = Inr (f', j) \<longrightarrow> hc_handlerName f' = n)"
      by (rule Cons.IH [of "Suc i" f' k1 db1]) (use Cons.prems(1) one Advanced st in auto)
    then show ?thesis
      using st frame_trans by blast
  qed (use Cons.prems one st in auto)
qed auto

context index_handler
begin

lemma runInTxn_frame:
  assumes "runInTxn ab fn db = (r, db')" "\<And>db'. fn db = Inr db' \<Longrightarrow> frame n s db db'"
  shows "frame n s db db'"
  using assms by (auto simp: runInTxn_def split: option.split_asm sum.split_asm)

lemma projectOne_frame:
  assumes "projectOne h row f now ab (k, db) = (out, k', db')" "hc_handlerName f = hd_name h"
  shows "frame (hd_name h) (hd_schema h) db db' \<and> (\<forall>f'. out = Advanced f' \<longrightarrow> hc_handlerName f' = hd_name h)"
proof -
  have adv: "hc_handlerName (advance f row now) = hd_name h"
    using assms(2) by (simp add: advance_def)
  have up: "upsertCursor (advance f row now) db1 = Inr db2 \<Longrightarrow> frame (hd_name h) (hd_schema h) db1 db2" for db1 db2
    using frame_upsert adv by blast
  show ?thesis
  proof (cases "hd_decode h (mr_contents row)")
    case None
    obtain r where "runInTxn ab (upsertCursor (advance f row now)) db = (r, db')"
      using assms(1) None by (auto simp: projectOne_def Let_def split: prod.split_asm sum.split_asm)
    then have "frame (hd_name h) (hd_schema h) db db'"
      using up by (rule runInTxn_frame)
    then show ?thesis
      using assms(1) None adv by (auto simp: projectOne_def Let_def split: prod.split_asm sum.split_asm)
  next
    case (Some e)
    let ?fn = "\<lambda>db. ebind (hd_project h row e (resolveEnrichments (hd_enrichments h)) (hc_versionId f) db) (upsertCursor (advance f row now))"
    obtain r where run: "runInTxn ab ?fn db = (r, db')"
      using assms(1) Some by (auto simp: projectOne_def Let_def split: prod.split_asm sum.split_asm)
    have "frame (hd_name h) (hd_schema h) db d" if "?fn db = Inr d" for d
    proof -
      obtain db1 where "hd_project h row e (resolveEnrichments (hd_enrichments h)) (hc_versionId f) db = Inr db1"
        "upsertCursor (advance f row now) db1 = Inr d"
        using \<open>?fn db = Inr d\<close> by auto
      then show ?thesis
        using frame_trans [OF frame_own [OF project_own] up] by blast
    qed
    then have "frame (hd_name h) (hd_schema h) db db'"
      by (rule runInTxn_frame [OF run])
    then show ?thesis
      using assms(1) Some adv by (auto simp: projectOne_def Let_def split: prod.split_asm sum.split_asm)
  qed
qed

lemma reorgOne_frame:
  assumes "reorgOne h chain entry f now ab (k, db) = (out, k', db')" "hc_handlerName f = hd_name h"
  shows "frame (hd_name h) (hd_schema h) db db' \<and> (\<forall>f'. out = Advanced f' \<longrightarrow> hc_handlerName f' = hd_name h)"
proof -
  let ?adv = "f\<lparr>hc_lastReorgInvalidatedAt := max (hc_lastReorgInvalidatedAt f) (int (snd entry)), hc_updatedAt := now\<rparr>"
  let ?fn = "\<lambda>db. ebind (hd_onReorg h (fst entry) chain db) (upsertCursor ?adv)"
  obtain r where run: "runInTxn ab ?fn db = (r, db')"
    using assms(1) by (auto simp: reorgOne_def Let_def split: prod.split_asm sum.split_asm)
  have "frame (hd_name h) (hd_schema h) db d" if "?fn db = Inr d" for d
  proof -
    obtain db1 where "hd_onReorg h (fst entry) chain db = Inr db1" "upsertCursor ?adv db1 = Inr d"
      using \<open>?fn db = Inr d\<close> by auto
    moreover have "hc_handlerName ?adv = hd_name h"
      using assms(2) by simp
    ultimately show ?thesis
      using frame_trans [OF frame_own [OF reorg_own] frame_upsert] by blast
  qed
  then have "frame (hd_name h) (hd_schema h) db db'"
    by (rule runInTxn_frame [OF run])
  then show ?thesis
    using assms by (auto simp: reorgOne_def Let_def split: prod.split_asm sum.split_asm)
qed

lemma tickHandler_frame:
  assumes "tickHandler te h db = (res, db')"
  shows "frame (hd_name h) (hd_schema h) db db'"
proof (cases "getCurrentCursor (hd_name h) db")
  case None
  then show ?thesis
    using assms by (simp add: tickHandler_def)
next
  case cur: (Some cur)
  then have name: "hc_handlerName cur = hd_name h"
    by (auto simp: getCurrentCursor_def currents_def filter_eq_Cons_iff split: list.split_asm)
  show ?thesis
  proof (cases "te_forwardSource te")
    case (Inl e)
    then show ?thesis
      using assms cur by (simp add: tickHandler_def)
  next
    case (Inr src)
    obtain rows fres k db1 where
      p1: "pass (\<lambda>i row forward. projectOne h row forward (te_now te) (te_abort te i)) rows 0 cur (emptyHandlerCounters, db) = (fres, k, db1)"
      and p2: "db' = db1 \<and> ((\<exists>e. fres = Inl e) \<or> (\<exists>e. te_reorgSource te = Inl e)) \<or> (\<exists>f j src2 rres k2. fres = Inr (f, j) \<and> te_reorgSource te = Inr src2
      \<and> pass (\<lambda>i entry forward. reorgOne h (te_chainId te) entry forward (te_now te) (te_abort te i))
          (listReorgedAfter (te_chainId te) (hd_contentTag h) (hc_lastReorgInvalidatedAt f) (te_batchSize te) src2) j f (k, db1) = (rres, k2, db'))"
      by (rule tickHandler_cases [OF cur Inr assms])
    have f1: "frame (hd_name h) (hd_schema h) db db1 \<and> (\<forall>f' j. fres = Inr (f', j) \<longrightarrow> hc_handlerName f' = hd_name h)"
      by (rule pass_frame [OF _ p1 name]) (rule projectOne_frame)
    show ?thesis
    proof (cases "db' = db1")
      case True
      then show ?thesis using f1 by simp
    next
      case False
      then obtain f j src2 rres k2 where "fres = Inr (f, j)"
        "pass (\<lambda>i entry forward. reorgOne h (te_chainId te) entry forward (te_now te) (te_abort te i))
          (listReorgedAfter (te_chainId te) (hd_contentTag h) (hc_lastReorgInvalidatedAt f) (te_batchSize te) src2) j f (k, db1) = (rres, k2, db')"
        using p2 by blast
      then have "frame (hd_name h) (hd_schema h) db1 db' \<and> (\<forall>f' j. rres = Inr (f', j) \<longrightarrow> hc_handlerName f' = hd_name h)"
        using f1 by (intro pass_frame [OF reorgOne_frame]) auto
      then show ?thesis
        using f1 frame_trans by blast
    qed
  qed
qed

end


section \<open>The registry keeps handlers apart\<close>

lemma registerHandlers_Inr:
  assumes "registerHandlers hs tags names schemas reg = Inr reg'"
  shows "distinct (map (toLowerCase \<circ> hd_contentTag) hs) \<and> distinct (map hd_name hs) \<and> distinct (map hd_schema hs)
    \<and> set (map (toLowerCase \<circ> hd_contentTag) hs) \<inter> set tags = {} \<and> set (map hd_name hs) \<inter> set names = {}
    \<and> set (map hd_schema hs) \<inter> set schemas = {} \<and> hr_order reg' = hr_order reg"
  using assms
proof (induction hs arbitrary: tags names schemas reg)
  case (Cons h hs)
  have "toLowerCase (hd_contentTag h) \<notin> set tags" "hd_name h \<notin> set names" "hd_schema h \<notin> set schemas"
    and rest: "registerHandlers hs (toLowerCase (hd_contentTag h) # tags) (hd_name h # names) (hd_schema h # schemas)
      (reg\<lparr>hr_byTag := (hr_byTag reg)(toLowerCase (hd_contentTag h) \<mapsto> h), hr_byName := (hr_byName reg)(hd_name h \<mapsto> h)\<rparr>) = Inr reg'"
    using Cons.prems by (auto simp: Let_def split: if_split_asm)
  then show ?case
    using Cons.IH [OF rest] by auto
qed simp

lemma filter_key: "distinct (map f xs) \<Longrightarrow> x \<in> set xs \<Longrightarrow> filter (\<lambda>y. f y = f x) xs = [x]"
proof (induction xs)
  case (Cons a xs)
  have none: "filter (\<lambda>y. f y = f a) xs = []"
    unfolding filter_empty_conv using Cons.prems(1) by (metis distinct.simps(2) image_eqI list.map(2) set_map)
  show ?case
  proof (cases "x = a")
    case False
    then have "f a \<noteq> f x"
      using Cons.prems by auto
    then show ?thesis
      using Cons.IH Cons.prems False by simp
  qed (use none in simp)
qed simp

lemma distinct_map_differ: "distinct (map f xs) \<Longrightarrow> x \<in> set xs \<Longrightarrow> y \<in> set xs \<Longrightarrow> x \<noteq> y \<Longrightarrow> f x \<noteq> f y"
  by (auto simp: distinct_map inj_on_def)

text \<open>
  C28. Handlers of one indexer cannot disturb each other: in a registry the constructor accepts, whatever a tick of one post-reply handler meets, every other handler keeps its cursors and its posts table exactly.
\<close>

theorem handlers_isolated:
  assumes "newRegistry (map (\<lambda>(name, tag, schema, version). createPostReplyHandler name tag schema version) specs) = Inr reg"
    and "(name, tag, schema, version) \<in> set specs" "(name2, tag2, schema2, version2) \<in> set specs"
    and "(name, tag, schema, version) \<noteq> (name2, tag2, schema2, version2)"
    and "tickHandler te (createPostReplyHandler name tag schema version) db = (res, db')"
  shows "getCurrentCursor name2 db' = getCurrentCursor name2 db \<and> listCursors name2 db' = listCursors name2 db
    \<and> db_posts db' schema2 = db_posts db schema2"
proof -
  let ?mk = "\<lambda>(name, tag, schema, version). createPostReplyHandler name tag schema version"
  have d: "distinct (map (hd_name \<circ> ?mk) specs)" "distinct (map (hd_schema \<circ> ?mk) specs)"
    using registerHandlers_Inr [OF assms(1) [unfolded newRegistry_def]] by simp_all
  have "hd_name (createPostReplyHandler name tag schema version) \<noteq> hd_name (createPostReplyHandler name2 tag2 schema2 version2)"
    "hd_schema (createPostReplyHandler name tag schema version) \<noteq> hd_schema (createPostReplyHandler name2 tag2 schema2 version2)"
    using distinct_map_differ [OF d(1) assms(2-4)] distinct_map_differ [OF d(2) assms(2-4)] by simp_all
  then have "name2 \<noteq> name" "schema2 \<noteq> schema"
    by (auto simp: post_reply_fields)
  moreover have "frame name schema db db'"
    using post_reply_handler.tickHandler_frame [OF assms(5)] by (simp add: post_reply_fields)
  ultimately show ?thesis
    using frame_other [of name schema db db' name2] by (simp add: frame_def)
qed

section \<open>What the routes serve\<close>

lemma withVersion_current:
  "searchGet ''version'' url = None \<Longrightarrow> getCurrentCursor (ro_name ro) db = Some cur \<Longrightarrow> db_posts db (ro_schema ro) = Some rows
    \<Longrightarrow> withVersion ro url db query = query (hc_versionId cur) rows"
  by (simp add: withVersion_def resolveVersionId_def)

text \<open>A page of n rows in the order of a key: its rows, and what is left out.\<close>

lemma page_exact:
  fixes f :: "'a \<Rightarrow> 'b::linorder"
  assumes "page = take n (sort_key f (filter P rows))"
  shows "length page = min n (length (filter P rows))" "sorted (map f page)" "set page \<subseteq> {r \<in> set rows. P r}"
    "\<And>r. r \<in> set rows \<Longrightarrow> P r \<Longrightarrow> r \<notin> set page \<Longrightarrow> length page = n \<and> (\<forall>x \<in> set page. f x \<le> f r)"
proof -
  let ?S = "sort_key f (filter P rows)"
  show "length page = min n (length (filter P rows))" "sorted (map f page)"
    by (auto simp: assms min_def take_map [symmetric] sorted_wrt_take)
  show "set page \<subseteq> {r \<in> set rows. P r}"
    by (auto simp: assms dest!: in_set_takeD)
  show "length page = n \<and> (\<forall>x \<in> set page. f x \<le> f r)" if "r \<in> set rows" "P r" "r \<notin> set page" for r
  proof -
    have "r \<in> set ?S"
      using that by simp
    moreover have "r \<notin> set (take n ?S)"
      using that assms by simp
    ultimately have r: "r \<in> set (drop n ?S)"
      by (metis Un_iff append_take_drop_id set_append)
    then have "n < length ?S"
      by (metis drop_all empty_iff empty_set not_less)
    moreover have "sorted (map f (take n ?S @ drop n ?S))"
      by simp
    then have "\<forall>x \<in> set (take n ?S). f x \<le> f r"
      using r unfolding map_append sorted_append by auto
    ultimately show ?thesis
      by (simp add: assms)
  qed
qed


text \<open>
  A page of posts is exact: a request of valid parameters for a handler with a current generation answers with the top-level posts of that generation, of the sender and from the block asked for, newest first by chain coordinate, at most the limit (50 by default, 200 at most), and every matching post it leaves out is no newer than any it shows on a full page.
\<close>

theorem posts_page_exact:
  assumes "routeLimit (searchGet ''limit'' url) = Some n" "searchGet ''version'' url = None"
    and "getCurrentCursor (ro_name ro) db = Some cur" "db_posts db (ro_schema ro) = Some rows"
    and "\<And>s. searchGet ''sender'' url = Some s \<Longrightarrow> HEX_ADDRESS s"
    and "\<And>s. searchGet ''since'' url = Some s \<Longrightarrow> digits s \<and> BigInt10 s < 2 ^ 53"
  defines "matches \<equiv> \<lambda>r. po_kind r = 0 \<and> po_versionId r = hc_versionId cur
      \<and> (\<forall>s. searchGet ''sender'' url = Some s \<longrightarrow> po_sender r = toLowerCase s)
      \<and> (\<forall>s. searchGet ''since'' url = Some s \<longrightarrow> int (po_blockNumber r) \<ge> BigInt10 s)"
  shows "\<exists>page. postsHandler ro url db = (200, PostsBody (hc_versionId cur) (map mapPost page)) \<and> 1 \<le> n \<and> n \<le> 200
    \<and> length page = min n (length (filter matches rows)) \<and> set page \<subseteq> {r \<in> set rows. matches r} \<and> sorted (map newest_key page)
    \<and> (\<forall>r \<in> set rows. matches r \<longrightarrow> r \<notin> set page \<longrightarrow> length page = n \<and> (\<forall>x \<in> set page. newest_key x \<le> newest_key r))"
proof -
  let ?sender = "searchGet ''sender'' url"
  let ?since = "searchGet ''since'' url"
  let ?since' = "map_option (\<lambda>s. js_shortest (Number_of_bigint (nat (BigInt10 s)))) ?since"
  have num: "js_shortest (Number_of_bigint (nat (BigInt10 s))) = nat (BigInt10 s)" if "?since = Some s" for s
  proof -
    have "nat (BigInt10 s) < 2 ^ 53"
      using assms(6) [OF that] by (cases "0 \<le> BigInt10 s") (simp_all add: nat_less_iff)
    then show ?thesis
      by (simp add: js_shortest_exact Number_of_bigint_exact)
  qed
  have small: "\<not> (case ?since' of None \<Rightarrow> False | Some n \<Rightarrow> n > BIGINT_MAX)"
  proof (cases ?since)
    case (Some s)
    then have "nat (BigInt10 s) < 2 ^ 53"
      using assms(6) by (cases "0 \<le> BigInt10 s") (simp_all add: nat_less_iff)
    then show ?thesis
      using num [OF Some] by (simp add: Some BIGINT_MAX_def)
  qed simp
  have eq: "(po_kind r = 0 \<and> po_versionId r = hc_versionId cur
        \<and> (case ?sender of None \<Rightarrow> True | Some s \<Rightarrow> po_sender r = toLowerCase s)
        \<and> (case ?since' of None \<Rightarrow> True | Some n \<Rightarrow> po_blockNumber r \<ge> n)) = matches r" for r
    using num by (auto simp: matches_def nat_le_iff split: option.split)
  define page where "page = take n (sort_key newest_key (filter matches rows))"
  have "postsHandler ro url db = (200, PostsBody (hc_versionId cur) (map mapPost page))"
  proof -
    have "\<not> (case ?sender of None \<Rightarrow> False | Some s \<Rightarrow> \<not> HEX_ADDRESS s)" "\<not> (case ?since of None \<Rightarrow> False | Some s \<Rightarrow> \<not> digits s)"
      using assms(5,6) by (simp_all split: option.split)
    then show ?thesis
      unfolding postsHandler_def Let_def assms(1) option.case(2)
      by (simp only: if_False withVersion_current [OF assms(2-4)] small eq page_def)
  qed
  moreover have "1 \<le> n \<and> n \<le> 200"
    using assms(1) by (auto simp: routeLimit_def LIMIT_DEFAULT_def LIMIT_MAX_def Let_def split: option.split_asm if_split_asm)
  ultimately show ?thesis
    using page_exact [OF page_def] by (intro exI [of _ page]) auto
qed

text \<open>A since that is no bigint passes the digit check and fails in the database.\<close>

lemma huge_since_is_500:
  assumes "routeLimit (searchGet ''limit'' url) = Some n" "searchGet ''version'' url = None" "searchGet ''sender'' url = None"
    and "getCurrentCursor (ro_name ro) db = Some cur" "db_posts db (ro_schema ro) = Some rows"
    and "searchGet ''since'' url = Some s" "digits s" "BIGINT_MAX < js_shortest (Number_of_bigint (nat (BigInt10 s)))"
  shows "postsHandler ro url db = internalError"
  using assms(1,3,6-8) withVersion_current [OF assms(2,4,5)] by (simp add: postsHandler_def Let_def)


section \<open>Examples\<close>

theorem handlers_isolated_witness:
  "\<exists>reg. newRegistry (map (\<lambda>(name, tag, schema, version). createPostReplyHandler name tag schema version)
        [(''a'', ''0xa'', ''s1'', None), (''b'', ''0xb'', ''s2'', None)]) = Inr reg
     \<and> db_posts (snd (tickHandler (sample_tick empty_store) (createPostReplyHandler ''a'' ''0xa'' ''s1'' None) empty_index)) ''s2'' = None"
proof -
  let ?specs = "[(''a'', ''0xa'', ''s1'', None), (''b'', ''0xb'', ''s2'', None)]"
  obtain reg where reg: "newRegistry (map (\<lambda>(name, tag, schema, version). createPostReplyHandler name tag schema version) ?specs) = Inr reg"
    by (simp add: newRegistry_def post_reply_fields toLowerCase_def lower_char_def char_code_def Let_def)
  obtain res db' where run: "tickHandler (sample_tick empty_store) (createPostReplyHandler ''a'' ''0xa'' ''s1'' None) empty_index = (res, db')"
    by (meson surj_pair)
  have "db_posts db' ''s2'' = db_posts empty_index ''s2''"
    using handlers_isolated [OF reg _ _ _ run, of "''b''" "''0xb''" "''s2''" None] by simp
  then show ?thesis
    using reg run by (simp add: empty_index_def)
qed

theorem posts_page_exact_witness:
  "\<exists>page. postsHandler \<lparr>ro_schema = ''s'', ro_prefix = ''/tw'', ro_name = ''tw''\<rparr> \<lparr>hu_path = ''/tw/posts'', hu_params = []\<rparr>
       \<lparr>db_cursors = [sample_cursor], db_posts = [''s'' \<mapsto> [sample_row]]\<rparr> = (200, PostsBody ''v'' (map mapPost page))
     \<and> length page = 1"
proof -
  let ?ro = "\<lparr>ro_schema = ''s'', ro_prefix = ''/tw'', ro_name = ''tw''\<rparr>"
  let ?url = "\<lparr>hu_path = ''/tw/posts'', hu_params = []\<rparr>"
  let ?db = "\<lparr>db_cursors = [sample_cursor], db_posts = [''s'' \<mapsto> [sample_row]]\<rparr>"
  have none: "searchGet k ?url = None" for k
    by (simp add: searchGet_def)
  have lim: "routeLimit (searchGet ''limit'' ?url) = Some 50"
    by (simp add: none routeLimit_def LIMIT_DEFAULT_def)
  have cur: "getCurrentCursor (ro_name ?ro) ?db = Some sample_cursor"
    by (simp add: currents_def getCurrentCursor_def genesis_cursor_def createPostReplyHandler_def)
  have rows: "db_posts ?db (ro_schema ?ro) = Some [sample_row]"
    by simp
  have v: "hc_versionId sample_cursor = ''v''"
    by (simp add: genesis_cursor_def)
  have "\<exists>page. postsHandler ?ro ?url ?db = (200, PostsBody (hc_versionId sample_cursor) (map mapPost page))
     \<and> length page = min 50 (length (filter (\<lambda>r. po_kind r = 0 \<and> po_versionId r = hc_versionId sample_cursor) [sample_row]))"
    using posts_page_exact [OF lim none cur rows] by (auto simp: none)
  then show ?thesis
    by (simp add: v sample_row_def)
qed

definition sample_id :: string where
  "sample_id = ''0x'' @ replicate 64 CHR ''a''"


end
