(* ===== verification/Thread.thy ===== *)
theory Thread
  imports Hex JsText "HOL-Library.Multiset"
begin

text \<open>
  The comment tree of the widget (packages/bam-comments/src/thread.ts): the filter of orphans
  and cycles, and the breadth-first attachment of children. The node objects the loop mutates
  are a Map from their key, the lower-cased hash, which is their identity; a list of nodes is
  the list of their keys. The loop is a partial function, so that its return is proved.
  localeCompare is an argument, its result being defined by the engine's locale; sort is a
  stable sort, which is what any comparison function the language accepts determines.
\<close>

record comment_message =
  cm_messageHash :: string
  cm_sender :: string
  cm_senderLower :: string
  cm_postIdHash :: string
  cm_timestamp :: int
  cm_content :: js_text
  cm_parentMessageHash :: "string option"
  cm_pending :: bool

record comment_node =
  nd_msg :: comment_message
  nd_children :: "string list"
  nd_depth :: nat
  nd_displayDepth :: nat

type_synonym comment_map = "(string \<times> comment_message) list"
type_synonym node_map = "(string \<times> comment_node) list"

definition keyOf :: "comment_message \<Rightarrow> string" where
  "keyOf m = toLowerCase (cm_messageHash m)"

definition parentKey :: "comment_message \<Rightarrow> string option" where
  "parentKey m = map_option toLowerCase (cm_parentMessageHash m)"

section \<open>Orphans and cycles\<close>

definition HARD_CAP :: nat where "HARD_CAP = 1024"

primrec walkUp :: "nat \<Rightarrow> comment_map \<Rightarrow> string list \<Rightarrow> comment_message \<Rightarrow> bool" where
  "walkUp 0 byHash visited cursor = False"
| "walkUp (Suc n) byHash visited cursor =
     (let key = keyOf cursor in
      if key \<in> set visited then False
      else case parentKey cursor of
        None \<Rightarrow> True
      | Some parent \<Rightarrow>
          (case map_get byHash parent of
             None \<Rightarrow> False
           | Some next \<Rightarrow> walkUp n byHash (key # visited) next))"

definition isReachableRoot :: "comment_message \<Rightarrow> comment_map \<Rightarrow> bool" where
  "isReachableRoot start byHash = walkUp HARD_CAP byHash [] start"

definition indexByHash :: "comment_message list \<Rightarrow> comment_map" where
  "indexByHash messages = foldl (\<lambda>mp m. map_set mp (keyOf m) m) [] messages"

definition survivorsOf :: "comment_message list \<Rightarrow> comment_map" where
  "survivorsOf messages =
     (let byHash = indexByHash messages in
      foldl (\<lambda>mp m. if \<not> isReachableRoot m byHash then mp else map_set mp (keyOf m) m) [] messages)"

section \<open>Order\<close>

definition compareNodes :: "(string \<Rightarrow> string \<Rightarrow> int) \<Rightarrow> comment_message \<Rightarrow> comment_message \<Rightarrow> int" where
  "compareNodes localeCompare a b =
     (if cm_timestamp a \<noteq> cm_timestamp b then cm_timestamp a - cm_timestamp b
      else localeCompare (cm_messageHash a) (cm_messageHash b))"

definition clampDepth :: "nat \<Rightarrow> nat" where
  "clampDepth d = (if d \<le> 0 then 0 else if d \<ge> 2 then 2 else 1)"

fun insertBy :: "('a \<Rightarrow> 'a \<Rightarrow> int) \<Rightarrow> 'a \<Rightarrow> 'a list \<Rightarrow> 'a list" where
  "insertBy cmp x [] = [x]"
| "insertBy cmp x (y # ys) = (if cmp x y \<le> 0 then x # y # ys else y # insertBy cmp x ys)"

definition sortBy :: "('a \<Rightarrow> 'a \<Rightarrow> int) \<Rightarrow> 'a list \<Rightarrow> 'a list" where
  "sortBy cmp xs = foldr (insertBy cmp) xs []"

section \<open>The tree\<close>

definition newNode :: "comment_message \<Rightarrow> comment_node" where
  "newNode m = \<lparr>nd_msg = m, nd_children = [], nd_depth = 0, nd_displayDepth = 0\<rparr>"

definition nodeAt :: "node_map \<Rightarrow> string \<Rightarrow> comment_node" where
  "nodeAt nodes k = the (map_get nodes k)"

definition compareAt :: "(string \<Rightarrow> string \<Rightarrow> int) \<Rightarrow> node_map \<Rightarrow> string \<Rightarrow> string \<Rightarrow> int" where
  "compareAt lc nodes a b = compareNodes lc (nd_msg (nodeAt nodes a)) (nd_msg (nodeAt nodes b))"

definition linkNode ::
  "node_map \<Rightarrow> string list \<times> (string \<times> string list) list \<Rightarrow> comment_node \<Rightarrow> string list \<times> (string \<times> string list) list" where
  "linkNode allNodes w node =
     (case w of (roots, childrenOf) \<Rightarrow>
       let key = keyOf (nd_msg node) in
       case parentKey (nd_msg node) of
         None \<Rightarrow> (roots @ [key], childrenOf)
       | Some p \<Rightarrow>
           if p \<noteq> [] \<and> map_get allNodes p \<noteq> None
           then (roots, map_set childrenOf p (case_option [] id (map_get childrenOf p) @ [key]))
           else (roots @ [key], childrenOf))"

text \<open>One pass of the for loop over a node's children: k.depth, k.displayDepth, node.children.\<close>

definition adopt :: "string \<Rightarrow> node_map \<Rightarrow> string \<Rightarrow> node_map" where
  "adopt key nodes kid =
     (let d = nd_depth (nodeAt nodes key) + 1;
          nodes1 = map_set nodes kid ((nodeAt nodes kid)\<lparr>nd_depth := d, nd_displayDepth := clampDepth d\<rparr>);
          node = nodeAt nodes1 key
      in map_set nodes1 key (node\<lparr>nd_children := nd_children node @ [kid]\<rparr>))"

partial_function (option) attach ::
  "(string \<Rightarrow> string \<Rightarrow> int) \<Rightarrow> (string \<times> string list) list \<Rightarrow> string list \<Rightarrow> node_map \<Rightarrow> node_map option" where
  "attach lc childrenOf queue nodes =
     (case queue of
        [] \<Rightarrow> Some nodes
      | key # queue' \<Rightarrow>
          (let kids = sortBy (compareAt lc nodes) (case_option [] id (map_get childrenOf key))
           in attach lc childrenOf (queue' @ kids) (foldl (adopt key) nodes kids)))"

lemma attach_code [code]:
  "attach lc childrenOf [] nodes = Some nodes"
  "attach lc childrenOf (key # queue) nodes =
     (let kids = sortBy (compareAt lc nodes) (case_option [] id (map_get childrenOf key))
      in attach lc childrenOf (queue @ kids) (foldl (adopt key) nodes kids))"
  by (subst attach.simps, simp)+

definition buildThread ::
  "(string \<Rightarrow> string \<Rightarrow> int) \<Rightarrow> comment_message list \<Rightarrow> (string list \<times> node_map) option" where
  "buildThread lc messages =
     (let survivors = survivorsOf messages;
          allNodes = foldl (\<lambda>mp m. map_set mp (keyOf m) (newNode m)) [] (map snd survivors)
      in case foldl (linkNode allNodes) ([], []) (map snd allNodes) of (roots, childrenOf) \<Rightarrow>
           (case attach lc childrenOf roots allNodes of
              None \<Rightarrow> None
            | Some nodes \<Rightarrow> Some (sortBy (compareAt lc nodes) roots, nodes)))"

section \<open>Walking up\<close>

primrec ancestor :: "comment_map \<Rightarrow> nat \<Rightarrow> comment_message \<Rightarrow> comment_message option" where
  "ancestor byHash 0 m = Some m"
| "ancestor byHash (Suc d) m =
     (case parentKey m of None \<Rightarrow> None | Some p \<Rightarrow> Option.bind (map_get byHash p) (ancestor byHash d))"

text \<open>The number of replies from a message down from its root.\<close>

definition root_dist :: "comment_map \<Rightarrow> comment_message \<Rightarrow> nat \<Rightarrow> bool" where
  "root_dist byHash m d \<longleftrightarrow> (\<exists>r. ancestor byHash d m = Some r \<and> parentKey r = None)"

definition keyed :: "comment_map \<Rightarrow> bool" where
  "keyed byHash \<longleftrightarrow> (\<forall>k m. map_get byHash k = Some m \<longrightarrow> keyOf m = k)"

lemma root_dist_0 [simp]: "root_dist byHash m 0 \<longleftrightarrow> parentKey m = None"
  by (simp add: root_dist_def)

lemma root_dist_Suc [simp]:
  "root_dist byHash m (Suc d) \<longleftrightarrow> (\<exists>p q. parentKey m = Some p \<and> map_get byHash p = Some q \<and> root_dist byHash q d)"
  by (auto simp: root_dist_def split: option.splits bind_splits)

lemma root_dist_unique: "root_dist byHash m d \<Longrightarrow> root_dist byHash m e \<Longrightarrow> d = e"
proof (induction d arbitrary: m e)
  case 0
  then show ?case by (cases e) auto
next
  case (Suc d)
  then show ?case by (cases e) auto
qed

text \<open>What the bounded walk decides: the chain ends at a root before the cap and meets no key twice.\<close>

lemma walkUp_root_dist: "walkUp n byHash visited m \<Longrightarrow> \<exists>d < n. root_dist byHash m d"
proof (induction n arbitrary: visited m)
  case (Suc n)
  show ?case
  proof (cases "parentKey m")
    case None
    then show ?thesis by (intro exI [of _ 0]) simp
  next
    case (Some p)
    then obtain q where q: "map_get byHash p = Some q" "walkUp n byHash (keyOf m # visited) q"
      using Suc.prems by (auto simp: Let_def split: if_split_asm option.splits)
    obtain d where "d < n" "root_dist byHash q d"
      using Suc.IH [OF q(2)] by blast
    with Some q(1) show ?thesis by (intro exI [of _ "Suc d"]) auto
  qed
qed simp

lemma walkUp_mono: "walkUp n byHash visited m \<Longrightarrow> set visited' \<subseteq> set visited \<Longrightarrow> walkUp (Suc n) byHash visited' m"
proof (induction n arbitrary: visited visited' m)
  case (Suc n)
  show ?case
  proof (cases "parentKey m")
    case None
    then show ?thesis
      using Suc.prems by (auto simp: Let_def split: if_split_asm)
  next
    case (Some p)
    then obtain q where q: "map_get byHash p = Some q" "walkUp n byHash (keyOf m # visited) q" "keyOf m \<notin> set visited"
      using Suc.prems(1) by (auto simp: Let_def split: if_split_asm option.splits)
    have "walkUp (Suc n) byHash (keyOf m # visited') q"
      by (rule Suc.IH [OF q(2)]) (use Suc.prems(2) in auto)
    then show ?thesis
      using Some q Suc.prems(2) by (subst walkUp.simps) (auto simp: Let_def)
  qed
qed simp

lemma walkUp_complete:
  assumes "keyed byHash" "root_dist byHash m d" "d < n" "map_get byHash (keyOf m) = Some m"
    and "\<forall>e q. q \<in> ran (map_get byHash) \<longrightarrow> root_dist byHash q e \<longrightarrow> e \<le> d \<longrightarrow> keyOf q \<notin> set visited"
  shows "walkUp n byHash visited m"
  using assms
proof (induction n arbitrary: visited m d)
  case (Suc n)
  have fresh: "keyOf m \<notin> set visited"
    using Suc.prems(2,4,5) by (auto simp: ran_def)
  show ?case
  proof (cases d)
    case 0
    then show ?thesis
      using Suc.prems(2) fresh by (simp add: Let_def)
  next
    case (Suc d')
    then obtain p q where q: "parentKey m = Some p" "map_get byHash p = Some q" "root_dist byHash q d'"
      using Suc.prems(2) by auto
    have k: "keyOf q = p"
      using q(2) Suc.prems(1) by (auto simp: keyed_def)
    have "walkUp n byHash (keyOf m # visited) q"
    proof (rule Suc.IH [OF Suc.prems(1) q(3)])
      show "d' < n" using Suc Suc.prems(3) by simp
      show "map_get byHash (keyOf q) = Some q" using q(2) k by simp
      show "\<forall>e r. r \<in> ran (map_get byHash) \<longrightarrow> root_dist byHash r e \<longrightarrow> e \<le> d' \<longrightarrow> keyOf r \<notin> set (keyOf m # visited)"
      proof (intro allI impI)
        fix e r assume r: "r \<in> ran (map_get byHash)" "root_dist byHash r e" "e \<le> d'"
        have "keyOf r \<noteq> keyOf m"
        proof
          assume eq: "keyOf r = keyOf m"
          obtain k where "map_get byHash k = Some r" using r(1) by (auto simp: ran_def)
          then have "map_get byHash (keyOf r) = Some r"
            using Suc.prems(1) by (auto simp: keyed_def)
          then have "r = m" using eq Suc.prems(4) by simp
          then have "d = e" using root_dist_unique [OF Suc.prems(2)] r(2) by simp
          with r(3) Suc show False by simp
        qed
        then show "keyOf r \<notin> set (keyOf m # visited)"
          using Suc.prems(5) r Suc by auto
      qed
    qed
    then show ?thesis
      using q fresh by (simp add: Let_def)
  qed
qed simp

section \<open>Maps filled by a loop\<close>

lemma get_foldl_set:
  "map_get (foldl (\<lambda>mp m. if P m then map_set mp (f m) (g m) else mp) mp xs) k
     = (case find (\<lambda>m. P m \<and> f m = k) (rev xs) of Some m \<Rightarrow> Some (g m) | None \<Rightarrow> map_get mp k)"
  by (induction xs rule: rev_induct) auto

lemma map_set_fresh: "k \<notin> fst ` set mp \<Longrightarrow> map_set mp k v = mp @ [(k, v)]"
  by (induction mp k v rule: map_set.induct) auto

lemma foldl_set_distinct:
  "distinct (map f xs) \<Longrightarrow> foldl (\<lambda>mp m. map_set mp (f m) (g m)) [] xs = map (\<lambda>m. (f m, g m)) xs"
proof (induction xs rule: rev_induct)
  case (snoc x xs)
  then show ?case
    by (simp add: map_set_fresh image_image)
qed simp

lemma distinct_foldl_set:
  "distinct (map fst mp) \<Longrightarrow> distinct (map fst (foldl (\<lambda>mp m. if P m then map_set mp (f m) (g m) else mp) mp xs))"
  by (induction xs arbitrary: mp) simp_all

lemma find_restrict: "find P xs = Some q \<Longrightarrow> R q \<Longrightarrow> find (\<lambda>x. R x \<and> P x) xs = Some q"
  by (induction xs) (auto split: if_split_asm)

lemma find_Some_props: "find P xs = Some q \<Longrightarrow> P q \<and> q \<in> set xs"
  by (auto simp: find_Some_iff)

lemma indexByHash_get: "map_get (indexByHash msgs) k = find (\<lambda>m. keyOf m = k) (rev msgs)"
  using get_foldl_set [of "\<lambda>_. True" keyOf "\<lambda>m. m" "[]" msgs k] by (simp add: indexByHash_def split: option.splits)

lemma keyed_indexByHash: "keyed (indexByHash msgs)"
  by (auto simp: keyed_def indexByHash_get dest: find_Some_props)

lemma survivors_eq:
  "survivorsOf msgs = foldl (\<lambda>mp m. if isReachableRoot m (indexByHash msgs) then map_set mp (keyOf m) m else mp) [] msgs"
  unfolding survivorsOf_def Let_def by (rule foldl_cong) auto

lemma survivors_get:
  "map_get (survivorsOf msgs) k = find (\<lambda>m. isReachableRoot m (indexByHash msgs) \<and> keyOf m = k) (rev msgs)"
  using get_foldl_set [of "\<lambda>m. isReachableRoot m (indexByHash msgs)" keyOf "\<lambda>m. m" "[]" msgs k]
  by (simp add: survivors_eq split: option.splits)

lemma survivors_distinct: "distinct (map fst (survivorsOf msgs))"
  unfolding survivors_eq by (rule distinct_foldl_set) simp

lemma survivors_SomeD:
  "map_get (survivorsOf msgs) k = Some m \<Longrightarrow> keyOf m = k \<and> m \<in> set msgs \<and> isReachableRoot m (indexByHash msgs)"
  by (auto simp: survivors_get dest: find_Some_props)

lemma survivors_keyed: "(k, m) \<in> set (survivorsOf msgs) \<Longrightarrow> keyOf m = k"
  using survivors_SomeD map_of_is_SomeI [OF survivors_distinct] by blast

section \<open>The forest of survivors\<close>

definition parentOf :: "comment_map \<Rightarrow> string \<Rightarrow> string option" where
  "parentOf S k = Option.bind (map_get S k) (\<lambda>m. Option.bind (parentKey m)
     (\<lambda>p. if p \<noteq> [] \<and> map_get S p \<noteq> None then Some p else None))"

definition replies :: "comment_map \<Rightarrow> string \<Rightarrow> string list" where
  "replies S k = filter (\<lambda>x. parentOf S x = Some k) (map fst S)"

definition topLevel :: "comment_map \<Rightarrow> string list" where
  "topLevel S = filter (\<lambda>x. parentOf S x = None) (map fst S)"

definition compareIn :: "(string \<Rightarrow> string \<Rightarrow> int) \<Rightarrow> comment_map \<Rightarrow> string \<Rightarrow> string \<Rightarrow> int" where
  "compareIn lc S a b = compareNodes lc (the (map_get S a)) (the (map_get S b))"

text \<open>The level of a key: how many parents it has above it.\<close>

primrec at_level :: "comment_map \<Rightarrow> nat \<Rightarrow> string \<Rightarrow> bool" where
  "at_level S 0 k = (parentOf S k = None)"
| "at_level S (Suc d) k = (\<exists>p. parentOf S k = Some p \<and> at_level S d p)"

lemma at_level_unique: "at_level S d k \<Longrightarrow> at_level S e k \<Longrightarrow> d = e"
proof (induction d arbitrary: k e)
  case 0
  then show ?case by (cases e) auto
next
  case (Suc d)
  then show ?case by (cases e) auto
qed

lemma parentOf_dom: "parentOf S k = Some p \<Longrightarrow> map_get S k \<noteq> None \<and> map_get S p \<noteq> None"
  by (auto simp: parentOf_def split: bind_splits if_split_asm)

lemma key_dom: "k \<in> set (map fst S) \<longleftrightarrow> map_get S k \<noteq> None"
  by (simp add: map_of_eq_None_iff)

section \<open>Sorting\<close>

lemma set_insertBy [simp]: "set (insertBy cmp x ys) = insert x (set ys)"
  by (induction ys) auto

lemma set_sortBy [simp]: "set (sortBy cmp xs) = set xs"
  by (induction xs) (simp_all add: sortBy_def)

lemma mset_insertBy [simp]: "mset (insertBy cmp x ys) = add_mset x (mset ys)"
  by (induction ys) auto

lemma mset_sortBy [simp]: "mset (sortBy cmp xs) = mset xs"
  by (induction xs) (simp_all add: sortBy_def)

lemma distinct_sortBy [simp]: "distinct (sortBy cmp xs) \<longleftrightarrow> distinct xs"
  by (rule mset_eq_imp_distinct_iff) simp

lemma insertBy_cong: "\<forall>y \<in> set ys. f x y = g x y \<Longrightarrow> insertBy f x ys = insertBy g x ys"
  by (induction ys) auto

lemma sortBy_cong: "\<forall>a \<in> set xs. \<forall>b \<in> set xs. f a b = g a b \<Longrightarrow> sortBy f xs = sortBy g xs"
proof (induction xs)
  case (Cons x xs)
  have "sortBy f xs = sortBy g xs"
    using Cons by simp
  moreover have "insertBy f x (sortBy g xs) = insertBy g x (sortBy g xs)"
    by (rule insertBy_cong) (use Cons.prems in simp)
  ultimately show ?case
    by (simp add: sortBy_def)
qed (simp add: sortBy_def)

text \<open>What the language asks of a comparison function, reflexivity being a case of totality.\<close>

definition consistent :: "('a \<Rightarrow> 'a \<Rightarrow> int) \<Rightarrow> bool" where
  "consistent cmp \<longleftrightarrow> (\<forall>a b. cmp a b \<le> 0 \<or> cmp b a \<le> 0) \<and> (\<forall>a b c. cmp a b \<le> 0 \<longrightarrow> cmp b c \<le> 0 \<longrightarrow> cmp a c \<le> 0)"

lemma sorted_insertBy:
  assumes "consistent cmp" "sorted_wrt (\<lambda>a b. cmp a b \<le> 0) ys"
  shows "sorted_wrt (\<lambda>a b. cmp a b \<le> 0) (insertBy cmp x ys)"
  using assms(2)
proof (induction ys)
  case (Cons y ys)
  show ?case
  proof (cases "cmp x y \<le> 0")
    case True
    have "cmp x z \<le> 0" if "z \<in> set ys" for z
      using that True Cons.prems assms(1) unfolding consistent_def by (metis sorted_wrt.simps(2))
    with True Cons.prems show ?thesis by simp
  next
    case False
    then have "cmp y x \<le> 0"
      using assms(1) unfolding consistent_def by blast
    with False Cons show ?thesis by simp
  qed
qed simp

lemma sorted_sortBy: "consistent cmp \<Longrightarrow> sorted_wrt (\<lambda>a b. cmp a b \<le> 0) (sortBy cmp xs)"
  by (induction xs) (simp_all add: sortBy_def sorted_insertBy)

lemma consistent_compareNodes: "consistent lc \<Longrightarrow> consistent (compareNodes lc)"
  unfolding consistent_def compareNodes_def by (smt (verit))

lemma consistent_compareIn: "consistent lc \<Longrightarrow> consistent (compareIn lc S)"
  using consistent_compareNodes unfolding consistent_def compareIn_def by blast

section \<open>Attaching the children\<close>

text \<open>
  The contract between the filter and the loop: parent links that descend in some rank. Under
  it the loop returns and visits every key exactly once.
\<close>

locale reply_forest =
  fixes S :: comment_map and rank :: "string \<Rightarrow> nat"
  assumes distinct_keys: "distinct (map fst S)"
    and descends: "parentOf S k = Some p \<Longrightarrow> rank p < rank k"
begin

lemma not_self: "parentOf S k \<noteq> Some k"
  using descends by blast

lemma has_level: "\<exists>d. at_level S d k"
proof (induction k rule: measure_induct_rule [of rank])
  case (less k)
  show ?case
  proof (cases "parentOf S k")
    case None
    then show ?thesis by (intro exI [of _ 0]) simp
  next
    case (Some p)
    with less [OF descends [OF Some]] obtain d where "at_level S d p" by blast
    with Some show ?thesis by (intro exI [of _ "Suc d"]) simp
  qed
qed

lemma closed_is_all:
  assumes "set (topLevel S) \<subseteq> V" "\<forall>k \<in> V. set (replies S k) \<subseteq> V" "k \<in> set (map fst S)"
  shows "k \<in> V"
  using assms(3)
proof (induction k rule: measure_induct_rule [of rank])
  case (less k)
  show ?case
  proof (cases "parentOf S k")
    case None
    then show ?thesis using less.prems assms(1) by (auto simp: topLevel_def)
  next
    case (Some p)
    then have "p \<in> V"
      using less.IH [OF descends [OF Some]] parentOf_dom [OF Some] by (simp add: map_of_eq_None_iff)
    with Some less.prems assms(2) show ?thesis by (auto simp: replies_def)
  qed
qed

end

text \<open>The nodes after the keys of V were visited, those of Q being in the queue.\<close>

definition placed ::
  "(string \<Rightarrow> string \<Rightarrow> int) \<Rightarrow> comment_map \<Rightarrow> string set \<Rightarrow> string set \<Rightarrow> node_map \<Rightarrow> bool" where
  "placed lc S V Q nodes \<longleftrightarrow> map fst nodes = map fst S \<and>
     (\<forall>k m. map_get S k = Some m \<longrightarrow> (\<exists>n. map_get nodes k = Some n \<and> nd_msg n = m
        \<and> nd_children n = (if k \<in> V then sortBy (compareIn lc S) (replies S k) else [])
        \<and> (k \<in> V \<union> Q \<longrightarrow> at_level S (nd_depth n) k \<and> nd_displayDepth n = clampDepth (nd_depth n))))"

lemma placed_get:
  assumes "placed lc S V Q nodes" "map_get S k = Some m"
  obtains n where "map_get nodes k = Some n" "nd_msg n = m"
    "nd_children n = (if k \<in> V then sortBy (compareIn lc S) (replies S k) else [])"
    "k \<in> V \<union> Q \<Longrightarrow> at_level S (nd_depth n) k \<and> nd_displayDepth n = clampDepth (nd_depth n)"
  using assms unfolding placed_def by blast

lemma placed_compare:
  assumes "placed lc S V Q nodes" "a \<in> set (map fst S)" "b \<in> set (map fst S)"
  shows "compareAt lc nodes a b = compareIn lc S a b"
proof -
  obtain x y where "map_get S a = Some x" "map_get S b = Some y"
    using assms(2,3) unfolding key_dom by blast
  moreover have "nd_msg (nodeAt nodes c) = m" if "map_get S c = Some m" for c m
    using placed_get [OF assms(1) that] by (metis nodeAt_def option.sel)
  ultimately show ?thesis
    by (simp add: compareAt_def compareIn_def)
qed

lemma map_fst_map_set: "k \<in> set (map fst mp) \<Longrightarrow> map fst (map_set mp k v) = map fst mp"
  by (induction mp k v rule: map_set.induct) auto

lemma adopt_get:
  assumes "key \<noteq> kid" "map_get nodes key = Some n" "map_get nodes kid = Some c"
  shows "map_get (adopt key nodes kid) =
     (map_get nodes)(kid \<mapsto> c\<lparr>nd_depth := nd_depth n + 1, nd_displayDepth := clampDepth (nd_depth n + 1)\<rparr>,
                     key \<mapsto> n\<lparr>nd_children := nd_children n @ [kid]\<rparr>)"
    and "map fst (adopt key nodes kid) = map fst nodes"
proof -
  show "map_get (adopt key nodes kid) =
     (map_get nodes)(kid \<mapsto> c\<lparr>nd_depth := nd_depth n + 1, nd_displayDepth := clampDepth (nd_depth n + 1)\<rparr>,
                     key \<mapsto> n\<lparr>nd_children := nd_children n @ [kid]\<rparr>)"
    using assms by (simp add: adopt_def nodeAt_def Let_def)
  have "kid \<in> set (map fst nodes)" "key \<in> set (map fst nodes)"
    using assms(2,3) unfolding key_dom by simp_all
  then show "map fst (adopt key nodes kid) = map fst nodes"
    by (simp add: adopt_def Let_def map_fst_map_set)
qed

lemma adopt_all:
  assumes "key \<notin> set kids" "distinct kids" "map_get nodes key = Some n" "\<forall>x \<in> set kids. map_get nodes x \<noteq> None"
  shows "map fst (foldl (adopt key) nodes kids) = map fst nodes
    \<and> map_get (foldl (adopt key) nodes kids) x =
       (if x = key then Some (n\<lparr>nd_children := nd_children n @ kids\<rparr>)
        else if x \<in> set kids
        then Some ((nodeAt nodes x)\<lparr>nd_depth := nd_depth n + 1, nd_displayDepth := clampDepth (nd_depth n + 1)\<rparr>)
        else map_get nodes x)"
  using assms
proof (induction kids arbitrary: nodes n)
  case (Cons kid kids)
  obtain c where c: "map_get nodes kid = Some c"
    using Cons.prems(4) by auto
  have "key \<noteq> kid" using Cons.prems(1) by auto
  note a = adopt_get [OF this Cons.prems(3) c]
  have "map_get (adopt key nodes kid) key = Some (n\<lparr>nd_children := nd_children n @ [kid]\<rparr>)"
    by (simp add: a)
  from Cons.IH [OF _ _ this] Cons.prems a c show ?case
    by (auto simp: nodeAt_def)
qed simp

context reply_forest
begin

lemma replies_distinct: "distinct (replies S k)"
  using distinct_keys by (simp add: replies_def)

lemma placed_step:
  assumes "placed lc S V (insert k Q) nodes" "k \<notin> V" "map_get S k = Some m"
    and kids: "kids = sortBy (compareIn lc S) (replies S k)"
  shows "placed lc S (insert k V) (Q \<union> set kids) (foldl (adopt k) nodes kids)"
proof -
  obtain n where n: "map_get nodes k = Some n" "nd_msg n = m" "nd_children n = []"
      "at_level S (nd_depth n) k" "nd_displayDepth n = clampDepth (nd_depth n)"
    using placed_get [OF assms(1,3)] assms(2) by auto
  have k: "x \<in> set kids \<longleftrightarrow> parentOf S x = Some k" for x
    using parentOf_dom [of S x k] by (auto simp: kids replies_def map_of_eq_None_iff)
  have pre: "k \<notin> set kids" "distinct kids"
    using not_self replies_distinct by (simp_all add: k) (simp add: kids)
  have keys: "map fst nodes = map fst S"
    using assms(1) by (simp add: placed_def)
  have known: "map_get nodes x \<noteq> None" if "parentOf S x = Some k" for x
    using parentOf_dom [OF that] keys by (metis key_dom)
  note all = adopt_all [OF pre n(1), of]
  have step: "map fst (foldl (adopt k) nodes kids) = map fst S"
    "map_get (foldl (adopt k) nodes kids) x =
       (if x = k then Some (n\<lparr>nd_children := kids\<rparr>)
        else if x \<in> set kids then Some ((nodeAt nodes x)\<lparr>nd_depth := nd_depth n + 1, nd_displayDepth := clampDepth (nd_depth n + 1)\<rparr>)
        else map_get nodes x)" for x
    using all [of x] known keys n(3) by (simp_all add: k)
  have "\<exists>n'. map_get (foldl (adopt k) nodes kids) x = Some n' \<and> nd_msg n' = mx
      \<and> nd_children n' = (if x \<in> insert k V then sortBy (compareIn lc S) (replies S x) else [])
      \<and> (x \<in> insert k V \<union> (Q \<union> set kids) \<longrightarrow> at_level S (nd_depth n') x \<and> nd_displayDepth n' = clampDepth (nd_depth n'))"
    if x: "map_get S x = Some mx" for x mx
  proof -
    obtain nx where nx: "map_get nodes x = Some nx" "nd_msg nx = mx"
      "nd_children nx = (if x \<in> V then sortBy (compareIn lc S) (replies S x) else [])"
      "x \<in> V \<union> insert k Q \<Longrightarrow> at_level S (nd_depth nx) x \<and> nd_displayDepth nx = clampDepth (nd_depth nx)"
      using placed_get [OF assms(1) x] by metis
    show ?thesis
    proof (cases "x = k")
      case True
      then show ?thesis
        using n nx x assms(3) by (simp add: step(2) kids [symmetric])
    next
      case False
      then show ?thesis
        using nx n(4) by (cases "parentOf S x = Some k") (simp_all add: step(2) k nodeAt_def)
    qed
  qed
  then show ?thesis
    using step(1) by (simp add: placed_def)
qed

lemma attach_all:
  assumes "placed lc S (set vs) (set q) nodes" "distinct (vs @ q)" "set (vs @ q) \<subseteq> set (map fst S)"
    and "set (topLevel S) \<subseteq> set (vs @ q)" "\<forall>k \<in> set vs. set (replies S k) \<subseteq> set (vs @ q)"
    and "\<forall>k \<in> set (vs @ q). \<forall>p. parentOf S k = Some p \<longrightarrow> p \<in> set vs"
    and childrenOf: "\<And>k. case_option [] id (map_get childrenOf k) = replies S k"
  shows "\<exists>nodes'. attach lc childrenOf q nodes = Some nodes' \<and> placed lc S (set (map fst S)) {} nodes'"
  using assms(1-6)
proof (induction "length S - length vs" arbitrary: vs q nodes rule: less_induct)
  case less
  show ?case
  proof (cases q)
    case Nil
    have "x \<in> set vs" if "x \<in> set (map fst S)" for x
      by (rule closed_is_all [OF _ _ that]) (use less.prems(4,5) Nil in simp_all)
    then have "set vs = set (map fst S)"
      using less.prems(3) Nil by (intro equalityI subsetI) (simp_all add: subset_iff)
    then show ?thesis
      using less.prems(1) unfolding Nil by (subst attach.simps) simp
  next
    case (Cons k q')
    let ?kids = "sortBy (compareIn lc S) (replies S k)"
    obtain m where m: "map_get S k = Some m"
      using less.prems(3) Cons key_dom [of k S] by auto
    have kids: "x \<in> set ?kids \<longleftrightarrow> parentOf S x = Some k" for x
      using parentOf_dom [of S x k] by (auto simp: replies_def map_of_eq_None_iff)
    have sorted: "sortBy (compareAt lc nodes) (replies S k) = ?kids"
      by (rule sortBy_cong) (intro ballI placed_compare [OF less.prems(1)], simp_all only: replies_def set_filter mem_Collect_eq)
    have unfold: "attach lc childrenOf q nodes = attach lc childrenOf (q' @ ?kids) (foldl (adopt k) nodes ?kids)"
      by (subst attach.simps) (simp add: Cons childrenOf sorted Let_def)
    have new: "set ?kids \<inter> set (vs @ q) = {}"
      using less.prems(2,6) Cons kids by fastforce
    have placed: "placed lc S (set (vs @ [k])) (set (q' @ ?kids)) (foldl (adopt k) nodes ?kids)"
      using placed_step [of lc "set vs" k "set q'" nodes m ?kids] less.prems(1,2) Cons m by simp
    have "length vs < length S"
    proof -
      have "length (vs @ q) \<le> length S"
        using card_mono [OF _ less.prems(3)] distinct_card [OF less.prems(2)] distinct_card [OF distinct_keys] by simp
      then show ?thesis by (simp add: Cons)
    qed
    then have smaller: "length S - length (vs @ [k]) < length S - length vs"
      by simp
    have "\<exists>nodes'. attach lc childrenOf (q' @ ?kids) (foldl (adopt k) nodes ?kids) = Some nodes'
        \<and> placed lc S (set (map fst S)) {} nodes'"
    proof (rule less.hyps [OF smaller placed])
      show "distinct ((vs @ [k]) @ q' @ ?kids)"
        using less.prems(2) Cons new replies_distinct by (auto simp del: set_sortBy)
      show "set ((vs @ [k]) @ q' @ ?kids) \<subseteq> set (map fst S)"
        using less.prems(3) Cons by (auto simp: replies_def)
      show "set (topLevel S) \<subseteq> set ((vs @ [k]) @ q' @ ?kids)"
        using less.prems(4) Cons by auto
      show "\<forall>x \<in> set (vs @ [k]). set (replies S x) \<subseteq> set ((vs @ [k]) @ q' @ ?kids)"
        using less.prems(5) Cons by auto
      show "\<forall>x \<in> set ((vs @ [k]) @ q' @ ?kids). \<forall>p. parentOf S x = Some p \<longrightarrow> p \<in> set (vs @ [k])"
        using less.prems(6) Cons kids by auto
    qed
    then show ?thesis
      by (simp add: unfold)
  qed
qed

end

section \<open>The survivors form a forest\<close>

lemma survivor_chain:
  assumes "map_get (survivorsOf msgs) k = Some m" "parentKey m = Some p"
  shows "\<exists>q. map_get (survivorsOf msgs) p = Some q \<and> map_get (indexByHash msgs) p = Some q"
proof -
  let ?b = "indexByHash msgs"
  obtain n where n: "HARD_CAP = Suc n"
    by (metis HARD_CAP_def not0_implies_Suc zero_neq_numeral)
  have "walkUp (Suc n) ?b [] m"
    using survivors_SomeD [OF assms(1)] by (simp only: isReachableRoot_def n)
  then obtain q where q: "map_get ?b p = Some q" "walkUp n ?b [keyOf m] q"
    using assms(2) by (auto simp: Let_def split: option.splits)
  then have "isReachableRoot q ?b"
    using walkUp_mono [OF q(2), of "[]"] by (simp only: isReachableRoot_def n) simp
  with q(1) have "map_get (survivorsOf msgs) p = Some q"
    unfolding survivors_get indexByHash_get by (rule find_restrict)
  with q(1) show ?thesis by blast
qed

definition survivor_rank :: "comment_message list \<Rightarrow> string \<Rightarrow> nat" where
  "survivor_rank msgs k = (LEAST d. root_dist (indexByHash msgs) (the (map_get (survivorsOf msgs) k)) d)"

lemma survivor_rank_eq:
  assumes "map_get (survivorsOf msgs) k = Some m"
  shows "root_dist (indexByHash msgs) m (survivor_rank msgs k)" "survivor_rank msgs k < HARD_CAP"
proof -
  obtain d where d: "d < HARD_CAP" "root_dist (indexByHash msgs) m d"
    using walkUp_root_dist survivors_SomeD [OF assms] by (metis isReachableRoot_def)
  then have "survivor_rank msgs k = d"
    unfolding survivor_rank_def assms option.sel
    by (intro Least_equality) (auto dest: root_dist_unique)
  with d show "root_dist (indexByHash msgs) m (survivor_rank msgs k)" "survivor_rank msgs k < HARD_CAP"
    by simp_all
qed

interpretation survivors: reply_forest "survivorsOf msgs" "survivor_rank msgs" for msgs
proof
  show "distinct (map fst (survivorsOf msgs))"
    by (rule survivors_distinct)
  fix k p assume "parentOf (survivorsOf msgs) k = Some p"
  then obtain m where m: "map_get (survivorsOf msgs) k = Some m" "parentKey m = Some p"
    by (auto simp: parentOf_def split: bind_splits if_split_asm)
  obtain q where q: "map_get (survivorsOf msgs) p = Some q" "map_get (indexByHash msgs) p = Some q"
    using survivor_chain [OF m] by blast
  have "root_dist (indexByHash msgs) m (Suc (survivor_rank msgs p))"
    using m(2) q survivor_rank_eq(1) [OF q(1)] by auto
  from root_dist_unique [OF this survivor_rank_eq(1) [OF m(1)]]
  show "survivor_rank msgs p < survivor_rank msgs k" by simp
qed

section \<open>Linking\<close>

definition parentIn :: "node_map \<Rightarrow> comment_message \<Rightarrow> string option" where
  "parentIn nodes m = Option.bind (parentKey m) (\<lambda>p. if p \<noteq> [] \<and> map_get nodes p \<noteq> None then Some p else None)"

lemma linkNode_eq:
  "linkNode A (roots, ch) n = (case parentIn A (nd_msg n) of
      None \<Rightarrow> (roots @ [keyOf (nd_msg n)], ch)
    | Some p \<Rightarrow> (roots, map_set ch p (case_option [] id (map_get ch p) @ [keyOf (nd_msg n)])))"
  by (auto simp: linkNode_def parentIn_def Let_def split: option.splits bind_splits)

lemma link_all:
  assumes "foldl (linkNode A) (roots, ch) ns = (roots', ch')"
  shows "roots' = roots @ map (keyOf \<circ> nd_msg) (filter (\<lambda>n. parentIn A (nd_msg n) = None) ns)
    \<and> case_option [] id (map_get ch' k) = case_option [] id (map_get ch k)
      @ map (keyOf \<circ> nd_msg) (filter (\<lambda>n. parentIn A (nd_msg n) = Some k) ns)"
  using assms
proof (induction ns arbitrary: roots ch)
  case (Cons n ns)
  show ?case
  proof (cases "parentIn A (nd_msg n)")
    case None
    with Cons.prems have "foldl (linkNode A) (roots @ [keyOf (nd_msg n)], ch) ns = (roots', ch')"
      by (simp add: linkNode_eq)
    from Cons.IH [OF this] None show ?thesis by simp
  next
    case (Some p)
    with Cons.prems have
      "foldl (linkNode A) (roots, map_set ch p (case_option [] id (map_get ch p) @ [keyOf (nd_msg n)])) ns = (roots', ch')"
      by (simp add: linkNode_eq)
    from Cons.IH [OF this] Some show ?thesis by simp
  qed
qed simp

lemma map_get_newNode: "map_get (map (\<lambda>(k, m). (k, newNode m)) S) k = map_option newNode (map_get S k)"
  by (induction S) auto

lemma allNodes_eq:
  "foldl (\<lambda>mp m. map_set mp (keyOf m) (newNode m)) [] (map snd (survivorsOf msgs))
     = map (\<lambda>(k, m). (k, newNode m)) (survivorsOf msgs)"
proof -
  have "map keyOf (map snd (survivorsOf msgs)) = map fst (survivorsOf msgs)"
    using survivors_keyed by (auto simp: case_prod_beta)
  then have "distinct (map keyOf (map snd (survivorsOf msgs)))"
    using survivors_distinct by metis
  from foldl_set_distinct [OF this, of newNode] show ?thesis
    using survivors_keyed by (auto simp: case_prod_beta)
qed

lemma linked_filter:
  assumes "S = survivorsOf msgs" "A = map (\<lambda>(k, m). (k, newNode m)) S"
  shows "map (keyOf \<circ> nd_msg) (filter (\<lambda>n. parentIn A (nd_msg n) = x) (map snd A)) = filter (\<lambda>k. parentOf S k = x) (map fst S)"
proof -
  have "keyOf m = k \<and> parentIn A m = parentOf S k" if "(k, m) \<in> set S" for k m
  proof -
    have "map_get S k = Some m"
      using that survivors_distinct assms(1) by simp
    then show ?thesis
      using that survivors_keyed [of k m msgs] assms
      by (simp add: parentIn_def parentOf_def map_get_newNode cong: bind_option_cong)
  qed
  then have e: "\<forall>e \<in> set S. keyOf (snd e) = fst e \<and> parentIn A (snd e) = parentOf S (fst e)"
    by auto
  have "map (keyOf \<circ> nd_msg) (filter (\<lambda>n. parentIn A (nd_msg n) = x) (map snd (map (\<lambda>(k, m). (k, newNode m)) S')))
      = filter (\<lambda>k. parentOf S k = x) (map fst S')" if "set S' \<subseteq> set S" for S'
    using that by (induction S') (use e in \<open>auto simp: newNode_def\<close>)
  then show ?thesis
    using assms(2) by simp
qed

text \<open>What buildThread computes, in terms of the survivors.\<close>

lemma buildThread_spec:
  obtains nodes where
    "buildThread lc msgs = Some (sortBy (compareIn lc (survivorsOf msgs)) (topLevel (survivorsOf msgs)), nodes)"
    "placed lc (survivorsOf msgs) (set (map fst (survivorsOf msgs))) {} nodes"
proof -
  let ?S = "survivorsOf msgs"
  let ?A = "map (\<lambda>(k, m). (k, newNode m)) ?S"
  obtain roots ch where link: "foldl (linkNode ?A) ([], []) (map snd ?A) = (roots, ch)"
    by fastforce
  have roots: "roots = topLevel ?S"
    using link_all [OF link] linked_filter [OF refl refl, where x = None and msgs = msgs] by (simp add: topLevel_def)
  have ch: "case_option [] id (map_get ch k) = replies ?S k" for k
    using link_all [OF link, of k] linked_filter [OF refl refl, where x = "Some k" and msgs = msgs] by (simp add: replies_def)
  have "\<exists>n. map_get ?A k = Some n \<and> nd_msg n = m \<and> nd_children n = []
      \<and> (k \<in> set roots \<longrightarrow> at_level ?S (nd_depth n) k \<and> nd_displayDepth n = clampDepth (nd_depth n))"
    if "map_get ?S k = Some m" for k m
    by (rule exI [of _ "newNode m"]) (simp add: that map_get_newNode roots topLevel_def, simp add: newNode_def clampDepth_def)
  moreover have "map fst ?A = map fst ?S"
    by (simp add: case_prod_beta)
  ultimately have "placed lc ?S (set []) (set roots) ?A"
    by (simp add: placed_def)
  then obtain nodes where nodes: "attach lc ch roots ?A = Some nodes" "placed lc ?S (set (map fst ?S)) {} nodes"
    using survivors.attach_all [of lc msgs "[]" roots ?A ch] ch survivors_distinct [of msgs]
    by (auto simp: roots topLevel_def)
  have "sortBy (compareAt lc nodes) roots = sortBy (compareIn lc ?S) roots"
    by (rule sortBy_cong) (intro ballI placed_compare [OF nodes(2)], simp_all only: roots topLevel_def set_filter mem_Collect_eq)
  then show thesis
    using that [of nodes] nodes link roots by (simp add: buildThread_def allNodes_eq)
qed

section \<open>What the widget shows\<close>

lemma node_of_survivor:
  assumes "placed lc S (set (map fst S)) {} nodes" "map_get nodes k = Some n"
  shows "map_get S k = Some (nd_msg n)" "nd_children n = sortBy (compareIn lc S) (replies S k)"
    "at_level S (nd_depth n) k" "nd_displayDepth n = clampDepth (nd_depth n)"
proof -
  have "k \<in> set (map fst S)"
    using assms by (metis key_dom option.distinct(1) placed_def)
  then obtain m where m: "map_get S k = Some m"
    unfolding key_dom by blast
  then show "map_get S k = Some (nd_msg n)" "nd_children n = sortBy (compareIn lc S) (replies S k)"
    "at_level S (nd_depth n) k" "nd_displayDepth n = clampDepth (nd_depth n)"
    using placed_get [OF assms(1) m] assms(2) \<open>k \<in> set (map fst S)\<close> by (metis UnI1 option.sel)+
qed

lemma mset_concat_filter:
  assumes "distinct ks" "\<And>x p. x \<in> set xs \<Longrightarrow> f x = Some p \<Longrightarrow> p \<in> set ks"
  shows "mset (filter (\<lambda>x. f x = None) xs) + (\<Sum>k\<leftarrow>ks. mset (filter (\<lambda>x. f x = Some k) xs)) = mset xs"
  using assms(2)
proof (induction xs)
  case (Cons x xs)
  have IH: "mset (filter (\<lambda>x. f x = None) xs) + (\<Sum>k\<leftarrow>ks. mset (filter (\<lambda>x. f x = Some k) xs)) = mset xs"
    by (rule Cons.IH, rule Cons.prems) auto
  show ?case
  proof (cases "f x")
    case None
    with IH show ?thesis by simp
  next
    case (Some p)
    have "(\<Sum>k\<leftarrow>ks. mset (filter (\<lambda>y. f y = Some k) (x # xs))) = add_mset x (\<Sum>k\<leftarrow>ks. mset (filter (\<lambda>y. f y = Some k) xs))"
      using assms(1) Cons.prems [of x p] Some
    proof (induction ks)
      case (Cons k ks)
      have *: "p \<notin> set ks \<Longrightarrow> (\<Sum>k\<leftarrow>ks. mset (filter (\<lambda>y. f y = Some k) (x # xs))) = (\<Sum>k\<leftarrow>ks. mset (filter (\<lambda>y. f y = Some k) xs))" for ks
        using Some by (induction ks) auto
      show ?case
      proof (cases "p = k")
        case True
        then show ?thesis using Cons * [of ks] by simp
      next
        case False
        then show ?thesis using Cons by auto
      qed
    qed simp
    with IH Some show ?thesis by simp
  qed
qed (induction ks; simp)

lemma survivors_of_distinct:
  assumes "distinct (map keyOf msgs)"
  shows "map fst (survivorsOf msgs) = map keyOf (filter (\<lambda>m. \<exists>d < HARD_CAP. root_dist (indexByHash msgs) m d) msgs)"
proof -
  let ?b = "indexByHash msgs"
  have get: "map_get ?b (keyOf m) = Some m" if m: "m \<in> set msgs" for m
  proof -
    obtain q where q: "find (\<lambda>x. keyOf x = keyOf m) (rev msgs) = Some q"
      using m find_None_iff [of "\<lambda>x. keyOf x = keyOf m" "rev msgs"] by fastforce
    with m have "q = m"
      using find_Some_props [OF q] assms by (auto dest: inj_onD simp: distinct_map)
    with q show ?thesis by (simp add: indexByHash_get)
  qed
  have reach: "isReachableRoot m ?b \<longleftrightarrow> (\<exists>d < HARD_CAP. root_dist ?b m d)" if "m \<in> set msgs" for m
  proof
    show "isReachableRoot m ?b \<Longrightarrow> \<exists>d < HARD_CAP. root_dist ?b m d"
      unfolding isReachableRoot_def by (rule walkUp_root_dist)
    show "\<exists>d < HARD_CAP. root_dist ?b m d \<Longrightarrow> isReachableRoot m ?b"
      unfolding isReachableRoot_def using walkUp_complete [OF keyed_indexByHash _ _ get [OF that]] by auto
  qed
  have "survivorsOf msgs = foldl (\<lambda>mp m. map_set mp (keyOf m) m) [] (filter (\<lambda>m. isReachableRoot m ?b) msgs)"
    unfolding survivors_eq by (simp add: foldl_conv_fold fold_filter) (rule fold_cong; auto)
  moreover have "distinct (map keyOf (filter (\<lambda>m. isReachableRoot m ?b) msgs))"
    using assms by (simp add: distinct_map_filter)
  ultimately have "map fst (survivorsOf msgs) = map keyOf (filter (\<lambda>m. isReachableRoot m ?b) msgs)"
    using foldl_set_distinct [of keyOf _ "\<lambda>m. m"] by simp
  also have "filter (\<lambda>m. isReachableRoot m ?b) msgs = filter (\<lambda>m. \<exists>d < HARD_CAP. root_dist ?b m d) msgs"
    by (rule filter_cong) (simp_all add: reach)
  finally show ?thesis .
qed


text \<open>
  C37. The thread is laid out as documented: with a collation that is a total preorder, the roots and the children of every node are sorted by timestamp and then by hash; the children of a node are exactly the displayed replies to it; a root has wire depth 0 and a child one more than its parent, and the display depth is that clamped to 2.
\<close>

theorem thread_layout:
  assumes "consistent lc" "buildThread lc msgs = Some (roots, nodes)"
    and "map_get nodes k = Some n" "map_get nodes c = Some child"
  shows "sorted_wrt (\<lambda>a b. compareAt lc nodes a b \<le> 0) roots
    \<and> sorted_wrt (\<lambda>a b. compareAt lc nodes a b \<le> 0) (nd_children n)
    \<and> (c \<in> set (nd_children n) \<longleftrightarrow> k \<noteq> [] \<and> parentKey (nd_msg child) = Some k)
    \<and> (c \<in> set roots \<longrightarrow> nd_depth child = 0)
    \<and> (c \<in> set (nd_children n) \<longrightarrow> nd_depth child = nd_depth n + 1)
    \<and> nd_displayDepth n = min 2 (nd_depth n)"
proof -
  let ?S = "survivorsOf msgs"
  obtain nodes' where "buildThread lc msgs = Some (sortBy (compareIn lc ?S) (topLevel ?S), nodes')"
      "placed lc ?S (set (map fst ?S)) {} nodes'"
    by (rule buildThread_spec)
  then have r: "roots = sortBy (compareIn lc ?S) (topLevel ?S)" and pl: "placed lc ?S (set (map fst ?S)) {} nodes"
    using assms(2) by simp_all
  note n = node_of_survivor [OF pl assms(3)] and ch = node_of_survivor [OF pl assms(4)]
  have sorted: "sorted_wrt (\<lambda>a b. compareAt lc nodes a b \<le> 0) (sortBy (compareIn lc ?S) xs)" if "set xs \<subseteq> set (map fst ?S)" for xs
  proof -
    have "sortBy (compareIn lc ?S) xs = sortBy (compareAt lc nodes) xs"
      by (rule sortBy_cong) (use placed_compare [OF pl] that in \<open>auto simp: subset_iff\<close>)
    moreover have "consistent (compareAt lc nodes)"
      using consistent_compareNodes [OF assms(1)] unfolding consistent_def compareAt_def by blast
    ultimately show ?thesis
      using sorted_sortBy by metis
  qed
  have mem: "c \<in> set (nd_children n) \<longleftrightarrow> parentOf ?S c = Some k"
    using parentOf_dom [of ?S c k] by (auto simp: n(2) replies_def map_of_eq_None_iff)
  have "sorted_wrt (\<lambda>a b. compareAt lc nodes a b \<le> 0) roots"
    unfolding r by (rule sorted) (auto simp: topLevel_def)
  moreover have "sorted_wrt (\<lambda>a b. compareAt lc nodes a b \<le> 0) (nd_children n)"
    unfolding n(2) by (rule sorted) (auto simp: replies_def)
  moreover have "c \<in> set (nd_children n) \<longleftrightarrow> k \<noteq> [] \<and> parentKey (nd_msg child) = Some k"
    unfolding mem using ch(1) n(1) by (auto simp: parentOf_def split: bind_splits if_split_asm)
  moreover have "nd_depth child = 0" if "c \<in> set roots"
    using that at_level_unique [OF ch(3), of 0] by (simp add: r topLevel_def)
  moreover have "nd_depth child = nd_depth n + 1" if "c \<in> set (nd_children n)"
    using that at_level_unique [OF ch(3), of "Suc (nd_depth n)"] n(3) by (simp add: mem)
  moreover have "nd_displayDepth n = min 2 (nd_depth n)"
    using n(4) by (auto simp: clampDepth_def min_def)
  ultimately show ?thesis
    by blast
qed

section \<open>A sample bucket\<close>

text \<open>A root, a reply to it that is older, a later reply and one to that, an orphan, and a cycle of two.\<close>

definition sample_comment :: "string \<Rightarrow> int \<Rightarrow> string option \<Rightarrow> comment_message" where
  "sample_comment h t p = \<lparr>cm_messageHash = h, cm_sender = ''0x1'', cm_senderLower = ''0x1'', cm_postIdHash = ''0x2'',
     cm_timestamp = t, cm_content = [], cm_parentMessageHash = p, cm_pending = False\<rparr>"

definition sample_bucket :: "comment_message list" where
  "sample_bucket = [sample_comment ''0xC'' 9 (Some ''0xa''), sample_comment ''0xa'' 5 None, sample_comment ''0xb'' 3 (Some ''0xA''),
     sample_comment ''0xd'' 7 (Some ''0xc''), sample_comment ''0xe'' 1 (Some ''0x0''),
     sample_comment ''0xf'' 1 (Some ''0xf0''), sample_comment ''0xf0'' 1 (Some ''0xf'')]"

lemma sample_survivors: "map fst (survivorsOf sample_bucket) = [''0xc'', ''0xa'', ''0xb'', ''0xd'']"
  by code_simp


lemma sample_tree:
  "map_option (\<lambda>(roots, nodes). (roots, map (\<lambda>(k, n). (k, nd_children n, nd_depth n, nd_displayDepth n)) nodes))
     (buildThread (\<lambda>_ _. 0) sample_bucket)
   = Some ([''0xa''], [(''0xc'', [''0xd''], 1, 1), (''0xa'', [''0xb'', ''0xc''], 0, 0), (''0xb'', [], 1, 1), (''0xd'', [], 2, 2)])"
  by code_simp

theorem thread_layout_witness:
  "\<exists>roots nodes n child. buildThread (\<lambda>_ _. 0) sample_bucket = Some (roots, nodes)
     \<and> map_get nodes ''0xc'' = Some n \<and> map_get nodes ''0xd'' = Some child
     \<and> nd_depth child = nd_depth n + 1 \<and> nd_displayDepth n = 1"
proof -
  obtain roots nodes where run: "buildThread (\<lambda>_ _. 0) sample_bucket = Some (roots, nodes)"
      and shape: "map (\<lambda>(k, n). (k, nd_children n, nd_depth n, nd_displayDepth n)) nodes
        = [(''0xc'', [''0xd''], 1, 1), (''0xa'', [''0xb'', ''0xc''], 0, 0), (''0xb'', [], 1, 1), (''0xd'', [], 2, 2)]"
    using sample_tree by (auto split: option.split_asm)
  then obtain n child where get: "map_get nodes ''0xc'' = Some n" "map_get nodes ''0xd'' = Some child"
      and n: "nd_children n = [''0xd'']" "nd_depth n = 1"
    by auto
  have "consistent (\<lambda>(_ :: string) (_ :: string). 0)"
    by (simp add: consistent_def)
  from thread_layout [OF this run get] n run get show ?thesis
    by (intro exI conjI) (assumption | simp)+
qed

end
