(* ===== verification/Comments.thy ===== *)
theory Comments
  imports Thread ContentCodecs Message Json TextMatch
begin

text \<open>
  The comment widget's data path (packages/bam-comments/src): the contents codec (codec.ts), the
  hash that names a post (post-id.ts), and the rows it pulls from the Poster and the Reader
  (poster-reader.ts), decoded and merged for one post. The HTTP exchange (fetch, by URL),
  keccak and the case table of String.prototype.toLowerCase on Unicode text are arguments; a
  query string is written without percent-encoding, which hex tags do not need.
\<close>

section \<open>Contents\<close>

datatype comment_envelope =
    Comment string int js_text
  | CommentReply string int string js_text

definition KIND_COMMENT :: byte where "KIND_COMMENT = 0"

fun ce_postIdHash :: "comment_envelope \<Rightarrow> string" where
  "ce_postIdHash (Comment p _ _) = p" | "ce_postIdHash (CommentReply p _ _ _) = p"

fun ce_timestamp :: "comment_envelope \<Rightarrow> int" where
  "ce_timestamp (Comment _ t _) = t" | "ce_timestamp (CommentReply _ t _ _) = t"

fun ce_content :: "comment_envelope \<Rightarrow> js_text" where
  "ce_content (Comment _ _ c) = c" | "ce_content (CommentReply _ _ _ c) = c"

definition encodeCommentContents :: "comment_envelope \<Rightarrow> codec_error + bytes" where
  "encodeCommentContents msg =
     (let t = ce_timestamp msg in
      if t < 0 \<or> t > 0xffffffffffff then Inl (TimestampRange t)
      else ebind (hashOf (ce_postIdHash msg)) (\<lambda>postIdHash.
        let contentBytes = textEncode (ce_content msg) in
        if length contentBytes > 0xffffffff then Inl TextTooLong
        else case msg of
          Comment _ _ _ \<Rightarrow>
            (let b0 = zeros (2 + 32 + 8 + 4 + length contentBytes);
                 b1 = uset (uset b0 [ENVELOPE_VERSION] 0) [KIND_COMMENT] 1;
                 b2 = uset b1 postIdHash 2;
                 b3 = writeU64BE b2 34 t;
                 b4 = writeU32BE b3 42 (length contentBytes)
             in Inr (uset b4 contentBytes 46))
        | CommentReply _ _ parentMessageHash _ \<Rightarrow>
            ebind (hashOf parentMessageHash) (\<lambda>parent.
              let b0 = zeros (2 + 32 + 8 + 32 + 4 + length contentBytes);
                  b1 = uset (uset b0 [ENVELOPE_VERSION] 0) [KIND_REPLY] 1;
                  b2 = uset b1 postIdHash 2;
                  b3 = writeU64BE b2 34 t;
                  b4 = uset b3 parent 42;
                  b5 = writeU32BE b4 74 (length contentBytes)
              in Inr (uset b5 contentBytes 78))))"

definition decodeCommentContents :: "bytes \<Rightarrow> codec_error + comment_envelope" where
  "decodeCommentContents body =
     (if length body < 2 then Inl PayloadTooShort
      else let version = body ! 0; kind = body ! 1 in
        if version \<noteq> ENVELOPE_VERSION then Inl (UnsupportedVersion (unat version))
        else if kind = KIND_COMMENT then
          (if length body < 46 then Inl PayloadTooShort
           else let postIdHash = bytesToHex (slice body 2 34);
                    timestamp = int (Number_of_bigint (nat (readU64BE body 34)));
                    contentLen = readU32BE body 42
                in if 46 + contentLen > length body then Inl RunsPastBuffer
                   else ebind (textOf (slice body 46 (46 + contentLen))) (\<lambda>content.
                     Inr (Comment postIdHash timestamp content)))
        else if kind = KIND_REPLY then
          (if length body < 78 then Inl PayloadTooShort
           else let postIdHash = bytesToHex (slice body 2 34);
                    timestamp = int (Number_of_bigint (nat (readU64BE body 34)));
                    parentMessageHash = bytesToHex (slice body 42 74);
                    contentLen = readU32BE body 74
                in if 78 + contentLen > length body then Inl RunsPastBuffer
                   else ebind (textOf (slice body 78 (78 + contentLen))) (\<lambda>content.
                     Inr (CommentReply postIdHash timestamp parentMessageHash content)))
        else Inl (UnknownKind (unat kind)))"

section \<open>Posts\<close>

datatype post_id_error = SiteIdRequired | SiteIdEmpty | PostIdEmpty | TagHex hex_error | TagLength | SiteTooLong | PostTooLong

text \<open>String.prototype.trim on code points.\<close>

definition js_space :: "nat \<Rightarrow> bool" where
  "js_space c \<longleftrightarrow> c \<in> {9, 10, 11, 12, 13, 32, 0xA0, 0x1680, 0x2028, 0x2029, 0x202F, 0x205F, 0x3000, 0xFEFF}
     \<or> 0x2000 \<le> c \<and> c \<le> 0x200A"

definition js_trim :: "js_text \<Rightarrow> js_text" where
  "js_trim s = rev (dropWhile js_space (rev (dropWhile js_space s)))"

definition resolveSiteId :: "(js_text \<Rightarrow> js_text) \<Rightarrow> js_text option \<Rightarrow> js_text \<Rightarrow> post_id_error + js_text" where
  "resolveSiteId lower override hostname =
     (let raw = lower (js_trim (case override of Some s \<Rightarrow> s | None \<Rightarrow> hostname)) in
      if raw = [] then Inl SiteIdRequired else Inr raw)"

definition uint16BE :: "nat \<Rightarrow> bytes" where
  "uint16BE n = [of_nat (n div 256), of_nat n]"

definition postIdPreimage :: "(js_text \<Rightarrow> js_text) \<Rightarrow> string \<Rightarrow> js_text \<Rightarrow> js_text \<Rightarrow> post_id_error + bytes" where
  "postIdPreimage lower contentTag siteId postId =
     (if siteId = [] then Inl SiteIdEmpty
      else if postId = [] then Inl PostIdEmpty
      else case hexToBytes contentTag of
        Inl e \<Rightarrow> Inl (TagHex e)
      | Inr tagBytes \<Rightarrow>
          if length tagBytes \<noteq> 32 then Inl TagLength
          else let siteBytes = textEncode (lower siteId); postBytes = textEncode postId in
            if length siteBytes > 0xffff then Inl SiteTooLong
            else if length postBytes > 0xffff then Inl PostTooLong
            else let buf0 = uset (zeros (32 + 2 + length siteBytes + 2 + length postBytes)) tagBytes 0;
                     buf1 = uset (uset buf0 (uint16BE (length siteBytes)) 32) siteBytes 34;
                     off = 34 + length siteBytes
                 in Inr (uset (uset buf1 (uint16BE (length postBytes)) off) postBytes (off + 2)))"

definition derivePostIdHash ::
  "(bytes \<Rightarrow> bytes) \<Rightarrow> (js_text \<Rightarrow> js_text) \<Rightarrow> string \<Rightarrow> js_text \<Rightarrow> js_text \<Rightarrow> post_id_error + string" where
  "derivePostIdHash keccak lower contentTag siteId postId =
     ebind (postIdPreimage lower contentTag siteId postId) (\<lambda>buf. Inr (bytesToHex (keccak buf)))"

section \<open>Rows from the Poster and the Reader\<close>

text \<open>An answer: the status and the parsed body, or the parser's error.\<close>

datatype http_answer = NetworkFailure string | HttpAnswer nat "string + json"

datatype upstream_error = UpHttp nat | UpNetwork string | UpShape string | NullAccess | HashThrew message_error

definition http_ok :: "nat \<Rightarrow> bool" where
  "http_ok status \<longleftrightarrow> 200 \<le> status \<and> status < 300"

definition jsonGet :: "(string \<Rightarrow> http_answer) \<Rightarrow> string \<Rightarrow> upstream_error + json" where
  "jsonGet fetch url =
     (case fetch url of
        NetworkFailure m \<Rightarrow> Inl (UpNetwork m)
      | HttpAnswer status body \<Rightarrow>
          if \<not> http_ok status then Inl (UpHttp status)
          else (case body of Inl m \<Rightarrow> Inl (UpShape m) | Inr j \<Rightarrow> Inr j))"

text \<open>A property of a value that may be null.\<close>

definition member :: "string \<Rightarrow> json \<Rightarrow> upstream_error + json option" where
  "member k j = (if j = JNull then Inl NullAccess else Inr (jget k (Some j)))"

definition nextNonceAt :: "(string \<Rightarrow> http_answer) \<Rightarrow> string \<Rightarrow> string \<Rightarrow> upstream_error + int" where
  "nextNonceAt fetch posterUrl sender =
     ebind (jsonGet fetch (posterUrl @ ''/nonce/'' @ toLowerCase sender)) (\<lambda>data.
     ebind (member ''nextNonce'' data) (\<lambda>v.
       case v of
         Some (JStr s) \<Rightarrow>
           if s = [] \<or> \<not> list_all ascii_digit s then Inl (UpShape s)
           else let n = BigInt10 s in if n > 0xffffffffffffffff then Inl (UpShape s) else Inr n
       | _ \<Rightarrow> Inl (UpShape [])))"

text \<open>The envelope posted to the Poster, and what the answer to it means.\<close>

record submit_args =
  sa_contentTag :: string
  sa_sender :: string
  sa_nonce :: int
  sa_contents :: bytes
  sa_signature :: string

definition encodeEnvelope :: "submit_args \<Rightarrow> json" where
  "encodeEnvelope args =
     JObj [(''contentTag'', JStr (sa_contentTag args)),
           (''message'', JObj [(''sender'', JStr (sa_sender args)), (''nonce'', JStr (js_String (JNum (sa_nonce args)))),
             (''contents'', JStr (bytesToHex (sa_contents args))), (''signature'', JStr (sa_signature args))])]"

datatype widget_result = WidgetOk string | WidgetFailed nat "json option"

definition submitMessage :: "(bytes \<Rightarrow> bytes) \<Rightarrow> (json \<Rightarrow> http_answer) \<Rightarrow> submit_args \<Rightarrow> upstream_error + widget_result" where
  "submitMessage keccak post args =
     (case post (encodeEnvelope args) of
        NetworkFailure m \<Rightarrow> Inl (UpNetwork m)
      | HttpAnswer status parsed \<Rightarrow>
          (let body = (case parsed of Inl _ \<Rightarrow> JNull | Inr j \<Rightarrow> j) in
           if \<not> http_ok status
           then Inr (WidgetFailed status (or_else (jget ''reason'' (Some body))
                  (or_else (jget ''error'' (Some body)) (Some (JStr (''http_'' @ toString10 status))))))
           else (case computeMessageHash keccak (sa_sender args) (sa_contentTag args) (sa_nonce args) (sa_contents args) of
                   Inl e \<Rightarrow> Inl (HashThrew e)
                 | Inr messageHash \<Rightarrow> Inr (WidgetOk messageHash))))"

text \<open>BigInt of a JSON value (None when it throws): trimmed text with a sign or a radix prefix.\<close>

definition ascii_trim :: "string \<Rightarrow> string" where
  "ascii_trim s = rev (dropWhile is_blank (rev (dropWhile is_blank s)))"

definition radix_value :: "nat \<Rightarrow> string \<Rightarrow> int option" where
  "radix_value r s =
     (if s = [] \<or> \<not> list_all (\<lambda>c. is_hex_char c \<and> hex_val c < r) s then None
      else Some (foldl (\<lambda>n c. n * int r + int (hex_val c)) 0 s))"

definition StringToBigInt :: "string \<Rightarrow> int option" where
  "StringToBigInt text =
     (let s = ascii_trim text in
      if s = [] then Some 0
      else if take 2 s \<in> {''0x'', ''0X''} then radix_value 16 (drop 2 s)
      else if take 2 s \<in> {''0o'', ''0O''} then radix_value 8 (drop 2 s)
      else if take 2 s \<in> {''0b'', ''0B''} then radix_value 2 (drop 2 s)
      else if take 1 s = ''-'' then map_option uminus (radix_value 10 (drop 1 s))
      else radix_value 10 (if take 1 s = ''+'' then drop 1 s else s))"

fun js_BigInt :: "json option \<Rightarrow> int option" where
  "js_BigInt (Some (JNum n)) = Some n"
| "js_BigInt (Some (JStr s)) = StringToBigInt s"
| "js_BigInt (Some (JBool b)) = Some (if b then 1 else 0)"
| "js_BigInt (Some (JArr xs)) = StringToBigInt (js_String (JArr xs))"
| "js_BigInt _ = None"

fun parent_of :: "comment_envelope \<Rightarrow> string option" where
  "parent_of (Comment _ _ _) = None" | "parent_of (CommentReply _ _ p _) = Some p"

definition decodedRow :: "(bytes \<Rightarrow> bytes) \<Rightarrow> json \<Rightarrow> string \<Rightarrow> bool \<Rightarrow> comment_message option" where
  "decodedRow keccak row contentTag pending =
     (case jget ''contents'' (Some row) of
        Some (JStr hex) \<Rightarrow>
          (case hexToBytes hex of
             Inl _ \<Rightarrow> None
           | Inr contents \<Rightarrow>
               (case decodeCommentContents contents of
                  Inl _ \<Rightarrow> None
                | Inr env \<Rightarrow>
                    (case jget ''sender'' (Some row) of
                       Some (JStr sender) \<Rightarrow>
                         (case js_BigInt (jget ''nonce'' (Some row)) of
                            None \<Rightarrow> None
                          | Some nonce \<Rightarrow>
                              (case computeMessageHash keccak sender contentTag nonce contents of
                                 Inl _ \<Rightarrow> None
                               | Inr messageHash \<Rightarrow>
                                   Some \<lparr>cm_messageHash = messageHash, cm_sender = sender, cm_senderLower = toLowerCase sender,
                                     cm_postIdHash = ce_postIdHash env, cm_timestamp = ce_timestamp env,
                                     cm_content = ce_content env, cm_parentMessageHash = parent_of env, cm_pending = pending\<rparr>))
                     | _ \<Rightarrow> None)))
      | _ \<Rightarrow> None)"

definition decodeRow ::
  "(bytes \<Rightarrow> bytes) \<Rightarrow> string \<Rightarrow> bool \<Rightarrow> json \<Rightarrow> upstream_error + comment_message option" where
  "decodeRow keccak contentTag pending row =
     (if pending then Inr (decodedRow keccak row contentTag pending)
      else ebind (member ''batchRef'' row) (\<lambda>batchRef.
        Inr (if batchRef = Some JNull then None else decodedRow keccak row contentTag pending)))"

record widget_urls =
  wu_poster :: string
  wu_reader :: string

definition listUrl :: "widget_urls \<Rightarrow> string \<Rightarrow> string option \<Rightarrow> nat option \<Rightarrow> string" where
  "listUrl urls contentTag status limit =
     (if status = Some ''pending'' then wu_poster urls @ ''/pending'' else wu_reader urls @ ''/messages'')
      @ ''?contentTag='' @ contentTag
      @ (case status of None \<Rightarrow> [] | Some s \<Rightarrow> ''&status='' @ s)
      @ (case limit of None \<Rightarrow> [] | Some n \<Rightarrow> ''&limit='' @ toString10 n)"

definition widget_listMessages ::
  "(bytes \<Rightarrow> bytes) \<Rightarrow> widget_urls \<Rightarrow> (string \<Rightarrow> http_answer) \<Rightarrow> string \<Rightarrow> string option \<Rightarrow> nat option
     \<Rightarrow> upstream_error + comment_message list" where
  "widget_listMessages keccak urls fetch contentTag status limit =
     (let isPending = (status = Some ''pending'') in
      ebind (jsonGet fetch (listUrl urls contentTag status limit)) (\<lambda>data.
      ebind (member (if isPending then ''pending'' else ''messages'') data) (\<lambda>rows.
        case rows of
          Some (JArr rs) \<Rightarrow>
            ebind (mapE (decodeRow keccak contentTag isPending) rs) (\<lambda>ms. Inr (map the (filter (\<lambda>m. m \<noteq> None) ms)))
        | _ \<Rightarrow> Inl (UpShape ''list response missing rows[]''))))"

definition mergeRows :: "comment_map \<Rightarrow> comment_message list \<Rightarrow> comment_map" where
  "mergeRows seen ms = foldl (\<lambda>mp m. map_set mp (keyOf m) m) seen ms"

definition listForPost ::
  "(bytes \<Rightarrow> bytes) \<Rightarrow> widget_urls \<Rightarrow> (string \<Rightarrow> http_answer) \<Rightarrow> string \<Rightarrow> string \<Rightarrow> nat option
     \<Rightarrow> upstream_error + comment_message list" where
  "listForPost keccak urls fetch contentTag postIdHash limit =
     (let pending = (case widget_listMessages keccak urls fetch contentTag (Some ''pending'') limit of Inl _ \<Rightarrow> [] | Inr ms \<Rightarrow> ms) in
      ebind (widget_listMessages keccak urls fetch contentTag (Some ''confirmed'') limit) (\<lambda>confirmed.
        let seen = mergeRows (mergeRows [] pending) confirmed
        in Inr (filter (\<lambda>m. toLowerCase (cm_postIdHash m) = toLowerCase postIdHash) (map snd seen))))"

section \<open>The codec's layout\<close>

text \<open>Version, kind and post hash, then the timestamp, as both kinds write them.\<close>

lemma comment_head:
  assumes "uint64 t" "length p = 32" "42 \<le> n"
  shows "writeU64BE (uset (uset (uset (zeros n) [a] 0) [b] 1) p 2) 34 t = ([a, b] @ p @ be 8 (nat t)) @ zeros (n - 42)"
proof -
  have "uset (uset (uset (zeros n) [a] 0) [b] 1) p 2 = ([a, b] @ p) @ zeros (n - 34)"
    using assms envelope_fill [of n a b] uset_fill [of "[a, b]" 2 "n - 2" p] by simp
  then show ?thesis
    using assms writeU64BE_fill [of t "[a, b] @ p" 34 "n - 34"] by simp
qed

fun comment_tail :: "comment_envelope \<Rightarrow> bytes \<Rightarrow> bool" where
  "comment_tail (Comment _ _ _) q = (q = [])"
| "comment_tail (CommentReply _ _ h _) q = (hexToBytes h = Inr q \<and> length q = 32)"

definition comment_kind :: "comment_envelope \<Rightarrow> byte" where
  "comment_kind msg = (case msg of Comment _ _ _ \<Rightarrow> KIND_COMMENT | CommentReply _ _ _ _ \<Rightarrow> KIND_REPLY)"

lemma encode_comment:
  assumes "encodeCommentContents msg = Inr bs"
  obtains p q where "0 \<le> ce_timestamp msg" "ce_timestamp msg \<le> 0xffffffffffff" "length (textEncode (ce_content msg)) \<le> 0xffffffff"
    "hexToBytes (ce_postIdHash msg) = Inr p" "length p = 32" "comment_tail msg q"
    "bs = [ENVELOPE_VERSION, comment_kind msg] @ p @ be 8 (nat (ce_timestamp msg)) @ q
       @ be 4 (length (textEncode (ce_content msg))) @ textEncode (ce_content msg)"
proof -
  let ?c = "textEncode (ce_content msg)" and ?t = "ce_timestamp msg"
  have r: "0 \<le> ?t" "?t \<le> 0xffffffffffff" "length ?c \<le> 0xffffffff"
    using assms by (auto simp: encodeCommentContents_def Let_def split: if_split_asm)
  then have u: "uint64 ?t"
    by (simp add: uint64_def uint64_max_def)
  obtain p where p: "hexToBytes (ce_postIdHash msg) = Inr p" "length p = 32"
    using assms by (auto simp: encodeCommentContents_def Let_def hashOf_Inr split: if_split_asm)
  have hash: "hashOf (ce_postIdHash msg) = Inr p"
    using p by (simp add: hashOf_Inr)
  show thesis
  proof (cases msg)
    case (Comment h t c)
    have "bs = ([ENVELOPE_VERSION, KIND_COMMENT] @ p @ be 8 (nat ?t)) @ be 4 (length ?c) @ ?c"
      using assms r hash comment_head [OF u p(2), of "46 + length ?c" ENVELOPE_VERSION KIND_COMMENT] p(2)
        framed_text [of "[ENVELOPE_VERSION, KIND_COMMENT] @ p @ be 8 (nat ?t)" 42 ?c 0]
      by (simp add: Comment encodeCommentContents_def Let_def)
    with r p show thesis
      by (intro that [of p "[]"]) (simp_all add: Comment comment_kind_def)
  next
    case (CommentReply h t g c)
    then obtain q where q: "hexToBytes g = Inr q" "length q = 32"
      using assms hash by (auto simp: encodeCommentContents_def Let_def hashOf_Inr split: if_split_asm)
    then have hq: "hashOf g = Inr q"
      by (simp add: hashOf_Inr)
    have par: "uset (([ENVELOPE_VERSION, KIND_REPLY] @ p @ be 8 (nat ?t)) @ zeros (36 + length ?c)) q 42
        = ([ENVELOPE_VERSION, KIND_REPLY] @ p @ be 8 (nat ?t) @ q) @ zeros (4 + length ?c)"
      using p(2) q(2) uset_fill [of "[ENVELOPE_VERSION, KIND_REPLY] @ p @ be 8 (nat ?t)" 42 "36 + length ?c" q] by simp
    have "bs = ([ENVELOPE_VERSION, KIND_REPLY] @ p @ be 8 (nat ?t) @ q) @ be 4 (length ?c) @ ?c"
      using assms r hash hq comment_head [OF u p(2), of "78 + length ?c" ENVELOPE_VERSION KIND_REPLY] p(2) q(2) par
        framed_text [of "[ENVELOPE_VERSION, KIND_REPLY] @ p @ be 8 (nat ?t) @ q" 74 ?c 0]
      by (simp add: CommentReply encodeCommentContents_def Let_def)
    with r p q show thesis
      by (intro that [of p q]) (simp_all add: CommentReply comment_kind_def)
  qed
qed

fun canonical_comment :: "comment_envelope \<Rightarrow> comment_envelope" where
  "canonical_comment (Comment p t c) = Comment (canonical_hash p) t c"
| "canonical_comment (CommentReply p t h c) = CommentReply (canonical_hash p) t (canonical_hash h) c"

lemma read_stamp_at:
  assumes "length xs = off" "0 \<le> t" "t < 256 ^ 8"
  shows "readU64BE (xs @ be 8 (nat t) @ rest) off = t"
proof -
  have "slice (xs @ be 8 (nat t) @ rest) off (off + 8) = be 8 (nat t)"
    using assms(1) by (simp add: slice_def)
  then show ?thesis
    using assms by (subst readU64BE_eq) (simp_all add: nat_less_iff)
qed

lemma decode_encoded_comment:
  assumes "encodeCommentContents msg = Inr bs" "plain_text (ce_content msg)"
  shows "decodeCommentContents (bs @ trailing) = Inr (canonical_comment msg)"
proof -
  obtain p q where e: "0 \<le> ce_timestamp msg" "ce_timestamp msg \<le> 0xffffffffffff" "length (textEncode (ce_content msg)) \<le> 0xffffffff"
    "hexToBytes (ce_postIdHash msg) = Inr p" "length p = 32" "comment_tail msg q"
    "bs = [ENVELOPE_VERSION, comment_kind msg] @ p @ be 8 (nat (ce_timestamp msg)) @ q
       @ be 4 (length (textEncode (ce_content msg))) @ textEncode (ce_content msg)"
    using encode_comment [OF assms(1)] by blast
  let ?c = "textEncode (ce_content msg)" and ?t = "ce_timestamp msg" and ?b = "bs @ trailing"
  let ?h = "[ENVELOPE_VERSION, comment_kind msg] @ p"
  let ?k = "42 + length q"
  have "?b = ?h @ be 8 (nat ?t) @ q @ be 4 (length ?c) @ ?c @ trailing"
    by (simp add: e(7))
  moreover have "length ?h = 34" "?t < 256 ^ 8"
    using e by simp_all
  ultimately have time: "readU64BE ?b 34 = ?t"
    using read_stamp_at [of ?h 34 ?t "q @ be 4 (length ?c) @ ?c @ trailing"] e(1) by simp
  have "?b = (?h @ be 8 (nat ?t) @ q) @ be 4 (length ?c) @ ?c @ trailing"
    by (simp add: e(7))
  then have len: "readU32BE ?b ?k = length ?c"
    using read_len [of "?h @ be 8 (nat ?t) @ q" ?k "length ?c" "?c @ trailing"] e(3,5) by simp
  have "slice (xs @ ?c @ ys) (length xs) (length xs + length ?c) = ?c" for xs ys
    by (simp add: slice_def)
  from this [of "?h @ be 8 (nat ?t) @ q @ be 4 (length ?c)" trailing]
  have content: "slice ?b (?k + 4) (?k + 4 + length ?c) = ?c"
    using e(5) by (simp add: e(7) ac_simps)
  have parts: "slice ?b 2 34 = p" "slice ?b 42 ?k = q"
    "length ?b = ?k + 4 + length ?c + length trailing" "?b ! 0 = ENVELOPE_VERSION" "?b ! 1 = comment_kind msg"
    using e(5) by (simp_all add: e(7) slice_def numeral_2_eq_2 [symmetric])
  note base = time len content parts textOf_Encode [OF assms(2)] timestamp_exact [OF e(1,2)] canonical_hash_eq [OF e(4)]
  show ?thesis
  proof (cases msg)
    case (Comment h t c)
    then have "q = []" using e(6) by simp
    then show ?thesis
      using base Comment by (simp add: decodeCommentContents_def Let_def comment_kind_def)
  next
    case (CommentReply h t g c)
    then have q: "hexToBytes g = Inr q" "length q = 32" using e(6) by simp_all
    have "KIND_REPLY \<noteq> KIND_COMMENT"
      by (simp add: KIND_REPLY_def KIND_COMMENT_def)
    then show ?thesis
      using base CommentReply q canonical_hash_eq [OF q(1)] by (simp add: decodeCommentContents_def Let_def comment_kind_def)
  qed
qed


text \<open>
  The hash input that names a post is unambiguous: two of them are equal only for the same tag bytes, the same site up to case and the same post, texts being compared as the UTF-8 encoder sees them; so buckets of different posts collide only if keccak does.
\<close>

theorem post_id_unambiguous:
  assumes "postIdPreimage lower tag site post = Inr buf" "postIdPreimage lower tag' site' post' = Inr buf"
  shows "hexToBytes tag = hexToBytes tag' \<and> textEncode (lower site) = textEncode (lower site') \<and> textEncode post = textEncode post'"
proof -
  have spec: "\<exists>tb. hexToBytes t = Inr tb \<and> length tb = 32 \<and> length (textEncode (lower s)) \<le> 0xffff \<and> length (textEncode q) \<le> 0xffff
      \<and> buf = tb @ uint16BE (length (textEncode (lower s))) @ textEncode (lower s) @ uint16BE (length (textEncode q)) @ textEncode q"
    if pre: "postIdPreimage lower t s q = Inr buf" for t s q
  proof -
    obtain tb where tb: "hexToBytes t = Inr tb" "length tb = 32"
      using pre by (auto simp: postIdPreimage_def Let_def split: if_split_asm sum.split_asm)
    let ?s = "textEncode (lower s)" and ?q = "textEncode q"
    have two: "length (uint16BE n) = 2" for n
      by (simp add: uint16BE_def)
    have "uset (zeros (32 + 2 + length ?s + 2 + length ?q)) tb 0 = tb @ zeros (4 + length ?s + length ?q)"
      using tb(2) by (simp add: uset_fill_0 add.assoc)
    moreover have "uset (tb @ zeros (4 + length ?s + length ?q)) (uint16BE (length ?s)) 32
        = (tb @ uint16BE (length ?s)) @ zeros (2 + length ?s + length ?q)"
      using tb(2) two by (simp add: uset_fill)
    moreover have "uset ((tb @ uint16BE (length ?s)) @ zeros (2 + length ?s + length ?q)) ?s 34
        = (tb @ uint16BE (length ?s) @ ?s) @ zeros (2 + length ?q)"
      using tb(2) two uset_fill [of "tb @ uint16BE (length ?s)" 34 "2 + length ?s + length ?q" ?s] by simp
    moreover have "uset ((tb @ uint16BE (length ?s) @ ?s) @ zeros (2 + length ?q)) (uint16BE (length ?q)) (34 + length ?s)
        = (tb @ uint16BE (length ?s) @ ?s @ uint16BE (length ?q)) @ zeros (length ?q)"
      using tb(2) two uset_fill [of "tb @ uint16BE (length ?s) @ ?s" "34 + length ?s" "2 + length ?q" "uint16BE (length ?q)"] by simp
    moreover have "uset ((tb @ uint16BE (length ?s) @ ?s @ uint16BE (length ?q)) @ zeros (length ?q)) ?q (34 + length ?s + 2)
        = tb @ uint16BE (length ?s) @ ?s @ uint16BE (length ?q) @ ?q"
      using tb(2) two uset_fill [of "tb @ uint16BE (length ?s) @ ?s @ uint16BE (length ?q)" "34 + length ?s + 2" "length ?q" ?q] by simp
    ultimately show ?thesis
      using pre tb by (auto simp: postIdPreimage_def Let_def split: if_split_asm)
  qed
  have inj: "m = n" if eq: "uint16BE m = uint16BE n" and "m \<le> 0xffff" "n \<le> 0xffff" for m n
  proof -
    have "unat (of_nat k :: byte) = k mod 256" for k
      by (simp add: unat_of_nat)
    moreover have "(of_nat m :: byte) = of_nat n" "(of_nat (m div 256) :: byte) = of_nat (n div 256)"
      using eq by (simp_all add: uint16BE_def)
    ultimately have "m mod 256 = n mod 256" "m div 256 mod 256 = n div 256 mod 256"
      by metis+
    moreover have "m div 256 < 256" "n div 256 < 256"
      using that(2,3) by (simp_all add: div_less_iff_less_mult)
    ultimately show "m = n"
      by (metis div_mult_mod_eq mod_less)
  qed
  obtain tb where a: "hexToBytes tag = Inr tb" "length tb = 32" "length (textEncode (lower site)) \<le> 0xffff"
      "buf = tb @ uint16BE (length (textEncode (lower site))) @ textEncode (lower site) @ uint16BE (length (textEncode post)) @ textEncode post"
    using spec [OF assms(1)] by blast
  obtain tb' where b: "hexToBytes tag' = Inr tb'" "length tb' = 32" "length (textEncode (lower site')) \<le> 0xffff"
      "buf = tb' @ uint16BE (length (textEncode (lower site'))) @ textEncode (lower site') @ uint16BE (length (textEncode post')) @ textEncode post'"
    using spec [OF assms(2)] by blast
  have two: "length (uint16BE n) = 2" for n
    by (simp add: uint16BE_def)
  have t: "tb = tb'" and r: "uint16BE (length (textEncode (lower site))) @ textEncode (lower site) @ uint16BE (length (textEncode post)) @ textEncode post
      = uint16BE (length (textEncode (lower site'))) @ textEncode (lower site') @ uint16BE (length (textEncode post')) @ textEncode post'"
    using a(2,4) b(2,4) by (metis append_eq_lengths)+
  then have s: "uint16BE (length (textEncode (lower site))) = uint16BE (length (textEncode (lower site')))"
    and r2: "textEncode (lower site) @ uint16BE (length (textEncode post)) @ textEncode post
      = textEncode (lower site') @ uint16BE (length (textEncode post')) @ textEncode post'"
    using two append_eq_lengths [OF r] by simp_all
  from inj [OF s a(3) b(3)] have l: "length (textEncode (lower site)) = length (textEncode (lower site'))" .
  with append_eq_lengths [OF r2] have "textEncode (lower site) = textEncode (lower site')"
    and r3: "uint16BE (length (textEncode post)) @ textEncode post = uint16BE (length (textEncode post')) @ textEncode post'"
    by simp_all
  moreover have "textEncode post = textEncode post'"
    using append_eq_lengths [OF r3] two by simp
  ultimately show ?thesis
    using a(1) b(1) t by simp
qed

section \<open>The rows of a post\<close>

lemma mergeRows_get:
  "map_get (mergeRows seen ms) k = (case find (\<lambda>m. keyOf m = k) (rev ms) of Some m \<Rightarrow> Some m | None \<Rightarrow> map_get seen k)"
  using get_foldl_set [of "\<lambda>_. True" keyOf "\<lambda>m. m" seen ms k] by (simp add: mergeRows_def)

lemma mergeRows_distinct: "distinct (map fst seen) \<Longrightarrow> distinct (map fst (mergeRows seen ms))"
  using distinct_foldl_set [of seen "\<lambda>_. True" keyOf "\<lambda>m. m" ms] by (simp add: mergeRows_def)

lemma mergeRows_keyed: "\<forall>(k, m) \<in> set seen. keyOf m = k \<Longrightarrow> \<forall>(k, m) \<in> set (mergeRows seen ms). keyOf m = k"
  unfolding mergeRows_def
proof (induction ms arbitrary: seen)
  case (Cons m ms)
  have "\<forall>(k, x) \<in> set (map_set seen (keyOf m) m). keyOf x = k"
    using Cons.prems set_map_set [of seen "keyOf m" m] by fast
  from Cons.IH [OF this] show ?case by simp
qed simp

text \<open>A displayed row comes from contents that hash to its key.\<close>

definition authentic_row :: "(bytes \<Rightarrow> bytes) \<Rightarrow> string \<Rightarrow> comment_message \<Rightarrow> bool" where
  "authentic_row keccak contentTag m \<longleftrightarrow> (\<exists>nonce contents env.
     computeMessageHash keccak (cm_sender m) contentTag nonce contents = Inr (cm_messageHash m)
     \<and> decodeCommentContents contents = Inr env \<and> ce_postIdHash env = cm_postIdHash m
     \<and> ce_timestamp env = cm_timestamp m \<and> ce_content env = cm_content m \<and> parent_of env = cm_parentMessageHash m)"

lemma decodedRow_authentic:
  assumes "decodedRow keccak row contentTag pending = Some m"
  shows "authentic_row keccak contentTag m \<and> cm_pending m = pending"
proof -
  obtain hex where "jget ''contents'' (Some row) = Some (JStr hex)"
    using assms by (auto simp: decodedRow_def split: option.split_asm json.split_asm)
  moreover obtain contents where "hexToBytes hex = Inr contents"
    using assms calculation by (auto simp: decodedRow_def split: sum.split_asm)
  moreover obtain env where "decodeCommentContents contents = Inr env"
    using assms calculation by (auto simp: decodedRow_def split: sum.split_asm)
  moreover obtain sender where "jget ''sender'' (Some row) = Some (JStr sender)"
    using assms calculation by (auto simp: decodedRow_def split: option.split_asm json.split_asm)
  moreover obtain nonce where "js_BigInt (jget ''nonce'' (Some row)) = Some nonce"
    using assms calculation by (auto simp: decodedRow_def split: option.split_asm)
  moreover obtain h where "computeMessageHash keccak sender contentTag nonce contents = Inr h"
    using assms calculation by (auto simp: decodedRow_def split: sum.split_asm)
  ultimately show ?thesis
    using assms unfolding decodedRow_def authentic_row_def
    by (auto intro!: exI [of _ nonce] exI [of _ contents] exI [of _ env])
qed

lemma widget_listMessages_authentic:
  assumes "widget_listMessages keccak urls fetch contentTag status limit = Inr ms" "m \<in> set ms"
  shows "authentic_row keccak contentTag m \<and> cm_pending m = (status = Some ''pending'')"
proof -
  let ?p = "status = Some ''pending''"
  obtain rows where "(case rows of
        Some (JArr rs) \<Rightarrow> ebind (mapE (decodeRow keccak contentTag ?p) rs) (\<lambda>ms. Inr (map the (filter (\<lambda>m. m \<noteq> None) ms)))
      | _ \<Rightarrow> Inl (UpShape ''list response missing rows[]'')) = Inr ms"
    using assms(1) unfolding widget_listMessages_def Let_def ebind_Inr_iff by blast
  then obtain rs os where "mapE (decodeRow keccak contentTag ?p) rs = Inr os"
      and ms: "ms = map the (filter (\<lambda>m. m \<noteq> None) os)"
    by (cases rows; cases "the rows") auto
  then have all: "list_all2 (\<lambda>r o'. decodeRow keccak contentTag ?p r = Inr o') rs os"
    by (simp add: mapE_Inr_iff)
  have "Some m \<in> set os"
    using assms(2) ms by auto
  then obtain i where i: "i < length os" "os ! i = Some m"
    unfolding in_set_conv_nth by blast
  have "decodeRow keccak contentTag ?p (rs ! i) = Inr (Some m)"
    using list_all2_nthD2 [OF all i(1)] i(2) by simp
  then have "decodedRow keccak (rs ! i) contentTag ?p = Some m"
    by (auto simp: decodeRow_def split: if_split_asm)
  then show ?thesis
    by (rule decodedRow_authentic)
qed

lemma listForPost_rows:
  assumes "widget_listMessages keccak urls fetch contentTag (Some ''confirmed'') limit = Inr confirmed"
    and "pending = (case widget_listMessages keccak urls fetch contentTag (Some ''pending'') limit of Inl _ \<Rightarrow> [] | Inr ms \<Rightarrow> ms)"
  shows "\<exists>ms. listForPost keccak urls fetch contentTag postIdHash limit = Inr ms \<and> distinct (map keyOf ms)
    \<and> set ms = {m. toLowerCase (cm_postIdHash m) = toLowerCase postIdHash
        \<and> (find (\<lambda>x. keyOf x = keyOf m) (rev confirmed) = Some m
           \<or> keyOf m \<notin> keyOf ` set confirmed \<and> find (\<lambda>x. keyOf x = keyOf m) (rev pending) = Some m)}
    \<and> (\<forall>m \<in> set ms. authentic_row keccak contentTag m)"
proof -
  let ?seen = "mergeRows (mergeRows [] pending) confirmed"
  let ?ms = "filter (\<lambda>m. toLowerCase (cm_postIdHash m) = toLowerCase postIdHash) (map snd ?seen)"
  have d: "distinct (map fst ?seen)"
    by (intro mergeRows_distinct) simp
  have k: "\<forall>(k, m) \<in> set ?seen. keyOf m = k"
    by (intro mergeRows_keyed) simp
  then have keys: "map keyOf (map snd ?seen) = map fst ?seen"
    by auto
  then have "distinct (map keyOf (map snd ?seen))"
    using d by metis
  then have dist: "distinct (map keyOf ?ms)"
    by (rule distinct_map_filter)
  have mem: "m \<in> set (map snd ?seen) \<longleftrightarrow> map_get ?seen (keyOf m) = Some m" for m
    using k by (force simp: map_of_eq_Some_iff [OF d])
  have get: "map_get ?seen (keyOf m) = Some m \<longleftrightarrow> find (\<lambda>x. keyOf x = keyOf m) (rev confirmed) = Some m
           \<or> keyOf m \<notin> keyOf ` set confirmed \<and> find (\<lambda>x. keyOf x = keyOf m) (rev pending) = Some m" for m
  proof (cases "find (\<lambda>x. keyOf x = keyOf m) (rev confirmed)")
    case None
    then have "keyOf m \<notin> keyOf ` set confirmed"
      unfolding find_None_iff by (metis imageE set_rev)
    then show ?thesis by (simp add: mergeRows_get None split: option.split)
  next
    case (Some x)
    then have "keyOf m \<in> keyOf ` set confirmed"
      using find_Some_props [OF Some] by (metis image_eqI set_rev)
    then show ?thesis by (simp add: mergeRows_get Some)
  qed
  have run: "listForPost keccak urls fetch contentTag postIdHash limit = Inr ?ms"
    using assms by (simp add: listForPost_def Let_def)
  have auth: "authentic_row keccak contentTag m" if "m \<in> set ?ms" for m
  proof -
    have "map_get ?seen (keyOf m) = Some m"
      using that mem by simp
    then have "m \<in> set confirmed \<or> m \<in> set pending"
      using get by (auto dest: find_Some_props)
    then show ?thesis
      using assms widget_listMessages_authentic by (fastforce split: sum.split_asm)
  qed
  show ?thesis
    using run dist auth mem get by (intro exI [of _ ?ms]) auto
qed

text \<open>
  The rows shown for a post are exactly the confirmed ones of its bucket, and the pending ones whose hash no confirmed row of any bucket has: one row per message hash, the last of its list; a failing Poster costs only the pending ones, and whatever the servers answer each row's hash is that of the contents it shows under the widget's tag.
\<close>

theorem listForPost_exact:
  assumes "widget_listMessages keccak urls fetch contentTag (Some ''confirmed'') limit = Inr confirmed"
    and "pending = (case widget_listMessages keccak urls fetch contentTag (Some ''pending'') limit of Inl _ \<Rightarrow> [] | Inr ms \<Rightarrow> ms)"
  shows "\<exists>ms. listForPost keccak urls fetch contentTag postIdHash limit = Inr ms \<and> distinct (map keyOf ms)
    \<and> set ms = {m. toLowerCase (cm_postIdHash m) = toLowerCase postIdHash
        \<and> (find (\<lambda>x. keyOf x = keyOf m) (rev confirmed) = Some m
           \<or> keyOf m \<notin> keyOf ` set confirmed \<and> find (\<lambda>x. keyOf x = keyOf m) (rev pending) = Some m)}
    \<and> (\<forall>m \<in> set ms. authentic_row keccak contentTag m)"
  using assms by (rule listForPost_rows)

section \<open>Sample data\<close>

definition sample_contents :: comment_envelope where
  "sample_contents = CommentReply (bytesToHex (zeros 32)) 7 (bytesToHex (zeros 32)) [104, 233]"

lemma sample_contents_encoded: "is_ok (encodeCommentContents sample_contents)"
  by (simp add: sample_contents_def encodeCommentContents_def Let_def hashOf_def textEncode_def utf8_char_def usv_def scalar_def is_ok_def)


text \<open>The layout prevents what plain concatenation would allow.\<close>

theorem post_id_unambiguous_witness:
  "postIdPreimage id (bytesToHex (zeros 32)) [97, 98] [99, 100] \<noteq> postIdPreimage id (bytesToHex (zeros 32)) [97, 98, 99] [100]"
proof
  assume eq: "postIdPreimage id (bytesToHex (zeros 32)) [97, 98] [99, 100] = postIdPreimage id (bytesToHex (zeros 32)) [97, 98, 99] [100]"
  obtain buf where buf: "postIdPreimage id (bytesToHex (zeros 32)) [97, 98] [99, 100] = Inr buf"
    by (simp add: postIdPreimage_def Let_def textEncode_def utf8_char_def usv_def scalar_def)
  from post_id_unambiguous [OF buf buf [unfolded eq]] show False
    by (simp add: textEncode_def utf8_char_def usv_def scalar_def)
qed

definition sample_row :: json where
  "sample_row = JObj [(''sender'', JStr (bytesToHex (zeros 20))), (''nonce'', JStr ''5''), (''batchRef'', JStr ''0x1''),
     (''contents'', JStr (bytesToHex ([1, 0] @ zeros 32 @ zeros 8 @ [0, 0, 0, 1, 104])))]"

definition sample_urls :: widget_urls where
  "sample_urls = \<lparr>wu_poster = ''p'', wu_reader = ''r''\<rparr>"

text \<open>The Poster is down, the Reader has one row.\<close>

definition sample_fetch :: "string \<Rightarrow> http_answer" where
  "sample_fetch url = (if take 1 url = ''p'' then NetworkFailure ''down'' else HttpAnswer 200 (Inr (JObj [(''messages'', JArr [sample_row])])))"

definition sample_listed :: comment_message where
  "sample_listed = \<lparr>cm_messageHash = bytesToHex [9], cm_sender = bytesToHex (zeros 20), cm_senderLower = bytesToHex (zeros 20),
     cm_postIdHash = bytesToHex (zeros 32), cm_timestamp = 0, cm_content = [104], cm_parentMessageHash = None, cm_pending = False\<rparr>"

lemma sample_decoded:
  "decodeCommentContents ([1, 0] @ zeros 32 @ zeros 8 @ [0, 0, 0, 1, 104]) = Inr (Comment (bytesToHex (zeros 32)) 0 [104])"
proof -
  let ?b = "[1, 0] @ zeros 32 @ zeros 8 @ [0, 0, 0, 1, 104] :: bytes"
  have parts: "length ?b = 47" "?b ! 0 = 1" "?b ! 1 = 0" "slice ?b 2 34 = zeros 32" "slice ?b 46 47 = [104]"
    by (simp_all add: slice_def numeral_2_eq_2 [symmetric])
  have "readU64BE ?b 34 = 0" "readU32BE ?b 42 = 1"
    by (simp_all add: readU64BE_def readU32BE_def load_be_def nth_append zeros_def upt_rec)
  moreover have "textOf [104] = Inr [104]"
    by (simp add: textOf_def textDecode_def stripBom_def)
  moreover have "int (Number_of_bigint (nat 0)) = 0"
    by (rule timestamp_exact) simp_all
  ultimately show ?thesis
    using parts unfolding decodeCommentContents_def Let_def parts(1-3) ENVELOPE_VERSION_def KIND_COMMENT_def by simp
qed

lemma sample_row_decoded: "decodeRow (\<lambda>_. [9]) (bytesToHex (zeros 32)) False sample_row = Inr (Some sample_listed)"
proof -
  have hash: "computeMessageHash (\<lambda>_. [9]) (bytesToHex (zeros 20)) (bytesToHex (zeros 32)) 5
      ([1, 0] @ zeros 32 @ zeros 8 @ [0, 0, 0, 1, 104]) = Inr (bytesToHex [9])"
    by code_simp
  have "js_BigInt (Some (JStr ''5'')) = Some 5"
    by code_simp
  then show ?thesis
    using hash sample_decoded
    by (simp del: append.simps append_Cons append_Nil
      add: decodeRow_def decodedRow_def member_def sample_row_def sample_listed_def)
qed

lemma sample_listed_eq:
  "widget_listMessages (\<lambda>_. [9]) sample_urls sample_fetch (bytesToHex (zeros 32)) (Some ''confirmed'') None = Inr [sample_listed]"
proof -
  have "take 1 (listUrl sample_urls (bytesToHex (zeros 32)) (Some ''confirmed'') None) \<noteq> ''p''"
    by code_simp
  then show ?thesis
    by (simp add: widget_listMessages_def Let_def jsonGet_def sample_fetch_def http_ok_def member_def sample_row_decoded)
qed

theorem listForPost_exact_witness:
  "\<exists>ms. listForPost (\<lambda>_. [9]) sample_urls sample_fetch (bytesToHex (zeros 32)) (bytesToHex (zeros 32)) None = Inr ms \<and> sample_listed \<in> set ms"
proof -
  have "toLowerCase (cm_postIdHash sample_listed) = toLowerCase (bytesToHex (zeros 32))"
    by (simp add: sample_listed_def)
  then show ?thesis
    using listForPost_exact [OF sample_listed_eq refl, of "bytesToHex (zeros 32)"] by auto
qed

end
