(* ===== verification/PosterHttp.thy ===== *)
theory PosterHttp
  imports Poster Http Comments
begin

text \<open>
  The Poster's HTTP surface (packages/bam-poster/src/http): the bounded body reader as a state
  machine over the events of a request, the handlers over the Poster of theory Poster, the
  bearer gate and the dispatcher. A reply is a status and a body; None is a request that gets no
  reply. The URL parser is an argument (None when it throws); reply headers are left out.
\<close>

section \<open>Rejections\<close>

fun rejectionToStatus :: "poster_rejection \<Rightarrow> nat" where
  "rejectionToStatus UnknownTag = 400"
| "rejectionToStatus Malformed = 400"
| "rejectionToStatus BadSignature = 400"
| "rejectionToStatus StaleNonce = 400"
| "rejectionToStatus Duplicate = 400"
| "rejectionToStatus MessageTooLarge = 413"
| "rejectionToStatus RateLimited = 429"
| "rejectionToStatus PosterUnhealthy = 503"
| "rejectionToStatus InternalError = 500"

section \<open>The body of a request\<close>

datatype request_event = DataEvent bytes | EndEvent | ErrorEvent | AbortedEvent | CloseEvent

datatype body_outcome = BodyTooLarge | BodyAborted | BodyFailed | BodyRead bytes

record body_reader =
  bd_chunks :: "bytes list"
  bd_total :: nat
  bd_outcome :: "body_outcome option"

definition newReader :: body_reader where
  "newReader = \<lparr>bd_chunks = [], bd_total = 0, bd_outcome = None\<rparr>"

text \<open>Once settled the listeners are gone; BodyTooLarge has sent its 413 and destroyed the request.\<close>

definition onEvent :: "nat \<Rightarrow> body_reader \<Rightarrow> request_event \<Rightarrow> body_reader" where
  "onEvent cap r ev =
     (if bd_outcome r \<noteq> None then r
      else case ev of
        DataEvent c \<Rightarrow>
          (let total = bd_total r + length c in
           if total > cap then r\<lparr>bd_total := total, bd_outcome := Some BodyTooLarge\<rparr>
           else r\<lparr>bd_total := total, bd_chunks := bd_chunks r @ [c]\<rparr>)
      | EndEvent \<Rightarrow> r\<lparr>bd_outcome := Some (BodyRead (concat (bd_chunks r)))\<rparr>
      | ErrorEvent \<Rightarrow> r\<lparr>bd_outcome := Some BodyFailed\<rparr>
      | AbortedEvent \<Rightarrow> r\<lparr>bd_outcome := Some BodyAborted\<rparr>
      | CloseEvent \<Rightarrow> r\<lparr>bd_outcome := Some BodyAborted\<rparr>)"

definition readBodyBounded :: "nat \<Rightarrow> request_event list \<Rightarrow> body_outcome option" where
  "readBodyBounded cap events = bd_outcome (foldl (onEvent cap) newReader events)"

section \<open>Handlers\<close>

datatype poster_body =
    EmptyReply
  | SubmitAccepted string
  | SubmitRejected poster_rejection
  | InvalidQuery string
  | InvalidSender
  | PendingBody "pending_view list"
  | BatchesBody "submitted_batch list"
  | StatusBody poster_status
  | PosterHealthBody health_report
  | NextNonceBody int
  | FlushedBody string
  | UnauthorizedBody
  | NoRouteBody

type_synonym poster_reply = "nat \<times> poster_body"

definition posterInternalError :: poster_reply where
  "posterInternalError = (500, SubmitRejected InternalError)"

record http_env =
  he_keccak :: "bytes \<Rightarrow> bytes"
  he_parse :: "bytes \<Rightarrow> json option"
  he_conflict :: "nat \<Rightarrow> bool"
  he_now :: nat
  he_balance :: "string + nat"
  he_tick :: tick_input
  he_maxMessageSizeBytes :: nat

definition submitHandler :: "http_env \<Rightarrow> request_event list \<Rightarrow> poster \<Rightarrow> poster_reply option \<times> poster" where
  "submitHandler env events p =
     (case readBodyBounded (he_maxMessageSizeBytes env) events of
        None \<Rightarrow> (None, p)
      | Some BodyTooLarge \<Rightarrow> (Some (413, SubmitRejected MessageTooLarge), p)
      | Some BodyAborted \<Rightarrow> (None, p)
      | Some BodyFailed \<Rightarrow> (Some posterInternalError, p)
      | Some (BodyRead body) \<Rightarrow>
          (case poster_submit (he_keccak env) (he_parse env) (he_conflict env) (he_now env) body p of
             (Inl _, p') \<Rightarrow> (Some posterInternalError, p')
           | (Inr (Accepted h), p') \<Rightarrow> (Some (201, SubmitAccepted h), p')
           | (Inr (Rejected reason), p') \<Rightarrow> (Some (rejectionToStatus reason, SubmitRejected reason), p')))"

definition MAX_LIMIT :: nat where "MAX_LIMIT = 10000"

text \<open>None when the limit is refused, Some None when it is absent.\<close>

definition parseLimit :: "string option \<Rightarrow> nat option option" where
  "parseLimit limitStr =
     (case limitStr of
        None \<Rightarrow> Some None
      | Some s \<Rightarrow>
          if s = [] then Some None
          else if \<not> digits s then None
          else let n = nat (BigInt10 s) in if n > MAX_LIMIT then None else Some (Some n))"

definition pendingHandler :: "http_env \<Rightarrow> http_url \<Rightarrow> poster \<Rightarrow> poster_reply" where
  "pendingHandler env url p =
     (case parseLimit (searchGet ''limit'' url) of
        None \<Rightarrow> (400, InvalidQuery ''limit'')
      | Some limit \<Rightarrow>
          (case poster_listPending (he_conflict env)
                  \<lparr>pq_contentTag = searchGet ''contentTag'' url, pq_since = None, pq_limit = limit\<rparr> p of
             Inl _ \<Rightarrow> posterInternalError
           | Inr pending \<Rightarrow> (200, PendingBody pending)))"

definition submittedHandler :: "http_env \<Rightarrow> http_url \<Rightarrow> poster \<Rightarrow> poster_reply" where
  "submittedHandler env url p =
     (let sinceBlockStr = searchGet ''sinceBlock'' url;
          present = (case sinceBlockStr of None \<Rightarrow> False | Some s \<Rightarrow> s \<noteq> []) in
      if present \<and> \<not> digits (the sinceBlockStr) then (400, InvalidQuery ''sinceBlock'')
      else case parseLimit (searchGet ''limit'' url) of
        None \<Rightarrow> (400, InvalidQuery ''limit'')
      | Some limit \<Rightarrow>
          (case poster_listSubmittedBatches (he_conflict env)
                  \<lparr>sq_contentTag = searchGet ''contentTag'' url,
                   sq_sinceBlock = (if present then Some (nat (BigInt10 (the sinceBlockStr))) else None),
                   sq_limit = map_option int limit\<rparr> p of
             Inl _ \<Rightarrow> posterInternalError
           | Inr batches \<Rightarrow> (200, BatchesBody batches)))"

definition statusHandler :: "http_env \<Rightarrow> poster \<Rightarrow> poster_reply" where
  "statusHandler env p =
     (case poster_status_of (he_conflict env) (he_balance env) p of
        Inl _ \<Rightarrow> posterInternalError
      | Inr status \<Rightarrow> (200, StatusBody status))"

definition posterHealthHandler :: "http_env \<Rightarrow> poster \<Rightarrow> poster_reply \<times> poster" where
  "posterHealthHandler env p =
     (case poster_health (he_now env) p of
        (health, p') \<Rightarrow> ((if hp_state health = Unhealthy then 503 else 200, PosterHealthBody health), p'))"

definition nonceHandler :: "http_env \<Rightarrow> http_url \<Rightarrow> poster \<Rightarrow> poster_reply" where
  "nonceHandler env url p =
     (let sender = drop (length ''/nonce/'') (hu_path url) in
      if sender = [] \<or> CHR ''/'' \<in> set sender then (400, InvalidSender)
      else if \<not> HEX_ADDRESS sender then (400, InvalidSender)
      else case poster_getNextNonce (he_conflict env) (toLowerCase sender) p of
        Inl _ \<Rightarrow> posterInternalError
      | Inr nextNonce \<Rightarrow> (200, NextNonceBody nextNonce))"

definition flushHandler :: "http_env \<Rightarrow> http_url \<Rightarrow> poster \<Rightarrow> poster_reply \<times> poster" where
  "flushHandler env url p =
     (case searchGet ''contentTag'' url of
        None \<Rightarrow> ((400, SubmitRejected Malformed), p)
      | Some contentTag \<Rightarrow>
          (case poster_tick (he_keccak env) (he_tick env) p of
             (Inl _, p') \<Rightarrow> (posterInternalError, p')
           | (Inr _, p') \<Rightarrow> ((200, FlushedBody contentTag), p')))"

section \<open>Server\<close>

datatype poster_route = SubmitRoute | PendingRoute | SubmittedRoute | NonceRoute | StatusRoute | HealthRoute | FlushRoute

definition POSTER_ROUTES :: "(string \<times> string \<times> bool \<times> poster_route) list" where
  "POSTER_ROUTES =
     [(''POST'', ''/submit'', False, SubmitRoute),
      (''GET'', ''/pending'', False, PendingRoute),
      (''GET'', ''/submitted-batches'', False, SubmittedRoute),
      (''GET'', ''/nonce'', True, NonceRoute),
      (''GET'', ''/status'', False, StatusRoute),
      (''GET'', ''/health'', False, HealthRoute),
      (''POST'', ''/flush'', False, FlushRoute)]"

definition findRoute :: "string \<Rightarrow> string \<Rightarrow> poster_route option" where
  "findRoute verb pathname =
     map_option (\<lambda>(_, _, _, r). r)
       (find (\<lambda>(m, path, prefix, _). m = verb \<and> (if prefix then startsWith pathname (path @ ''/'') else path = pathname))
         POSTER_ROUTES)"

fun splitSpace :: "string \<Rightarrow> string list" where
  "splitSpace [] = [[]]"
| "splitSpace (c # s) =
     (if c = CHR '' '' then [] # splitSpace s
      else case splitSpace s of [] \<Rightarrow> [[c]] | w # ws \<Rightarrow> (c # w) # ws)"

text \<open>timingSafeEqual is equality; header is None when the request has no such text.\<close>

definition checkAuth :: "string option \<Rightarrow> string option \<Rightarrow> bool" where
  "checkAuth authToken header =
     (case authToken of
        None \<Rightarrow> True
      | Some expected \<Rightarrow>
          (case header of
             None \<Rightarrow> False
           | Some h \<Rightarrow>
               (case take 2 (splitSpace h) of
                  [scheme, token] \<Rightarrow> toLowerCase scheme = ''bearer'' \<and> token \<noteq> [] \<and> token = expected
                | _ \<Rightarrow> False)))"

record poster_request =
  rq_method :: string
  rq_url :: "string option"
  rq_authorization :: "string option"
  rq_events :: "request_event list"

fun runPosterRoute :: "http_env \<Rightarrow> poster_route \<Rightarrow> http_url \<Rightarrow> request_event list \<Rightarrow> poster \<Rightarrow> poster_reply option \<times> poster" where
  "runPosterRoute env SubmitRoute url events p = submitHandler env events p"
| "runPosterRoute env PendingRoute url events p = (Some (pendingHandler env url p), p)"
| "runPosterRoute env SubmittedRoute url events p = (Some (submittedHandler env url p), p)"
| "runPosterRoute env NonceRoute url events p = (Some (nonceHandler env url p), p)"
| "runPosterRoute env StatusRoute url events p = (Some (statusHandler env p), p)"
| "runPosterRoute env HealthRoute url events p = (case posterHealthHandler env p of (r, p') \<Rightarrow> (Some r, p'))"
| "runPosterRoute env FlushRoute url events p = (case flushHandler env url p of (r, p') \<Rightarrow> (Some r, p'))"

definition posterDispatch ::
  "http_env \<Rightarrow> (string \<Rightarrow> http_url option) \<Rightarrow> string option \<Rightarrow> poster_request \<Rightarrow> poster \<Rightarrow> poster_reply option \<times> poster" where
  "posterDispatch env parseUrl authToken req p =
     (if rq_method req = ''OPTIONS'' then (Some (204, EmptyReply), p)
      else if authToken \<noteq> None \<and> \<not> checkAuth authToken (rq_authorization req) then (Some (401, UnauthorizedBody), p)
      else case parseUrl (case rq_url req of None \<Rightarrow> ''/'' | Some u \<Rightarrow> u) of
        None \<Rightarrow> (Some posterInternalError, p)
      | Some url \<Rightarrow>
          (case findRoute (rq_method req) (hu_path url) of
             None \<Rightarrow> (Some (404, NoRouteBody), p)
           | Some r \<Rightarrow> runPosterRoute env r url (rq_events req) p))"

section \<open>Replies on the wire\<close>

fun reasonText :: "poster_rejection \<Rightarrow> string" where
  "reasonText UnknownTag = ''unknown_tag''"
| "reasonText MessageTooLarge = ''message_too_large''"
| "reasonText Malformed = ''malformed''"
| "reasonText BadSignature = ''bad_signature''"
| "reasonText StaleNonce = ''stale_nonce''"
| "reasonText Duplicate = ''duplicate''"
| "reasonText RateLimited = ''rate_limited''"
| "reasonText PosterUnhealthy = ''unhealthy''"
| "reasonText InternalError = ''internal_error''"

text \<open>What sendJson writes for the bodies a client of this repository reads; a bigint is a decimal string.\<close>

fun sendJson :: "poster_body \<Rightarrow> json option" where
  "sendJson (SubmitAccepted h) = Some (JObj [(''accepted'', JBool True), (''messageHash'', JStr h)])"
| "sendJson (SubmitRejected r) = Some (JObj [(''accepted'', JBool False), (''reason'', JStr (reasonText r))])"
| "sendJson (InvalidQuery f) = Some (JObj [(''error'', JStr ''invalid_query''), (''field'', JStr f)])"
| "sendJson InvalidSender = Some (JObj [(''error'', JStr ''invalid_sender'')])"
| "sendJson (NextNonceBody n) = Some (JObj [(''nextNonce'', JStr (js_String (JNum n)))])"
| "sendJson (FlushedBody t) = Some (JObj [(''flushed'', JStr t)])"
| "sendJson UnauthorizedBody = Some (JObj [(''error'', JStr ''unauthorized'')])"
| "sendJson NoRouteBody = Some (JObj [(''error'', JStr ''not_found'')])"
| "sendJson _ = None"

section \<open>The body reader\<close>

lemma onEvent_settled: "bd_outcome r \<noteq> None \<Longrightarrow> foldl (onEvent cap) r events = r"
  by (induction events) (simp_all add: onEvent_def)

lemma onEvent_bounded:
  assumes "length (concat (bd_chunks r)) \<le> cap" "bd_outcome r = None \<Longrightarrow> bd_total r = length (concat (bd_chunks r))"
  shows "length (concat (bd_chunks (onEvent cap r ev))) \<le> cap
    \<and> (bd_outcome (onEvent cap r ev) = None \<longrightarrow> bd_total (onEvent cap r ev) = length (concat (bd_chunks (onEvent cap r ev))))"
  using assms by (cases ev) (auto simp: onEvent_def Let_def)

lemma reader_bounded:
  assumes "length (concat (bd_chunks r)) \<le> cap" "bd_outcome r = None \<Longrightarrow> bd_total r = length (concat (bd_chunks r))"
  shows "length (concat (bd_chunks (foldl (onEvent cap) r events))) \<le> cap"
  using assms
proof (induction events arbitrary: r)
  case (Cons ev events)
  show ?case
    using Cons.IH [of "onEvent cap r ev"] onEvent_bounded [of r cap ev] Cons.prems by simp
qed simp

lemma reader_data:
  assumes "bd_outcome r = None" "bd_total r = length (concat (bd_chunks r))" "bd_total r \<le> cap"
  shows "bd_outcome (foldl (onEvent cap) r (map DataEvent cs @ EndEvent # later)) =
    Some (if length (concat (bd_chunks r @ cs)) \<le> cap then BodyRead (concat (bd_chunks r @ cs)) else BodyTooLarge)"
  using assms
proof (induction cs arbitrary: r)
  case Nil
  have "bd_outcome (onEvent cap r EndEvent) = Some (BodyRead (concat (bd_chunks r)))"
    using Nil by (simp add: onEvent_def)
  then show ?case
    using Nil onEvent_settled [of "onEvent cap r EndEvent"] by simp
next
  case (Cons c cs)
  show ?case
  proof (cases "bd_total r + length c > cap")
    case True
    then have "bd_outcome (onEvent cap r (DataEvent c)) = Some BodyTooLarge"
      using Cons.prems by (simp add: onEvent_def)
    then have "foldl (onEvent cap) (onEvent cap r (DataEvent c)) (map DataEvent cs @ EndEvent # later) = onEvent cap r (DataEvent c)"
      by (intro onEvent_settled) simp
    then have "foldl (onEvent cap) r (map DataEvent (c # cs) @ EndEvent # later) = onEvent cap r (DataEvent c)"
      by (simp only: list.map append_Cons foldl_Cons)
    then show ?thesis
      using True Cons.prems \<open>bd_outcome (onEvent cap r (DataEvent c)) = Some BodyTooLarge\<close> by (simp del: foldl_append)
  next
    case False
    let ?r = "r\<lparr>bd_total := bd_total r + length c, bd_chunks := bd_chunks r @ [c]\<rparr>"
    have "onEvent cap r (DataEvent c) = ?r"
      using False Cons.prems by (simp add: onEvent_def)
    then show ?thesis
      using Cons.IH [of ?r] False Cons.prems by simp
  qed
qed

text \<open>
  C36. A request body costs bounded memory and is read exactly: whatever arrives in whatever order, never more than the cap is buffered; a body that completes is delivered whole, in order, if it fits, and is refused as too large otherwise, and nothing that happens after the decision changes it.
\<close>

theorem body_read_bounded:
  "length (concat (bd_chunks (foldl (onEvent cap) newReader events))) \<le> cap
   \<and> readBodyBounded cap (map DataEvent cs @ EndEvent # later)
     = Some (if length (concat cs) \<le> cap then BodyRead (concat cs) else BodyTooLarge)
   \<and> (\<forall>b. readBodyBounded cap events = Some b \<longrightarrow> readBodyBounded cap (events @ later) = Some b)"
  using reader_bounded [of newReader cap events] reader_data [of newReader cap cs later] onEvent_settled
  by (auto simp: readBodyBounded_def newReader_def)

section \<open>The gate\<close>

lemma splitSpace_ne: "splitSpace h \<noteq> []"
  by (induction h) (auto split: list.splits)

lemma splitSpace_first:
  "splitSpace h = w # v # ws \<Longrightarrow> \<exists>rest. h = w @ '' '' @ v @ rest \<and> (rest = [] \<or> hd rest = CHR '' '') \<and> CHR '' '' \<notin> set v"
proof (induction h arbitrary: w)
  case (Cons c h)
  have head: "\<exists>rest. h = v @ rest \<and> (rest = [] \<or> hd rest = CHR '' '') \<and> CHR '' '' \<notin> set v" if "splitSpace h = v # ws" for h v ws
    using that
  proof (induction h arbitrary: v)
    case (Cons d h)
    show ?case
    proof (cases "d = CHR '' ''")
      case True
      then show ?thesis using Cons.prems by auto
    next
      case False
      then obtain u us where u: "splitSpace h = u # us"
        using splitSpace_ne by (cases "splitSpace h") auto
      with False Cons.prems have "v = d # u"
        by simp
      with Cons.IH [of u] u False Cons.prems show ?thesis by auto
    qed
  qed auto
  show ?case
  proof (cases "c = CHR '' ''")
    case True
    then show ?thesis
      using Cons.prems head [of h v ws] by auto
  next
    case False
    then obtain u us where u: "splitSpace h = u # us" "w = c # u" "us = v # ws"
      using Cons.prems by (auto split: list.splits)
    with Cons.IH [of u] show ?thesis by auto
  qed
qed simp

lemma checkAuth_bearer:
  assumes "checkAuth (Some t) header"
  shows "\<exists>scheme rest. header = Some (scheme @ '' '' @ t @ rest) \<and> toLowerCase scheme = ''bearer'' \<and> t \<noteq> []
    \<and> CHR '' '' \<notin> set t \<and> (rest = [] \<or> hd rest = CHR '' '')"
proof -
  obtain h where h: "header = Some h"
    using assms by (auto simp: checkAuth_def split: option.split_asm)
  have two: "\<exists>ws. xs = a # b # ws" if "take 2 xs = [a, b]" for xs and a b :: string
    using that by (cases xs; cases "tl xs") auto
  obtain scheme ws where "splitSpace h = scheme # t # ws" "toLowerCase scheme = ''bearer''" "t \<noteq> []"
    using assms h two [of "splitSpace h" _ t] by (auto simp: checkAuth_def split: list.split_asm)
  with splitSpace_first h show ?thesis by blast
qed

text \<open>
  C34. The bearer gate is complete: with a token configured, a request other than OPTIONS that does not carry that token after the scheme Bearer (in any case) is answered 401 and leaves the Poster exactly as it was, whatever its method, path and body; in particular no such request reaches the pool or drives a tick.
\<close>

theorem auth_gate_complete:
  assumes "posterDispatch env parseUrl (Some t) req p = (reply, p')" "rq_method req \<noteq> ''OPTIONS''"
    and "\<nexists>scheme rest. rq_authorization req = Some (scheme @ '' '' @ t @ rest) \<and> toLowerCase scheme = ''bearer''
          \<and> (rest = [] \<or> hd rest = CHR '' '')"
  shows "reply = Some (401, UnauthorizedBody) \<and> p' = p"
proof -
  have "\<not> checkAuth (Some t) (rq_authorization req)"
    using assms(3) checkAuth_bearer by blast
  then show ?thesis
    using assms(1,2) by (auto simp: posterDispatch_def)
qed

text \<open>A configured token that contains a space locks everyone out.\<close>

lemma spaced_token_locks_out:
  "CHR '' '' \<in> set t \<Longrightarrow> rq_method req \<noteq> ''OPTIONS'' \<Longrightarrow>
   posterDispatch env parseUrl (Some t) req p = (Some (401, UnauthorizedBody), p)"
  using checkAuth_bearer [of t "rq_authorization req"] by (auto simp: posterDispatch_def)

section \<open>The widget and the Poster agree\<close>

lemma digit_char_ascii: "n < 10 \<Longrightarrow> ascii_digit (digit_char n) \<and> digit_val (digit_char n) = n"
  by (simp add: ascii_digit_def digit_val_def char_code_def of_char_digit)

lemma toString10_digits: "toString10 n \<noteq> [] \<and> list_all ascii_digit (toString10 n) \<and> BigInt10 (toString10 n) = int n"
proof (induction n rule: toString10.induct)
  case (1 n)
  show ?case
  proof (cases "n < 10")
    case True
    then show ?thesis
      using digit_char_ascii [OF True] by (simp add: toString10.simps [of n] BigInt10_def)
  next
    case False
    have d: "ascii_digit (digit_char (n mod 10))" "digit_val (digit_char (n mod 10)) = n mod 10"
      using digit_char_ascii [of "n mod 10"] by simp_all
    have "BigInt10 (s @ [c]) = BigInt10 s * 10 + int (digit_val c)" for s c
      by (simp add: BigInt10_def)
    then have "BigInt10 (toString10 n) = int (n div 10) * 10 + int (n mod 10)"
      using 1 [OF False] False d by (simp add: toString10.simps [of n])
    also have "\<dots> = int n"
      by presburger
    finally show ?thesis
      using 1 [OF False] False d by (simp add: toString10.simps [of n])
  qed
qed

lemma parseNonce_decimal: "0 \<le> n \<Longrightarrow> parseNonce (Some (JStr (js_String (JNum n)))) = Some n"
  using toString10_digits [of "nat n"] by simp

lemma parseHexBytes_hexToBytes: "parseHexBytes (Some (JStr h)) = (case hexToBytes h of Inl _ \<Rightarrow> None | Inr bs \<Rightarrow> Some bs)"
  by (auto simp: hexToBytes_def Let_def)

lemma hex_pairs_lower: "list_all is_hex_char s \<Longrightarrow> hex_pairs (map lower_char s) = hex_pairs s"
  by (induction s rule: hex_pairs.induct) (simp_all add: lower_hex_char)

lemma hexToBytes_prefixed:
  assumes "prefixed_hex h" "length h mod 2 = 0"
  shows "hexToBytes h = Inr (hex_pairs (drop 2 h))" "hexToBytes (toLowerCase h) = Inr (hex_pairs (drop 2 h))"
proof -
  have h: "take 2 h = ''0x''" "list_all is_hex_char (drop 2 h)" "length (drop 2 h) mod 2 = 0"
    using assms by (auto simp: prefixed_hex_def)
  then show "hexToBytes h = Inr (hex_pairs (drop 2 h))"
    by (simp add: hexToBytes_def strip0x_def)
  have "take 2 (toLowerCase h) = toLowerCase (take 2 h)" "drop 2 (toLowerCase h) = map lower_char (drop 2 h)"
    by (simp_all add: toLowerCase_def take_map drop_map)
  moreover have "toLowerCase ''0x'' = ''0x''"
    by (simp add: toLowerCase_def)
  moreover have "list_all is_hex_char (map lower_char (drop 2 h))"
    using h(2) by (auto simp: list_all_iff lower_hex_char)
  ultimately show "hexToBytes (toLowerCase h) = Inr (hex_pairs (drop 2 h))"
    using h hex_pairs_lower [OF h(2)] by (simp add: hexToBytes_def strip0x_def)
qed

text \<open>Arguments as the widget forms them: hex texts with the prefix, and a 64-bit nonce.\<close>

definition well_formed_args :: "submit_args \<Rightarrow> bool" where
  "well_formed_args a \<longleftrightarrow> HEX_BYTES32 (sa_contentTag a) \<and> HEX_ADDRESS (sa_sender a) \<and> uint64 (sa_nonce a)
     \<and> (\<exists>sig. hexToBytes (sa_signature a) = Inr sig \<and> length sig = 65)"

lemma parse_own_envelope:
  assumes "well_formed_args a" "parse raw = Some (encodeEnvelope a)"
  obtains sig where "hexToBytes (sa_signature a) = Inr sig"
    "parseEnvelope parse raw = Some \<lparr>me_tag = toLowerCase (sa_contentTag a), me_sender = sa_sender a, me_nonce = sa_nonce a,
        me_contents = sa_contents a, me_signature = sig\<rparr>"
proof -
  obtain sig where sig: "hexToBytes (sa_signature a) = Inr sig" "length sig = 65"
    using assms(1) by (auto simp: well_formed_args_def)
  have n: "parseNonce (Some (JStr (js_String (JNum (sa_nonce a))))) = Some (sa_nonce a)"
    using assms(1) by (intro parseNonce_decimal) (simp add: well_formed_args_def uint64_def)
  have "isBytes32 (Some (JStr (sa_contentTag a))) = Some (sa_contentTag a)" "isAddress (Some (JStr (sa_sender a))) = Some (sa_sender a)"
    using assms(1) by (simp_all add: isBytes32_def isAddress_def well_formed_args_def HEX_BYTES32_def HEX_ADDRESS_def)
  then show thesis
    using that [OF sig(1)] n sig
    by (simp add: parseEnvelope_def assms(2) encodeEnvelope_def parseHexBytes_hexToBytes canonicalTag_def del: parseNonce.simps parseHexBytes.simps js_String.simps)
qed

lemma own_hash:
  assumes "well_formed_args a"
  obtains h where "computeMessageHash keccak (sa_sender a) (sa_contentTag a) (sa_nonce a) (sa_contents a) = Inr h"
    "computeMessageHash keccak (sa_sender a) (toLowerCase (sa_contentTag a)) (sa_nonce a) (sa_contents a) = Inr h" "toLowerCase h = h"
proof -
  have t: "prefixed_hex (sa_contentTag a)" "length (sa_contentTag a) = 66" "prefixed_hex (sa_sender a)" "length (sa_sender a) = 42"
      and n: "uint64 (sa_nonce a)"
    using assms by (simp_all add: well_formed_args_def HEX_BYTES32_def HEX_ADDRESS_def)
  let ?tb = "hex_pairs (drop 2 (sa_contentTag a))" and ?sb = "hex_pairs (drop 2 (sa_sender a))"
  have tag: "hexToBytes (sa_contentTag a) = Inr ?tb" "hexToBytes (toLowerCase (sa_contentTag a)) = Inr ?tb"
    using hexToBytes_prefixed [OF t(1)] t(2) by simp_all
  have sender: "hexToBytes (sa_sender a) = Inr ?sb"
    using hexToBytes_prefixed [OF t(3)] t(4) by simp
  have l: "length ?tb = 32" "length ?sb = 20"
    using t by (simp_all add: length_hex_pairs)
  let ?buf = "?sb @ ?tb @ be 8 (nat (sa_nonce a)) @ sa_contents a"
  have "messagePreimage (sa_sender a) (sa_contentTag a) (sa_nonce a) (sa_contents a) = Inr ?buf"
    "messagePreimage (sa_sender a) (toLowerCase (sa_contentTag a)) (sa_nonce a) (sa_contents a) = Inr ?buf"
    using tag sender l n by (simp_all add: messagePreimage_Inr)
  then show thesis
    by (intro that [of "bytesToHex (keccak ?buf)"]) (simp_all add: computeMessageHash_def)
qed

lemma ingestTxn_accepted:
  assumes "ingestTxn opts d now st = Inr (Accepted g, st')" "store_inv st"
  shows "toLowerCase g = toLowerCase (dm_messageHash d)"
  by (rule ingestTxn_cases [OF assms]) simp_all

lemma poster_submit_own:
  assumes "well_formed_args a" "he_parse env raw = Some (encodeEnvelope a)" "store_inv (po_store p)"
    and "poster_submit (he_keccak env) (he_parse env) (he_conflict env) (he_now env) raw p = (Inr (Accepted g), p')"
  shows "computeMessageHash (he_keccak env) (sa_sender a) (sa_contentTag a) (sa_nonce a) (sa_contents a) = Inr (toLowerCase g)"
proof -
  obtain sig where e: "parseEnvelope (he_parse env) raw = Some \<lparr>me_tag = toLowerCase (sa_contentTag a), me_sender = sa_sender a,
      me_nonce = sa_nonce a, me_contents = sa_contents a, me_signature = sig\<rparr>"
    using parse_own_envelope [of a "he_parse env" raw] assms(1,2) by metis
  obtain h where h: "computeMessageHash (he_keccak env) (sa_sender a) (sa_contentTag a) (sa_nonce a) (sa_contents a) = Inr h"
    "computeMessageHash (he_keccak env) (sa_sender a) (toLowerCase (sa_contentTag a)) (sa_nonce a) (sa_contents a) = Inr h" "toLowerCase h = h"
    using own_hash [OF assms(1), of "he_keccak env"] by blast
  obtain snap p1 where agg: "aggregateHealth (he_now env) p = (snap, p1)"
    by fastforce
  note f = aggregateHealth_fields [OF agg]
  obtain r rl st where i: "ingest (he_keccak env) (he_parse env) (po_ingest p) (he_conflict env) (he_now env) raw (po_limiter p, po_store p) = (r, rl, st)"
    by (metis prod_cases3)
  have r: "r = Inr (Accepted g)"
    using assms(4) agg f i by (auto simp: poster_submit_def split: if_split_asm)
  have "toLowerCase g = h"
    using i
  proof (cases rule: ingest_cases)
    case (ran env' h' res)
    then have "h' = h" "dm_messageHash (decodedOf env' h') = h'"
      using e h(2) by (auto simp: passes_gates_def decodedOf_def)
    with ran r ingestTxn_accepted assms(3) h(3) show ?thesis by fastforce
  qed (use r in auto)
  with h show ?thesis by simp
qed


text \<open>
  Reading is harmless: a GET changes nothing of a Poster but the time since when its health reports trouble, so of the endpoints only POST /submit and POST /flush can reach the store, the loop or the rate limiter.
\<close>

theorem get_changes_nothing:
  assumes "rq_method req = ''GET''" "posterDispatch env parseUrl token req p = (reply, p')"
  shows "p' = p\<lparr>po_nonOkSince := po_nonOkSince p'\<rparr>"
proof -
  have get: "r \<notin> {SubmitRoute, FlushRoute}" if "findRoute ''GET'' path = Some r" for path r
    using that by (auto simp: findRoute_def POSTER_ROUTES_def split: if_split_asm)
  have health: "p1 = p\<lparr>po_nonOkSince := po_nonOkSince p1\<rparr>" if "posterHealthHandler env p = (r, p1)" for r p1
    using that aggregateHealth_frame [of "he_now env" p]
    by (auto simp: posterHealthHandler_def poster_health_def Let_def split: prod.split_asm)
  have "p' = p \<or> (\<exists>r. posterHealthHandler env p = (r, p'))"
  proof (cases "\<exists>url r. parseUrl (case rq_url req of None \<Rightarrow> ''/'' | Some u \<Rightarrow> u) = Some url \<and> findRoute ''GET'' (hu_path url) = Some r
      \<and> posterDispatch env parseUrl token req p = runPosterRoute env r url (rq_events req) p")
    case True
    then obtain url r where r: "findRoute ''GET'' (hu_path url) = Some r" "runPosterRoute env r url (rq_events req) p = (reply, p')"
      using assms(2) by auto
    show ?thesis
      using get [OF r(1)] r(2) by (cases r) (auto split: prod.split_asm)
  next
    case False
    then show ?thesis
      using assms by (auto simp: posterDispatch_def split: option.split_asm if_split_asm)
  qed
  then show ?thesis
    using health by auto
qed

section \<open>Sample requests\<close>

definition args_sample :: submit_args where
  "args_sample = \<lparr>sa_contentTag = bytesToHex (zeros 32), sa_sender = bytesToHex (zeros 20), sa_nonce = 5, sa_contents = [7],
     sa_signature = bytesToHex (zeros 65)\<rparr>"

definition http_env_sample :: http_env where
  "http_env_sample = \<lparr>he_keccak = (\<lambda>_. zeros 32), he_parse = (\<lambda>_. Some (encodeEnvelope args_sample)), he_conflict = (\<lambda>_. False),
     he_now = 7, he_balance = Inr 0, he_tick = \<lparr>ti_readConflict = (\<lambda>_. False), ti_writeConflict = (\<lambda>_. False), ti_now = 1,
       ti_submit = (\<lambda>_. Retryable SubmissionFailed), ti_submittedAt = 1, ti_healthAt = 1\<rparr>, he_maxMessageSizeBytes = 4\<rparr>"

definition request_sample :: "string \<Rightarrow> string \<Rightarrow> poster_request" where
  "request_sample verb auth = \<lparr>rq_method = verb, rq_url = None, rq_authorization = Some auth, rq_events = map DataEvent [[1, 2], [3]] @ [EndEvent]\<rparr>"

theorem body_read_bounded_witness:
  "readBodyBounded 2 (map DataEvent [[1], [2]] @ EndEvent # [CloseEvent]) = Some (BodyRead [1, 2])
   \<and> readBodyBounded 2 ((map DataEvent [[1], [2]] @ [EndEvent]) @ [DataEvent [9]]) = Some (BodyRead [1, 2])"
  using body_read_bounded [of 2 "map DataEvent [[1], [2]] @ [EndEvent]" "[[1], [2]]" "[CloseEvent]"]
    body_read_bounded [of 2 "map DataEvent [[1], [2]] @ [EndEvent]" "[[1], [2]]" "[]"]
    body_read_bounded [of 2 "map DataEvent [[1], [2]] @ [EndEvent]" "[]" "[DataEvent [9]]"]
  by simp

theorem auth_gate_complete_witness:
  "posterDispatch http_env_sample (\<lambda>_. Some \<lparr>hu_path = ''/flush'', hu_params = []\<rparr>) (Some ''k'') (request_sample ''POST'' ''Basic k'') poster_sample
     = (Some (401, UnauthorizedBody), poster_sample)"
proof -
  obtain reply p' where d: "posterDispatch http_env_sample (\<lambda>_. Some \<lparr>hu_path = ''/flush'', hu_params = []\<rparr>) (Some ''k'')
      (request_sample ''POST'' ''Basic k'') poster_sample = (reply, p')"
    by fastforce
  have "toLowerCase scheme \<noteq> ''bearer''" if "''Basic k'' = scheme @ rest" for scheme rest :: string
  proof
    assume l: "toLowerCase scheme = ''bearer''"
    then have "length (toLowerCase scheme) = 6"
      by simp
    then have "length scheme = 6"
      by (simp add: toLowerCase_def)
    then have "scheme = take 6 ''Basic k''"
      using that by simp
    with l show False
      by (simp add: toLowerCase_def lower_char_def char_code_def)
  qed
  then show ?thesis
    using auth_gate_complete [OF d] d by (simp add: request_sample_def) blast
qed

theorem get_changes_nothing_witness:
  "\<exists>reply p'. posterDispatch http_env_sample (\<lambda>_. Some \<lparr>hu_path = ''/health'', hu_params = []\<rparr>) None (request_sample ''GET'' '''') poster_sample
     = (Some reply, p') \<and> p' = poster_sample\<lparr>po_nonOkSince := po_nonOkSince p'\<rparr> \<and> fst reply = 200"
proof -
  let ?d = "posterDispatch http_env_sample (\<lambda>_. Some \<lparr>hu_path = ''/health'', hu_params = []\<rparr>) None (request_sample ''GET'' '''') poster_sample"
  have "rq_method (request_sample ''GET'' '''') = ''GET''"
    by (simp add: request_sample_def)
  moreover obtain reply p' where d: "?d = (reply, p')"
    by fastforce
  moreover have "\<exists>b. reply = Some (200, b)"
    using d by (simp add: posterDispatch_def request_sample_def findRoute_def POSTER_ROUTES_def posterHealthHandler_def poster_health_def
        aggregateHealth_def Let_def readHealth_def healthState_def poster_sample_def buildPoster_def newLoop_def healthFromAttempts_def
        loopOptionsOf_def config_sample_def given_def DEFAULT_BACKOFF_def startsWith_def http_env_sample_def) (auto)
  ultimately show ?thesis
    using get_changes_nothing [of "request_sample ''GET'' ''''" _ _ None poster_sample reply p'] by fastforce
qed


end
