(* ===== verification/ReaderService.thy ===== *)
theory ReaderService
  imports ReaderLoop Ingest Http Comments
begin

text \<open>
  The Reader as createReader assembles it (packages/bam-reader/src/factory.ts) and its read-only
  HTTP surface (src/http): the startup check, the choice of store and archive, the operations of
  the object over the loops of theory ReaderLoop, the life of serve and close, the parameter
  checks and the handlers. The L1 client, the openers of stores and archives, the URL parser and
  decodeURIComponent are arguments; reply headers, stderr lines and the closing of connections
  are left out.
\<close>

section \<open>Construction\<close>

record reader_config =
  rf_chainId :: nat
  rf_beaconUrl :: "string option"
  rf_blobscanUrl :: "string option"
  rf_blobArchiveDir :: "string option"
  rf_dbUrl :: string
  rf_reorgWindow :: nat
  rf_chunk :: nat
  rf_startBlock :: "nat option"

record 's reader_extras =
  rx_getChainId :: "string + nat"
  rx_store :: "store option"
  rx_archive :: "'s blob_archive option"
  rx_livePollMs :: "nat option"
  rx_startBlock :: "nat option"
  rx_createMemoryStore :: "string + store"
  rx_createDbStore :: "string \<Rightarrow> string + store"
  rx_filesystemArchive :: "string \<Rightarrow> string + 's blob_archive"
  rx_hash :: hash_env

datatype reader_start_error =
    ReaderChainIdMismatch nat nat
  | SqliteUnsupported string
  | UnrecognizedDbUrl string
  | ReaderStartThrow string

record 's reader =
  rd_chainId :: nat
  rd_sources :: "'s blob_sources"
  rd_tail :: tail_options
  rd_pollMs :: nat

definition DEFAULT_LIVE_POLL_MS :: nat where "DEFAULT_LIVE_POLL_MS = 12000"

definition thrown :: "string + 'a \<Rightarrow> reader_start_error + 'a" where
  "thrown r = (case r of Inl m \<Rightarrow> Inl (ReaderStartThrow m) | Inr x \<Rightarrow> Inr x)"

definition assertChainIdMatches :: "string + nat \<Rightarrow> nat \<Rightarrow> reader_start_error + unit" where
  "assertChainIdMatches observed expected =
     ebind (thrown observed) (\<lambda>c. if c \<noteq> expected then Inl (ReaderChainIdMismatch c expected) else Inr ())"

definition openStore :: "'s reader_extras \<Rightarrow> string \<Rightarrow> reader_start_error + store" where
  "openStore rx dbUrl =
     (if dbUrl = ''memory:'' \<or> dbUrl = ''memory'' then thrown (rx_createMemoryStore rx)
      else if startsWith dbUrl ''postgres:'' \<or> startsWith dbUrl ''postgresql:'' then thrown (rx_createDbStore rx dbUrl)
      else if startsWith dbUrl ''sqlite:'' then Inl (SqliteUnsupported dbUrl)
      else Inl (UnrecognizedDbUrl dbUrl))"

definition rawArchive :: "reader_config \<Rightarrow> 's reader_extras \<Rightarrow> reader_start_error + 's blob_archive option" where
  "rawArchive cf rx =
     (case rx_archive rx of
        Some a \<Rightarrow> Inr (Some a)
      | None \<Rightarrow>
          (case rf_blobArchiveDir cf of
             None \<Rightarrow> Inr None
           | Some d \<Rightarrow> if d = [] then Inr None else ebind (thrown (rx_filesystemArchive rx d)) (\<lambda>a. Inr (Some a))))"

definition createReader ::
  "reader_config \<Rightarrow> 's reader_extras \<Rightarrow> 's \<Rightarrow> reader_start_error + ('s reader \<times> 's world)" where
  "createReader cf rx disk =
     ebind (assertChainIdMatches (rx_getChainId rx) (rf_chainId cf)) (\<lambda>_.
     ebind (case rx_store rx of Some st \<Rightarrow> Inr st | None \<Rightarrow> openStore rx (rf_dbUrl cf)) (\<lambda>st.
     ebind (rawArchive cf rx) (\<lambda>raw.
       Inr (\<lparr>rd_chainId = rf_chainId cf,
             rd_sources = \<lparr>bs_beaconUrl = rf_beaconUrl cf, bs_blobscanUrl = rf_blobscanUrl cf,
                           bs_archive = map_option (verifyingArchive (rx_hash rx)) raw\<rparr>,
             rd_tail = \<lparr>to_reorgWindow = rf_reorgWindow cf,
                        to_startBlock = (case rx_startBlock rx of Some b \<Rightarrow> b
                          | None \<Rightarrow> (case rf_startBlock cf of Some b \<Rightarrow> b | None \<Rightarrow> 0)),
                        to_chunk = rf_chunk cf\<rparr>,
             rd_pollMs = (case rx_livePollMs rx of Some ms \<Rightarrow> ms | None \<Rightarrow> DEFAULT_LIVE_POLL_MS)\<rparr>,
            (disk, st, emptyCounters)))))"

section \<open>Operations\<close>

definition reader_env :: "'s reader \<Rightarrow> 's loop_env \<Rightarrow> 's loop_env" where
  "reader_env rd le = le\<lparr>le_chainId := rd_chainId rd, le_sources := rd_sources rd\<rparr>"

definition reader_tick ::
  "'s reader \<Rightarrow> 's loop_env \<Rightarrow> string + nat \<Rightarrow> (nat \<Rightarrow> bool) \<Rightarrow> reader_watch \<Rightarrow> 's world \<Rightarrow> (reader_error + tick_result) \<times> 's world" where
  "reader_tick rd le head rc rw w = liveTailTick (reader_env rd le) (rd_tail rd) head rc rw w"

definition reader_backfill ::
  "'s reader \<Rightarrow> 's loop_env \<Rightarrow> string + nat \<Rightarrow> nat \<Rightarrow> nat \<Rightarrow> 's world \<Rightarrow> (reader_error + backfill_counters) \<times> 's world" where
  "reader_backfill rd le head from to w = backfill (reader_env rd le) None (to_chunk (rd_tail rd)) head from to w"

text \<open>A read in a transaction of its own.\<close>

definition readTxn :: "(nat \<Rightarrow> bool) \<Rightarrow> 'a qry \<Rightarrow> store \<Rightarrow> (store_error + 'a) \<times> store" where
  "readTxn conflict query st = withTxn conflict (\<lambda>st. ebind (query st) (\<lambda>x. Inr (x, st))) st"

record reader_health_snapshot =
  rh_chainId :: nat
  rh_cursor :: "reader_cursor option"
  rh_blocksBehindHead :: "nat option"
  rh_counters :: reader_counters

definition reader_health :: "'s reader \<Rightarrow> (nat \<Rightarrow> bool) \<Rightarrow> string + nat \<Rightarrow> 's world \<Rightarrow> (store_error + reader_health_snapshot) \<times> 's world" where
  "reader_health rd conflict blockNumber w =
     (case w of (arch, st, c) \<Rightarrow>
       (case readCursor conflict (rd_chainId rd) st of
          (Inl e, st1) \<Rightarrow> (Inl e, (arch, st1, c))
        | (Inr cursor, st1) \<Rightarrow>
            (let head = (case blockNumber of Inl _ \<Rightarrow> None | Inr h \<Rightarrow> Some h) in
             (Inr \<lparr>rh_chainId = rd_chainId rd, rh_cursor = cursor,
                   rh_blocksBehindHead = (case (head, cursor) of (Some h, Some cu) \<Rightarrow> Some (h - rc_lastBlockNumber cu) | _ \<Rightarrow> None),
                   rh_counters = c\<rparr>, (arch, st1, c)))))"

definition listConfirmedMessages :: "(nat \<Rightarrow> bool) \<Rightarrow> messages_query \<Rightarrow> store \<Rightarrow> (store_error + message_row list) \<times> store" where
  "listConfirmedMessages conflict query st = readTxn conflict (listMessages query) st"

definition reader_listBatches :: "(nat \<Rightarrow> bool) \<Rightarrow> batches_query \<Rightarrow> store \<Rightarrow> (store_error + batch_row list) \<times> store" where
  "reader_listBatches conflict query st = readTxn conflict (listBatches query) st"

definition reader_getBatch :: "'s reader \<Rightarrow> (nat \<Rightarrow> bool) \<Rightarrow> string \<Rightarrow> store \<Rightarrow> (store_error + batch_row option) \<times> store" where
  "reader_getBatch rd conflict txHash st =
     (case readTxn conflict (getBatchesByTxHash (rd_chainId rd) txHash) st of
        (Inl e, st1) \<Rightarrow> (Inl e, st1)
      | (Inr rows, st1) \<Rightarrow> (Inr (case rows of [] \<Rightarrow> None | r # _ \<Rightarrow> Some r), st1))"

definition cursorBlock :: "'s reader \<Rightarrow> (nat \<Rightarrow> bool) \<Rightarrow> store \<Rightarrow> (store_error + nat option) \<times> store" where
  "cursorBlock rd conflict st =
     (case readCursor conflict (rd_chainId rd) st of
        (Inl e, st1) \<Rightarrow> (Inl e, st1)
      | (Inr cursor, st1) \<Rightarrow> (Inr (map_option rc_lastBlockNumber cursor), st1))"

definition resetCursor :: "'s reader \<Rightarrow> (nat \<Rightarrow> bool) \<Rightarrow> nat option \<Rightarrow> store \<Rightarrow> (store_error + unit) \<times> store" where
  "resetCursor rd conflict chainId st =
     withTxn conflict (\<lambda>st. Inr ((), deleteCursor (case chainId of None \<Rightarrow> rd_chainId rd | Some c \<Rightarrow> c) st)) st"

definition resetAll :: "'s reader \<Rightarrow> (nat \<Rightarrow> bool) \<Rightarrow> nat option \<Rightarrow> store \<Rightarrow> (store_error + unit) \<times> store" where
  "resetAll rd conflict chainId st =
     (let i = (case chainId of None \<Rightarrow> rd_chainId rd | Some c \<Rightarrow> c) in
      withTxn conflict (\<lambda>st. Inr ((), deleteCursor i (deleteBatches i (deleteMessages i st)))) st)"

definition getBlob :: "'s reader \<Rightarrow> string \<Rightarrow> 's \<Rightarrow> fetch_error + bytes option" where
  "getBlob rd versionedHash disk =
     (case bs_archive (rd_sources rd) of None \<Rightarrow> Inr None | Some a \<Rightarrow> ba_get a disk versionedHash)"

section \<open>Serving and closing\<close>

text \<open>
  serve runs one loop: a tick, then a sleep that a timer or close ends. A tick that throws is
  logged and the loop goes on.
\<close>

datatype serve_phase = NotServing | Ticking | Sleeping | Ended

record serve_state =
  sv_phase :: serve_phase
  sv_stopped :: bool

definition loopTop :: "serve_state \<Rightarrow> serve_state" where
  "loopTop s = s\<lparr>sv_phase := (if sv_stopped s then Ended else Ticking)\<rparr>"

definition serve :: "serve_state \<Rightarrow> serve_state" where
  "serve s = (if sv_phase s = NotServing then loopTop s else s)"

definition tickDone :: "serve_state \<Rightarrow> serve_state" where
  "tickDone s = (if sv_phase s = Ticking then s\<lparr>sv_phase := (if sv_stopped s then Ended else Sleeping)\<rparr> else s)"

definition wakeUp :: "serve_state \<Rightarrow> serve_state" where
  "wakeUp s = (if sv_phase s = Sleeping then loopTop s else s)"

definition close :: "serve_state \<Rightarrow> serve_state" where
  "close s = wakeUp (s\<lparr>sv_stopped := True\<rparr>)"

section \<open>Parameters\<close>

datatype reader_body =
    RdEmpty
  | RdBadRequest string
  | RdNotFound
  | RdInternalError
  | RdHealth reader_health_snapshot
  | RdMessages "message_row list"
  | RdBatches "batch_row list"
  | RdBatch batch_row
  | RdBlob bytes

type_synonym reader_reply = "nat \<times> reader_body"

definition LIMIT_MIN :: nat where "LIMIT_MIN = 1"
definition READER_LIMIT_MAX :: nat where "READER_LIMIT_MAX = 1000"
definition MAX_SAFE_INTEGER :: nat where "MAX_SAFE_INTEGER = 9007199254740991"

definition parseReaderLimit :: "string \<Rightarrow> string + nat" where
  "parseReaderLimit raw =
     (if \<not> digits raw then Inl ''limit''
      else let n = nat (BigInt10 raw) in if n < LIMIT_MIN \<or> n > READER_LIMIT_MAX then Inl ''limit'' else Inr n)"

text \<open>Beyond 2^53 the rounding of Number does not matter: every such value exceeds the bound.\<close>

definition parseSince :: "string \<Rightarrow> string + nat" where
  "parseSince raw =
     (if \<not> digits raw then Inl ''since''
      else if Number_of_bigint (nat (BigInt10 raw)) > MAX_SAFE_INTEGER then Inl ''since''
      else Inr (nat (BigInt10 raw)))"

definition messageStatusOf :: "string \<Rightarrow> message_status option" where
  "messageStatusOf s = map_of [(''pending'', Pending), (''submitted'', Submitted), (''confirmed'', Confirmed), (''reorged'', Reorged)] s"

definition batchStatusOf :: "string \<Rightarrow> batch_status option" where
  "batchStatusOf s = map_of [(''pending_tx'', PendingTx), (''confirmed'', BatchConfirmed), (''reorged'', BatchReorged)] s"

text \<open>An optional parameter: absent, or passed to its check.\<close>

definition optParam :: "string option \<Rightarrow> (string \<Rightarrow> string + 'a) \<Rightarrow> string + 'a option" where
  "optParam raw check = (case raw of None \<Rightarrow> Inr None | Some s \<Rightarrow> ebind (check s) (\<lambda>x. Inr (Some x)))"

definition hexParam :: "string \<Rightarrow> (string \<Rightarrow> bool) \<Rightarrow> string \<Rightarrow> string + string" where
  "hexParam name re s = (if re s then Inr s else Inl name)"

definition tagParam :: "http_url \<Rightarrow> string + string" where
  "tagParam url =
     (case searchGet ''contentTag'' url of
        None \<Rightarrow> Inl ''contentTag''
      | Some t \<Rightarrow> hexParam ''contentTag'' HEX_BYTES32 t)"

definition statusParam :: "http_url \<Rightarrow> (string \<Rightarrow> 'a option) \<Rightarrow> string + 'a option" where
  "statusParam url statusOf =
     optParam (searchGet ''status'' url) (\<lambda>s. case statusOf s of None \<Rightarrow> Inl ''status'' | Some x \<Rightarrow> Inr x)"

definition parseMessagesQuery :: "http_url \<Rightarrow> string + messages_query" where
  "parseMessagesQuery url =
     ebind (tagParam url) (\<lambda>tag.
     ebind (statusParam url messageStatusOf) (\<lambda>status.
     ebind (optParam (searchGet ''limit'' url) parseReaderLimit) (\<lambda>limit.
     ebind (optParam (searchGet ''batchRef'' url) (hexParam ''batchRef'' HEX_BYTES32)) (\<lambda>batchRef.
     ebind (optParam (searchGet ''sender'' url) (hexParam ''sender'' HEX_ADDRESS)) (\<lambda>sender.
       Inr (no_messages_query\<lparr>mq_contentTag := Some tag, mq_status := status, mq_limit := limit, mq_batchRef := batchRef,
              mq_sender := map_option toLowerCase sender\<rparr>))))))"

definition parseBatchesQuery :: "http_url \<Rightarrow> string + batches_query" where
  "parseBatchesQuery url =
     ebind (tagParam url) (\<lambda>tag.
     ebind (statusParam url batchStatusOf) (\<lambda>status.
     ebind (optParam (searchGet ''limit'' url) parseReaderLimit) (\<lambda>limit.
     ebind (optParam (case searchGet ''since'' url of None \<Rightarrow> None | Some s \<Rightarrow> if s = [] then None else Some s) parseSince) (\<lambda>since.
       Inr \<lparr>bq_contentTag = Some tag, bq_chainId = None, bq_status = status, bq_sinceBlock = None,
            bq_sinceIncludedAt = since, bq_limit = limit\<rparr>))))"

section \<open>Handlers\<close>

definition readerHealthHandler :: "'s reader \<Rightarrow> (nat \<Rightarrow> bool) \<Rightarrow> string + nat \<Rightarrow> 's world \<Rightarrow> reader_reply \<times> 's world" where
  "readerHealthHandler rd conflict blockNumber w =
     (case reader_health rd conflict blockNumber w of
        (Inl _, w1) \<Rightarrow> ((500, RdInternalError), w1)
      | (Inr snapshot, w1) \<Rightarrow> ((200, RdHealth snapshot), w1))"

definition messagesHandler :: "(nat \<Rightarrow> bool) \<Rightarrow> http_url \<Rightarrow> store \<Rightarrow> reader_reply \<times> store" where
  "messagesHandler conflict url st =
     (case parseMessagesQuery url of
        Inl field \<Rightarrow> ((400, RdBadRequest field), st)
      | Inr query \<Rightarrow>
          (case listConfirmedMessages conflict query st of
             (Inl _, st1) \<Rightarrow> ((500, RdInternalError), st1)
           | (Inr messages, st1) \<Rightarrow> ((200, RdMessages messages), st1)))"

definition batchesHandler :: "(nat \<Rightarrow> bool) \<Rightarrow> http_url \<Rightarrow> store \<Rightarrow> reader_reply \<times> store" where
  "batchesHandler conflict url st =
     (case parseBatchesQuery url of
        Inl field \<Rightarrow> ((400, RdBadRequest field), st)
      | Inr query \<Rightarrow>
          (case reader_listBatches conflict query st of
             (Inl _, st1) \<Rightarrow> ((500, RdInternalError), st1)
           | (Inr batches, st1) \<Rightarrow> ((200, RdBatches batches), st1)))"

definition blobByVersionedHashHandler :: "'s reader \<Rightarrow> string option \<Rightarrow> 's \<Rightarrow> reader_reply" where
  "blobByVersionedHashHandler rd pathParam disk =
     (case pathParam of
        None \<Rightarrow> (400, RdBadRequest ''versionedHash'')
      | Some vh \<Rightarrow>
          if \<not> HEX_BYTES32 vh then (400, RdBadRequest ''versionedHash'')
          else (case getBlob rd vh disk of
             Inl _ \<Rightarrow> (500, RdInternalError)
           | Inr None \<Rightarrow> (404, RdNotFound)
           | Inr (Some bytes) \<Rightarrow> (200, RdBlob bytes)))"

definition batchByTxHashHandler :: "'s reader \<Rightarrow> (nat \<Rightarrow> bool) \<Rightarrow> string option \<Rightarrow> store \<Rightarrow> reader_reply \<times> store" where
  "batchByTxHashHandler rd conflict pathParam st =
     (case pathParam of
        None \<Rightarrow> ((400, RdBadRequest ''txHash''), st)
      | Some txHash \<Rightarrow>
          if \<not> HEX_BYTES32 txHash then ((400, RdBadRequest ''txHash''), st)
          else (case reader_getBatch rd conflict txHash st of
             (Inl _, st1) \<Rightarrow> ((500, RdInternalError), st1)
           | (Inr None, st1) \<Rightarrow> ((404, RdNotFound), st1)
           | (Inr (Some batch), st1) \<Rightarrow> ((200, RdBatch batch), st1)))"

datatype reader_route = RdHealthRoute | RdMessagesRoute | RdBatchesRoute | RdBatchRoute | RdBlobRoute

definition READER_ROUTES :: "(string \<times> reader_route) list" where
  "READER_ROUTES =
     [(''/health'', RdHealthRoute), (''/messages'', RdMessagesRoute), (''/batches'', RdBatchesRoute),
      (''/batches/:txHash'', RdBatchRoute), (''/blobs/:versionedHash'', RdBlobRoute)]"

fun matchReaderRoute :: "(string \<Rightarrow> string option) \<Rightarrow> string \<Rightarrow> (string \<times> reader_route) list \<Rightarrow> (reader_route \<times> string option) option" where
  "matchReaderRoute decodeURI pathname [] = None"
| "matchReaderRoute decodeURI pathname ((path, r) # rs) =
     (case matchTemplate decodeURI path pathname of
        Some pathParam \<Rightarrow> Some (r, pathParam)
      | None \<Rightarrow> matchReaderRoute decodeURI pathname rs)"

definition readerDispatch ::
  "'s reader \<Rightarrow> (string \<Rightarrow> http_url option) \<Rightarrow> (string \<Rightarrow> string option) \<Rightarrow> (nat \<Rightarrow> bool) \<Rightarrow> string + nat
     \<Rightarrow> string \<Rightarrow> string option \<Rightarrow> 's world \<Rightarrow> reader_reply \<times> 's world" where
  "readerDispatch rd parseUrl decodeURI conflict blockNumber verb rawUrl w =
     (if verb = ''OPTIONS'' then ((204, RdEmpty), w)
      else case parseUrl (case rawUrl of None \<Rightarrow> ''/'' | Some u \<Rightarrow> u) of
        None \<Rightarrow> ((500, RdInternalError), w)
      | Some url \<Rightarrow>
          (case (if verb = ''GET'' then matchReaderRoute decodeURI (hu_path url) READER_ROUTES else None) of
             None \<Rightarrow> ((404, RdNotFound), w)
           | Some (r, pathParam) \<Rightarrow>
               (case w of (arch, st, c) \<Rightarrow>
                 (case r of
                    RdHealthRoute \<Rightarrow> readerHealthHandler rd conflict blockNumber w
                  | RdMessagesRoute \<Rightarrow> (case messagesHandler conflict url st of (rep, st1) \<Rightarrow> (rep, (arch, st1, c)))
                  | RdBatchesRoute \<Rightarrow> (case batchesHandler conflict url st of (rep, st1) \<Rightarrow> (rep, (arch, st1, c)))
                  | RdBatchRoute \<Rightarrow> (case batchByTxHashHandler rd conflict pathParam st of (rep, st1) \<Rightarrow> (rep, (arch, st1, c)))
                  | RdBlobRoute \<Rightarrow> (blobByVersionedHashHandler rd pathParam arch, w)))))"

section \<open>Messages on the wire\<close>

definition jsonOrNull :: "('a \<Rightarrow> json) \<Rightarrow> 'a option \<Rightarrow> json" where
  "jsonOrNull f x = (case x of None \<Rightarrow> JNull | Some v \<Rightarrow> f v)"

fun messageStatusText :: "message_status \<Rightarrow> string" where
  "messageStatusText Pending = ''pending''"
| "messageStatusText Submitted = ''submitted''"
| "messageStatusText Confirmed = ''confirmed''"
| "messageStatusText Reorged = ''reorged''"

definition messageJson :: "message_row \<Rightarrow> json" where
  "messageJson m =
     (let num = (\<lambda>n. JNum (int n)) in
      JObj [(''messageId'', jsonOrNull JStr (mr_messageId m)), (''sender'', JStr (mr_sender m)),
            (''nonce'', JStr (js_String (JNum (mr_nonce m)))), (''contentTag'', JStr (mr_contentTag m)),
            (''contents'', JStr (bytesToHex (mr_contents m))), (''signature'', JStr (bytesToHex (mr_signature m))),
            (''messageHash'', JStr (mr_messageHash m)), (''status'', JStr (messageStatusText (mr_status m))),
            (''batchRef'', jsonOrNull JStr (mr_batchRef m)), (''chainId'', jsonOrNull num (mr_chainId m)),
            (''ingestedAt'', jsonOrNull num (mr_ingestedAt m)), (''ingestSeq'', jsonOrNull num (mr_ingestSeq m)),
            (''blockNumber'', jsonOrNull num (mr_blockNumber m)), (''txIndex'', jsonOrNull num (mr_txIndex m)),
            (''messageIndexWithinBatch'', jsonOrNull num (mr_messageIndex m))])"

section \<open>The HTTP surface only reads\<close>

lemma readTxn_same: "readTxn conflict query st = (r, st') \<Longrightarrow> st' = st"
  unfolding readTxn_def by (erule withTxn_same) auto

lemma readTxn_Inr: "readTxn conflict query st = (Inr x, st') \<Longrightarrow> query st = Inr x"
  unfolding readTxn_def by (drule withTxn_Inr) auto

lemma messagesHandler_same: "messagesHandler conflict url st = (rep, st') \<Longrightarrow> st' = st"
  by (auto simp: messagesHandler_def listConfirmedMessages_def dest: readTxn_same split: sum.splits prod.splits)

lemma batchesHandler_same: "batchesHandler conflict url st = (rep, st') \<Longrightarrow> st' = st"
  by (auto simp: batchesHandler_def reader_listBatches_def dest: readTxn_same split: sum.splits prod.splits)

lemma batchByTxHashHandler_same: "batchByTxHashHandler rd conflict p st = (rep, st') \<Longrightarrow> st' = st"
  by (auto simp: batchByTxHashHandler_def reader_getBatch_def dest: readTxn_same split: sum.splits prod.splits option.splits if_splits)

lemma readerHealthHandler_same: "readerHealthHandler rd conflict bn w = (rep, w') \<Longrightarrow> w' = w"
  by (auto simp: readerHealthHandler_def reader_health_def Let_def dest: readCursor_same split: sum.splits prod.splits)

lemma no_blob_bodies:
  "messagesHandler conflict url st = (rep, st') \<Longrightarrow> snd rep \<noteq> RdBlob b"
  "batchesHandler conflict url st = (rep, st') \<Longrightarrow> snd rep \<noteq> RdBlob b"
  "batchByTxHashHandler rd conflict p st = (rep, st') \<Longrightarrow> snd rep \<noteq> RdBlob b"
  "readerHealthHandler rd conflict bn w = (rep, w') \<Longrightarrow> snd rep \<noteq> RdBlob b"
  by (auto simp: messagesHandler_def batchesHandler_def batchByTxHashHandler_def readerHealthHandler_def
      split: sum.split_asm prod.split_asm option.split_asm if_split_asm)

text \<open>The cases of a request that reaches a handler.\<close>

lemma readerDispatch_cases:
  assumes "readerDispatch rd parseUrl decodeURI conflict bn verb rawUrl (arch, st, c) = (rep, w')"
  obtains (early) "w' = (arch, st, c)" "snd rep \<in> {RdEmpty, RdInternalError, RdNotFound}"
  | (health) "readerHealthHandler rd conflict bn (arch, st, c) = (rep, w')"
  | (messages) url st' where "parseUrl (case rawUrl of None \<Rightarrow> ''/'' | Some u \<Rightarrow> u) = Some url"
      "messagesHandler conflict url st = (rep, st')" "w' = (arch, st', c)"
  | (batches) url st' where "batchesHandler conflict url st = (rep, st')" "w' = (arch, st', c)"
  | (batch) p st' where "batchByTxHashHandler rd conflict p st = (rep, st')" "w' = (arch, st', c)"
  | (blob) p where "rep = blobByVersionedHashHandler rd p arch" "w' = (arch, st, c)"
proof -
  show thesis
  proof (cases "verb = ''OPTIONS''")
    case True
    then show thesis using assms early by (auto simp: readerDispatch_def)
  next
    case False
    show thesis
    proof (cases "parseUrl (case rawUrl of None \<Rightarrow> ''/'' | Some u \<Rightarrow> u)")
      case None
      then show thesis using assms early False by (auto simp: readerDispatch_def)
    next
      case (Some url)
      show thesis
      proof (cases "if verb = ''GET'' then matchReaderRoute decodeURI (hu_path url) READER_ROUTES else None")
        case None
        then have "rep = (404, RdNotFound)" "w' = (arch, st, c)"
          using assms False \<open>parseUrl _ = Some url\<close> by (auto simp: readerDispatch_def)
        then show thesis by (intro early) auto
      next
        case (Some rp)
        obtain r p where rp: "rp = (r, p)" by fastforce
        note run = assms [unfolded readerDispatch_def] \<open>parseUrl _ = Some url\<close> Some rp False
        show thesis
        proof (cases r)
          case RdHealthRoute
          then show thesis using run health by simp
        next
          case RdMessagesRoute
          obtain rep' st' where m: "messagesHandler conflict url st = (rep', st')" by fastforce
          show thesis by (rule messages [OF \<open>parseUrl _ = Some url\<close>, of st']) (use run RdMessagesRoute m in auto)
        next
          case RdBatchesRoute
          obtain rep' st' where m: "batchesHandler conflict url st = (rep', st')" by fastforce
          show thesis by (rule batches [of url st']) (use run RdBatchesRoute m in auto)
        next
          case RdBatchRoute
          obtain rep' st' where m: "batchByTxHashHandler rd conflict p st = (rep', st')" by fastforce
          show thesis by (rule batch [of p st']) (use run RdBatchRoute m in auto)
        next
          case RdBlobRoute
          show thesis by (rule blob [of p]) (use run RdBlobRoute in auto)
        qed
      qed
    qed
  qed
qed


section \<open>A closed Reader starts no tick\<close>

datatype serve_event = SvServe | SvTickDone | SvWake | SvClose

fun serveEvent :: "serve_event \<Rightarrow> serve_state \<Rightarrow> serve_state" where
  "serveEvent SvServe s = serve s"
| "serveEvent SvTickDone s = tickDone s"
| "serveEvent SvWake s = wakeUp s"
| "serveEvent SvClose s = close s"

lemmas serve_defs = serve_def tickDone_def wakeUp_def close_def loopTop_def

text \<open>Once stopped, an event keeps the phase or ends the loop, and never begins a tick or a sleep.\<close>

lemma stopped_event:
  assumes "sv_stopped s" "sv_phase s \<noteq> Sleeping"
  shows "sv_stopped (serveEvent ev s) \<and> sv_phase (serveEvent ev s) \<noteq> Sleeping
    \<and> (sv_phase (serveEvent ev s) = sv_phase s \<or> sv_phase (serveEvent ev s) = Ended)
    \<and> (ev = SvTickDone \<longrightarrow> sv_phase (serveEvent ev s) \<noteq> Ticking)"
  using assms by (cases ev; cases s) (auto simp: serve_defs)

lemma stopped_events:
  assumes "sv_stopped s" "sv_phase s \<noteq> Sleeping"
  shows "(sv_phase (fold serveEvent evs s) = sv_phase s \<or> sv_phase (fold serveEvent evs s) = Ended)
    \<and> (SvTickDone \<in> set evs \<longrightarrow> sv_phase (fold serveEvent evs s) \<noteq> Ticking)"
  using assms
proof (induction evs arbitrary: s)
  case (Cons ev evs)
  show ?case
    using Cons.IH [of "serveEvent ev s"] stopped_event [OF Cons.prems, of ev] by (auto simp: fold_Cons)
qed simp

text \<open>
  After close no tick begins: whatever happens next, the loop is ended, was never started, or is still in the one tick that close found running, and that tick's end ends the loop.
\<close>

theorem close_ends_serving:
  "sv_phase (fold serveEvent evs (close s)) = Ended
    \<or> sv_phase (fold serveEvent evs (close s)) = NotServing \<and> sv_phase s = NotServing
    \<or> sv_phase (fold serveEvent evs (close s)) = Ticking \<and> sv_phase s = Ticking \<and> SvTickDone \<notin> set evs"
proof -
  have "sv_stopped (close s)" "sv_phase (close s) \<noteq> Sleeping"
    and "sv_phase (close s) = sv_phase s \<or> sv_phase (close s) = Ended"
    by (cases s; auto simp: serve_defs)+
  then show ?thesis
    using stopped_events [of "close s" evs] by (cases "sv_phase s") auto
qed

section \<open>What a reset leaves behind\<close>

lemma resetAll_Inr:
  "resetAll rd conflict chainId st = (Inr (), st') \<Longrightarrow>
    st' = (let i = (case chainId of None \<Rightarrow> rd_chainId rd | Some c \<Rightarrow> c) in deleteCursor i (deleteBatches i (deleteMessages i st)))"
  unfolding resetAll_def Let_def by (drule withTxn_Inr) auto

text \<open>
  Resetting everything deletes the chain's pending messages too and keeps the senders' nonce
  rows, so that a Poster on the same store acknowledges a byte-equal retry of a deleted message
  and queues nothing.
\<close>

theorem reset_strands_accepted:
  assumes "resetAll rd conflict None st = (Inr (), st')"
    and "\<forall>r \<in> set (msgs_at (toLowerCase (dm_sender d)) t st). rm_chainId r = Some (rd_chainId rd)"
    and "encodeNonce (dm_nonce d) = Inr t"
    and "st_nonces st (toLowerCase (dm_sender d)) = Some (t, h)" "toLowerCase h = toLowerCase (dm_messageHash d)"
  shows "ingestTxn opts d now st' = Inr (Accepted h, st') \<and> getPendingByKey (dm_sender d) (dm_nonce d) st' = Inr None"
proof -
  have nonces: "st_nonces st' = st_nonces st" and none: "msgs_at (toLowerCase (dm_sender d)) t st' = []"
    using resetAll_Inr [OF assms(1)] assms(2)
    by (auto simp: Let_def deleteCursor_def deleteBatches_def deleteMessages_def msgs_at_def filter_empty_conv)
  have "getNonce (dm_sender d) st' = Inr (Some \<lparr>nr_sender = toLowerCase (dm_sender d), nr_lastNonce = dm_nonce d, nr_lastMessageHash = h\<rparr>)"
    using assms(3,4) nonces by (simp add: getNonce_def)
  then have "ingestTxn opts d now st' = Inr (Accepted h, st')"
    using assms(5) by (simp add: ingestTxn_def checkMonotonicity_def seedNonce_def)
  moreover have "getPendingByKey (dm_sender d) (dm_nonce d) st' = Inr None"
    using assms(3) none by (simp add: getPendingByKey_def encNonce_def)
  ultimately show ?thesis ..
qed

text \<open>A tag with an upper-case digit passes the check of the list endpoints and matches no row, as the rows hold lower-case tags.\<close>

theorem mixed_case_tag_finds_nothing:
  assumes "\<forall>r \<in> set (st_messages st). toLowerCase (rm_contentTag r) = rm_contentTag r"
    and "toLowerCase tag \<noteq> tag" "mq_contentTag query = Some tag"
  shows "listMessages query st = Inr []"
proof -
  have "filter (message_matches query) (st_messages st) = []"
    using assms by (auto simp: filter_empty_conv message_matches_def opt_eq_def)
  then show ?thesis by (simp add: listMessages_def limited_def split: option.splits)
qed

section \<open>A sample Reader\<close>

definition sample_reader_config :: reader_config where
  "sample_reader_config = \<lparr>rf_chainId = 1, rf_beaconUrl = None, rf_blobscanUrl = None, rf_blobArchiveDir = Some ''d'',
     rf_dbUrl = ''memory:'', rf_reorgWindow = 32, rf_chunk = 100, rf_startBlock = None\<rparr>"

definition sample_reader_extras :: "files reader_extras" where
  "sample_reader_extras = \<lparr>rx_getChainId = Inr 1, rx_store = None, rx_archive = None, rx_livePollMs = None, rx_startBlock = None,
     rx_createMemoryStore = Inr empty_store, rx_createDbStore = (\<lambda>_. Inl ''no driver''),
     rx_filesystemArchive = (\<lambda>d. Inr (createFilesystemBlobArchive (\<lambda>_. None) (\<lambda>_. None) d)), rx_hash = sample_hash_env\<rparr>"

definition sample_disk :: files where
  "sample_disk = [''d/01/'' @ sample_hash @ ''.blob'' \<mapsto> sample_blob]"

definition sample_reader_url :: http_url where
  "sample_reader_url = \<lparr>hu_path = ''/blobs/'' @ sample_hash, hu_params = []\<rparr>"

lemma sample_reader_start:
  "\<exists>rd. createReader sample_reader_config sample_reader_extras sample_disk = Inr (rd, (sample_disk, empty_store, emptyCounters))
    \<and> bs_archive (rd_sources rd) = Some sample_verified"
  by (simp add: createReader_def assertChainIdMatches_def openStore_def rawArchive_def thrown_def
      sample_reader_config_def sample_reader_extras_def)

lemma sample_reader_match:
  "matchReaderRoute Some (hu_path sample_reader_url) READER_ROUTES = Some (RdBlobRoute, Some sample_hash)"
  "HEX_BYTES32 sample_hash"
  by code_simp+


end
