(* ===== verification/WidgetView.thy ===== *)
theory WidgetView
  imports PosterHttp ReaderService
begin

text \<open>
  From the store to the page: what the Reader's GET /messages serves for a confirmed comment
  and what the widget's listForPost makes of the answer (packages/bam-reader/src/http/routes.ts,
  packages/bam-comments/src/poster-reader.ts).
\<close>

section \<open>A served nonce\<close>

lemma digit_values: "ascii_digit c \<Longrightarrow> is_hex_char c \<and> hex_val c < 10 \<and> hex_val c = digit_val c \<and> \<not> is_blank c"
  by (auto simp: ascii_digit_def is_hex_char_def hex_val_def digit_val_def char_code_def is_blank_def Let_def)

lemma ascii_trim_digits: "list_all ascii_digit s \<Longrightarrow> ascii_trim s = s"
proof -
  have "dropWhile is_blank s = s" if "list_all ascii_digit s" for s
    using that by (cases s) (auto dest: digit_values)
  moreover assume "list_all ascii_digit s"
  ultimately show ?thesis by (simp add: ascii_trim_def)
qed

lemma radix_value_digits: "s \<noteq> [] \<Longrightarrow> list_all ascii_digit s \<Longrightarrow> radix_value 10 s = Some (BigInt10 s)"
proof -
  assume s: "s \<noteq> []" "list_all ascii_digit s"
  then have d: "\<forall>c \<in> set s. is_hex_char c \<and> hex_val c < 10 \<and> hex_val c = digit_val c"
    unfolding list_all_iff using digit_values by blast
  then have "foldl (\<lambda>n c. n * int 10 + int (hex_val c)) 0 s = BigInt10 s"
    unfolding BigInt10_def by (intro foldl_cong) simp_all
  then show ?thesis
    unfolding radix_value_def list_all_iff using d s(1) by auto
qed

lemma StringToBigInt_digits:
  assumes "s \<noteq> []" "list_all ascii_digit s"
  shows "StringToBigInt s = Some (BigInt10 s)"
proof -
  have none: "c \<notin> set s" if "\<not> ascii_digit c" for c
    using assms(2) that by (auto simp: list_all_iff)
  have "\<not> ascii_digit c" if "c \<in> set ''xXoObB+-''" for c
    using that by (auto simp: ascii_digit_def char_code_def)
  then have out: "c \<notin> set s" if "c \<in> set ''xXoObB+-''" for c
    using none that by blast
  have "take n s \<noteq> t" if "c \<in> set t" "c \<in> set ''xXoObB+-''" for n t c
    using that out set_take_subset [of n s] by blast
  then have "take 2 s \<noteq> [CHR ''0'', c]" "take 1 s \<noteq> [c]" if "c \<in> set ''xXoObB+-''" for c
    using that by (metis list.set_intros)+
  then have pre: "take 2 s \<notin> {''0x'', ''0X'', ''0o'', ''0O'', ''0b'', ''0B''}" "take 1 s \<noteq> ''-''" "take 1 s \<noteq> ''+''"
    by auto
  show ?thesis
    using assms pre ascii_trim_digits [OF assms(2)] radix_value_digits [OF assms]
    unfolding StringToBigInt_def Let_def by (simp del: One_nat_def)
qed

lemma served_nonce: "0 \<le> n \<Longrightarrow> StringToBigInt (js_String (JNum n)) = Some n"
  using toString10_digits [of "nat n"] StringToBigInt_digits [of "toString10 (nat n)"] by simp

section \<open>A served row\<close>

definition shown_comment :: "comment_envelope \<Rightarrow> string \<Rightarrow> string \<Rightarrow> comment_message" where
  "shown_comment msg sender h =
     (let env = canonical_comment msg in
      \<lparr>cm_messageHash = h, cm_sender = sender, cm_senderLower = toLowerCase sender, cm_postIdHash = ce_postIdHash env,
       cm_timestamp = ce_timestamp env, cm_content = ce_content env, cm_parentMessageHash = parent_of env, cm_pending = False\<rparr>)"

lemma messageJson_fields:
  "jget ''contents'' (Some (messageJson m)) = Some (JStr (bytesToHex (mr_contents m)))"
  "jget ''sender'' (Some (messageJson m)) = Some (JStr (mr_sender m))"
  "jget ''nonce'' (Some (messageJson m)) = Some (JStr (js_String (JNum (mr_nonce m))))"
  "jget ''batchRef'' (Some (messageJson m)) = Some (jsonOrNull JStr (mr_batchRef m))"
  "messageJson m \<noteq> JNull"
  by (simp_all add: messageJson_def Let_def)

lemma served_row_total: "\<exists>c. decodeRow keccak tag pending (messageJson m) = Inr c"
  by (simp add: decodeRow_def member_def messageJson_fields)

lemma served_row_hash:
  assumes "decodeRow keccak tag False (messageJson m) = Inr (Some c)" "0 \<le> mr_nonce m"
  shows "computeMessageHash keccak (mr_sender m) tag (mr_nonce m) (mr_contents m) = Inr (cm_messageHash c)"
  using assms
  by (auto simp: decodeRow_def member_def decodedRow_def messageJson_fields hexToBytes_bytesToHex served_nonce
      simp del: js_String.simps split: if_split_asm sum.split_asm)

lemma served_row_shown:
  assumes "encodeCommentContents msg = Inr (mr_contents m)" "plain_text (ce_content msg)" "0 \<le> mr_nonce m"
    and "mr_batchRef m \<noteq> None"
    and "computeMessageHash keccak (mr_sender m) tag (mr_nonce m) (mr_contents m) = Inr h"
  shows "decodeRow keccak tag False (messageJson m) = Inr (Some (shown_comment msg (mr_sender m) h))"
proof -
  have "decodeCommentContents (mr_contents m) = Inr (canonical_comment msg)"
    using decode_encoded_comment [OF assms(1,2), of "[]"] by simp
  moreover have "jsonOrNull JStr (mr_batchRef m) \<noteq> JNull"
    using assms(4) by (auto simp: jsonOrNull_def)
  ultimately show ?thesis
    using assms(3,5)
    by (simp add: decodeRow_def member_def decodedRow_def messageJson_fields hexToBytes_bytesToHex served_nonce
        shown_comment_def Let_def del: js_String.simps)
qed

section \<open>From the store to the page\<close>

lemma mapMessage_fields:
  "mapMessage r = Inr m \<Longrightarrow> mr_sender m = rm_sender r \<and> mr_contents m = rm_contents r \<and> mr_batchRef m = rm_batchRef r
    \<and> decodeNonce (rm_nonce r) = Inr (mr_nonce m)"
  by (auto simp: mapMessage_def decNonce_def split: sum.split_asm)

lemma decodeNonce_nonneg: "decodeNonce t = Inr n \<Longrightarrow> 0 \<le> n"
proof -
  have "0 \<le> foldl (\<lambda>v c. v * 10 + int (digit_val c)) v t" if "0 \<le> v" for v t
    using that by (induction t arbitrary: v) auto
  then have "0 \<le> BigInt10 t"
    by (simp add: BigInt10_def)
  then show "decodeNonce t = Inr n \<Longrightarrow> 0 \<le> n"
    by (auto simp: decodeNonce_def Let_def split: if_split_asm)
qed

text \<open>The rows of an unlimited answer are those of the store that match.\<close>

lemma messagesHandler_rows:
  assumes "messagesHandler conflict url st = ((200, RdMessages ms), st')"
    and "hu_params url = [(''contentTag'', tag), (''status'', ''confirmed'')]"
  shows "mapE mapMessage
    (sort_key message_order (filter (\<lambda>r. rm_contentTag r = tag \<and> rm_status r = Confirmed) (st_messages st))) = Inr ms"
proof -
  obtain query where query: "parseMessagesQuery url = Inr query" "listConfirmedMessages conflict query st = (Inr ms, st')"
    using assms(1) by (auto simp: messagesHandler_def split: sum.split_asm prod.split_asm)
  have "query = no_messages_query\<lparr>mq_contentTag := Some tag, mq_status := Some Confirmed\<rparr>"
    using query(1) assms(2)
    by (auto simp: parseMessagesQuery_def tagParam_def statusParam_def optParam_def searchGet_def hexParam_def messageStatusOf_def
        no_messages_query_def split: if_split_asm)
  moreover from this have "message_matches query = (\<lambda>r. rm_contentTag r = tag \<and> rm_status r = Confirmed)"
    by (auto simp: message_matches_def opt_eq_def opt_ge_def no_messages_query_def)
  ultimately show ?thesis
    using readTxn_Inr [OF query(2) [unfolded listConfirmedMessages_def]]
    by (simp add: listMessages_def limited_def no_messages_query_def)
qed

lemma mapE_total: "(\<And>x. x \<in> set xs \<Longrightarrow> \<exists>y. f x = Inr y) \<Longrightarrow> \<exists>ys. mapE f xs = Inr ys"
  by (induction xs) force+


section \<open>A sample page\<close>

definition page_comment :: comment_envelope where
  "page_comment = Comment (bytesToHex (zeros 32)) 0 [104]"

definition sample_comment_bytes :: bytes where
  "sample_comment_bytes = [1, 0] @ zeros 32 @ zeros 8 @ [0, 0, 0, 1, 104]"

definition sample_comment_row :: raw_message where
  "sample_comment_row = \<lparr>rm_sender = bytesToHex (zeros 20), rm_nonce = fixed_digits 20 5, rm_contentTag = bytesToHex (zeros 32),
     rm_contents = sample_comment_bytes, rm_signature = [], rm_messageHash = bytesToHex [9], rm_messageId = None,
     rm_status = Confirmed, rm_batchRef = Some ''0xb'', rm_chainId = Some 1, rm_ingestedAt = None, rm_ingestSeq = None,
     rm_blockNumber = Some 3, rm_txIndex = Some 0, rm_messageIndex = Some 0\<rparr>"

definition sample_page_url :: http_url where
  "sample_page_url = \<lparr>hu_path = ''/messages'', hu_params = [(''contentTag'', bytesToHex (zeros 32)), (''status'', ''confirmed'')]\<rparr>"

definition sample_served :: message_row where
  "sample_served = \<lparr>mr_messageId = None, mr_sender = bytesToHex (zeros 20), mr_nonce = 5, mr_contentTag = bytesToHex (zeros 32),
     mr_contents = sample_comment_bytes, mr_signature = [], mr_messageHash = bytesToHex [9], mr_status = Confirmed,
     mr_batchRef = Some ''0xb'', mr_chainId = Some 1, mr_ingestedAt = None, mr_ingestSeq = None,
     mr_blockNumber = Some 3, mr_txIndex = Some 0, mr_messageIndex = Some 0\<rparr>"

lemma be_zero: "be n 0 = zeros n"
  by (induction n) (simp_all add: zeros_def replicate_append_same)

lemma sample_encoded: "encodeCommentContents page_comment = Inr sample_comment_bytes"
proof -
  have ok: "is_ok (encodeCommentContents page_comment)"
    by (simp add: page_comment_def encodeCommentContents_def Let_def hashOf_def textEncode_def utf8_char_def usv_def scalar_def is_ok_def)
  then obtain bs where bs: "encodeCommentContents page_comment = Inr bs"
    by (auto simp: is_ok_def split: sum.split_asm)
  have "be 4 1 = zeros 3 @ [1]"
    using be.simps(2) [of 3 1] by (simp add: be_zero)
  then have "be 8 0 = zeros 8" "be 4 1 = [0, 0, 0, 1]"
    by (simp_all add: be_zero zeros_def numeral_3_eq_3)
  moreover have "textEncode [104] = [104]"
    by (simp add: textEncode_def utf8_char_def usv_def scalar_def)
  ultimately have "bs = sample_comment_bytes"
    using encode_comment [OF bs]
    by (auto simp: page_comment_def sample_comment_bytes_def comment_kind_def ENVELOPE_VERSION_def KIND_COMMENT_def hexToBytes_bytesToHex)
  with bs show ?thesis by simp
qed

lemma sample_hash_9:
  "computeMessageHash (\<lambda>_. [9]) (bytesToHex (zeros 20)) (bytesToHex (zeros 32)) 5 sample_comment_bytes = Inr (bytesToHex [9])"
  by code_simp

lemma sample_nonce_5: "decodeNonce (fixed_digits 20 5) = Inr 5"
  by code_simp

lemma sample_tag_hex: "HEX_BYTES32 (bytesToHex (zeros 32))"
  by code_simp

lemmas sample_comment_facts = sample_encoded sample_hash_9 sample_nonce_5 sample_tag_hex

lemma sample_comment_served: "mapMessage sample_comment_row = Inr sample_served"
  by (simp add: mapMessage_def sample_comment_row_def sample_served_def decNonce_def sample_comment_facts)

lemma sample_page_answer:
  "messagesHandler (\<lambda>_. False) sample_page_url (empty_store\<lparr>st_messages := [sample_comment_row]\<rparr>)
    = ((200, RdMessages [sample_served]), empty_store\<lparr>st_messages := [sample_comment_row]\<rparr>)"
proof -
  have "parseMessagesQuery sample_page_url
      = Inr (no_messages_query\<lparr>mq_contentTag := Some (bytesToHex (zeros 32)), mq_status := Some Confirmed\<rparr>)"
    by (simp add: parseMessagesQuery_def tagParam_def statusParam_def optParam_def searchGet_def hexParam_def messageStatusOf_def
        no_messages_query_def sample_page_url_def sample_comment_facts)
  moreover have "listMessages (no_messages_query\<lparr>mq_contentTag := Some (bytesToHex (zeros 32)), mq_status := Some Confirmed\<rparr>)
      (empty_store\<lparr>st_messages := [sample_comment_row]\<rparr>) = Inr [sample_served]"
    using sample_comment_served
    by (simp add: listMessages_def limited_def message_matches_def opt_eq_def opt_ge_def no_messages_query_def sample_comment_row_def)
  ultimately show ?thesis
    by (simp add: messagesHandler_def listConfirmedMessages_def readTxn_def withTxn_ok [of 0])
qed

definition sample_page_fetch :: "string \<Rightarrow> http_answer" where
  "sample_page_fetch url = HttpAnswer 200 (Inr (JObj [(''messages'', JArr [messageJson sample_served])]))"


end
