(* ===== verification/Exposure.thy ===== *)
theory Exposure
  imports KzgBlob ContentCodecs
begin

text \<open>
  packages/bam-sdk/src/exposure: the exposure batch (encoder.ts), the parser that finds each
  message and its position in a blob (blob-parser.ts), and the parameters of the on-chain
  exposure (builder.ts). Keccak-256, SHA-256 and c-kzg are arguments. A timestamp, a nonce and
  an offset is a JavaScript number with an integer value; a read past the end of an array gives
  undefined, which the shifts of the parser turn into zero.
\<close>

datatype exposure_error =
    EmptyExposure
  | TooManyMessages nat
  | InvalidAddress string
  | InvalidTimestamp int
  | InvalidNonce int
  | ExposureTooLarge nat
  | AggregateLength nat
  | AggregateZero
  | RawTooLarge nat nat
  | HeaderTooShort nat
  | ExposureMagic
  | ExposureVersion
  | NoLengthPrefix nat
  | TruncatedRaw nat
  | RawTooShort nat nat
  | ZeroLength nat
  | BadBlobSize nat
  | BadBatchStart int
  | ExposureKzg kzg_error
  | SetupThrew string

definition MAGIC_EXPOSURE :: nat where "MAGIC_EXPOSURE = 0x534f4232"
definition PROTOCOL_VERSION :: nat where "PROTOCOL_VERSION = 1"
definition BLS_SIGNATURE_SIZE :: nat where "BLS_SIGNATURE_SIZE = 48"
definition ADDRESS_SIZE :: nat where "ADDRESS_SIZE = 20"
definition EXPOSURE_HEADER_SIZE :: nat where "EXPOSURE_HEADER_SIZE = 56"
definition EXPOSURE_MSG_PREFIX_SIZE :: nat where "EXPOSURE_MSG_PREFIX_SIZE = 2"
definition FLAG_HAS_AGGREGATE_SIG :: byte where "FLAG_HAS_AGGREGATE_SIG = 1"

section \<open>Encoder\<close>

record exposure_message =
  xm_sender :: string
  xm_timestamp :: int
  xm_nonce :: int
  xm_content :: js_text

definition buildRawMessageBytes :: "exposure_message \<Rightarrow> exposure_error + bytes" where
  "buildRawMessageBytes m =
     (let senderHex = strip0x (xm_sender m) in
      if length senderHex \<noteq> 40 \<or> \<not> list_all is_hex_char senderHex then Inl (InvalidAddress (xm_sender m))
      else if xm_timestamp m < 0 \<or> xm_timestamp m > 0xffffffff then Inl (InvalidTimestamp (xm_timestamp m))
      else if xm_nonce m < 0 \<or> xm_nonce m > 0xffff then Inl (InvalidNonce (xm_nonce m))
      else let contentBytes = textEncode (xm_content m);
               t = nat (xm_timestamp m); n = nat (xm_nonce m);
               r0 = zeros (ADDRESS_SIZE + 4 + 2 + length contentBytes);
               r1 = uset r0 (hex_pairs senderHex) 0;
               r2 = uset r1 [of_nat (t div 2 ^ 24), of_nat (t div 2 ^ 16), of_nat (t div 2 ^ 8), of_nat t] 20;
               r3 = uset r2 [of_nat (n div 2 ^ 8), of_nat n] 24
           in Inr (uset r3 contentBytes 26))"

definition setUint16 :: "bytes \<Rightarrow> nat \<Rightarrow> nat \<Rightarrow> bytes" where
  "setUint16 view off n = uset view [of_nat (n div 256), of_nat n] off"

record exposure_batch =
  xb_data :: bytes
  xb_headerSize :: nat
  xb_totalSize :: nat
  xb_messageCount :: nat
  xb_messageOffsets :: "nat list"
  xb_messageLengths :: "nat list"

fun encodeExposureLoop ::
  "nat \<Rightarrow> bytes list \<Rightarrow> bytes \<Rightarrow> nat \<Rightarrow> nat list \<Rightarrow> nat list \<Rightarrow> exposure_error + (bytes \<times> nat list \<times> nat list)" where
  "encodeExposureLoop i [] buffer offset offsets lengths = Inr (buffer, offsets, lengths)"
| "encodeExposureLoop i (raw # rs) buffer offset offsets lengths =
     (if length raw > 0xffff then Inl (RawTooLarge i (length raw))
      else let b1 = setUint16 buffer offset (length raw); o1 = offset + EXPOSURE_MSG_PREFIX_SIZE
           in encodeExposureLoop (i + 1) rs (uset b1 raw o1) (o1 + length raw) (offsets @ [o1]) (lengths @ [length raw]))"

definition checkAggregate :: "bytes option \<Rightarrow> exposure_error + unit" where
  "checkAggregate sig =
     (case sig of
        None \<Rightarrow> Inr ()
      | Some s \<Rightarrow>
          if length s \<noteq> BLS_SIGNATURE_SIZE then Inl (AggregateLength (length s))
          else if list_all (\<lambda>b. b = 0) s then Inl AggregateZero
          else Inr ())"

definition headerBuffer :: "nat \<Rightarrow> nat \<Rightarrow> bytes option \<Rightarrow> bytes" where
  "headerBuffer totalSize count sig =
     (let b1 = writeU32BE (zeros totalSize) 0 MAGIC_EXPOSURE;
          b2 = uset b1 [of_nat PROTOCOL_VERSION] 4;
          b3 = uset b2 [if sig = None then 0 else FLAG_HAS_AGGREGATE_SIG] 5;
          b4 = setUint16 b3 6 count
      in case sig of None \<Rightarrow> b4 | Some s \<Rightarrow> uset b4 s 8)"

definition encodeExposureBatch :: "exposure_message list \<Rightarrow> bytes option \<Rightarrow> exposure_error + exposure_batch" where
  "encodeExposureBatch messages sig =
     (if messages = [] then Inl EmptyExposure
      else if length messages > 65535 then Inl (TooManyMessages (length messages))
      else ebind (mapE buildRawMessageBytes messages) (\<lambda>raws.
        let messagesSize = sum_list (map (\<lambda>raw. EXPOSURE_MSG_PREFIX_SIZE + length raw) raws);
            totalSize = EXPOSURE_HEADER_SIZE + messagesSize
        in if totalSize > BLOB_USABLE_CAPACITY then Inl (ExposureTooLarge totalSize)
           else ebind (checkAggregate sig) (\<lambda>_.
             ebind (encodeExposureLoop 0 raws (headerBuffer totalSize (length messages) sig) 56 [] []) (\<lambda>(data, offsets, lengths).
               Inr \<lparr>xb_data = data, xb_headerSize = EXPOSURE_HEADER_SIZE, xb_totalSize = totalSize,
                    xb_messageCount = length messages, xb_messageOffsets = offsets, xb_messageLengths = lengths\<rparr>))))"

section \<open>Decoder\<close>

definition INVALID_UTF8 :: js_text where
  "INVALID_UTF8 = map char_code ''[Invalid UTF-8]''"

definition getUint16 :: "bytes \<Rightarrow> nat \<Rightarrow> nat" where
  "getUint16 view off = unat (view ! off) * 256 + unat (view ! (off + 1))"

definition readContent :: "bytes \<Rightarrow> js_text" where
  "readContent raw = (case textDecode (drop 26 raw) of None \<Rightarrow> INVALID_UTF8 | Some s \<Rightarrow> s)"

text \<open>The fields of one message; raw has at least 26 bytes.\<close>

definition readExposed :: "bytes \<Rightarrow> exposure_message" where
  "readExposed raw =
     \<lparr>xm_sender = bytesToHex (slice raw 0 ADDRESS_SIZE), xm_timestamp = int (readU32BE raw 20),
      xm_nonce = int (getUint16 raw 24), xm_content = readContent raw\<rparr>"

fun decodeExposureLoop :: "nat \<Rightarrow> nat \<Rightarrow> bytes \<Rightarrow> nat \<Rightarrow> exposure_error + (exposure_message \<times> bytes) list" where
  "decodeExposureLoop i 0 data offset = Inr []"
| "decodeExposureLoop i (Suc left) data offset =
     (if offset + EXPOSURE_MSG_PREFIX_SIZE > length data then Inl (NoLengthPrefix i)
      else let rawLen = getUint16 data offset; o1 = offset + EXPOSURE_MSG_PREFIX_SIZE in
        if o1 + rawLen > length data then Inl (TruncatedRaw i)
        else let raw = slice data o1 (o1 + rawLen) in
          if rawLen < 26 then Inl (RawTooShort i rawLen)
          else ebind (decodeExposureLoop (i + 1) left data (o1 + rawLen)) (\<lambda>ms. Inr ((readExposed raw, raw) # ms)))"

record decoded_exposure =
  dx_messages :: "(exposure_message \<times> bytes) list"
  dx_messageCount :: nat
  dx_aggregateSignature :: bytes
  dx_hasAggregateSignature :: bool

definition decodeExposureBatch :: "bytes \<Rightarrow> exposure_error + decoded_exposure" where
  "decodeExposureBatch data =
     (if length data < EXPOSURE_HEADER_SIZE then Inl (HeaderTooShort (length data))
      else if readU32BE data 0 \<noteq> MAGIC_EXPOSURE then Inl ExposureMagic
      else if unat (data ! 4) \<noteq> PROTOCOL_VERSION then Inl ExposureVersion
      else let messageCount = getUint16 data 6 in
        ebind (decodeExposureLoop 0 messageCount data 56) (\<lambda>ms.
          Inr \<lparr>dx_messages = ms, dx_messageCount = messageCount, dx_aggregateSignature = slice data 8 56,
               dx_hasAggregateSignature = (and (data ! 5) FLAG_HAS_AGGREGATE_SIG \<noteq> 0)\<rparr>))"

section \<open>Parser\<close>

primrec usableLoop :: "nat \<Rightarrow> nat \<Rightarrow> nat \<Rightarrow> nat \<Rightarrow> nat \<Rightarrow> nat \<Rightarrow> bytes \<Rightarrow> bytes \<Rightarrow> bytes" where
  "usableLoop 0 fe startFE offsetInFirstFE dstOffset maxUsable blob result = result"
| "usableLoop (Suc n) fe startFE offsetInFirstFE dstOffset maxUsable blob result =
     (if \<not> dstOffset < maxUsable then result
      else let feByteStart = (if fe = startFE then offsetInFirstFE else 0);
               bytesToCopy = min (USABLE_BYTES_PER_FIELD_ELEMENT - feByteStart) (maxUsable - dstOffset);
               srcOffset = fe * BYTES_PER_FIELD_ELEMENT + 1 + feByteStart
           in usableLoop n (fe + 1) startFE offsetInFirstFE (dstOffset + bytesToCopy) maxUsable blob
                (uset result (slice blob srcOffset (srcOffset + bytesToCopy)) dstOffset))"

definition extractUsableBytesFromBlob :: "bytes \<Rightarrow> nat \<Rightarrow> bytes" where
  "extractUsableBytesFromBlob blob startOffset =
     (let maxUsable = USABLE_BYTES_PER_BLOB - startOffset;
          startFE = startOffset div USABLE_BYTES_PER_FIELD_ELEMENT;
          offsetInFirstFE = startOffset mod USABLE_BYTES_PER_FIELD_ELEMENT
      in usableLoop (FIELD_ELEMENTS_PER_BLOB - startFE) startFE startFE offsetInFirstFE 0 maxUsable blob (zeros maxUsable))"

definition byteAt :: "bytes \<Rightarrow> nat \<Rightarrow> nat" where
  "byteAt xs i = (if i < length xs then unat (xs ! i) else 0)"

record parsed_message =
  pm_fields :: exposure_message
  pm_byteOffset :: nat
  pm_absoluteByteOffset :: nat
  pm_byteLength :: nat
  pm_messageIndex :: nat
  pm_rawBytes :: bytes
  pm_messageHash :: string

fun parseLoop :: "(bytes \<Rightarrow> bytes) \<Rightarrow> nat \<Rightarrow> nat \<Rightarrow> nat \<Rightarrow> bytes \<Rightarrow> nat \<Rightarrow> exposure_error + parsed_message list" where
  "parseLoop keccak start i 0 usable offset = Inr []"
| "parseLoop keccak start i (Suc left) usable offset =
     (if offset + EXPOSURE_MSG_PREFIX_SIZE > length usable then Inl (NoLengthPrefix i)
      else let rawLen = getUint16 usable offset; o1 = offset + EXPOSURE_MSG_PREFIX_SIZE in
        if rawLen = 0 then Inl (ZeroLength i)
        else if o1 + rawLen > length usable then Inl (TruncatedRaw i)
        else if rawLen < 26 then Inl (RawTooShort i rawLen)
        else let raw = slice usable o1 (o1 + rawLen) in
          ebind (parseLoop keccak start (i + 1) left usable (o1 + rawLen)) (\<lambda>ms.
            Inr (\<lparr>pm_fields = readExposed raw, pm_byteOffset = o1, pm_absoluteByteOffset = start + o1, pm_byteLength = rawLen,
                  pm_messageIndex = i, pm_rawBytes = raw, pm_messageHash = bytesToHex (keccak raw)\<rparr> # ms)))"

record parsed_blob =
  pb_versionedHash :: string
  pb_messages :: "parsed_message list"
  pb_messageCount :: nat
  pb_batchStartOffset :: nat

text \<open>The versioned hash, which is computed when the options have none or an empty one.\<close>

definition blobHash ::
  "ckzg \<Rightarrow> (bytes \<Rightarrow> bytes) \<Rightarrow> bool \<Rightarrow> bytes \<Rightarrow> string option \<Rightarrow> exposure_error + string" where
  "blobHash kzg sha256 setupLoaded blob versionedHash =
     (let given = (case versionedHash of None \<Rightarrow> [] | Some h \<Rightarrow> h) in
      if given \<noteq> [] then Inr given
      else case commitToBlob kzg sha256 setupLoaded blob of
        Inl e \<Rightarrow> Inl (ExposureKzg e)
      | Inr (_, commitment, _) \<Rightarrow> Inr (computeVersionedHash sha256 commitment))"

definition parseBlob ::
  "ckzg \<Rightarrow> (bytes \<Rightarrow> bytes) \<Rightarrow> (bytes \<Rightarrow> bytes) \<Rightarrow> bool \<Rightarrow> bytes \<Rightarrow> int option \<Rightarrow> string option
     \<Rightarrow> exposure_error + parsed_blob" where
  "parseBlob kzg sha256 keccak setupLoaded blob batchStart versionedHash =
     (let batchStartOffset = (case batchStart of None \<Rightarrow> 0 | Some b \<Rightarrow> b) in
      if length blob \<noteq> 131072 then Inl (BadBlobSize (length blob))
      else if batchStartOffset < 0 \<or> batchStartOffset \<ge> int USABLE_BYTES_PER_BLOB then Inl (BadBatchStart batchStartOffset)
      else ebind (blobHash kzg sha256 setupLoaded blob versionedHash) (\<lambda>hash.
        let start = nat batchStartOffset; usable = extractUsableBytesFromBlob blob start in
        if byteAt usable 0 * 2 ^ 24 + byteAt usable 1 * 2 ^ 16 + byteAt usable 2 * 2 ^ 8 + byteAt usable 3 \<noteq> MAGIC_EXPOSURE
        then Inl ExposureMagic
        else if byteAt usable 4 \<noteq> PROTOCOL_VERSION then Inl ExposureVersion
        else let messageCount = byteAt usable 6 * 256 + byteAt usable 7 in
          ebind (parseLoop keccak start 0 messageCount usable EXPOSURE_HEADER_SIZE) (\<lambda>messages.
            Inr \<lparr>pb_versionedHash = hash, pb_messages = messages, pb_messageCount = messageCount,
                 pb_batchStartOffset = start\<rparr>)))"

definition findMessageAt :: "parsed_blob \<Rightarrow> nat \<Rightarrow> parsed_message option" where
  "findMessageAt blob i = (if i < length (pb_messages blob) then Some (pb_messages blob ! i) else None)"

definition findMessageByHash :: "parsed_blob \<Rightarrow> string \<Rightarrow> parsed_message option" where
  "findMessageByHash blob h = find (\<lambda>m. pm_messageHash m = h) (pb_messages blob)"

record message_position =
  mp_byteOffset :: nat
  mp_absoluteByteOffset :: nat
  mp_byteLength :: nat
  mp_fieldElementStart :: int
  mp_fieldElementEnd :: int
  mp_fieldElementCount :: int

definition getMessagePosition :: "parsed_message \<Rightarrow> message_position" where
  "getMessagePosition m =
     (let feStart = int (pm_absoluteByteOffset m) div int USABLE_BYTES_PER_FIELD_ELEMENT;
          feEnd = (int (pm_absoluteByteOffset m) + int (pm_byteLength m) - 1) div int USABLE_BYTES_PER_FIELD_ELEMENT
      in \<lparr>mp_byteOffset = pm_byteOffset m, mp_absoluteByteOffset = pm_absoluteByteOffset m, mp_byteLength = pm_byteLength m,
          mp_fieldElementStart = feStart, mp_fieldElementEnd = feEnd, mp_fieldElementCount = feEnd - feStart + 1\<rparr>)"

section \<open>Builder\<close>

record exposure_params =
  xp_versionedHash :: string
  xp_kzgProofs :: "kzg_proof list"
  xp_batchStartOffset :: int
  xp_byteOffset :: int
  xp_byteLength :: nat
  xp_messageBytes :: bytes
  xp_blsSignature :: bytes
  xp_registrationProof :: bytes
  xp_contentTag :: string

definition kzgE :: "kzg_error + 'a \<Rightarrow> exposure_error + 'a" where
  "kzgE r = (case r of Inl e \<Rightarrow> Inl (ExposureKzg e) | Inr x \<Rightarrow> Inr x)"

definition setupE :: "string + bool \<Rightarrow> exposure_error + bool" where
  "setupE r = (case r of Inl e \<Rightarrow> Inl (SetupThrew e) | Inr b \<Rightarrow> Inr b)"

definition buildExposureParams ::
  "ckzg \<Rightarrow> (bytes \<Rightarrow> bytes) \<Rightarrow> bool \<Rightarrow> setup_load \<Rightarrow> bytes \<Rightarrow> parsed_message \<Rightarrow> bytes \<Rightarrow> string \<Rightarrow> string \<Rightarrow> int option
     \<Rightarrow> exposure_error + exposure_params" where
  "buildExposureParams kzg sha256 setupLoaded outcome blob message blsSignature versionedHash contentTag batchStart =
     ebind (setupE (loadTrustedSetup setupLoaded outcome)) (\<lambda>loaded.
     ebind (kzgE (commitToBlob kzg sha256 loaded blob)) (\<lambda>(_, commitment, _).
       let position = getMessagePosition message;
           offset = (case batchStart of Some b \<Rightarrow> b
             | None \<Rightarrow> int (pm_absoluteByteOffset message) - int (pm_byteOffset message))
       in ebind (kzgE (generateProofsForByteRange kzg sha256 loaded blob commitment
            (mp_absoluteByteOffset position) (mp_byteLength position))) (\<lambda>batch.
          Inr \<lparr>xp_versionedHash = versionedHash, xp_kzgProofs = kb_proofs batch, xp_batchStartOffset = offset,
               xp_byteOffset = int (mp_byteOffset position), xp_byteLength = mp_byteLength position,
               xp_messageBytes = pm_rawBytes message, xp_blsSignature = blsSignature, xp_registrationProof = [],
               xp_contentTag = contentTag\<rparr>)))"

definition buildExposureParamsRaw ::
  "ckzg \<Rightarrow> (bytes \<Rightarrow> bytes) \<Rightarrow> bool \<Rightarrow> setup_load \<Rightarrow> bytes \<Rightarrow> nat \<Rightarrow> bytes \<Rightarrow> bytes \<Rightarrow> string \<Rightarrow> string \<Rightarrow> nat
     \<Rightarrow> exposure_error + exposure_params" where
  "buildExposureParamsRaw kzg sha256 setupLoaded outcome blob byteOffset messageBytes blsSignature versionedHash contentTag
     batchStartOffset =
     ebind (setupE (loadTrustedSetup setupLoaded outcome)) (\<lambda>loaded.
     ebind (kzgE (commitToBlob kzg sha256 loaded blob)) (\<lambda>(_, commitment, _).
     ebind (kzgE (generateProofsForByteRange kzg sha256 loaded blob commitment (batchStartOffset + byteOffset)
       (length messageBytes))) (\<lambda>batch.
       Inr \<lparr>xp_versionedHash = versionedHash, xp_kzgProofs = kb_proofs batch, xp_batchStartOffset = int batchStartOffset,
            xp_byteOffset = int byteOffset, xp_byteLength = length messageBytes, xp_messageBytes = messageBytes,
            xp_blsSignature = blsSignature, xp_registrationProof = [], xp_contentTag = contentTag\<rparr>)))"

datatype params_error =
    ZeroVersionedHash
  | NoProofs
  | EmptyMessageBytes
  | BlsSignatureLength nat
  | BatchStartNegative int
  | BatchStartTooLarge int
  | ByteOffsetNegative int
  | ExceedsCapacity int
  | CommitmentLength nat
  | ProofLength nat
  | IndexOutOfRange int
  | ProofsUnordered

definition checkProof :: "kzg_proof \<Rightarrow> params_error + unit" where
  "checkProof p =
     (if length (kp_commitment p) \<noteq> 48 then Inl (CommitmentLength (length (kp_commitment p)))
      else if length (kp_proof p) \<noteq> 48 then Inl (ProofLength (length (kp_proof p)))
      else if kp_z p < 0 \<or> kp_z p \<ge> 4096 then Inl (IndexOutOfRange (kp_z p))
      else Inr ())"

fun proofsAscend :: "kzg_proof list \<Rightarrow> bool" where
  "proofsAscend (p # q # ps) = (\<not> kp_z q \<le> kp_z p \<and> proofsAscend (q # ps))"
| "proofsAscend _ = True"

definition validateExposureParams :: "exposure_params \<Rightarrow> params_error + unit" where
  "validateExposureParams params =
     (if xp_versionedHash params = [] \<or> xp_versionedHash params = ''0x'' @ replicate 64 CHR ''0'' then Inl ZeroVersionedHash
      else if xp_kzgProofs params = [] then Inl NoProofs
      else if xp_messageBytes params = [] then Inl EmptyMessageBytes
      else if length (xp_blsSignature params) \<noteq> 96 then Inl (BlsSignatureLength (length (xp_blsSignature params)))
      else if xp_batchStartOffset params < 0 then Inl (BatchStartNegative (xp_batchStartOffset params))
      else if xp_batchStartOffset params \<ge> 4096 * 31 then Inl (BatchStartTooLarge (xp_batchStartOffset params))
      else if xp_byteOffset params < 0 then Inl (ByteOffsetNegative (xp_byteOffset params))
      else let absoluteEnd = xp_batchStartOffset params + xp_byteOffset params + int (xp_byteLength params) in
        if absoluteEnd > 4096 * 31 then Inl (ExceedsCapacity absoluteEnd)
        else ebind (mapE checkProof (xp_kzgProofs params)) (\<lambda>_.
          if \<not> proofsAscend (xp_kzgProofs params) then Inl ProofsUnordered else Inr ()))"

definition estimateExposureGas :: "int \<Rightarrow> int" where
  "estimateExposureGas fieldElementCount = 21000 + fieldElementCount * 50000 + 100000 + 50000 + 40000"

section \<open>The usable bytes\<close>

lemmas exposure_consts = MAGIC_EXPOSURE_def PROTOCOL_VERSION_def BLS_SIGNATURE_SIZE_def ADDRESS_SIZE_def
  EXPOSURE_HEADER_SIZE_def EXPOSURE_MSG_PREFIX_SIZE_def FLAG_HAS_AGGREGATE_SIG_def

lemma usableLoop_eq:
  "usableLoop n fe startFE off dst m blob result = extractLoop n fe startFE off dst (m - dst) blob result"
proof (induction n arbitrary: fe dst result)
  case (Suc n)
  show ?case
  proof (cases "dst < m")
    case True
    define t where "t = min (31 - (if fe = startFE then off else 0)) (m - dst)"
    have "m - (dst + t) = m - dst - t"
      by simp
    then show ?thesis
      using True Suc.IH [of "fe + 1" "dst + t"]
      by (simp add: blob_consts Let_def t_def [symmetric])
  qed simp
qed simp

lemma usable_bytes:
  assumes "length blob = 131072" "start < 126976"
  shows "extractUsableBytesFromBlob blob start = drop start (unpack 4096 blob)"
proof -
  have "extractLoop (4096 - start div 31) (start div 31) (start div 31) (start mod 31) 0 (126976 - start) blob
      ([] @ zeros (126976 - start))
    = [] @ slice (unpack 4096 blob) (start div 31 * 31 + start mod 31 + 0) (start div 31 * 31 + start mod 31 + 0 + (126976 - start))"
  proof (rule extractLoop_eq)
    have "start div 31 < 4096"
      using assms(2) by (simp add: div_less_iff_less_mult)
    then show "start div 31 * 31 + start mod 31 + 0 + (126976 - start) \<le> 31 * (start div 31 + (4096 - start div 31))"
      and "start div 31 + (4096 - start div 31) \<le> 4096"
      using assms(2) by simp_all
  qed (use assms in simp_all)
  then have "extractLoop (4096 - start div 31) (start div 31) (start div 31) (start mod 31) 0 (126976 - start) blob (zeros (126976 - start))
      = slice (unpack 4096 blob) start 126976"
    using assms(2) by simp
  moreover have "length (unpack 4096 blob) = 126976"
    using assms(1) by (simp add: length_unpack)
  ultimately show ?thesis
    by (simp add: extractUsableBytesFromBlob_def Let_def blob_consts usableLoop_eq slice_full_tail)
qed

section \<open>Layout\<close>

lemma be_two: "be 2 v = [of_nat (v div 256), of_nat v]"
  by (simp add: numeral_2_eq_2 of_nat_byte_mod)

lemma setUint16_fill: "length xs = off \<Longrightarrow> 2 \<le> k \<Longrightarrow> setUint16 (xs @ zeros k) off n = (xs @ be 2 n) @ zeros (k - 2)"
  unfolding setUint16_def be_two [symmetric] using uset_fill [of xs off k "be 2 n"] by simp

lemma getUint16_eq: "off + 2 \<le> length view \<Longrightarrow> getUint16 view off = unbe (slice view off (off + 2))"
proof -
  assume "off + 2 \<le> length view"
  then have "slice view off (off + 2) = ([] @ [view ! off]) @ [view ! (off + 1)]"
    by (simp add: slice_def take_Suc_conv_app_nth numeral_2_eq_2)
  then show ?thesis
    by (simp only: unbe_snoc unbe_Nil getUint16_def) simp
qed

text \<open>The bytes of a message: sender, time, nonce, text.\<close>

lemma buildRaw_Inr:
  assumes "buildRawMessageBytes m = Inr raw"
  obtains p where "hexToBytes (xm_sender m) = Inr p" "length p = 20"
    "0 \<le> xm_timestamp m" "xm_timestamp m \<le> 0xffffffff" "0 \<le> xm_nonce m" "xm_nonce m \<le> 0xffff"
    "raw = p @ be 4 (nat (xm_timestamp m)) @ be 2 (nat (xm_nonce m)) @ textEncode (xm_content m)"
proof -
  let ?h = "strip0x (xm_sender m)" and ?c = "textEncode (xm_content m)"
  let ?t = "nat (xm_timestamp m)" and ?n = "nat (xm_nonce m)"
  define p where "p = hex_pairs ?h"
  have h: "length ?h = 40" "list_all is_hex_char ?h"
    and r: "0 \<le> xm_timestamp m" "xm_timestamp m \<le> 0xffffffff" "0 \<le> xm_nonce m" "xm_nonce m \<le> 0xffff"
    using assms by (auto simp: buildRawMessageBytes_def Let_def split: if_split_asm)
  have lp: "length p = 20"
    using h(1) by (simp add: p_def length_hex_pairs)
  have hex: "hexToBytes (xm_sender m) = Inr p"
    using h by (simp add: hexToBytes_def Let_def p_def)
  have "[of_nat (?t div 2 ^ 24), of_nat (?t div 2 ^ 16), of_nat (?t div 2 ^ 8), of_nat ?t] = be 4 ?t"
    by (simp only: be_4)
  moreover have "[of_nat (?n div 2 ^ 8), of_nat ?n] = be 2 ?n"
    by (simp add: be_two)
  moreover have "uset (zeros (26 + length ?c)) p 0 = p @ zeros (6 + length ?c)"
    using lp by (simp add: uset_fill_0)
  moreover have "uset (p @ zeros (6 + length ?c)) (be 4 ?t) 20 = (p @ be 4 ?t) @ zeros (2 + length ?c)"
    using uset_fill [OF lp, of "6 + length ?c" "be 4 ?t"] by simp
  moreover have "uset ((p @ be 4 ?t) @ zeros (2 + length ?c)) (be 2 ?n) 24 = (p @ be 4 ?t @ be 2 ?n) @ zeros (length ?c)"
    using uset_fill [of "p @ be 4 ?t" 24 "2 + length ?c" "be 2 ?n"] lp by simp
  moreover have "uset ((p @ be 4 ?t @ be 2 ?n) @ zeros (length ?c)) ?c 26 = p @ be 4 ?t @ be 2 ?n @ ?c"
    using uset_fill [of "p @ be 4 ?t @ be 2 ?n" 26 "length ?c" ?c] lp by simp
  ultimately have "raw = p @ be 4 ?t @ be 2 ?n @ ?c"
    using assms h r unfolding buildRawMessageBytes_def Let_def p_def [symmetric] by (simp add: ADDRESS_SIZE_def)
  with hex lp r show thesis by (rule that)
qed

definition canonical_exposure :: "exposure_message \<Rightarrow> exposure_message" where
  "canonical_exposure m = m\<lparr>xm_sender := canonical_hash (xm_sender m)\<rparr>"

lemma readExposed_built:
  assumes "buildRawMessageBytes m = Inr raw" "plain_text (xm_content m)"
  shows "readExposed raw = canonical_exposure m \<and> 26 \<le> length raw"
proof -
  obtain p where p: "hexToBytes (xm_sender m) = Inr p" "length p = 20"
    "0 \<le> xm_timestamp m" "xm_timestamp m \<le> 0xffffffff" "0 \<le> xm_nonce m" "xm_nonce m \<le> 0xffff"
    "raw = p @ be 4 (nat (xm_timestamp m)) @ be 2 (nat (xm_nonce m)) @ textEncode (xm_content m)"
    using buildRaw_Inr [OF assms(1)] .
  have parts: "slice raw 0 20 = p" "slice raw 20 24 = be 4 (nat (xm_timestamp m))" "slice raw 24 26 = be 2 (nat (xm_nonce m))"
    "drop 26 raw = textEncode (xm_content m)" "26 \<le> length raw"
    using p(2) by (simp_all add: p(7) slice_def)
  have "int (readU32BE raw 20) = xm_timestamp m"
    using parts p(3,4) readU32BE_eq [of 20 raw] by (simp add: nat_less_iff)
  moreover have "int (getUint16 raw 24) = xm_nonce m"
    using parts p(5,6) getUint16_eq [of 24 raw] by (simp add: nat_less_iff)
  moreover have "readContent raw = xm_content m"
    using textOf_Encode [OF assms(2)] by (simp add: readContent_def parts textOf_def split: option.split_asm)
  ultimately show ?thesis
    using parts canonical_hash_eq [OF p(1)] by (simp add: readExposed_def canonical_exposure_def ADDRESS_SIZE_def)
qed

section \<open>Framed messages\<close>

definition framed :: "bytes list \<Rightarrow> bytes" where
  "framed raws = concat (map (\<lambda>raw. be 2 (length raw) @ raw) raws)"

fun frame_offsets :: "nat \<Rightarrow> bytes list \<Rightarrow> nat list" where
  "frame_offsets o' [] = []"
| "frame_offsets o' (raw # rs) = (o' + 2) # frame_offsets (o' + 2 + length raw) rs"

lemma framed_simps [simp]: "framed [] = []" "framed (raw # rs) = be 2 (length raw) @ raw @ framed rs"
  by (simp_all add: framed_def)

lemma length_framed: "length (framed raws) = sum_list (map (\<lambda>raw. EXPOSURE_MSG_PREFIX_SIZE + length raw) raws)"
  by (induction raws) (simp_all add: EXPOSURE_MSG_PREFIX_SIZE_def)

lemma encodeLoop_eq:
  assumes "encodeExposureLoop i raws (pre @ zeros (length (framed raws))) (length pre) offs lens = Inr (data, offs', lens')"
  shows "data = pre @ framed raws \<and> offs' = offs @ frame_offsets (length pre) raws \<and> lens' = lens @ map length raws
    \<and> (\<forall>raw \<in> set raws. length raw \<le> 0xffff)"
  using assms
proof (induction raws arbitrary: i pre offs lens)
  case (Cons raw rs)
  let ?pre = "pre @ be 2 (length raw) @ raw"
  have le: "length raw \<le> 0xffff"
    using Cons.prems by (auto split: if_split_asm)
  have "setUint16 (pre @ zeros (2 + length raw + length (framed rs))) (length pre) (length raw)
      = (pre @ be 2 (length raw)) @ zeros (length raw + length (framed rs))"
    using setUint16_fill [of pre "length pre" "2 + length raw + length (framed rs)"] by simp
  moreover have "uset ((pre @ be 2 (length raw)) @ zeros (length raw + length (framed rs))) raw (length pre + 2)
      = ?pre @ zeros (length (framed rs))"
    using uset_fill [of "pre @ be 2 (length raw)" "length pre + 2" "length raw + length (framed rs)" raw] by simp
  ultimately have "encodeExposureLoop (i + 1) rs (?pre @ zeros (length (framed rs))) (length ?pre) (offs @ [length pre + 2])
      (lens @ [length raw]) = Inr (data, offs', lens')"
    using Cons.prems le by (simp add: EXPOSURE_MSG_PREFIX_SIZE_def Let_def add.assoc)
  from Cons.IH [OF this] show ?case
    using le by (simp add: add.assoc)
qed simp

definition exposure_header :: "nat \<Rightarrow> bytes option \<Rightarrow> bytes" where
  "exposure_header n sig =
     be 4 MAGIC_EXPOSURE @ [of_nat PROTOCOL_VERSION, if sig = None then 0 else FLAG_HAS_AGGREGATE_SIG] @ be 2 n
       @ (case sig of None \<Rightarrow> zeros 48 | Some s \<Rightarrow> s)"

lemma checkAggregate_Inr: "checkAggregate sig = Inr () \<Longrightarrow> sig = Some s \<Longrightarrow> length s = 48 \<and> \<not> list_all (\<lambda>b. b = 0) s"
  by (auto simp: checkAggregate_def BLS_SIGNATURE_SIZE_def split: if_split_asm)

lemma header_buffer:
  assumes "checkAggregate sig = Inr ()"
  shows "headerBuffer (56 + k) n sig = exposure_header n sig @ zeros k" and "length (exposure_header n sig) = 56"
proof -
  let ?flag = "if sig = None then 0 else FLAG_HAS_AGGREGATE_SIG" and ?v = "of_nat PROTOCOL_VERSION :: byte"
  let ?h = "be 4 MAGIC_EXPOSURE @ [?v, ?flag] @ be 2 n"
  have b1: "writeU32BE (zeros (56 + k)) 0 MAGIC_EXPOSURE = be 4 MAGIC_EXPOSURE @ zeros (52 + k)"
    using writeU32BE_fill [of "[]" 0 "56 + k" MAGIC_EXPOSURE] by simp
  have b2: "uset (be 4 MAGIC_EXPOSURE @ zeros (52 + k)) [?v] 4 = (be 4 MAGIC_EXPOSURE @ [?v]) @ zeros (51 + k)"
    using uset_fill [of "be 4 MAGIC_EXPOSURE" 4 "52 + k" "[?v]"] by simp
  have b3: "uset ((be 4 MAGIC_EXPOSURE @ [?v]) @ zeros (51 + k)) [?flag] 5 = (be 4 MAGIC_EXPOSURE @ [?v, ?flag]) @ zeros (50 + k)"
    using uset_fill [of "be 4 MAGIC_EXPOSURE @ [?v]" 5 "51 + k" "[?flag]"] by simp
  have b4: "setUint16 ((be 4 MAGIC_EXPOSURE @ [?v, ?flag]) @ zeros (50 + k)) 6 n = ?h @ zeros (48 + k)"
    using setUint16_fill [of "be 4 MAGIC_EXPOSURE @ [?v, ?flag]" 6 "50 + k" n] by simp
  have "headerBuffer (56 + k) n sig = (case sig of None \<Rightarrow> ?h @ zeros (48 + k) | Some s \<Rightarrow> uset (?h @ zeros (48 + k)) s 8)"
    by (simp only: headerBuffer_def Let_def b1 b2 b3 b4)
  also have "\<dots> = exposure_header n sig @ zeros k"
  proof (cases sig)
    case None
    then show ?thesis by (simp add: exposure_header_def zeros_append_left zeros_append)
  next
    case (Some s)
    then show ?thesis
      using checkAggregate_Inr [OF assms Some] uset_fill [of ?h 8 "48 + k" s] by (simp add: exposure_header_def)
  qed
  finally show "headerBuffer (56 + k) n sig = exposure_header n sig @ zeros k" .
  show "length (exposure_header n sig) = 56"
    using checkAggregate_Inr [OF assms] by (auto simp: exposure_header_def split: option.split)
qed

lemma encodeExposureBatch_Inr:
  assumes "encodeExposureBatch ms sig = Inr b"
  obtains raws where "mapE buildRawMessageBytes ms = Inr raws" "xb_data b = exposure_header (length ms) sig @ framed raws"
    "length (exposure_header (length ms) sig) = 56" "xb_messageOffsets b = frame_offsets 56 raws"
    "xb_messageLengths b = map length raws" "\<forall>raw \<in> set raws. length raw \<le> 0xffff" "length ms \<le> 65535" "ms \<noteq> []"
    "length (xb_data b) \<le> 126976" "xb_totalSize b = length (xb_data b)" "xb_messageCount b = length ms"
proof -
  have ms: "ms \<noteq> []" "length ms \<le> 65535"
    using assms by (auto simp: encodeExposureBatch_def split: if_split_asm)
  then obtain raws where raws: "mapE buildRawMessageBytes ms = Inr raws"
    using assms by (auto simp: encodeExposureBatch_def)
  let ?k = "length (framed raws)" and ?h = "exposure_header (length ms) sig"
  have fit: "56 + ?k \<le> 126976" and agg: "checkAggregate sig = Inr ()"
    using assms ms raws by (auto simp: encodeExposureBatch_def length_framed Let_def EXPOSURE_HEADER_SIZE_def BLOB_USABLE_CAPACITY_def split: if_split_asm)
  note header = header_buffer [OF agg]
  obtain data offsets lengths where
    loop: "encodeExposureLoop 0 raws (?h @ zeros ?k) 56 [] [] = Inr (data, offsets, lengths)"
    and b: "b = \<lparr>xb_data = data, xb_headerSize = EXPOSURE_HEADER_SIZE, xb_totalSize = 56 + ?k,
       xb_messageCount = length ms, xb_messageOffsets = offsets, xb_messageLengths = lengths\<rparr>"
    using assms ms raws agg fit
    by (auto simp: encodeExposureBatch_def Let_def length_framed [symmetric] EXPOSURE_HEADER_SIZE_def BLOB_USABLE_CAPACITY_def header(1))
  have "data = ?h @ framed raws \<and> offsets = frame_offsets 56 raws \<and> lengths = map length raws \<and> (\<forall>raw \<in> set raws. length raw \<le> 0xffff)"
    using encodeLoop_eq [of 0 raws ?h "[]" "[]"] loop header(2) by simp
  then show thesis
    using header(2) fit by (intro that [OF raws]) (simp_all add: b ms)
qed

text \<open>The encoder accepts every batch that fits a blob.\<close>

lemma encodeLoop_ok: "\<forall>raw \<in> set raws. length raw \<le> 0xffff \<Longrightarrow> is_ok (encodeExposureLoop i raws buffer off offs lens)"
  by (induction raws arbitrary: i buffer off offs lens) (simp_all add: Let_def)

lemma encodeExposureBatch_ok:
  assumes "mapE buildRawMessageBytes ms = Inr raws" "ms \<noteq> []" "length ms \<le> 65535" "checkAggregate sig = Inr ()"
    and "56 + length (framed raws) \<le> 126976" "\<forall>raw \<in> set raws. length raw \<le> 0xffff"
  shows "\<exists>b. encodeExposureBatch ms sig = Inr b"
  using assms(1-5) encodeLoop_ok [OF assms(6), of 0 "headerBuffer (56 + length (framed raws)) (length ms) sig" 56 "[]" "[]"]
  by (auto simp: encodeExposureBatch_def Let_def length_framed [symmetric] EXPOSURE_HEADER_SIZE_def BLOB_USABLE_CAPACITY_def is_ok_iff)

section \<open>Reading a batch\<close>

fun parsed_from :: "(bytes \<Rightarrow> bytes) \<Rightarrow> nat \<Rightarrow> nat \<Rightarrow> nat \<Rightarrow> bytes list \<Rightarrow> parsed_message list" where
  "parsed_from keccak start i o' [] = []"
| "parsed_from keccak start i o' (raw # rs) =
     \<lparr>pm_fields = readExposed raw, pm_byteOffset = o' + 2, pm_absoluteByteOffset = start + (o' + 2), pm_byteLength = length raw,
      pm_messageIndex = i, pm_rawBytes = raw, pm_messageHash = bytesToHex (keccak raw)\<rparr>
     # parsed_from keccak start (i + 1) (o' + 2 + length raw) rs"

text \<open>One framed message behind a prefix: its length and its bytes.\<close>

lemma frame_at:
  assumes "buf = pre @ be 2 (length raw) @ raw @ rest" "length raw \<le> 0xffff"
  shows "getUint16 buf (length pre) = length raw"
    and "slice buf (length pre + 2) (length pre + 2 + length raw) = raw"
    and "length pre + 2 + length raw \<le> length buf"
proof -
  have "slice buf (length pre) (length pre + 2) = be 2 (length raw)"
    by (simp add: assms(1) slice_def)
  then show "getUint16 buf (length pre) = length raw"
    using assms getUint16_eq [of "length pre" buf] by simp
  show "slice buf (length pre + 2) (length pre + 2 + length raw) = raw"
    by (simp add: assms(1) slice_def)
qed (simp add: assms(1))

lemma parseLoop_framed:
  assumes "\<forall>raw \<in> set raws. 26 \<le> length raw \<and> length raw \<le> 0xffff"
  shows "parseLoop keccak start i (length raws) (pre @ framed raws @ rest) (length pre) = Inr (parsed_from keccak start i (length pre) raws)"
  using assms
proof (induction raws arbitrary: i pre)
  case (Cons raw rs)
  let ?buf = "pre @ framed (raw # rs) @ rest"
  have f: "getUint16 ?buf (length pre) = length raw" "slice ?buf (length pre + 2) (length pre + 2 + length raw) = raw"
    "length pre + 2 + length raw \<le> length ?buf"
    by (rule frame_at [of _ pre raw "framed rs @ rest"]; use Cons.prems in simp)+
  have "parseLoop keccak start (i + 1) (length rs) ((pre @ be 2 (length raw) @ raw) @ framed rs @ rest) (length (pre @ be 2 (length raw) @ raw))
      = Inr (parsed_from keccak start (i + 1) (length (pre @ be 2 (length raw) @ raw)) rs)"
    by (rule Cons.IH) (use Cons.prems in simp)
  moreover have "(pre @ be 2 (length raw) @ raw) @ framed rs @ rest = ?buf" "length (pre @ be 2 (length raw) @ raw) = length pre + 2 + length raw"
    by simp_all
  ultimately have "parseLoop keccak start (i + 1) (length rs) ?buf (length pre + 2 + length raw)
      = Inr (parsed_from keccak start (i + 1) (length pre + 2 + length raw) rs)"
    by metis
  then show ?case
    using f Cons.prems
    by (simp only: list.size parseLoop.simps EXPOSURE_MSG_PREFIX_SIZE_def Let_def add_Suc_right add_0_right parsed_from.simps) auto
qed simp

lemma decodeLoop_framed:
  assumes "\<forall>raw \<in> set raws. 26 \<le> length raw \<and> length raw \<le> 0xffff"
  shows "decodeExposureLoop i (length raws) (pre @ framed raws @ rest) (length pre) = Inr (map (\<lambda>raw. (readExposed raw, raw)) raws)"
  using assms
proof (induction raws arbitrary: i pre)
  case (Cons raw rs)
  let ?buf = "pre @ framed (raw # rs) @ rest"
  have f: "getUint16 ?buf (length pre) = length raw" "slice ?buf (length pre + 2) (length pre + 2 + length raw) = raw"
    "length pre + 2 + length raw \<le> length ?buf"
    by (rule frame_at [of _ pre raw "framed rs @ rest"]; use Cons.prems in simp)+
  have "decodeExposureLoop (i + 1) (length rs) ((pre @ be 2 (length raw) @ raw) @ framed rs @ rest) (length (pre @ be 2 (length raw) @ raw))
      = Inr (map (\<lambda>raw. (readExposed raw, raw)) rs)"
    by (rule Cons.IH) (use Cons.prems in simp)
  moreover have "(pre @ be 2 (length raw) @ raw) @ framed rs @ rest = ?buf" "length (pre @ be 2 (length raw) @ raw) = length pre + 2 + length raw"
    by simp_all
  ultimately have "decodeExposureLoop (i + 1) (length rs) ?buf (length pre + 2 + length raw) = Inr (map (\<lambda>raw. (readExposed raw, raw)) rs)"
    by metis
  then show ?case
    using f Cons.prems
    by (simp only: list.size decodeExposureLoop.simps EXPOSURE_MSG_PREFIX_SIZE_def Let_def add_Suc_right add_0_right) auto
qed simp

lemma parsed_from_fields:
  "map pm_byteOffset (parsed_from keccak start i o' raws) = frame_offsets o' raws"
  "map pm_byteLength (parsed_from keccak start i o' raws) = map length raws"
  "map pm_fields (parsed_from keccak start i o' raws) = map readExposed raws"
  "length (parsed_from keccak start i o' raws) = length raws"
  by (induction raws arbitrary: i o') simp_all

text \<open>What the parser says of a message is true of the bytes it was given.\<close>

definition located :: "(bytes \<Rightarrow> bytes) \<Rightarrow> nat \<Rightarrow> bytes \<Rightarrow> parsed_message \<Rightarrow> bool" where
  "located keccak start usable m \<longleftrightarrow>
     pm_absoluteByteOffset m = start + pm_byteOffset m \<and> pm_byteOffset m + pm_byteLength m \<le> length usable \<and> 26 \<le> pm_byteLength m
     \<and> pm_rawBytes m = slice usable (pm_byteOffset m) (pm_byteOffset m + pm_byteLength m)
     \<and> pm_messageHash m = bytesToHex (keccak (pm_rawBytes m)) \<and> pm_fields m = readExposed (pm_rawBytes m)"

lemma parseLoop_located: "parseLoop keccak start i n usable off = Inr ms \<Longrightarrow> \<forall>m \<in> set ms. located keccak start usable m"
proof (induction n arbitrary: i off ms)
  case (Suc n)
  let ?len = "getUint16 usable off" and ?o = "off + EXPOSURE_MSG_PREFIX_SIZE"
  have ok: "?o + ?len \<le> length usable" "26 \<le> ?len"
    using Suc.prems by (auto simp: Let_def split: if_split_asm)
  then obtain rest where rest: "parseLoop keccak start (i + 1) n usable (?o + ?len) = Inr rest"
    using Suc.prems by (auto simp: Let_def split: if_split_asm)
  then have "ms = \<lparr>pm_fields = readExposed (slice usable ?o (?o + ?len)), pm_byteOffset = ?o, pm_absoluteByteOffset = start + ?o,
      pm_byteLength = ?len, pm_messageIndex = i, pm_rawBytes = slice usable ?o (?o + ?len),
      pm_messageHash = bytesToHex (keccak (slice usable ?o (?o + ?len)))\<rparr> # rest"
    using Suc.prems by (auto simp: Let_def split: if_split_asm)
  then show ?case
    using Suc.IH [OF rest] ok by (simp add: located_def)
qed simp

lemma parsed_blob_located:
  assumes "parseBlob kzg sha256 keccak loaded blob bs vh = Inr pb"
  shows "length blob = 131072 \<and> pb_batchStartOffset pb < 126976
    \<and> (\<forall>m \<in> set (pb_messages pb). located keccak (pb_batchStartOffset pb) (drop (pb_batchStartOffset pb) (unpack 4096 blob)) m)"
proof -
  let ?b = "case bs of None \<Rightarrow> 0 | Some b \<Rightarrow> b"
  have len: "length blob = 131072" and b: "0 \<le> ?b" "?b < 126976"
    using assms by (auto simp: parseBlob_def Let_def blob_consts split: if_split_asm)
  have usable: "extractUsableBytesFromBlob blob (nat ?b) = drop (nat ?b) (unpack 4096 blob)"
    using len b by (intro usable_bytes) simp_all
  have "pb_batchStartOffset pb = nat ?b
    \<and> (\<exists>i n off. parseLoop keccak (nat ?b) i n (drop (nat ?b) (unpack 4096 blob)) off = Inr (pb_messages pb))"
    using assms len unfolding parseBlob_def Let_def usable by (auto split: if_split_asm intro!: exI)
  then show ?thesis
    using len b parseLoop_located by auto
qed

lemma magic_bytes: "be 4 MAGIC_EXPOSURE = [0x53, 0x4f, 0x42, 0x32]"
  by (simp add: be_4 MAGIC_EXPOSURE_def)

lemma header_reads:
  assumes "length (exposure_header n sig) = 56" "n \<le> 65535" "buf = exposure_header n sig @ rest"
  shows "byteAt buf 0 * 2 ^ 24 + byteAt buf 1 * 2 ^ 16 + byteAt buf 2 * 2 ^ 8 + byteAt buf 3 = MAGIC_EXPOSURE"
    and "byteAt buf 4 = PROTOCOL_VERSION" and "byteAt buf 6 * 256 + byteAt buf 7 = n"
    and "readU32BE buf 0 = MAGIC_EXPOSURE" and "getUint16 buf 6 = n" and "56 \<le> length buf"
    and "buf ! 5 = (if sig = None then 0 else FLAG_HAS_AGGREGATE_SIG)" and "unat (buf ! 4) = PROTOCOL_VERSION"
    and "slice buf 8 56 = (case sig of None \<Rightarrow> zeros 48 | Some s \<Rightarrow> s)"
proof -
  let ?sig = "case sig of None \<Rightarrow> zeros 48 | Some s \<Rightarrow> s"
  have sig: "length ?sig = 48"
    using assms(1) by (simp add: exposure_header_def)
  have buf: "buf = [0x53, 0x4f, 0x42, 0x32, 1, if sig = None then 0 else FLAG_HAS_AGGREGATE_SIG, of_nat (n div 256), of_nat n] @ ?sig @ rest"
    by (simp add: assms(3) exposure_header_def magic_bytes be_two PROTOCOL_VERSION_def)
  have nth: "buf ! 0 = 0x53" "buf ! 1 = 0x4f" "buf ! 2 = 0x42" "buf ! 3 = 0x32" "buf ! 4 = 1"
    "buf ! 6 = of_nat (n div 256)" "buf ! 7 = of_nat n" "56 \<le> length buf"
    using sig by (simp_all add: buf)
  then have ne: "buf \<noteq> []"
    by auto
  have un: "unat (of_nat (n div 256) :: byte) * 256 + unat (of_nat n :: byte) = n"
    using assms(2) by (simp add: unat_of_nat)
  show "byteAt buf 0 * 2 ^ 24 + byteAt buf 1 * 2 ^ 16 + byteAt buf 2 * 2 ^ 8 + byteAt buf 3 = MAGIC_EXPOSURE"
    "byteAt buf 4 = PROTOCOL_VERSION" "unat (buf ! 4) = PROTOCOL_VERSION" "56 \<le> length buf"
    using nth ne by (simp_all add: byteAt_def MAGIC_EXPOSURE_def PROTOCOL_VERSION_def)
  show "byteAt buf 6 * 256 + byteAt buf 7 = n" "getUint16 buf 6 = n"
    using nth un by (simp_all add: byteAt_def getUint16_def)
  show "readU32BE buf 0 = MAGIC_EXPOSURE"
    using nth(8) readU32BE_eq [of 0 buf] magic_bytes unbe_be [of 4 MAGIC_EXPOSURE] by (simp add: slice_def buf MAGIC_EXPOSURE_def)
  show "buf ! 5 = (if sig = None then 0 else FLAG_HAS_AGGREGATE_SIG)"
    by (simp add: buf)
  show "slice buf 8 56 = ?sig"
    using sig by (simp add: buf slice_def)
qed

lemma built_raws:
  assumes "mapE buildRawMessageBytes ms = Inr raws" "\<forall>m \<in> set ms. plain_text (xm_content m)"
  shows "map readExposed raws = map canonical_exposure ms \<and> (\<forall>raw \<in> set raws. 26 \<le> length raw) \<and> length raws = length ms"
  using assms
proof (induction ms arbitrary: raws)
  case (Cons m ms)
  then obtain raw rs where "buildRawMessageBytes m = Inr raw" "mapE buildRawMessageBytes ms = Inr rs" "raws = raw # rs"
    by auto
  then show ?case
    using Cons readExposed_built [of m raw] by auto
qed simp

lemma exposed_positions:
  assumes "encodeExposureBatch ms sig = Inr b" "\<forall>m \<in> set ms. plain_text (xm_content m)"
    and "createBlob (prefix @ xb_data b) = Inr blob" "vh \<noteq> []"
  shows "\<exists>pb. parseBlob kzg sha256 keccak loaded blob (Some (int (length prefix))) (Some vh) = Inr pb
    \<and> map pm_fields (pb_messages pb) = map canonical_exposure ms
    \<and> map pm_byteOffset (pb_messages pb) = xb_messageOffsets b \<and> map pm_byteLength (pb_messages pb) = xb_messageLengths b
    \<and> (\<forall>m \<in> set (pb_messages pb). pm_absoluteByteOffset m = length prefix + pm_byteOffset m
         \<and> extractBytes blob (pm_absoluteByteOffset m) (pm_byteLength m) = Inr (pm_rawBytes m)
         \<and> pm_messageHash m = bytesToHex (keccak (pm_rawBytes m)))"
proof -
  let ?h = "exposure_header (length ms) sig" and ?start = "length prefix"
  obtain raws where raws: "mapE buildRawMessageBytes ms = Inr raws" "xb_data b = ?h @ framed raws" "length ?h = 56"
    "xb_messageOffsets b = frame_offsets 56 raws" "xb_messageLengths b = map length raws" "\<forall>raw \<in> set raws. length raw \<le> 0xffff"
    "length ms \<le> 65535"
    using encodeExposureBatch_Inr [OF assms(1)] by metis
  note built = built_raws [OF raws(1) assms(2)]
  note blob = unpack_createBlob [OF assms(3)]
  have fit: "?start + length (xb_data b) \<le> 126976"
    using assms(3) by (auto simp: createBlob_def blob_consts split: if_split_asm)
  then have start: "?start < 126976"
    using raws(2,3) by simp
  define rest where "rest = zeros (126976 - length (prefix @ xb_data b))"
  have usable: "drop ?start (unpack 4096 blob) = ?h @ framed raws @ rest"
    by (simp add: blob(2) raws(2) rest_def)
  have extracted: "extractUsableBytesFromBlob blob ?start = ?h @ framed raws @ rest"
    using usable_bytes [OF blob(1) start] usable by simp
  let ?ms = "parsed_from keccak ?start 0 56 raws"
  have parsed: "parseLoop keccak ?start 0 (length ms) (?h @ framed raws @ rest) 56 = Inr ?ms"
    using parseLoop_framed [of raws keccak ?start 0 ?h rest] built raws(3,6) by auto
  define pb where "pb = \<lparr>pb_versionedHash = vh, pb_messages = ?ms, pb_messageCount = length ms, pb_batchStartOffset = ?start\<rparr>"
  have run: "parseBlob kzg sha256 keccak loaded blob (Some (int ?start)) (Some vh) = Inr pb"
    using blob(1) start assms(4) parsed header_reads [OF raws(3,7) refl, of "framed raws @ rest"]
    by (simp add: parseBlob_def Let_def blob_consts blobHash_def extracted EXPOSURE_HEADER_SIZE_def pb_def)
  have "extractBytes blob (pm_absoluteByteOffset m) (pm_byteLength m) = Inr (pm_rawBytes m)
      \<and> pm_absoluteByteOffset m = ?start + pm_byteOffset m \<and> pm_messageHash m = bytesToHex (keccak (pm_rawBytes m))"
    if "m \<in> set ?ms" for m
  proof -
    have loc: "located keccak ?start (drop ?start (unpack 4096 blob)) m"
      using parsed_blob_located [OF run] that by (simp add: pb_def)
    moreover have "length (unpack 4096 blob) = 126976"
      using blob(1) by (simp add: length_unpack)
    ultimately have "pm_absoluteByteOffset m + pm_byteLength m \<le> 126976"
      by (auto simp: located_def)
    then show ?thesis
      using loc extractBytes_eq [of blob "pm_absoluteByteOffset m" "pm_byteLength m"] blob(1)
      by (simp add: located_def slice_def add.commute)
  qed
  then have all: "\<forall>m \<in> set (pb_messages pb). pm_absoluteByteOffset m = ?start + pm_byteOffset m
      \<and> extractBytes blob (pm_absoluteByteOffset m) (pm_byteLength m) = Inr (pm_rawBytes m)
      \<and> pm_messageHash m = bytesToHex (keccak (pm_rawBytes m))"
    unfolding pb_def by force
  show ?thesis
    using parsed_from_fields [of keccak ?start 0 56 raws] built raws(4,5)
    by (intro exI [of _ pb] conjI run all) (simp_all add: pb_def)
qed

text \<open>
  C39. What is exposed is what was written: when an exposure batch is put into a blob behind any prefix, parsing the blob at the prefix's length returns the messages that were encoded, up to the case of the senders, at the byte positions the encoder reported, and the blob's bytes at each absolute position are the raw bytes whose hash is given, which are those a proof for the position is made for.
\<close>

theorem exposed_positions_exact:
  assumes "encodeExposureBatch ms sig = Inr b" "\<forall>m \<in> set ms. plain_text (xm_content m)"
    and "createBlob (prefix @ xb_data b) = Inr blob" "vh \<noteq> []"
  shows "\<exists>pb. parseBlob kzg sha256 keccak loaded blob (Some (int (length prefix))) (Some vh) = Inr pb
    \<and> map pm_fields (pb_messages pb) = map canonical_exposure ms
    \<and> map pm_byteOffset (pb_messages pb) = xb_messageOffsets b \<and> map pm_byteLength (pb_messages pb) = xb_messageLengths b
    \<and> (\<forall>m \<in> set (pb_messages pb). pm_absoluteByteOffset m = length prefix + pm_byteOffset m
         \<and> extractBytes blob (pm_absoluteByteOffset m) (pm_byteLength m) = Inr (pm_rawBytes m)
         \<and> pm_messageHash m = bytesToHex (keccak (pm_rawBytes m)))"
  using assms by (rule exposed_positions)


text \<open>
  Decoding an exposure batch on its own inverts encoding it, with bytes appended or not; the
  aggregate signature is zero bytes when none was given.
\<close>

theorem exposure_batch_roundtrip:
  assumes "encodeExposureBatch ms sig = Inr b" "\<forall>m \<in> set ms. plain_text (xm_content m)"
  shows "\<exists>d. decodeExposureBatch (xb_data b @ rest) = Inr d \<and> map fst (dx_messages d) = map canonical_exposure ms
    \<and> dx_messageCount d = length ms \<and> dx_hasAggregateSignature d = (sig \<noteq> None)
    \<and> dx_aggregateSignature d = (case sig of None \<Rightarrow> zeros 48 | Some s \<Rightarrow> s)"
proof -
  let ?h = "exposure_header (length ms) sig"
  obtain raws where raws: "mapE buildRawMessageBytes ms = Inr raws" "xb_data b = ?h @ framed raws" "length ?h = 56"
    "\<forall>raw \<in> set raws. length raw \<le> 0xffff" "length ms \<le> 65535"
    using encodeExposureBatch_Inr [OF assms(1)] by metis
  note built = built_raws [OF raws(1) assms(2)]
  let ?ms = "map (\<lambda>raw. (readExposed raw, raw)) raws"
  have "decodeExposureLoop 0 (length ms) (?h @ framed raws @ rest) 56 = Inr ?ms"
    using decodeLoop_framed [of raws 0 ?h rest] built raws(3,4) by auto
  then have "decodeExposureBatch (?h @ framed raws @ rest)
      = Inr \<lparr>dx_messages = ?ms, dx_messageCount = length ms, dx_aggregateSignature = case sig of None \<Rightarrow> zeros 48 | Some s \<Rightarrow> s,
          dx_hasAggregateSignature = (sig \<noteq> None)\<rparr>"
    using header_reads [OF raws(3,5) refl, of "framed raws @ rest"]
    by (simp add: decodeExposureBatch_def EXPOSURE_HEADER_SIZE_def Let_def FLAG_HAS_AGGREGATE_SIG_def)
  then show ?thesis
    using built by (simp add: raws(2) comp_def)
qed

text \<open>
  Every proof of a range is the one proof of the whole blob: the library's computeBlobKzgProof
  does not take the field element, contrary to the comment that c-kzg is given the index.
\<close>

theorem proofs_ignore_position:
  assumes "generateProofsForByteRange kzg sha256 loaded blob c off len = Inr batch" "p \<in> set (kb_proofs batch)"
  shows "kp_proof p = computeBlobKzgProof kzg blob c"
proof -
  obtain ks where "mapE (generateProofForFieldElement kzg loaded blob c) ks = Inr (kb_proofs batch)"
    using assms(1) by (auto simp: generateProofsForByteRange_def)
  from mapE_member [OF this assms(2)] show ?thesis
    by (auto simp: generateProofForFieldElement_def Let_def split: if_split_asm)
qed

section \<open>A sample batch\<close>

definition exposure_sample :: exposure_message where
  "exposure_sample = \<lparr>xm_sender = bytesToHex (zeros 20), xm_timestamp = 7, xm_nonce = 1, xm_content = [104]\<rparr>"

definition ckzg_sample :: ckzg where
  "ckzg_sample = \<lparr>blobToKzgCommitment = (\<lambda>_. zeros 48), computeBlobKzgProof = (\<lambda>_ _. zeros 48), verifyKzgProof = (\<lambda>_ _ _ _. None)\<rparr>"

lemma exposure_sample_plain: "\<forall>m \<in> set [exposure_sample]. plain_text (xm_content m)"
  by (simp add: exposure_sample_def plain_text_def scalar_def)

lemma exposure_sample_canonical: "canonical_exposure exposure_sample = exposure_sample"
  by (simp add: canonical_exposure_def exposure_sample_def canonical_hash_eq [OF hexToBytes_bytesToHex])

lemma exposure_sample_blob:
  "\<exists>b blob. encodeExposureBatch [exposure_sample] None = Inr b \<and> createBlob ([1, 2] @ xb_data b) = Inr blob"
proof -
  have "length (strip0x (bytesToHex (zeros 20))) = 40 \<and> list_all is_hex_char (strip0x (bytesToHex (zeros 20)))"
    by code_simp
  then have "is_ok (buildRawMessageBytes exposure_sample)"
    by (simp add: buildRawMessageBytes_def exposure_sample_def Let_def)
  then obtain raw where raw: "buildRawMessageBytes exposure_sample = Inr raw"
    by (auto simp: is_ok_iff)
  have "length (textEncode [104]) = 1"
    by (simp add: textEncode_def utf8_char_def usv_def scalar_def)
  moreover obtain p where "length p = 20"
    "raw = p @ be 4 (nat (xm_timestamp exposure_sample)) @ be 2 (nat (xm_nonce exposure_sample)) @ textEncode (xm_content exposure_sample)"
    using buildRaw_Inr [OF raw] by metis
  moreover have "xm_content exposure_sample = [104]"
    by (simp add: exposure_sample_def)
  ultimately have len: "length raw = 27"
    by simp
  have "mapE buildRawMessageBytes [exposure_sample] = Inr [raw]"
    using raw by simp
  then have "\<exists>b. encodeExposureBatch [exposure_sample] None = Inr b"
    by (rule encodeExposureBatch_ok) (simp_all add: len checkAggregate_def)
  then obtain b where b: "encodeExposureBatch [exposure_sample] None = Inr b" ..
  obtain raws where "mapE buildRawMessageBytes [exposure_sample] = Inr raws"
    "xb_data b = exposure_header (length [exposure_sample]) None @ framed raws" "length (exposure_header (length [exposure_sample]) None) = 56"
    using encodeExposureBatch_Inr [OF b] by metis
  then have "length (xb_data b) = 85"
    using raw len by (auto simp del: One_nat_def)
  then show ?thesis
    using b createBlob_eq [of "[1, 2] @ xb_data b"] by auto
qed

theorem exposed_positions_exact_witness:
  "\<exists>blob pb. parseBlob ckzg_sample (\<lambda>_. zeros 32) (\<lambda>_. [9]) False blob (Some 2) (Some ''0x01'') = Inr pb
    \<and> map pm_fields (pb_messages pb) = [exposure_sample]"
proof -
  obtain b blob where "encodeExposureBatch [exposure_sample] None = Inr b" "createBlob ([1, 2] @ xb_data b) = Inr blob"
    using exposure_sample_blob by blast
  from exposed_positions_exact [OF this(1) exposure_sample_plain this(2), of "''0x01''" ckzg_sample "\<lambda>_. zeros 32" "\<lambda>_. [9]" False]
  obtain pb where "parseBlob ckzg_sample (\<lambda>_. zeros 32) (\<lambda>_. [9]) False blob (Some 2) (Some ''0x01'') = Inr pb"
    "map pm_fields (pb_messages pb) = map canonical_exposure [exposure_sample]"
    by auto
  then show ?thesis
    by (intro exI [of _ blob] exI [of _ pb]) (simp add: exposure_sample_canonical)
qed


end
